(* ===== verification/Prelude.thy ===== *)
theory Prelude
  imports Main "HOL-Library.Word" "HOL-Library.Monad_Syntax"
begin

text \<open>
  Shared vocabulary of the development: the machine's integer types, the byte-addressed
  memory that the C code reads and writes through pointers, and the generic facts on words
  and memory cells that the component proofs rely on.

  The program is built for i686 (\<^verbatim>\<open>toolchain.cmake\<close>): \<open>int\<close>, \<open>long\<close>, \<open>size_t\<close>, \<open>uintptr_t\<close>
  and every pointer are 32 bits wide, \<open>long long\<close> and \<open>intmax_t\<close> are 64 bits wide, \<open>char\<close> is
  signed. Memory is one flat, little-endian array of bytes (the kernel runs without paging),
  so aliasing between pointers is what it is on the machine.
\<close>

unbundle bit_operations_syntax

section \<open>Machine types\<close>

type_synonym u8 = "8 word"
type_synonym u16 = "16 word"
type_synonym u32 = "32 word"
type_synonym u64 = "64 word"
type_synonym addr = "32 word"
type_synonym mem = "addr \<Rightarrow> u8"

named_theorems mem_simps \<open>reading memory cells after writes\<close>
named_theorems word_nat \<open>unsigned readings of word expressions\<close>

section \<open>Outcomes of kernel code\<close>

text \<open>
  \<^verbatim>\<open>panic\<close> prints its message and halts the machine: nothing after it runs. A function that may
  panic returns \<open>Inl msg\<close> there. A loop that may run forever is a \<^theory_text>\<open>partial_function (option)\<close>, in
  which \<open>None\<close> is non-termination.
\<close>

type_synonym 'a outcome = "string + 'a"

text \<open>Sequencing of two pieces of kernel code: the second runs when the first returned.\<close>

fun and_then :: "'a outcome option \<Rightarrow> ('a \<Rightarrow> 'b outcome option) \<Rightarrow> 'b outcome option" where
  "and_then None f = None"
| "and_then (Some (Inl msg)) f = Some (Inl msg)"
| "and_then (Some (Inr a)) f = f a"

text \<open>Loops whose body calls itself before it goes on.\<close>

lemma and_then_bind: "and_then x f = Option.bind x (case_sum (\<lambda>msg. Some (Inl msg)) f)"
  by (cases "(x, f)" rule: and_then.cases) simp_all

lemma and_then_mono [partial_function_mono]:
  assumes "mono_option B" and "\<And>a. mono_option (C a)"
  shows "mono_option (\<lambda>f. and_then (B f) (\<lambda>a. C a f))"
  unfolding and_then_bind
proof (rule bind_mono [OF assms(1)])
  fix y
  show "mono_option (\<lambda>f. case_sum (\<lambda>msg. Some (Inl msg)) (\<lambda>a. C a f) y)"
    by (cases y) (simp_all add: assms(2) option.const_mono)
qed

lemma and_then_return: "and_then x (\<lambda>a. Some (Inr a)) = x"
proof (cases x)
  case (Some y)
  then show ?thesis by (cases y) simp_all
qed simp

lemma and_then_Inr:
  "and_then x f = Some (Inr b) \<longleftrightarrow> (\<exists>a. x = Some (Inr a) \<and> f a = Some (Inr b))"
  by (cases "(x, f)" rule: and_then.cases) simp_all

section \<open>Words as natural numbers\<close>

lemma unat_of_nat32 [simp]: "n < 4294967296 \<Longrightarrow> unat (of_nat n :: u32) = n"
  by (simp add: unat_of_nat take_bit_nat_eq_self)

lemma of_nat32_eq_iff:
  assumes "a < 4294967296" and "b < 4294967296"
  shows "(of_nat a :: u32) = of_nat b \<longleftrightarrow> a = b"
  using assms by (metis unat_of_nat32)

lemma eq_of_nat32: "n < 4294967296 \<Longrightarrow> w = (of_nat n :: u32) \<longleftrightarrow> unat w = n"
  using unat_of_nat32 [of n] by (auto simp: word_unat_eq_iff)

lemma unat_add32: "unat a + unat b < 4294967296 \<Longrightarrow> unat (a + b :: u32) = unat a + unat b"
  by (simp add: unat_word_ariths)

lemma unat_sub32: "unat b \<le> unat a \<Longrightarrow> unat (a - b :: u32) = unat a - unat b"
  by (simp add: unat_sub word_le_nat_alt)

lemma unat_lt32 [simp]: "unat (a :: u32) < 4294967296"
  using unsigned_less [of a, where ?'a = nat] by simp

lemma uint_of_nat32: "n < 4294967296 \<Longrightarrow> uint (of_nat n :: u32) = int n"
  by (simp add: unsigned_of_nat take_bit_nat_eq_self)

lemma sint_of_nat32: "n < 2147483648 \<Longrightarrow> sint (of_nat n :: u32) = int n"
  by (simp add: sint_uint uint_of_nat32 signed_take_bit_int_eq_self)

lemma uint_vs_int: "uint d < int b \<longleftrightarrow> unat d < b" "int b < uint d \<longleftrightarrow> b < unat d"
  by (metis of_nat_less_iff uint_nat)+

lemma uint_eq_iff [simp]: "uint (a :: 'a :: len word) = uint b \<longleftrightarrow> a = b"
  by (simp add: word_uint_eq_iff)

lemma uint_neq_m1 [simp]: "uint (w :: 'a :: len word) \<noteq> - 1"
  using uint_ge_0 [of w] by linarith

text \<open>A byte keeps its value when it is widened.\<close>

lemma unat_lt8: "unat (x :: u8) < 256"
  using unsigned_less [of x, where ?'a = nat] by simp

lemma unat_ucast8 [simp]: "unat (ucast (x :: u8) :: u32) = unat x"
  using unat_lt8 [of x] by (simp add: unsigned_ucast_eq take_bit_nat_eq_self)

lemma uint_ucast8 [simp]: "uint (ucast (x :: u8) :: u32) = uint x"
  using unat_ucast8 [of x] by (metis uint_nat)

lemma sint_ucast8 [simp]: "sint (ucast (x :: u8) :: u32) = uint x"
proof -
  have "0 \<le> uint x" "uint x < 256" using unsigned_less [of x, where ?'a = int] by simp_all
  then have "- 2147483648 \<le> uint x" "uint x < 2147483648" by linarith+
  then show ?thesis unfolding sint_uint uint_ucast8 by (intro signed_take_bit_int_eq_self) simp_all
qed

text \<open>Loop counters that run up to a bound or down to zero do not wrap.\<close>

lemma unat_succ: "i < n \<Longrightarrow> unat (i + 1) = Suc (unat (i :: u32))"
  using unat_add32 [of i 1] unat_lt32 [of n] by (simp add: word_less_nat_alt)

lemma word_count_up: "i < n \<Longrightarrow> unat n - unat (i + 1) < unat n - unat (i :: u32)"
  using unat_succ [of i n] by (simp add: word_less_nat_alt)

lemma word_count_down: "n \<noteq> 0 \<Longrightarrow> unat (n - 1 :: u32) = unat n - 1"
  by (rule trans [OF unat_sub32]) (simp_all add: Suc_leI unat_gt_0)

lemma word_count_down2: "n \<noteq> 1 \<Longrightarrow> unat (n - 2 :: u32) < unat (n - 1)"
  using word_count_down [of "n - 1"] by (simp add: unat_gt_0)

lemma word_le_succ: "i < n \<Longrightarrow> i \<le> k \<longleftrightarrow> k = i \<or> i + 1 \<le> (k :: u32)"
  using unat_succ [of i n] by (auto simp: word_le_nat_alt word_unat_eq_iff)

lemma word32_exhaust_nat: "\<exists>n < 4294967296. (w :: u32) = of_nat n"
  by (rule exI [of _ "unat w"]) simp

section \<open>Memory cells\<close>

text \<open>A load or store touches consecutive bytes, least significant first.\<close>

definition ld16 :: "mem \<Rightarrow> addr \<Rightarrow> u16" where
  "ld16 m p = ucast (m p) OR push_bit 8 (ucast (m (p + 1)))"

definition ld32 :: "mem \<Rightarrow> addr \<Rightarrow> u32" where
  "ld32 m p = ucast (m p) OR push_bit 8 (ucast (m (p + 1)))
     OR push_bit 16 (ucast (m (p + 2))) OR push_bit 24 (ucast (m (p + 3)))"

definition st32 :: "mem \<Rightarrow> addr \<Rightarrow> u32 \<Rightarrow> mem" where
  "st32 m p v = m(p := ucast v, p + 1 := ucast (drop_bit 8 v),
     p + 2 := ucast (drop_bit 16 v), p + 3 := ucast (drop_bit 24 v))"

text \<open>The bytes of a cell put the word back together.\<close>

lemma word32_of_bytes:
  fixes v :: u32
  shows "ucast (ucast v :: u8) OR push_bit 8 (ucast (ucast (drop_bit 8 v) :: u8))
    OR push_bit 16 (ucast (ucast (drop_bit 16 v) :: u8))
    OR push_bit 24 (ucast (ucast (drop_bit 24 v) :: u8)) = v" (is "?w = v")
proof (rule bit_word_eqI)
  fix n :: nat
  assume "n < LENGTH(32)"
  then consider "n < 8" | "8 \<le> n" "n < 16" | "16 \<le> n" "n < 24" | "24 \<le> n" "n < 32"
    by fastforce
  then show "bit ?w n = bit v n"
    by cases (auto simp: bit_simps)
qed

lemma ld32_st32_same [simp, mem_simps]: "ld32 (st32 m p v) p = v"
  by (simp add: ld32_def st32_def word32_of_bytes)

text \<open>Two cells are apart when their byte ranges, as numbers, do not meet.\<close>

definition apart :: "nat \<Rightarrow> nat \<Rightarrow> bool" where
  "apart p q \<longleftrightarrow> p + 4 \<le> q \<or> q + 4 \<le> p"

lemma st32_other_byte:
  assumes "x < p \<or> p + 4 \<le> x" and "p + 4 \<le> 4294967296" and "x < 4294967296"
  shows "st32 m (of_nat p) v (of_nat x) = m (of_nat x)"
proof -
  have "(of_nat x :: addr) \<noteq> of_nat (p + k)" if "k < 4" for k
    using assms that by (subst of_nat32_eq_iff) auto
  from this [of 0] this [of 1] this [of 2] this [of 3] show ?thesis
    by (simp add: st32_def add.commute)
qed

lemma ld32_cong:
  assumes "\<And>k. k < 4 \<Longrightarrow> m (of_nat (p + k)) = m' (of_nat (p + k))"
  shows "ld32 m (of_nat p) = ld32 m' (of_nat p)"
  using assms [of 0] assms [of 1] assms [of 2] assms [of 3]
  by (simp add: ld32_def add.commute)

lemma ld32_st32_other:
  assumes "apart p q" and "p + 4 \<le> 4294967296" and "q + 4 \<le> 4294967296"
  shows "ld32 (st32 m (of_nat p) v) (of_nat q) = ld32 m (of_nat q)"
  by (rule ld32_cong, rule st32_other_byte) (use assms in \<open>auto simp: apart_def\<close>)

text \<open>Cells named by their numeric address, the form in which layouts are described.\<close>

definition rd :: "mem \<Rightarrow> nat \<Rightarrow> u32" where
  "rd m x = ld32 m (of_nat x)"

definition wr :: "mem \<Rightarrow> nat \<Rightarrow> u32 \<Rightarrow> mem" where
  "wr m x v = st32 m (of_nat x) v"

lemma rd_wr_same [simp, mem_simps]: "rd (wr m x v) x = v"
  by (simp add: rd_def wr_def)

lemma rd_wr_apart [mem_simps]:
  "apart x y \<Longrightarrow> x + 4 \<le> 4294967296 \<Longrightarrow> y + 4 \<le> 4294967296 \<Longrightarrow> rd (wr m x v) y = rd m y"
  by (simp add: rd_def wr_def ld32_st32_other)

lemma wr_other_byte:
  "x < p \<or> p + 4 \<le> x \<Longrightarrow> p + 4 \<le> 4294967296 \<Longrightarrow> x < 4294967296 \<Longrightarrow> wr m p v (of_nat x) = m (of_nat x)"
  by (simp add: wr_def st32_other_byte)

lemma apartI [intro]: "p + 4 \<le> q \<Longrightarrow> apart p q" "q + 4 \<le> p \<Longrightarrow> apart p q"
  by (simp_all add: apart_def)

end
