(* ===== verification/Heap.thy ===== *)
theory Heap
  imports Prelude
begin

text \<open>
  The kernel's heap allocator (\<^verbatim>\<open>src/heap.c\<close>) and the C library entry points on top of it
  (\<^verbatim>\<open>src/stdlib.c\<close>). The definitions of the first section work on the byte memory exactly as the
  code does: a node is a header of two 32-bit words (\<open>size\<close>, \<open>free\<close>) followed by the payload, and
  the \<open>next\<close> pointer of a free node overlays the first payload word.

  The second part states what the allocator promises on an abstract heap, a list of blocks that
  tile the heap's memory, and proves that the code implements it.
\<close>

section \<open>The code\<close>

definition AVAIL_MAGIC :: u32 where
  "AVAIL_MAGIC = 0xAA55AA55"

text \<open>\<open>sizeof(HeapNode_t) + 4\<close>: the zero-length payload array takes no room, so a node is 12 bytes.\<close>

definition MIN_NODE_SIZE :: u32 where
  "MIN_NODE_SIZE = 12 + 4"

definition ALIGN_CEIL :: "u32 \<Rightarrow> u32 \<Rightarrow> u32" where
  "ALIGN_CEIL p a = (p + a - 1) div a * a"

definition ALIGN_FLOOR :: "u32 \<Rightarrow> u32 \<Rightarrow> u32" where
  "ALIGN_FLOOR p a = p div a * a"

text \<open>Field offsets of \<open>HeapNode\<close>: \<open>size\<close> 0, \<open>free\<close> 4, \<open>payload\<close> and \<open>next\<close> both 8.\<close>

definition node_size :: "mem \<Rightarrow> addr \<Rightarrow> u32" where
  "node_size m n = ld32 m n"

definition node_free :: "mem \<Rightarrow> addr \<Rightarrow> u32" where
  "node_free m n = ld32 m (n + 4)"

definition node_next :: "mem \<Rightarrow> addr \<Rightarrow> addr" where
  "node_next m n = ld32 m (n + 8)"

definition set_size :: "addr \<Rightarrow> u32 \<Rightarrow> mem \<Rightarrow> mem" where
  "set_size n v m = st32 m n v"

definition set_free :: "addr \<Rightarrow> u32 \<Rightarrow> mem \<Rightarrow> mem" where
  "set_free n v m = st32 m (n + 4) v"

definition set_next :: "addr \<Rightarrow> addr \<Rightarrow> mem \<Rightarrow> mem" where
  "set_next n v m = st32 m (n + 8) v"

text \<open>Field offsets of \<open>HeapInfo\<close>: \<open>heapSize\<close> 0, \<open>firstAvail\<close> 4.\<close>

definition heapSize :: "mem \<Rightarrow> addr \<Rightarrow> u32" where
  "heapSize m h = ld32 m h"

definition firstAvail :: "mem \<Rightarrow> addr \<Rightarrow> addr" where
  "firstAvail m h = ld32 m (h + 4)"

definition set_heapSize :: "addr \<Rightarrow> u32 \<Rightarrow> mem \<Rightarrow> mem" where
  "set_heapSize h v m = st32 m h v"

definition set_firstAvail :: "addr \<Rightarrow> addr \<Rightarrow> mem \<Rightarrow> mem" where
  "set_firstAvail h v m = st32 m (h + 4) v"

lemmas field_defs = node_size_def node_free_def node_next_def set_size_def set_free_def
  set_next_def heapSize_def firstAvail_def set_heapSize_def set_firstAvail_def

definition HeapInitialize :: "u32 \<Rightarrow> addr \<Rightarrow> mem \<Rightarrow> addr \<times> mem" where
  "HeapInitialize sz heapMem m =
     (let first = ALIGN_CEIL (heapMem + 8) 8;
          m = set_heapSize heapMem sz m;
          m = set_firstAvail heapMem first m;
          m = set_size first (heapMem + sz - first) m;
          m = set_free first AVAIL_MAGIC m;
          m = set_next first 0 m
      in (heapMem, m))"

text \<open>
  The body of the allocation loop once a node that is large enough has been found: split off the
  remainder if it can hold a node of its own, unlink, mark as owned by \<open>hHeap\<close>.
\<close>

definition HeapAlloc_take :: "addr \<Rightarrow> u32 \<Rightarrow> addr \<Rightarrow> addr \<Rightarrow> mem \<Rightarrow> addr \<times> mem" where
  "HeapAlloc_take hHeap sz now prev m =
     (let (nxt, m) =
        (if MIN_NODE_SIZE \<le> node_size m now - sz
         then let newnode = now + sz;
                  m = set_size newnode (node_size m now - sz) m;
                  m = set_next newnode (node_next m now) m;
                  m = set_free newnode AVAIL_MAGIC m;
                  m = set_size now sz m
              in (newnode, m)
         else (node_next m now, m));
        m = (if prev \<noteq> 0 then set_next prev nxt m else set_firstAvail hHeap nxt m);
        m = set_free now hHeap m
      in (now + 8, m))"

partial_function (option) HeapAlloc_loop ::
    "addr \<Rightarrow> u32 \<Rightarrow> addr \<Rightarrow> addr \<Rightarrow> mem \<Rightarrow> (addr \<times> mem) option outcome option" where
  "HeapAlloc_loop hHeap sz now prev m =
     (if now = 0 then Some (Inr None)
      else if node_free m now \<noteq> AVAIL_MAGIC then Some (Inl ''Unexpected magic at heapalloc'')
      else if sz \<le> node_size m now then Some (Inr (Some (HeapAlloc_take hHeap sz now prev m)))
      else HeapAlloc_loop hHeap sz (node_next m now) now m)"

record kheap =
  memory :: mem
  hKernelHeap :: addr

definition HeapAlloc :: "addr \<Rightarrow> u32 \<Rightarrow> kheap \<Rightarrow> (addr \<times> kheap) outcome option" where
  "HeapAlloc hHeap0 size_req s =
     (let hHeap = (if hHeap0 = 0 then hKernelHeap s else hHeap0);
          sz = ALIGN_CEIL size_req 8 + 8;
          m = memory s
      in case HeapAlloc_loop hHeap sz (firstAvail m hHeap) 0 m of
           None \<Rightarrow> None
         | Some (Inl e) \<Rightarrow> Some (Inl e)
         | Some (Inr (Some (p, m'))) \<Rightarrow> Some (Inr (p, s\<lparr>memory := m'\<rparr>))
         | Some (Inr None) \<Rightarrow>
             if hHeap = hKernelHeap s then Some (Inl ''Kernel ran out of heap memory'')
             else Some (Inr (0, s)))"

text \<open>The body of the loop of \<open>HeapFree\<close> at the insertion point, with both merges.\<close>

definition HeapFree_insert :: "addr \<Rightarrow> addr \<Rightarrow> addr \<Rightarrow> addr \<Rightarrow> mem \<Rightarrow> mem" where
  "HeapFree_insert heap node now prev m =
     (let m = set_next node now m;
          (node, m) =
            (if prev \<noteq> 0
             then let m = set_next prev node m
                  in if prev + node_size m prev = node
                     then let m = set_size prev (node_size m prev + node_size m node) m;
                              m = set_next prev (node_next m node) m
                          in (prev, m)
                     else (node, m)
             else (node, set_firstAvail heap node m))
      in if node + node_size m node = now
         then let m = set_next node (node_next m now) m
              in set_size node (node_size m node + node_size m now) m
         else m)"

partial_function (option) HeapFree_loop ::
    "addr \<Rightarrow> addr \<Rightarrow> addr \<Rightarrow> addr \<Rightarrow> addr \<Rightarrow> mem \<Rightarrow> mem option" where
  "HeapFree_loop heap node now prev ppnow m =
     (if now \<noteq> 0 \<or> ppnow \<noteq> 0
      then if now = 0 \<or> node < now then Some (HeapFree_insert heap node now prev m)
           else HeapFree_loop heap node (if now \<noteq> 0 then node_next m now else 0) now
                  (if now \<noteq> 0 then now + 8 else 0) m
      else Some m)"

definition HeapFree :: "addr \<Rightarrow> kheap \<Rightarrow> kheap outcome option" where
  "HeapFree p s =
     (let node = p - 8; m = memory s
      in if node_free m node = AVAIL_MAGIC then Some (Inl ''Double free'')
         else let heap = node_free m node;
                  m = set_free node AVAIL_MAGIC m
              in case HeapFree_loop heap node (firstAvail m heap) 0 (heap + 4) m of
                   None \<Rightarrow> None
                 | Some m' \<Rightarrow> Some (Inr (s\<lparr>memory := m'\<rparr>)))"

definition getKernelHeap :: "kheap \<Rightarrow> addr" where
  "getKernelHeap s = hKernelHeap s"

definition setKernelHeap :: "addr \<Rightarrow> kheap \<Rightarrow> addr \<times> kheap" where
  "setKernelHeap heap s = (hKernelHeap s, s\<lparr>hKernelHeap := heap\<rparr>)"

section \<open>The abstract heap\<close>

text \<open>
  A heap's memory is tiled by blocks. The specification allocates first-fit, splits when the
  remainder is at least 16 bytes, and coalesces neighbouring free blocks on release.
\<close>

record block =
  start :: nat
  bsize :: nat
  used :: bool

abbreviation blk :: "nat \<Rightarrow> nat \<Rightarrow> bool \<Rightarrow> block" where
  "blk a n u \<equiv> \<lparr>start = a, bsize = n, used = u\<rparr>"

definition carve :: "nat \<Rightarrow> block \<Rightarrow> block list" where
  "carve n b =
     (if n + 16 \<le> bsize b then [blk (start b) n True, blk (start b + n) (bsize b - n) False]
      else [blk (start b) (bsize b) True])"

fun alloc_spec :: "nat \<Rightarrow> block list \<Rightarrow> (nat \<times> block list) option" where
  "alloc_spec n [] = None"
| "alloc_spec n (b # bs) =
     (if \<not> used b \<and> n \<le> bsize b then Some (start b + 8, carve n b @ bs)
      else map_option (\<lambda>(p, cs). (p, b # cs)) (alloc_spec n bs))"

fun coalesce :: "block list \<Rightarrow> block list" where
  "coalesce (b # c # bs) =
     (if \<not> used b \<and> \<not> used c then coalesce (blk (start b) (bsize b + bsize c) False # bs)
      else b # coalesce (c # bs))"
| "coalesce bs = bs"

definition free_spec :: "nat \<Rightarrow> block list \<Rightarrow> block list" where
  "free_spec p bs = coalesce (map (\<lambda>b. if start b + 8 = p then b\<lparr>used := False\<rparr> else b) bs)"

text \<open>Well-formed block lists: they tile an interval, starts are 8-aligned, sizes at least 16.\<close>

fun tiles :: "nat \<Rightarrow> block list \<Rightarrow> nat \<Rightarrow> bool" where
  "tiles a [] e \<longleftrightarrow> a = e"
| "tiles a (b # bs) e \<longleftrightarrow> start b = a \<and> 16 \<le> bsize b \<and> 8 dvd a \<and> tiles (a + bsize b) bs e"

fun no_adj_free :: "block list \<Rightarrow> bool" where
  "no_adj_free (b # c # bs) \<longleftrightarrow> (used b \<or> used c) \<and> no_adj_free (c # bs)"
| "no_adj_free bs \<longleftrightarrow> True"

definition free_starts :: "block list \<Rightarrow> nat list" where
  "free_starts bs = map start (filter (\<lambda>b. \<not> used b) bs)"

text \<open>A segment of the free list in memory: from pointer \<open>p\<close> through the nodes \<open>xs\<close> to \<open>q\<close>.\<close>

fun seg :: "mem \<Rightarrow> addr \<Rightarrow> nat list \<Rightarrow> addr \<Rightarrow> bool" where
  "seg m p [] q \<longleftrightarrow> p = q"
| "seg m p (x # xs) q \<longleftrightarrow> p = of_nat x \<and> seg m (rd m (x + 8)) xs q"

definition headers :: "mem \<Rightarrow> nat \<Rightarrow> block list \<Rightarrow> bool" where
  "headers m h bs \<longleftrightarrow> (\<forall>b \<in> set bs. rd m (start b) = of_nat (bsize b) \<and>
     rd m (start b + 4) = (if used b then of_nat h else AVAIL_MAGIC))"

text \<open>
  The layout of a heap at address \<open>h\<close> whose blocks occupy \<open>[f, e)\<close>. The end is strictly below the
  top of the address space, so that \<open>node + size\<close> never wraps to the null pointer.
\<close>

definition layout :: "nat \<Rightarrow> nat \<Rightarrow> nat \<Rightarrow> block list \<Rightarrow> bool" where
  "layout h f e bs \<longleftrightarrow> 0 < h \<and> of_nat h \<noteq> AVAIL_MAGIC \<and> h + 8 \<le> f \<and> e < 4294967296 \<and> tiles f bs e"

definition linked :: "mem \<Rightarrow> nat \<Rightarrow> nat \<Rightarrow> nat \<Rightarrow> block list \<Rightarrow> bool" where
  "linked m h f e bs \<longleftrightarrow> layout h f e bs \<and> headers m h bs \<and> seg m (rd m (h + 4)) (free_starts bs) 0"

text \<open>The representation invariant: the memory holds the blocks, and free blocks are coalesced.\<close>

definition heap_rep :: "mem \<Rightarrow> nat \<Rightarrow> nat \<Rightarrow> nat \<Rightarrow> block list \<Rightarrow> bool" where
  "heap_rep m h f e bs \<longleftrightarrow> linked m h f e bs \<and> no_adj_free bs"

section \<open>Facts about layouts and free lists\<close>

lemma tiles_append: "tiles a (xs @ ys) e \<longleftrightarrow> (\<exists>g. tiles a xs g \<and> tiles g ys e)"
  by (induction xs arbitrary: a) auto

lemma tiles_le: "tiles a bs e \<Longrightarrow> a \<le> e"
  by (induction bs arbitrary: a) fastforce+

lemma tiles_block:
  "tiles a bs e \<Longrightarrow> b \<in> set bs \<Longrightarrow>
     a \<le> start b \<and> start b + bsize b \<le> e \<and> 16 \<le> bsize b \<and> 8 dvd start b"
proof (induction bs arbitrary: a)
  case (Cons c bs)
  then have "tiles (a + bsize c) bs e" by simp
  from tiles_le [OF this] Cons.IH [OF this] Cons.prems show ?case by fastforce
qed simp

lemma tiles_apart:
  "tiles a bs e \<Longrightarrow> c \<in> set bs \<Longrightarrow> d \<in> set bs \<Longrightarrow>
     c = d \<or> start c + bsize c \<le> start d \<or> start d + bsize d \<le> start c"
proof (induction bs arbitrary: a)
  case (Cons b bs)
  then have "tiles (a + bsize b) bs e" by simp
  from tiles_block [OF this] Cons.IH [OF this] Cons.prems show ?case by fastforce
qed simp

lemma tiles_split:
  "tiles a (pre @ b # post) e \<longleftrightarrow>
     tiles a pre (start b) \<and> 16 \<le> bsize b \<and> 8 dvd start b \<and> tiles (start b + bsize b) post e"
  by (auto simp: tiles_append)

lemma free_starts_simps [simp]:
  "free_starts [] = []"
  "free_starts (b # bs) = (if used b then free_starts bs else start b # free_starts bs)"
  "free_starts (xs @ ys) = free_starts xs @ free_starts ys"
  by (simp_all add: free_starts_def)

lemma free_starts_in: "x \<in> set (free_starts bs) \<Longrightarrow> \<exists>b \<in> set bs. start b = x \<and> \<not> used b"
  by (auto simp: free_starts_def)

lemma tiles_free_starts:
  "tiles a bs e \<Longrightarrow> x \<in> set (free_starts bs) \<Longrightarrow> a \<le> x \<and> x + 16 \<le> e"
  using tiles_block by (fastforce dest: free_starts_in)

lemma tiles_sorted: "tiles a bs e \<Longrightarrow> sorted_wrt (\<lambda>x y. x + 16 \<le> y) (free_starts bs)"
proof (induction bs arbitrary: a)
  case (Cons b bs)
  then have t: "tiles (a + bsize b) bs e" by simp
  from tiles_free_starts [OF this] Cons.IH [OF t] Cons.prems show ?case by fastforce
qed simp


lemma seg_append: "seg m p (xs @ ys) q \<longleftrightarrow> (\<exists>r. seg m p xs r \<and> seg m r ys q)"
  by (induction xs arbitrary: p) auto

lemma seg_wr:
  assumes "\<And>y. y \<in> set xs \<Longrightarrow> apart x (y + 8) \<and> y + 12 \<le> 4294967296" and "x + 4 \<le> 4294967296"
  shows "seg (wr m x v) p xs q = seg m p xs q"
  using assms(1)
proof (induction xs arbitrary: p)
  case (Cons y xs)
  with assms(2) show ?case by (simp add: rd_wr_apart)
qed simp

lemma headers_wr:
  assumes "x + 4 \<le> 4294967296"
    and "\<And>b. b \<in> set bs \<Longrightarrow> apart x (start b) \<and> apart x (start b + 4) \<and> start b + 8 \<le> 4294967296"
  shows "headers (wr m x v) h bs = headers m h bs"
proof -
  have "rd (wr m x v) (start b) = rd m (start b)" "rd (wr m x v) (start b + 4) = rd m (start b + 4)"
    if "b \<in> set bs" for b
    using assms(1) assms(2) [OF that] by (simp_all add: rd_wr_apart)
  then show ?thesis by (simp add: headers_def)
qed

lemma headers_simps [simp]:
  "headers m h []"
  "headers m h (b # bs) \<longleftrightarrow> rd m (start b) = of_nat (bsize b) \<and>
     rd m (start b + 4) = (if used b then of_nat h else AVAIL_MAGIC) \<and> headers m h bs"
  "headers m h (xs @ ys) \<longleftrightarrow> headers m h xs \<and> headers m h ys"
  by (auto simp: headers_def)

text \<open>The cell that holds the pointer to the node after the free nodes \<open>xs\<close>.\<close>

definition link_cell :: "nat \<Rightarrow> nat list \<Rightarrow> nat" where
  "link_cell h xs = (if xs = [] then h + 4 else last xs + 8)"

lemma seg_link:
  fixes v :: addr
  assumes "seg m (rd m (h + 4)) xs q" and "sorted_wrt (\<lambda>x y. x + 16 \<le> y) xs"
    and "\<And>x. x \<in> set xs \<Longrightarrow> h + 8 \<le> x \<and> x + 12 \<le> 4294967296" and "h + 8 \<le> 4294967296"
  defines "m' \<equiv> wr m (link_cell h xs) v"
  shows "seg m' (rd m' (h + 4)) xs v"
proof (cases xs rule: rev_cases)
  case Nil
  then show ?thesis by (simp add: m'_def link_cell_def)
next
  case (snoc ys y)
  have rd4: "rd m' (h + 4) = rd m (h + 4)"
    using assms(3) [of y] snoc assms(4) by (simp add: m'_def link_cell_def rd_wr_apart apart_def)
  have "seg m' (rd m (h + 4)) ys (of_nat y)"
    unfolding m'_def
    by (subst seg_wr) (use assms snoc in \<open>auto simp: link_cell_def seg_append sorted_wrt_append apart_def\<close>)
  with rd4 snoc show ?thesis by (simp add: seg_append m'_def link_cell_def)
qed

section \<open>Allocation\<close>

lemma cell_simps:
  "node_size m (of_nat a) = rd m a" "node_free m (of_nat a) = rd m (a + 4)"
  "node_next m (of_nat a) = rd m (a + 8)" "firstAvail m (of_nat a) = rd m (a + 4)"
  "set_size (of_nat a) v m = wr m a v" "set_free (of_nat a) v m = wr m (a + 4) v"
  "set_next (of_nat a) v m = wr m (a + 8) v" "set_firstAvail (of_nat a) v m = wr m (a + 4) v"
  "heapSize m (of_nat a) = rd m a" "set_heapSize (of_nat a) v m = wr m a v"
  by (simp_all add: field_defs rd_def wr_def)

text \<open>The node before the current one in the free list, null at the head.\<close>

definition prev_ptr :: "nat list \<Rightarrow> addr" where
  "prev_ptr xs = (if xs = [] then 0 else of_nat (last xs))"

lemma of_nat32_eq_0: "0 < x \<Longrightarrow> x < 4294967296 \<Longrightarrow> (of_nat x :: u32) \<noteq> 0"
  using of_nat32_eq_iff [of x 0] by simp

lemma link_store:
  assumes "\<And>x. x \<in> set xs \<Longrightarrow> 0 < x \<and> x < 4294967296"
  shows "(if prev_ptr xs \<noteq> 0 then set_next (prev_ptr xs) v m else wr m (h + 4) v)
    = wr m (link_cell h xs) v"
  using assms [of "last xs"] by (auto simp: prev_ptr_def link_cell_def cell_simps of_nat32_eq_0)

text \<open>What taking a block writes, on numeric addresses.\<close>

definition take_mem :: "nat \<Rightarrow> nat \<Rightarrow> nat list \<Rightarrow> block \<Rightarrow> mem \<Rightarrow> mem" where
  "take_mem h n xs b m =
     (let a = start b in
      if n + 16 \<le> bsize b
      then wr (wr (wr (wr (wr (wr m (a + n) (of_nat (bsize b - n))) (a + n + 8) (rd m (a + 8)))
             (a + n + 4) AVAIL_MAGIC) a (of_nat n)) (link_cell h xs) (of_nat (a + n))) (a + 4) (of_nat h)
      else wr (wr m (link_cell h xs) (rd m (a + 8))) (a + 4) (of_nat h))"

lemma HeapAlloc_take_eq:
  assumes "rd m (start b) = of_nat (bsize b)" and "16 \<le> n" and "n \<le> bsize b"
    and "start b + bsize b < 4294967296"
    and "\<And>x. x \<in> set xs \<Longrightarrow> 0 < x \<and> x < 4294967296"
  shows "HeapAlloc_take (of_nat h) (of_nat n) (of_nat (start b)) (prev_ptr xs) m =
    (of_nat (start b + 8), take_mem h n xs b m)"
proof -
  have sub: "(of_nat (bsize b) - of_nat n :: u32) = of_nat (bsize b - n)"
    using assms(3) by simp
  have le: "MIN_NODE_SIZE \<le> of_nat (bsize b - n) \<longleftrightarrow> n + 16 \<le> bsize b"
    using assms(3,4) by (auto simp: MIN_NODE_SIZE_def word_le_nat_alt simp del: of_nat_diff)
  have nx: "rd (wr m (start b + n) v) (start b + 8) = rd m (start b + 8)" if "n + 16 \<le> bsize b" for v
    using that assms by (simp add: rd_wr_apart apart_def)
  have new: "of_nat (start b) + of_nat n = (of_nat (start b + n) :: u32)" by simp
  note lk = link_store [where xs = xs, OF assms(5)]
  show ?thesis
  proof (cases "n + 16 \<le> bsize b")
    case True
    then show ?thesis
      unfolding HeapAlloc_take_def take_mem_def Let_def new cell_simps assms(1) sub le
      by (simp only: if_True prod.case lk nx [OF True] cell_simps of_nat_add of_nat_numeral)
  next
    case False
    then show ?thesis
      unfolding HeapAlloc_take_def take_mem_def Let_def new cell_simps assms(1) sub le
      by (simp only: if_False prod.case lk cell_simps of_nat_add of_nat_numeral)
  qed
qed

text \<open>Taking the free block \<open>b\<close> out of \<open>pre @ b # post\<close> leaves a representation of the carved heap.\<close>

lemma no_adj_free_Cons:
  "no_adj_free (b # bs) \<longleftrightarrow> no_adj_free bs \<and> (bs = [] \<or> used b \<or> used (hd bs))"
  by (cases bs) auto

lemma no_adj_free_append:
  "no_adj_free (xs @ ys) \<longleftrightarrow> no_adj_free xs \<and> no_adj_free ys \<and>
     (xs = [] \<or> ys = [] \<or> used (last xs) \<or> used (hd ys))"
  by (induction xs) (auto simp: no_adj_free_Cons)

lemma carve_layout:
  assumes "layout h f e (pre @ b # post)" and "16 \<le> n" and "8 dvd n" and "n \<le> bsize b"
  shows "layout h f e (pre @ carve n b @ post)"
  using assms by (auto simp: layout_def tiles_split tiles_append carve_def)

lemma carve_no_adj_free:
  "no_adj_free (pre @ b # post) \<Longrightarrow> \<not> used b \<Longrightarrow> no_adj_free (pre @ carve n b @ post)"
  by (auto simp: carve_def no_adj_free_append no_adj_free_Cons)

lemma layout_split:
  assumes "layout h f e (pre @ b # post)"
  shows "\<And>c. c \<in> set pre \<Longrightarrow> h + 8 \<le> start c \<and> start c + 16 \<le> start b"
    and "\<And>c. c \<in> set post \<Longrightarrow> start b + bsize b \<le> start c \<and> start c + 16 \<le> e"
    and "h + 8 \<le> start b" and "start b + bsize b \<le> e" and "e < 4294967296" and "16 \<le> bsize b"
    and "sorted_wrt (\<lambda>x y. x + 16 \<le> y) (free_starts pre)"
proof -
  from assms have t: "tiles f pre (start b)" "tiles (start b + bsize b) post e"
    and h: "h + 8 \<le> f" "e < 4294967296" "16 \<le> bsize b"
    by (auto simp: layout_def tiles_split)
  show "h + 8 \<le> start c \<and> start c + 16 \<le> start b" if "c \<in> set pre" for c
    using tiles_block [OF t(1) that] h(1) by linarith
  show "start b + bsize b \<le> start c \<and> start c + 16 \<le> e" if "c \<in> set post" for c
    using tiles_block [OF t(2) that] by linarith
  show "h + 8 \<le> start b" "start b + bsize b \<le> e" "e < 4294967296" "16 \<le> bsize b"
    using tiles_le [OF t(1)] tiles_le [OF t(2)] h by linarith+
  show "sorted_wrt (\<lambda>x y. x + 16 \<le> y) (free_starts pre)"
    by (rule tiles_sorted [OF t(1)])
qed

text \<open>
  Writes inside the block \<open>b\<close> do not disturb the representation of the blocks around it, and the
  write to the link cell before \<open>b\<close> only redirects the free list.
\<close>

lemma block_frame:
  assumes lay: "layout h f e (pre @ b # post)" and x: "start b \<le> x" "x + 4 \<le> start b + bsize b"
  shows "headers (wr m x v) h pre = headers m h pre" and "headers (wr m x v) h post = headers m h post"
    and "seg (wr m x v) p (free_starts pre) q = seg m p (free_starts pre) q"
    and "seg (wr m x v) p (free_starts post) q = seg m p (free_starts post) q"
    and "rd (wr m x v) (h + 4) = rd m (h + 4)"
proof -
  note ls = layout_split [OF lay]
  have pre: "y + 16 \<le> x" if "c \<in> set pre" "y = start c" for c y
    using ls(1) [OF that(1)] that(2) x by linarith
  have post: "x + 4 \<le> y" "y + 16 \<le> 4294967296" if "c \<in> set post" "y = start c" for c y
    using ls(2) [OF that(1)] ls(5) that(2) x by linarith+
  have x4: "x + 4 \<le> 4294967296" using ls(4,5) x by linarith
  show "headers (wr m x v) h pre = headers m h pre"
    by (rule headers_wr [OF x4]) (use pre x4 in \<open>fastforce simp: apart_def\<close>)
  show "headers (wr m x v) h post = headers m h post"
    by (rule headers_wr [OF x4]) (use post in \<open>fastforce simp: apart_def\<close>)
  show "seg (wr m x v) p (free_starts pre) q = seg m p (free_starts pre) q"
    by (rule seg_wr [OF _ x4]) (use pre x4 in \<open>fastforce simp: apart_def dest: free_starts_in\<close>)
  show "seg (wr m x v) p (free_starts post) q = seg m p (free_starts post) q"
    by (rule seg_wr [OF _ x4]) (use post in \<open>fastforce simp: apart_def dest: free_starts_in\<close>)
  show "rd (wr m x v) (h + 4) = rd m (h + 4)"
    using x4 ls(3) x by (simp add: rd_wr_apart apart_def)
qed

lemma link_frame:
  fixes v :: addr
  assumes lay: "layout h f e (pre @ b # post)"
  defines "L \<equiv> link_cell h (free_starts pre)"
  shows "headers (wr m L v) h pre = headers m h pre" and "headers (wr m L v) h post = headers m h post"
    and "seg (wr m L v) p (free_starts post) q = seg m p (free_starts post) q"
    and "start b \<le> y \<Longrightarrow> y + 4 \<le> 4294967296 \<Longrightarrow> rd (wr m L v) y = rd m y"
    and "seg m (rd m (h + 4)) (free_starts pre) q \<Longrightarrow>
      seg (wr m L v) (rd (wr m L v) (h + 4)) (free_starts pre) v"
proof -
  note ls = layout_split [OF lay]
  have fs: "h + 8 \<le> x \<and> x + 16 \<le> start b" if "x \<in> set (free_starts pre)" for x
    using free_starts_in [OF that] ls(1) by blast
  have L: "h + 4 \<le> L" "L + 4 \<le> start b" "L + 4 \<le> 4294967296"
    using fs [of "last (free_starts pre)"] ls by (auto simp: L_def link_cell_def)
  have post: "L + 4 \<le> y" "y + 16 \<le> 4294967296" if "c \<in> set post" "y = start c" for c y
    using ls(2) [OF that(1)] ls(5) that(2) L by linarith+
  have pre: "apart L (start c) \<and> apart L (start c + 4) \<and> start c + 8 \<le> 4294967296" if "c \<in> set pre" for c
  proof (cases "free_starts pre = []")
    case True
    then show ?thesis using ls(1) [OF that] ls(4,5) by (auto simp: L_def link_cell_def apart_def)
  next
    case False
    then obtain d where d: "d \<in> set pre" "start d = last (free_starts pre)"
      using free_starts_in by (metis last_in_set)
    have t: "tiles f pre (start b)" using lay by (auto simp: layout_def tiles_split)
    show ?thesis
      using tiles_apart [OF t that d(1)] tiles_block [OF t that] tiles_block [OF t d(1)] ls(4,5) d(2) False
      by (auto simp: L_def link_cell_def apart_def)
  qed
  show "headers (wr m L v) h pre = headers m h pre"
    by (rule headers_wr [OF L(3)]) (rule pre)
  show "headers (wr m L v) h post = headers m h post"
    by (rule headers_wr [OF L(3)]) (use post in \<open>fastforce simp: apart_def\<close>)
  show "seg (wr m L v) p (free_starts post) q = seg m p (free_starts post) q"
    by (rule seg_wr [OF _ L(3)]) (use post in \<open>fastforce simp: apart_def dest: free_starts_in\<close>)
  show "rd (wr m L v) y = rd m y" if "start b \<le> y" "y + 4 \<le> 4294967296"
    using that L by (simp add: rd_wr_apart apart_def)
  show "seg (wr m L v) (rd (wr m L v) (h + 4)) (free_starts pre) v"
    if "seg m (rd m (h + 4)) (free_starts pre) q"
    unfolding L_def by (rule seg_link [OF that ls(7)]) (use fs ls in fastforce)+
qed

lemma take_mem_rep:
  assumes lay: "layout h f e (pre @ b # post)" and "\<not> used b" and n: "16 \<le> n" "n \<le> bsize b"
    and hd: "headers m h (pre @ b # post)"
    and sg: "seg m (rd m (h + 4)) (free_starts pre) (of_nat (start b))"
      "seg m (rd m (start b + 8)) (free_starts post) 0"
  defines "m' \<equiv> take_mem h n (free_starts pre) b m"
  shows "headers m' h (pre @ carve n b @ post) \<and>
    seg m' (rd m' (h + 4)) (free_starts (pre @ carve n b @ post)) 0"
proof -
  note ls = layout_split [OF lay]
  note bf = block_frame [OF lay] and lf = link_frame [OF lay]
  show ?thesis
  proof (cases "n + 16 \<le> bsize b")
    case True
    then show ?thesis 
      using hd sg n ls(4-6) bf lf
      by (simp add: m'_def take_mem_def Let_def carve_def seg_append rd_wr_apart apart_def)
  next
    case False
    then have "seg m' (rd m' (h + 4)) (free_starts pre) (rd m (start b + 8))"
      and "seg m' (rd m (start b + 8)) (free_starts post) 0"
      and "headers m' h (pre @ carve n b @ post)"
      using hd sg n ls(4-6) bf lf
      by (simp_all add: m'_def take_mem_def Let_def carve_def rd_wr_apart apart_def)
    with False show ?thesis by (auto simp: carve_def seg_append)
  qed
qed

lemma alloc_spec_split:
  "alloc_spec n bs = Some (p, cs) \<Longrightarrow>
     \<exists>pre b post. bs = pre @ b # post \<and> \<not> used b \<and> n \<le> bsize b \<and> p = start b + 8 \<and>
       cs = pre @ carve n b @ post \<and> (\<forall>c \<in> set pre. used c \<or> bsize c < n)"
proof (induction bs arbitrary: cs)
  case (Cons c bs)
  show ?case
  proof (cases "\<not> used c \<and> n \<le> bsize c")
    case True
    with Cons.prems show ?thesis by (intro exI [of _ "[]"]) auto
  next
    case False
    with Cons.prems obtain cs' where cs': "alloc_spec n bs = Some (p, cs')" "cs = c # cs'" by auto
    from Cons.IH [OF cs'(1)] obtain pre b post where
      "bs = pre @ b # post \<and> \<not> used b \<and> n \<le> bsize b \<and> p = start b + 8 \<and>
       cs' = pre @ carve n b @ post \<and> (\<forall>c \<in> set pre. used c \<or> bsize c < n)" by blast
    with False cs'(2) show ?thesis by (intro exI [of _ "c # pre"]) auto
  qed
qed simp

lemma alloc_spec_None: "alloc_spec n bs = None \<longleftrightarrow> (\<forall>b \<in> set bs. used b \<or> bsize b < n)"
  by (induction bs) auto

text \<open>The search loop walks the free nodes of \<open>pre\<close>, none of which is large enough, to the end.\<close>

lemma HeapAlloc_loop_skip:
  assumes "\<And>x. x \<in> set xs \<Longrightarrow> 0 < x \<and> x < 4294967296 \<and> rd m (x + 4) = AVAIL_MAGIC \<and> rd m x < sz"
    and "seg m p xs q"
  shows "HeapAlloc_loop h sz p prev m = HeapAlloc_loop h sz q (if xs = [] then prev else of_nat (last xs)) m"
  using assms
proof (induction xs arbitrary: p prev)
  case (Cons x xs)
  have x: "p = of_nat x" "(of_nat x :: addr) \<noteq> 0" "rd m (x + 4) = AVAIL_MAGIC" "\<not> sz \<le> rd m x"
    using Cons.prems(1) [of x] Cons.prems(2) of_nat32_eq_0 [of x] by auto
  have "HeapAlloc_loop h sz p prev m = HeapAlloc_loop h sz (rd m (x + 8)) (of_nat x) m"
    unfolding x(1) by (subst HeapAlloc_loop.simps) (simp only: cell_simps x if_False simp_thms)
  also have "\<dots> = HeapAlloc_loop h sz q (if xs = [] then of_nat x else of_nat (last xs)) m"
    using Cons by auto
  finally show ?case by simp
qed simp

text \<open>
  Bytes the allocator must leave alone: everything outside the heap and the payloads of the blocks
  that are in use.
\<close>

definition protected :: "nat \<Rightarrow> nat \<Rightarrow> block list \<Rightarrow> nat \<Rightarrow> bool" where
  "protected h e bs x \<longleftrightarrow> x < h \<or> e \<le> x \<or>
     (\<exists>b \<in> set bs. used b \<and> start b + 8 \<le> x \<and> x < start b + bsize b)"

definition preserves :: "nat \<Rightarrow> nat \<Rightarrow> block list \<Rightarrow> mem \<Rightarrow> mem \<Rightarrow> bool" where
  "preserves h e bs m m' \<longleftrightarrow> (\<forall>x < 4294967296. protected h e bs x \<longrightarrow> m' (of_nat x) = m (of_nat x))"

lemma preserves_refl [simp]: "preserves h e bs m m"
  by (simp add: preserves_def)

lemma preserves_trans: "preserves h e bs m m' \<Longrightarrow> preserves h e bs m' m'' \<Longrightarrow> preserves h e bs m m''"
  by (simp add: preserves_def)

lemma preserves_wr_block:
  assumes lay: "layout h f e bs" and "c \<in> set bs" "\<not> used c"
    and x: "start c \<le> x" "x + 4 \<le> start c + bsize c" and pm: "preserves h e bs m0 m"
  shows "preserves h e bs m0 (wr m x v)"
proof -
  from lay have t: "tiles f bs e" and e: "h + 8 \<le> f" "e < 4294967296" by (auto simp: layout_def)
  have x4: "f \<le> x" "x + 4 \<le> e" using tiles_block [OF t assms(2)] x by auto
  have "y < x \<or> x + 4 \<le> y" if "protected h e bs y" for y
    using that x4 e(1) x assms(3) tiles_apart [OF t assms(2)] by (fastforce simp: protected_def)
  with x4 e(2) have "preserves h e bs m (wr m x v)" by (auto simp: preserves_def intro!: wr_other_byte)
  with pm show ?thesis by (rule preserves_trans)
qed

lemma preserves_wr_link:
  fixes v :: addr
  assumes lay: "layout h f e (pre @ post)"
  shows "preserves h e (pre @ post) m (wr m (link_cell h (free_starts pre)) v)"
proof (cases "free_starts pre = []")
  case True
  from lay have t: "tiles f (pre @ post) e" and e: "h + 8 \<le> f" "e < 4294967296" by (auto simp: layout_def)
  have "y < h + 4 \<or> h + 4 + 4 \<le> y" if "protected h e (pre @ post) y" for y
    using that e tiles_block [OF t] tiles_le [OF t] by (fastforce simp: protected_def)
  then have "wr m (h + 4) v (of_nat y) = m (of_nat y)"
    if "protected h e (pre @ post) y" "y < 4294967296" for y
    using that e tiles_le [OF t] by (intro wr_other_byte) auto
  with True show ?thesis by (simp add: preserves_def link_cell_def)
next
  case False
  then obtain d where d: "d \<in> set pre" "start d = last (free_starts pre)" "\<not> used d"
    using free_starts_in by (metis last_in_set)
  have "16 \<le> bsize d" using lay d(1) tiles_block [of f "pre @ post" e d] by (simp add: layout_def)
  with False d show ?thesis
    by (auto simp: link_cell_def intro!: preserves_wr_block [OF lay, of d])
qed

lemma take_mem_preserves:
  assumes lay: "layout h f e (pre @ b # post)" and "\<not> used b" and "16 \<le> n" "n \<le> bsize b"
  shows "preserves h e (pre @ b # post) m (take_mem h n (free_starts pre) b m)"
proof -
  let ?bs = "pre @ b # post"
  have b: "16 \<le> bsize b" by (rule layout_split(6) [OF lay])
  have w: "preserves h e ?bs m0 (wr m1 x v)"
    if "preserves h e ?bs m0 m1" "start b \<le> x" "x + 4 \<le> start b + bsize b" for m0 m1 x v
    using preserves_wr_block [OF lay, of b] that assms(2) by auto
  have l: "preserves h e ?bs m0 (wr m1 (link_cell h (free_starts pre)) v)"
    if "preserves h e ?bs m0 m1" for m0 m1 v
    using preserves_wr_link [OF lay] that by (blast intro: preserves_trans)
  show ?thesis
    using assms(3,4) b by (auto simp: take_mem_def Let_def intro!: w l)
qed


definition request :: "nat \<Rightarrow> nat" where
  "request n = (n + 7) div 8 * 8 + 8"

lemma ALIGN_CEIL_8:
  "n + 7 < 4294967296 \<Longrightarrow> ALIGN_CEIL (of_nat n) 8 = of_nat ((n + 7) div 8 * 8)"
proof -
  assume n: "n + 7 < 4294967296"
  have "unat (ALIGN_CEIL (of_nat n) 8) = (n + 7) div 8 * 8"
    using n div_times_less_eq_dividend [of "n + 7" 8]
    by (simp add: ALIGN_CEIL_def unat_word_ariths unat_div)
  then show ?thesis by (metis of_nat_unat ucast_id)
qed

lemma request_size:
  "n \<le> 4294967280 \<Longrightarrow> ALIGN_CEIL (of_nat n) 8 + 8 = of_nat (request n)"
  by (simp add: ALIGN_CEIL_8 request_def)

lemma request_props:
  "8 dvd request n" "0 < n \<Longrightarrow> 16 \<le> request n" "n + 8 \<le> request n" 
  "n \<le> 4294967280 \<Longrightarrow> request n < 4294967296"
  unfolding request_def by auto
 
lemma heap_rep_split:
  assumes "heap_rep m h f e (pre @ b # post)" and "\<not> used b"
  shows "layout h f e (pre @ b # post)" and "headers m h (pre @ b # post)"
    and "seg m (rd m (h + 4)) (free_starts pre) (of_nat (start b))"
    and "seg m (rd m (start b + 8)) (free_starts post) 0"
  using assms by (auto simp: heap_rep_def linked_def seg_append)

lemma heap_rep_free_nodes:
  assumes "heap_rep m h f e bs" and "x \<in> set (free_starts cs)" and "set cs \<subseteq> set bs"
    and "\<And>c. c \<in> set cs \<Longrightarrow> used c \<or> bsize c < n" and "n < 4294967296"
  shows "0 < x \<and> x < 4294967296 \<and> rd m (x + 4) = AVAIL_MAGIC \<and> rd m x < of_nat n"
proof -
  from free_starts_in [OF assms(2)] obtain c where c: "c \<in> set cs" "start c = x" "\<not> used c" by blast
  with assms(1,3) have "start c + bsize c \<le> e" "h + 8 \<le> start c" "e < 4294967296"
    and "rd m x = of_nat (bsize c)" "rd m (x + 4) = AVAIL_MAGIC"
    using tiles_block [of f bs e c] by (auto simp: heap_rep_def linked_def layout_def headers_def)
  then show ?thesis using assms(4) [OF c(1)] assms(5) c by (auto simp: word_less_nat_alt)
qed

lemma HeapAlloc_loop_refines:
  assumes rep: "heap_rep m h f e bs" and n: "16 \<le> n" "8 dvd n" "n < 4294967296"
  shows "case alloc_spec n bs of
      None \<Rightarrow> HeapAlloc_loop (of_nat h) (of_nat n) (rd m (h + 4)) 0 m = Some (Inr None)
    | Some (p, cs) \<Rightarrow> \<exists>m'. HeapAlloc_loop (of_nat h) (of_nat n) (rd m (h + 4)) 0 m =
        Some (Inr (Some (of_nat p, m'))) \<and> heap_rep m' h f e cs \<and> preserves h e bs m m'"
proof (cases "alloc_spec n bs")
  case None
  then have "HeapAlloc_loop (of_nat h) (of_nat n) (rd m (h + 4)) 0 m =
      HeapAlloc_loop (of_nat h) (of_nat n) 0
        (if free_starts bs = [] then 0 else of_nat (last (free_starts bs))) m"
    using rep heap_rep_free_nodes [OF rep _ _ _ n(3), of _ bs]
    by (intro HeapAlloc_loop_skip) (auto simp: alloc_spec_None heap_rep_def linked_def)
  with None show ?thesis by (simp add: HeapAlloc_loop.simps [where now = 0])
next
  case (Some r)
  obtain p cs where r: "r = (p, cs)" by (cases r)
  from alloc_spec_split [OF Some [unfolded r]] obtain pre b post where
    sp: "bs = pre @ b # post" "\<not> used b" "n \<le> bsize b" "p = start b + 8"
      "cs = pre @ carve n b @ post" "\<forall>c \<in> set pre. used c \<or> bsize c < n" by blast
  note rs = heap_rep_split [OF rep [unfolded sp(1)] sp(2)] and ls = layout_split [OF rs(1)]
  let ?xs = "free_starts pre"
  have nodes: "0 < x \<and> x < 4294967296 \<and> rd m (x + 4) = AVAIL_MAGIC \<and> rd m x < of_nat n"
    if "x \<in> set ?xs" for x
    using heap_rep_free_nodes [OF rep that _ _ n(3)] sp(1,6) by auto
  have "HeapAlloc_loop (of_nat h) (of_nat n) (rd m (h + 4)) 0 m =
      HeapAlloc_loop (of_nat h) (of_nat n) (of_nat (start b)) (prev_ptr ?xs) m"
    using HeapAlloc_loop_skip [OF nodes rs(3)] by (simp add: prev_ptr_def)
  also have "\<dots> = Some (Inr (Some (HeapAlloc_take (of_nat h) (of_nat n) (of_nat (start b)) (prev_ptr ?xs) m)))"
  proof -
    have "(of_nat (start b) :: addr) \<noteq> 0" "rd m (start b + 4) = AVAIL_MAGIC" "of_nat n \<le> rd m (start b)"
      using of_nat32_eq_0 [of "start b"] rs(2) ls(3-6) sp(2,3) n by (auto simp: word_le_nat_alt)
    then show ?thesis by (subst HeapAlloc_loop.simps) (simp only: cell_simps if_False if_True simp_thms)
  qed
  also have "HeapAlloc_take (of_nat h) (of_nat n) (of_nat (start b)) (prev_ptr ?xs) m =
      (of_nat (start b + 8), take_mem h n ?xs b m)"
    by (rule HeapAlloc_take_eq) (use rs(2) n sp ls nodes in auto)
  finally show ?thesis
    using take_mem_rep [OF rs(1) sp(2) n(1) sp(3) rs(2-4)] carve_layout [OF rs(1) n(1,2) sp(3)]
      take_mem_preserves [OF rs(1) sp(2) n(1) sp(3)] carve_no_adj_free [OF _ sp(2)] rep Some
    by (auto simp: r sp(1,4,5) heap_rep_def linked_def)
qed

section \<open>Release\<close>

lemma HeapFree_loop_skip:
  assumes "\<And>x. x \<in> set xs \<Longrightarrow> 0 < x \<and> x < node" and "node < 4294967296" and "seg m p xs q"
  shows "HeapFree_loop h (of_nat node) p prev pp m =
      HeapFree_loop h (of_nat node) q (if xs = [] then prev else of_nat (last xs))
        (if xs = [] then pp else of_nat (last xs) + 8) m"
  using assms(1,3)
proof (induction xs arbitrary: p prev pp)
  case (Cons x xs)
  have x: "p = of_nat x" "(of_nat x :: addr) \<noteq> 0" "\<not> of_nat node < (of_nat x :: addr)"
    using Cons.prems(1) [of x] Cons.prems(2) of_nat32_eq_0 [of x] assms(2) by (auto simp: word_less_nat_alt)
  have "HeapFree_loop h (of_nat node) p prev pp m =
      HeapFree_loop h (of_nat node) (rd m (x + 8)) (of_nat x) (of_nat x + 8) m"
    unfolding x(1) by (subst HeapFree_loop.simps) (simp only: cell_simps x if_False if_True simp_thms)
  also have "\<dots> = HeapFree_loop h (of_nat node) q (if xs = [] then of_nat x else of_nat (last xs))
        (if xs = [] then of_nat x + 8 else of_nat (last xs) + 8) m"
    using Cons by auto
  finally show ?case by (simp split: if_splits)
qed simp

text \<open>The pointer the loop of \<open>HeapFree\<close> stops at: the first free node of the blocks after the node.\<close>

definition next_ptr :: "nat list \<Rightarrow> addr" where
  "next_ptr xs = (case xs of [] \<Rightarrow> 0 | x # _ \<Rightarrow> of_nat x)"

lemma seg_next_ptr: "seg m p xs 0 \<Longrightarrow> p = next_ptr xs"
  by (cases xs) (auto simp: next_ptr_def)

text \<open>Marking a block free and linking it in, before any merge.\<close>

definition insert_mem :: "nat \<Rightarrow> block list \<Rightarrow> block \<Rightarrow> block list \<Rightarrow> mem \<Rightarrow> mem" where
  "insert_mem h pre b post m =
     wr (wr (wr m (start b + 4) AVAIL_MAGIC) (start b + 8) (next_ptr (free_starts post)))
       (link_cell h (free_starts pre)) (of_nat (start b))"

lemma insert_mem_linked:
  assumes rep: "linked m h f e (pre @ b # post)" and "used b"
  shows "linked (insert_mem h pre b post m) h f e (pre @ b\<lparr>used := False\<rparr> # post)"
proof -
  from rep have lay: "layout h f e (pre @ b # post)" by (simp add: linked_def)
  note ls = layout_split [OF lay] and bf = block_frame [OF lay] and lf = link_frame [OF lay]
  from rep assms(2) obtain q where sg: "seg m (rd m (h + 4)) (free_starts pre) q" "seg m q (free_starts post) 0"
    and hd: "headers m h pre" "headers m h post" "rd m (start b) = of_nat (bsize b)"
    by (auto simp: linked_def seg_append)
  have q: "q = next_ptr (free_starts post)" by (rule seg_next_ptr [OF sg(2)])
  have "layout h f e (pre @ b\<lparr>used := False\<rparr> # post)"
    using lay by (simp add: layout_def tiles_split)
  then show ?thesis
    using sg hd ls(4-6) bf lf
    by (simp add: insert_mem_def linked_def seg_append rd_wr_apart apart_def q)
qed

text \<open>Merging two neighbouring free blocks.\<close>

definition merge_mem :: "block \<Rightarrow> block \<Rightarrow> mem \<Rightarrow> mem" where
  "merge_mem c b m = wr (wr m (start c) (of_nat (bsize c + bsize b))) (start c + 8) (rd m (start b + 8))"

definition merged :: "block \<Rightarrow> block \<Rightarrow> block" where
  "merged c b = blk (start c) (bsize c + bsize b) False"

definition merge_mem' :: "block \<Rightarrow> block \<Rightarrow> mem \<Rightarrow> mem" where
  "merge_mem' c b m = wr (wr m (start c + 8) (rd m (start b + 8))) (start c) (of_nat (bsize c + bsize b))"

lemma merge_mem_linked:
  assumes rep: "linked m h f e (pre @ c # b # post)" and "\<not> used c" "\<not> used b"
  shows "linked (merge_mem c b m) h f e (pre @ merged c b # post)"
    and "linked (merge_mem' c b m) h f e (pre @ merged c b # post)"
proof -
  from rep have lay0: "layout h f e (pre @ c # b # post)" by (simp add: linked_def)
  then have lay: "layout h f e (pre @ merged c b # post)"
    by (auto simp: layout_def tiles_split merged_def add.assoc)
  note ls = layout_split [OF lay, unfolded merged_def, simplified]
    and bf = block_frame [OF lay, unfolded merged_def, simplified]
  have b: "start b = start c + bsize c" "16 \<le> bsize c" "16 \<le> bsize b"
    using lay0 by (auto simp: layout_def tiles_split)
  from rep assms(2,3) have m: "seg m (rd m (h + 4)) (free_starts pre) (of_nat (start c))"
    "seg m (rd m (start b + 8)) (free_starts post) 0"
    "headers m h pre" "headers m h post" "rd m (start c + 4) = AVAIL_MAGIC"
    by (auto simp: linked_def seg_append)
  show "linked (merge_mem c b m) h f e (pre @ merged c b # post)"
    and "linked (merge_mem' c b m) h f e (pre @ merged c b # post)"
    using lay b m ls(4,5) bf
    by (simp_all add: merge_mem_def merge_mem'_def merged_def linked_def seg_append rd_wr_apart apart_def)
qed

lemma headers_size: "headers m h bs \<Longrightarrow> b \<in> set bs \<Longrightarrow> rd m (start b) = of_nat (bsize b)"
  by (simp add: headers_def)

lemma coalesce_id: "no_adj_free bs \<Longrightarrow> coalesce bs = bs"
  by (induction bs rule: coalesce.induct) auto

text \<open>The free block \<open>b\<close> in front of \<open>post\<close>, merged with its right neighbour if that is free.\<close>

definition absorb :: "block \<Rightarrow> block list \<Rightarrow> block list" where
  "absorb b post = (case post of d # ds \<Rightarrow> if used d then b # post else merged b d # ds | [] \<Rightarrow> [b])"

lemma coalesce_free_head:
  assumes "\<not> used b" and "no_adj_free post"
  shows "coalesce (b # post) = absorb b post"
proof (cases post)
  case (Cons d ds)
  show ?thesis
  proof (cases "used d")
    case True
    with assms Cons coalesce_id [of post] show ?thesis by (auto simp: absorb_def)
  next
    case False
    with assms(2) Cons have "coalesce (merged b d # ds) = merged b d # ds"
      by (intro coalesce_id) (auto simp: no_adj_free_Cons merged_def)
    with False assms(1) Cons show ?thesis by (simp add: absorb_def merged_def)
  qed
qed (simp add: absorb_def)

lemma coalesce_append_used:
  "no_adj_free pre \<Longrightarrow> pre = [] \<or> used (last pre) \<Longrightarrow> coalesce (pre @ bs) = pre @ coalesce bs"
proof (induction pre)
  case (Cons b pre)
  then show ?case by (cases pre; cases "pre @ bs") (auto simp: no_adj_free_Cons split: if_splits)
qed simp

lemma coalesce_around:
  assumes "no_adj_free pre" and "no_adj_free post" and "\<not> used b"
  shows "coalesce (pre @ b # post) =
    (if pre \<noteq> [] \<and> \<not> used (last pre) then butlast pre @ absorb (merged (last pre) b) post
     else pre @ absorb b post)"
proof (cases "pre \<noteq> [] \<and> \<not> used (last pre)")
  case True
  then obtain ps c where pre: "pre = ps @ [c]" "\<not> used c" by (metis append_butlast_last_id)
  with assms(1) have ps: "no_adj_free ps" "ps = [] \<or> used (last ps)" by (auto simp: no_adj_free_append)
  have "coalesce (pre @ b # post) = ps @ coalesce (c # b # post)"
    using coalesce_append_used [OF ps] pre(1) by simp
  also have "coalesce (c # b # post) = coalesce (merged c b # post)"
    using pre(2) assms(3) by (simp add: merged_def)
  also have "\<dots> = absorb (merged c b) post"
    by (rule coalesce_free_head) (use assms(2) in \<open>auto simp: merged_def\<close>)
  finally show ?thesis using True pre by simp
next
  case False
  with assms show ?thesis using coalesce_append_used [of pre] coalesce_free_head by auto
qed

text \<open>The right merge of \<open>HeapFree\<close>.\<close>

definition merge_right :: "addr \<Rightarrow> addr \<Rightarrow> mem \<Rightarrow> mem" where
  "merge_right node now m =
     (if node + node_size m node = now
      then let m = set_next node (node_next m now) m
           in set_size node (node_size m node + node_size m now) m
      else m)"

lemma merge_right_eq:
  assumes rep: "linked m h f e (pre @ b # post)" and "\<not> used b"
  defines "m' \<equiv> merge_right (of_nat (start b)) (next_ptr (free_starts post)) m"
  shows "linked m' h f e (pre @ absorb b post) \<and> preserves h e (pre @ b # post) m m'"
proof -
  from rep have lay: "layout h f e (pre @ b # post)" by (simp add: linked_def)
  note ls = layout_split [OF lay]
  have size: "rd m (start b) = of_nat (bsize b)" using rep by (simp add: linked_def)
  have node: "of_nat (start b) + node_size m (of_nat (start b)) = of_nat (start b + bsize b)"
    by (simp add: cell_simps size)
  show ?thesis
  proof (cases "\<exists>d ds. post = d # ds \<and> \<not> used d")
    case True
    then obtain d ds where d: "post = d # ds" "\<not> used d" by blast
    have sd: "start d = start b + bsize b" "16 \<le> bsize d" "start d + bsize d \<le> e"
      using lay d tiles_block [of f "pre @ b # post" e d] by (auto simp: layout_def tiles_split)
    have np: "next_ptr (free_starts post) = of_nat (start d)" using d by (simp add: next_ptr_def)
    have dz: "rd m (start d) = of_nat (bsize d)" using rep d by (simp add: linked_def)
    have reach: "of_nat (start b) + of_nat (bsize b) = (of_nat (start d) :: addr)" using sd(1) by simp
    have far: "start b + 16 \<le> start d" "start d + 16 \<le> 4294967296" using sd ls by auto
    have "m' = merge_mem' b d m"
      unfolding m'_def merge_right_def merge_mem'_def np Let_def cell_simps
      using far size dz reach by (simp add: rd_wr_apart apart_def)
    moreover have "preserves h e (pre @ b # post) m (merge_mem' b d m)"
      unfolding merge_mem'_def
      by (intro preserves_wr_block [OF lay _ assms(2)]) (use ls in auto)
    moreover have "linked (merge_mem' b d m) h f e (pre @ merged b d # ds)"
      by (rule merge_mem_linked) (use rep d assms(2) in auto)
    ultimately show ?thesis using d by (simp add: absorb_def)
  next
    case False
    have "x \<noteq> start b + bsize b \<and> x < 4294967296" if "x \<in> set (free_starts post)" for x
    proof (cases post)
      case (Cons d ds)
      with False that have x: "x \<in> set (free_starts ds)" by (auto split: if_splits)
      have "tiles (start b + bsize b + bsize d) ds e" "16 \<le> bsize d"
        using lay Cons by (auto simp: layout_def tiles_split)
      with tiles_free_starts [OF _ x] ls show ?thesis by fastforce
    qed (use that in simp)
    then have "of_nat (start b + bsize b) \<noteq> next_ptr (free_starts post)"
      using ls of_nat32_eq_0 [of "start b + bsize b"]
      by (cases "free_starts post") (auto simp: next_ptr_def of_nat32_eq_iff simp del: of_nat_add)
    then have "m' = m" by (simp only: m'_def merge_right_def node if_False)
    moreover have "absorb b post = b # post" using False by (auto simp: absorb_def split: list.splits)
    ultimately show ?thesis using rep by simp
  qed
qed

text \<open>The left merge: the last free node before the released one reaches up to it.\<close>

lemma left_neighbour:
  assumes lay: "layout h f e (pre @ b # post)" and "free_starts pre \<noteq> []"
  obtains c where "c \<in> set pre" and "start c = last (free_starts pre)" and "\<not> used c"
    and "start c + bsize c = start b \<longleftrightarrow> \<not> used (last pre)" and "\<not> used (last pre) \<longrightarrow> c = last pre"
proof -
  from assms(2) have ne: "filter (\<lambda>b. \<not> used b) pre \<noteq> []" by (simp add: free_starts_def)
  define c where "c = last (filter (\<lambda>b. \<not> used b) pre)"
  have c: "c \<in> set pre" "\<not> used c" using last_in_set [OF ne] by (auto simp: c_def)
  have sc: "start c = last (free_starts pre)" using ne by (simp add: c_def free_starts_def last_map)
  obtain ps z where pre: "pre = ps @ [z]" using c(1) by (metis append_butlast_last_id empty_iff list.set(1))
  have z: "start z + bsize z = start b" "tiles f ps (start z)" "16 \<le> bsize z"
    using lay pre by (auto simp: layout_def tiles_split)
  have "c = z \<or> start c + bsize c \<le> start z" using c(1) pre tiles_block [OF z(2)] by auto
  moreover have "\<not> used z \<Longrightarrow> c = z" by (simp add: c_def pre)
  ultimately show ?thesis using c sc z pre by (intro that [of c]) auto
qed

definition merge_left :: "addr \<Rightarrow> addr \<Rightarrow> mem \<Rightarrow> addr \<times> mem" where
  "merge_left prev node m =
     (if prev + node_size m prev = node
      then let m = set_size prev (node_size m prev + node_size m node) m;
               m = set_next prev (node_next m node) m
           in (prev, m)
      else (node, m))"

lemma HeapFree_insert_eq:
  "HeapFree_insert heap node now prev m =
     (let m = set_next node now m;
          (node', m') = (if prev \<noteq> 0 then merge_left prev node (set_next prev node m)
                         else (node, set_firstAvail heap node m))
      in merge_right node' now m')"
  by (simp add: HeapFree_insert_def merge_left_def merge_right_def Let_def split: if_split)

lemma merge_left_eq:
  assumes rep: "linked m h f e (pre @ b # post)" and "\<not> used b" and ne: "free_starts pre \<noteq> []"
  shows "if \<not> used (last pre)
    then \<exists>m'. merge_left (prev_ptr (free_starts pre)) (of_nat (start b)) m = (of_nat (start (last pre)), m') \<and>
      linked m' h f e (butlast pre @ merged (last pre) b # post) \<and> preserves h e (pre @ b # post) m m'
    else merge_left (prev_ptr (free_starts pre)) (of_nat (start b)) m = (of_nat (start b), m)"
proof -
  from rep have lay: "layout h f e (pre @ b # post)" by (simp add: linked_def)
  note ls = layout_split [OF lay]
  obtain c where c: "c \<in> set pre" "start c = last (free_starts pre)" "\<not> used c"
      "start c + bsize c = start b \<longleftrightarrow> \<not> used (last pre)" "\<not> used (last pre) \<longrightarrow> c = last pre"
    by (rule left_neighbour [OF lay ne])
  have cz: "rd m (start c) = of_nat (bsize c)" "rd m (start b) = of_nat (bsize b)"
    using rep c(1) headers_size [of m h "pre @ b # post"] by (simp_all add: linked_def)
  have cb: "16 \<le> bsize c" "start c + bsize c \<le> start b"
    using lay c(1) tiles_block [of f pre "start b" c] by (auto simp: layout_def tiles_split)
  have reach: "prev_ptr (free_starts pre) + node_size m (prev_ptr (free_starts pre)) = of_nat (start b)
      \<longleftrightarrow> \<not> used (last pre)"
    using c ne cz cb ls of_nat32_eq_iff [of "start c + bsize c" "start b"]
    by (simp add: prev_ptr_def cell_simps c(2) [symmetric])
  show ?thesis
  proof (cases "used (last pre)")
    case True
    with reach show ?thesis by (simp add: merge_left_def)
  next
    case False
    then have cl: "c = last pre" and pp: "prev_ptr (free_starts pre) = of_nat (start c)"
      using c ne by (auto simp: prev_ptr_def)
    then have pre: "pre = butlast pre @ [c]" using c(1) by (metis append_butlast_last_id empty_iff list.set(1))
    have "merge_left (of_nat (start c)) (of_nat (start b)) m = (of_nat (start c), merge_mem c b m)"
      using reach False cz cb ls unfolding pp merge_left_def
      by (simp add: Let_def cell_simps merge_mem_def rd_wr_apart apart_def)
    moreover have "linked (merge_mem c b m) h f e (butlast pre @ merged c b # post)"
      by (rule merge_mem_linked(1)) (use rep pre c assms(2) in \<open>simp_all\<close>, metis append.assoc append_Cons append_Nil)
    moreover have "preserves h e (pre @ b # post) m (merge_mem c b m)"
      unfolding merge_mem_def
      by (intro preserves_wr_block [OF lay _ c(3)]) (use c cb in auto)
    ultimately show ?thesis using False cl pp by auto
  qed
qed

lemma coalesce_Cons: "\<exists>c' cs. coalesce (c # bs) = c' # cs \<and> used c' = used c"
proof (induction bs arbitrary: c)
  case (Cons d bs)
  from Cons.IH [of "blk (start c) (bsize c + bsize d) False"] show ?case by auto
qed simp

lemma no_adj_free_coalesce: "no_adj_free (coalesce bs)"
proof (induction bs rule: coalesce.induct)
  case (1 b c bs)
  obtain c' cs where "coalesce (c # bs) = c' # cs" "used c' = used c" using coalesce_Cons by blast
  with 1 show ?case by (auto simp: no_adj_free_Cons)
qed auto

lemma preserves_mono:
  "{b \<in> set bs. used b} \<subseteq> set cs \<Longrightarrow> preserves h e cs m m' \<Longrightarrow> preserves h e bs m m'"
  by (auto simp: preserves_def protected_def)

lemma insert_mem_preserves:
  assumes "layout h f e (pre @ b # post)"
  shows "preserves h e (pre @ b\<lparr>used := False\<rparr> # post) m (insert_mem h pre b post m)"
proof -
  let ?b = "b\<lparr>used := False\<rparr>"
  have lay: "layout h f e (pre @ ?b # post)" using assms by (simp add: layout_def tiles_split)
  have "16 \<le> bsize b" by (rule layout_split(6) [OF assms])
  then have "preserves h e (pre @ ?b # post) m
      (wr (wr m (start b + 4) AVAIL_MAGIC) (start b + 8) (next_ptr (free_starts post)))"
    by (intro preserves_wr_block [OF lay, of ?b]) auto
  with preserves_wr_link [OF lay] show ?thesis
    unfolding insert_mem_def by (blast intro: preserves_trans)
qed

text \<open>The pointer cells written before the merges are those of \<open>insert_mem\<close>.\<close>

lemma HeapFree_insert_cells:
  assumes lay: "layout h f e (pre @ b # post)"
  defines "now \<equiv> next_ptr (free_starts post)"
  shows "HeapFree_insert (of_nat h) (of_nat (start b)) now (prev_ptr (free_starts pre))
      (wr m (start b + 4) AVAIL_MAGIC) =
    (case (if free_starts pre = [] then (of_nat (start b), insert_mem h pre b post m)
           else merge_left (prev_ptr (free_starts pre)) (of_nat (start b)) (insert_mem h pre b post m))
     of (n, m') \<Rightarrow> merge_right n now m')"
proof (cases "free_starts pre = []")
  case True
  then show ?thesis
    by (simp add: now_def HeapFree_insert_eq Let_def cell_simps insert_mem_def link_cell_def prev_ptr_def)
next
  case False
  have "0 < x \<and> x < 4294967296" if "x \<in> set (free_starts pre)" for x
    using free_starts_in [OF that] layout_split [OF lay] by fastforce
  from this [of "last (free_starts pre)"] False have "(of_nat (last (free_starts pre)) :: addr) \<noteq> 0"
    using of_nat32_eq_0 by simp
  with False show ?thesis
    by (simp add: now_def HeapFree_insert_eq Let_def cell_simps insert_mem_def link_cell_def prev_ptr_def)
qed

lemma merge_left_right:
  assumes lk: "linked m h f e (pre @ b # post)" and "\<not> used b" and ne: "free_starts pre \<noteq> []"
    and "\<not> used (last pre)"
  defines "m' \<equiv> (case merge_left (prev_ptr (free_starts pre)) (of_nat (start b)) m of
      (n, m') \<Rightarrow> merge_right n (next_ptr (free_starts post)) m')"
  shows "linked m' h f e (butlast pre @ absorb (merged (last pre) b) post) \<and>
    preserves h e (pre @ b # post) m m'"
proof -
  let ?c = "merged (last pre) b"
  from merge_left_eq [OF assms(1-3)] assms(4) obtain m'' where
    ml: "merge_left (prev_ptr (free_starts pre)) (of_nat (start b)) m = (of_nat (start ?c), m'')"
      "linked m'' h f e (butlast pre @ ?c # post)" "preserves h e (pre @ b # post) m m''"
    by (auto simp: merged_def)
  have "{d \<in> set (pre @ b # post). used d} \<subseteq> set (butlast pre @ ?c # post)"
    using assms(2,4) ne by (cases pre rule: rev_cases) auto
  note mono = preserves_mono [OF this]
  have "m' = merge_right (of_nat (start ?c)) (next_ptr (free_starts post)) m''"
    by (simp add: m'_def ml(1))
  moreover have "\<not> used ?c" by (simp add: merged_def)
  ultimately have "linked m' h f e (butlast pre @ absorb ?c post)" and "preserves h e (pre @ b # post) m'' m'"
    using merge_right_eq [OF ml(2)] by (auto intro: mono)
  with ml(3) show ?thesis by (auto intro: preserves_trans)
qed

lemma HeapFree_insert_refines:
  assumes rep: "linked m h f e (pre @ b # post)" and "used b"
  defines "m' \<equiv> HeapFree_insert (of_nat h) (of_nat (start b)) (next_ptr (free_starts post))
    (prev_ptr (free_starts pre)) (wr m (start b + 4) AVAIL_MAGIC)"
    and "b' \<equiv> b\<lparr>used := False\<rparr>"
  shows "linked m' h f e (if pre \<noteq> [] \<and> \<not> used (last pre) then butlast pre @ absorb (merged (last pre) b') post
      else pre @ absorb b' post) \<and> preserves h e (pre @ b' # post) m m'"
proof -
  let ?m = "insert_mem h pre b post m"
  from rep have lay: "layout h f e (pre @ b # post)" by (simp add: linked_def)
  have lk: "linked ?m h f e (pre @ b' # post)" unfolding b'_def by (rule insert_mem_linked [OF rep assms(2)])
  have pm: "preserves h e (pre @ b' # post) m ?m" unfolding b'_def by (rule insert_mem_preserves [OF lay])
  have b': "\<not> used b'" "start b' = start b" by (simp_all add: b'_def)
  note cells = HeapFree_insert_cells [OF lay, of m]
  show ?thesis
  proof (cases "pre \<noteq> [] \<and> \<not> used (last pre)")
    case True
    then have "free_starts pre \<noteq> []" by (cases pre rule: rev_cases) auto
    with True merge_left_right [OF lk b'(1)] pm cells b'(2) show ?thesis
      by (auto simp: m'_def intro: preserves_trans)
  next
    case False
    have "m' = merge_right (of_nat (start b')) (next_ptr (free_starts post)) ?m"
    proof (cases "free_starts pre = []")
      case False
      moreover from False \<open>\<not> (pre \<noteq> [] \<and> \<not> used (last pre))\<close> have "used (last pre)" by auto
      ultimately show ?thesis using merge_left_eq [OF lk b'(1)] cells b'(2) by (simp add: m'_def)
    qed (use cells b'(2) in \<open>simp add: m'_def\<close>)
    with False merge_right_eq [OF lk b'(1)] pm show ?thesis by (auto intro: preserves_trans)
  qed
qed

text \<open>Releasing a used block.\<close>

lemma free_spec_eq:
  assumes lay: "layout h f e (pre @ b # post)" and "no_adj_free (pre @ b # post)"
  shows "free_spec (start b + 8) (pre @ b # post) =
    (if pre \<noteq> [] \<and> \<not> used (last pre) then butlast pre @ absorb (merged (last pre) (b\<lparr>used := False\<rparr>)) post
     else pre @ absorb (b\<lparr>used := False\<rparr>) post)"
proof -
  let ?f = "\<lambda>c. if start c + 8 = start b + 8 then c\<lparr>used := False\<rparr> else c"
  note ls = layout_split [OF lay]
  have "map ?f pre = pre" "map ?f post = post"
    using ls by (force intro: map_idI)+
  then have "free_spec (start b + 8) (pre @ b # post) = coalesce (pre @ b\<lparr>used := False\<rparr> # post)"
    by (simp add: free_spec_def)
  with coalesce_around [of pre post "b\<lparr>used := False\<rparr>"] assms(2) show ?thesis
    by (simp add: no_adj_free_append no_adj_free_Cons)
qed

lemma HeapFree_loop_eq:
  assumes lk: "linked m h f e (pre @ b # post)" and "used b"
  defines "m1 \<equiv> wr m (start b + 4) AVAIL_MAGIC"
  shows "HeapFree_loop (of_nat h) (of_nat (start b)) (rd m1 (h + 4)) 0 (of_nat h + 4) m1 =
    Some (HeapFree_insert (of_nat h) (of_nat (start b)) (next_ptr (free_starts post)) (prev_ptr (free_starts pre)) m1)"
proof -
  let ?xs = "free_starts pre" and ?now = "next_ptr (free_starts post)"
  from lk have lay: "layout h f e (pre @ b # post)" by (simp add: linked_def)
  note ls = layout_split [OF lay] and bf = block_frame [OF lay]
  from lk assms(2) obtain q where sg: "seg m (rd m (h + 4)) ?xs q" "seg m q (free_starts post) 0"
    by (auto simp: linked_def seg_append)
  have q: "q = ?now" by (rule seg_next_ptr [OF sg(2)])
  have pos: "0 < x \<and> x < start b" if "x \<in> set ?xs" for x
    using free_starts_in [OF that] ls by fastforce
  have sg1: "seg m1 (rd m1 (h + 4)) ?xs ?now" using sg(1) q bf ls by (simp add: m1_def)
  have pp: "(if ?xs = [] then of_nat h + 4 else of_nat (last ?xs) + 8) \<noteq> (0 :: addr)"
    using of_nat32_eq_0 [of "h + 4"] of_nat32_eq_0 [of "last ?xs + 8"] pos [of "last ?xs"] ls by auto
  have stop: "?now = 0 \<or> of_nat (start b) < ?now"
  proof (cases "free_starts post")
    case (Cons x xs)
    have "start b < x \<and> x < 4294967296" using free_starts_in [of x post] Cons ls by fastforce
    with Cons show ?thesis by (auto simp: next_ptr_def word_less_nat_alt)
  qed (simp add: next_ptr_def)
  have "HeapFree_loop (of_nat h) (of_nat (start b)) (rd m1 (h + 4)) 0 (of_nat h + 4) m1 =
      HeapFree_loop (of_nat h) (of_nat (start b)) ?now (prev_ptr ?xs)
        (if ?xs = [] then of_nat h + 4 else of_nat (last ?xs) + 8) m1"
    unfolding prev_ptr_def by (rule HeapFree_loop_skip [OF pos _ sg1]) (use ls in auto)
  also have "\<dots> = Some (HeapFree_insert (of_nat h) (of_nat (start b)) ?now (prev_ptr ?xs) m1)"
    using pp stop by (subst HeapFree_loop.simps) (simp only: if_True simp_thms)
  finally show ?thesis .
qed

lemma HeapFree_refines_split:
  assumes rep: "heap_rep (memory s) h f e (pre @ b # post)" and "used b"
  shows "\<exists>m'. HeapFree (of_nat (start b + 8)) s = Some (Inr (s\<lparr>memory := m'\<rparr>)) \<and>
    heap_rep m' h f e (free_spec (start b + 8) (pre @ b # post)) \<and>
    preserves h e (pre @ b\<lparr>used := False\<rparr> # post) (memory s) m'"
proof -
  from rep have lk: "linked (memory s) h f e (pre @ b # post)" and na: "no_adj_free (pre @ b # post)"
    by (simp_all add: heap_rep_def)
  then have lay: "layout h f e (pre @ b # post)" and "rd (memory s) (start b + 4) = of_nat h"
    and "of_nat h \<noteq> AVAIL_MAGIC"
    using assms(2) by (simp_all add: linked_def layout_def)
  with HeapFree_loop_eq [OF lk assms(2)] have "HeapFree (of_nat (start b + 8)) s = Some (Inr (s\<lparr>memory :=
      HeapFree_insert (of_nat h) (of_nat (start b)) (next_ptr (free_starts post)) (prev_ptr (free_starts pre))
        (wr (memory s) (start b + 4) AVAIL_MAGIC)\<rparr>))"
    by (simp add: HeapFree_def Let_def cell_simps)
  moreover have "no_adj_free (free_spec (start b + 8) (pre @ b # post))"
    unfolding free_spec_def by (rule no_adj_free_coalesce)
  ultimately show ?thesis
    using HeapFree_insert_refines [OF lk assms(2)] free_spec_eq [OF lay na] by (auto simp: heap_rep_def)
qed

end
