(* ===== verification/HeapContract.thy ===== *)
theory HeapContract
  imports Heap
begin

text \<open>
  What \<^verbatim>\<open>src/heap.c\<close> promises its clients, on top of the refinement lemmas of \<open>Heap\<close>: the contract
  of an allocator as a locale, its interpretation on \<open>HeapAlloc\<close> and \<open>HeapFree\<close>, and the properties
  of the allocator.
\<close>

section \<open>A fresh heap\<close>

definition first_block :: "nat \<Rightarrow> nat" where
  "first_block h = (h + 15) div 8 * 8"

lemma first_block_props: "h + 8 \<le> first_block h" "first_block h \<le> h + 15" "8 dvd first_block h"
  unfolding first_block_def by auto

lemma HeapInitialize_linked:
  fixes m :: mem
  assumes h: "0 < h" "of_nat h \<noteq> AVAIL_MAGIC" and n: "first_block h + 16 \<le> h + n" "h + n < 4294967296"
  defines "r \<equiv> HeapInitialize (of_nat n) (of_nat h) m"
  shows "fst r = of_nat h"
    and "heap_rep (snd r) h (first_block h) (h + n) [blk (first_block h) (h + n - first_block h) False]"
    and "heapSize (snd r) (of_nat h) = of_nat n" and "preserves h (h + n) [] m (snd r)"
proof -
  let ?f = "first_block h"
  note fb = first_block_props [of h]
  have al: "ALIGN_CEIL (of_nat h + 8) 8 = of_nat ?f"
    using ALIGN_CEIL_8 [of "h + 8"] n fb by (simp add: first_block_def add.commute)
  have sz: "of_nat h + of_nat n - of_nat ?f = (of_nat (h + n - ?f) :: u32)"
    using n by (simp del: of_nat_add add: of_nat_add [symmetric])
  have r: "r = (of_nat h, wr (wr (wr (wr (wr m h (of_nat n)) (h + 4) (of_nat ?f)) ?f (of_nat (h + n - ?f)))
      (?f + 4) AVAIL_MAGIC) (?f + 8) 0)"
    unfolding r_def HeapInitialize_def Let_def al sz cell_simps by simp
  show "fst r = of_nat h" by (simp add: r)
  show "heapSize (snd r) (of_nat h) = of_nat n"
    using fb n by (simp add: r cell_simps rd_wr_apart apart_def)
  show "heap_rep (snd r) h ?f (h + n) [blk ?f (h + n - ?f) False]"
    using h n fb by (simp add: r heap_rep_def linked_def layout_def rd_wr_apart apart_def)
  show "preserves h (h + n) [] m (snd r)"
    using fb n by (auto simp: r preserves_def protected_def wr_other_byte)
qed

section \<open>Allocation and release on the kernel state\<close>

lemma HeapAlloc_refines_aux:
  assumes rep: "heap_rep (memory s) h f e bs" and n: "0 < n" "n \<le> 4294967280"
    and hh: "hh = of_nat h \<or> hh = 0 \<and> hKernelHeap s = of_nat h"
  shows "case alloc_spec (request n) bs of
      None \<Rightarrow> HeapAlloc hh (of_nat n) s =
        (if of_nat h = hKernelHeap s then Some (Inl ''Kernel ran out of heap memory'') else Some (Inr (0, s)))
    | Some (p, cs) \<Rightarrow> \<exists>m'. HeapAlloc hh (of_nat n) s = Some (Inr (of_nat p, s\<lparr>memory := m'\<rparr>)) \<and>
        heap_rep m' h f e cs \<and> preserves h e bs (memory s) m'"
proof -
  have "(of_nat h :: addr) \<noteq> 0"
    using rep of_nat32_eq_0 [of h] tiles_le [of f bs e] by (auto simp: heap_rep_def linked_def layout_def)
  with hh have heap: "(if hh = 0 then hKernelHeap s else hh) = of_nat h" by auto
  have loop: "case alloc_spec (request n) bs of
      None \<Rightarrow> HeapAlloc_loop (of_nat h) (of_nat (request n)) (rd (memory s) (h + 4)) 0 (memory s) = Some (Inr None)
    | Some (p, cs) \<Rightarrow> \<exists>m'. HeapAlloc_loop (of_nat h) (of_nat (request n)) (rd (memory s) (h + 4)) 0 (memory s) =
        Some (Inr (Some (of_nat p, m'))) \<and> heap_rep m' h f e cs \<and> preserves h e bs (memory s) m'"
    using HeapAlloc_loop_refines [OF rep, of "request n"] request_props [of n] n by simp
  show ?thesis
  proof (cases "alloc_spec (request n) bs")
    case None
    with loop show ?thesis using n by (simp add: HeapAlloc_def Let_def heap request_size cell_simps)
  next
    case (Some r)
    then obtain m' where "HeapAlloc_loop (of_nat h) (of_nat (request n)) (rd (memory s) (h + 4)) 0 (memory s) =
        Some (Inr (Some (of_nat (fst r), m')))" "heap_rep m' h f e (snd r)" "preserves h e bs (memory s) m'"
      using loop by (cases r) auto
    with Some n show ?thesis
      by (cases r) (auto simp: HeapAlloc_def Let_def heap request_size cell_simps intro!: exI [of _ m'])
  qed
qed

lemma HeapFree_refines_aux:
  assumes "heap_rep (memory s) h f e bs" and "b \<in> set bs" and "used b"
  shows "\<exists>m'. HeapFree (of_nat (start b + 8)) s = Some (Inr (s\<lparr>memory := m'\<rparr>)) \<and>
    heap_rep m' h f e (free_spec (start b + 8) bs) \<and>
    preserves h e (filter (\<lambda>c. c \<noteq> b) bs) (memory s) m'"
proof -
  from assms(2) obtain pre post where bs: "bs = pre @ b # post" by (auto simp: in_set_conv_decomp)
  have "set (filter (\<lambda>c. c \<noteq> b) bs) \<subseteq> set (pre @ b\<lparr>used := False\<rparr> # post)" by (auto simp: bs)
  then show ?thesis
    using HeapFree_refines_split [of s h f e pre b post] assms preserves_mono
    by (metis (no_types, lifting) bs mem_Collect_eq subset_iff)
qed

section \<open>The specification keeps what is in use\<close>

lemma coalesce_used: "used b \<Longrightarrow> b \<in> set (coalesce bs) \<longleftrightarrow> b \<in> set bs"
  by (induction bs rule: coalesce.induct) auto

lemma carve_hd:
  assumes "n \<le> bsize b"
  shows "hd (carve n b) \<in> set (carve n b)" "used (hd (carve n b))" "start (hd (carve n b)) = start b"
    "n \<le> bsize (hd (carve n b))" "bsize (hd (carve n b)) \<le> bsize b"
  using assms by (simp_all add: carve_def)

lemma alloc_spec_keeps: "alloc_spec n bs = Some (p, cs) \<Longrightarrow> b \<in> set bs \<Longrightarrow> used b \<Longrightarrow> b \<in> set cs"
  by (auto dest!: alloc_spec_split)

lemma free_spec_keeps: "b \<in> set bs \<Longrightarrow> used b \<Longrightarrow> start b + 8 \<noteq> p \<Longrightarrow> b \<in> set (free_spec p bs)"
  by (auto simp: free_spec_def coalesce_used intro!: image_eqI [of _ _ b])

lemma alloc_spec_fresh:
  assumes "alloc_spec n bs = Some (q, cs)" and lay: "layout h f e bs"
  shows "\<exists>b \<in> set cs. used b \<and> q = start b + 8 \<and> n \<le> bsize b \<and>
    (\<forall>c \<in> set bs. used c \<longrightarrow> c \<in> set cs \<and> (start c + bsize c \<le> start b \<or> start b + bsize b \<le> start c))"
proof -
  from alloc_spec_split [OF assms(1)] obtain pre b post where
    sp: "bs = pre @ b # post" "\<not> used b" "n \<le> bsize b" "q = start b + 8" "cs = pre @ carve n b @ post" by blast
  let ?b = "hd (carve n b)"
  note hd = carve_hd [OF sp(3)]
  have lay': "layout h f e (pre @ b # post)" using lay sp(1) by simp
  have "c \<in> set pre \<or> c \<in> set post" if "c \<in> set bs" "used c" for c using that sp(1,2) by auto
  then have "c \<in> set cs \<and> (start c + bsize c \<le> start ?b \<or> start ?b + bsize ?b \<le> start c)"
    if "c \<in> set bs" "used c" for c
    using that layout_split(2) [OF lay'] tiles_block [of f pre "start b"] lay' hd sp(5)
    by (fastforce simp: layout_def tiles_split)
  with hd sp(4,5) show ?thesis by (intro bexI [of _ ?b]) auto
qed

text \<open>Releasing what was just allocated gives back the block list, up to the last byte.\<close>

lemma free_alloc_spec:
  assumes "alloc_spec n bs = Some (p, cs)" and lay: "layout h f e bs" and na: "no_adj_free bs"
    and n: "16 \<le> n" "8 dvd n"
  shows "free_spec p cs = bs"
proof -
  from alloc_spec_split [OF assms(1)] obtain pre b post where
    sp: "bs = pre @ b # post" "\<not> used b" "n \<le> bsize b" "p = start b + 8" "cs = pre @ carve n b @ post"
    by blast
  have b: "b = blk (start b) (bsize b) False" using sp(2) by (cases b) simp
  have pre: "pre = [] \<or> used (last pre)" and post: "post = [] \<or> used (hd post)"
    using na sp(1,2) by (auto simp: no_adj_free_append no_adj_free_Cons)
  have lay': "layout h f e (pre @ carve n b @ post)"
    using carve_layout [OF lay [unfolded sp(1)] n] sp(3) by simp
  have na': "no_adj_free (pre @ carve n b @ post)" by (rule carve_no_adj_free) (use na sp in auto)
  have ab: "absorb b post = b # post" using post by (auto simp: absorb_def split: list.splits)
  show ?thesis
  proof (cases "n + 16 \<le> bsize b")
    case True
    then have c: "carve n b = [blk (start b) n True, blk (start b + n) (bsize b - n) False]"
      by (simp add: carve_def)
    have "free_spec p cs = pre @ absorb (blk (start b) n False) (blk (start b + n) (bsize b - n) False # post)"
      using free_spec_eq [of h f e pre "blk (start b) n True" "blk (start b + n) (bsize b - n) False # post"]
        lay' na' pre by (auto simp: sp(4,5) c)
    also have "\<dots> = pre @ b # post" using b True by (simp add: absorb_def merged_def)
    finally show ?thesis by (simp add: sp(1))
  next
    case False
    then have c: "carve n b = [blk (start b) (bsize b) True]" by (simp add: carve_def)
    have "free_spec p cs = pre @ absorb (blk (start b) (bsize b) False) post"
      using free_spec_eq [of h f e pre "blk (start b) (bsize b) True" post] lay' na' pre by (auto simp: sp(4,5) c)
    then show ?thesis using ab b by (simp add: sp(1))
  qed
qed

lemma all_free_single:
  assumes "tiles f bs e" and "no_adj_free bs" and "\<And>b. b \<in> set bs \<Longrightarrow> \<not> used b" and "bs \<noteq> []"
  shows "bs = [blk f (e - f) False]"
proof (cases bs)
  case (Cons b cs)
  with assms(2,3) have "cs = []" by (cases cs) auto
  with assms Cons show ?thesis by (cases b) auto
qed (use assms in simp)

section \<open>The contract of an allocator\<close>

datatype client_op = Get nat | Put addr

fun run_ops ::
    "(nat \<Rightarrow> 's \<Rightarrow> (addr \<times> 's) outcome option) \<Rightarrow> (addr \<Rightarrow> 's \<Rightarrow> 's outcome option) \<Rightarrow>
      client_op list \<Rightarrow> 's \<Rightarrow> 's option" where
  "run_ops al fr [] s = Some s"
| "run_ops al fr (Get n # ops) s =
     (case al n s of Some (Inr (p, s')) \<Rightarrow> run_ops al fr ops s' | _ \<Rightarrow> None)"
| "run_ops al fr (Put p # ops) s =
     (case fr p s of Some (Inr s') \<Rightarrow> run_ops al fr ops s' | _ \<Rightarrow> None)"

text \<open>A client that asks for a sensible size and only releases what it holds.\<close>

fun spec_run :: "client_op list \<Rightarrow> block list \<Rightarrow> block list option" where
  "spec_run [] bs = Some bs"
| "spec_run (Get n # ops) bs =
     (if 0 < n \<and> n \<le> 4294967280
      then case alloc_spec (request n) bs of Some (p, cs) \<Rightarrow> spec_run ops cs | None \<Rightarrow> None
      else None)"
| "spec_run (Put p # ops) bs =
     (if \<exists>b \<in> set bs. used b \<and> of_nat (start b + 8) = p then spec_run ops (free_spec (unat p) bs) else None)"

locale allocator =
  fixes rep :: "'s \<Rightarrow> block list \<Rightarrow> bool"
    and al :: "nat \<Rightarrow> 's \<Rightarrow> (addr \<times> 's) outcome option"
    and fr :: "addr \<Rightarrow> 's \<Rightarrow> 's outcome option"
    and byte :: "'s \<Rightarrow> nat \<Rightarrow> u8"
    and lo hi :: nat
  assumes al_ok: "rep s bs \<Longrightarrow> 0 < n \<Longrightarrow> n \<le> 4294967280 \<Longrightarrow> alloc_spec (request n) bs = Some (p, cs) \<Longrightarrow>
      \<exists>s'. al n s = Some (Inr (of_nat p, s')) \<and> rep s' cs \<and>
        (\<forall>b \<in> set bs. used b \<longrightarrow> (\<forall>x. start b + 8 \<le> x \<and> x < start b + bsize b \<longrightarrow> byte s' x = byte s x))"
    and fr_ok: "rep s bs \<Longrightarrow> b \<in> set bs \<Longrightarrow> used b \<Longrightarrow>
      \<exists>s'. fr (of_nat (start b + 8)) s = Some (Inr s') \<and> rep s' (free_spec (start b + 8) bs) \<and>
        (\<forall>c \<in> set bs. used c \<and> c \<noteq> b \<longrightarrow> (\<forall>x. start c + 8 \<le> x \<and> x < start c + bsize c \<longrightarrow> byte s' x = byte s x))"
    and rep_tiles: "rep s bs \<Longrightarrow> tiles lo bs hi \<and> no_adj_free bs \<and> hi < 4294967296"
begin

lemma put_addr:
  assumes "rep s bs" and "b \<in> set bs"
  shows "unat (of_nat (start b + 8) :: addr) = start b + 8"
proof -
  have "start b + 16 \<le> hi" "hi < 4294967296"
    using rep_tiles [OF assms(1)] tiles_block [of lo bs hi b] assms(2) by auto
  then show ?thesis by (intro unat_of_nat32) simp
qed

text \<open>Any run of a well-behaved client succeeds, and the blocks it never releases keep their contents.\<close>

lemma client_run:
  assumes "spec_run ops bs = Some cs" and "rep s bs"
  shows "\<exists>s'. run_ops al fr ops s = Some s' \<and> rep s' cs \<and>
    (\<forall>b \<in> set bs. used b \<and> Put (of_nat (start b + 8)) \<notin> set ops \<longrightarrow>
      b \<in> set cs \<and> (\<forall>x. start b + 8 \<le> x \<and> x < start b + bsize b \<longrightarrow> byte s' x = byte s x))"
  using assms
proof (induction ops bs arbitrary: s rule: spec_run.induct)
  case (2 n ops bs)
  then obtain p ds where n: "0 < n" "n \<le> 4294967280" and ds: "alloc_spec (request n) bs = Some (p, ds)"
    and run: "spec_run ops ds = Some cs" by (auto split: if_splits option.splits)
  from al_ok [OF "2.prems"(2) n ds] obtain s1 where
    s1: "al n s = Some (Inr (of_nat p, s1))" "rep s1 ds"
      "\<forall>b \<in> set bs. used b \<longrightarrow> (\<forall>x. start b + 8 \<le> x \<and> x < start b + bsize b \<longrightarrow> byte s1 x = byte s x)" by blast
  from "2.IH" [OF _ ds refl run s1(2)] n obtain s2 where
    s2: "run_ops al fr ops s1 = Some s2" "rep s2 cs"
      "\<forall>b \<in> set ds. used b \<and> Put (of_nat (start b + 8)) \<notin> set ops \<longrightarrow>
        b \<in> set cs \<and> (\<forall>x. start b + 8 \<le> x \<and> x < start b + bsize b \<longrightarrow> byte s2 x = byte s1 x)" by blast
  with s1 alloc_spec_keeps [OF ds] show ?case by (intro exI [of _ s2]) auto
next
  case (3 p ops bs)
  then obtain b where b: "b \<in> set bs" "used b" "p = of_nat (start b + 8)"
    and run: "spec_run ops (free_spec (unat p) bs) = Some cs" by (auto split: if_splits)
  have up: "unat p = start b + 8" using put_addr [OF "3.prems"(2) b(1)] b(3) by simp
  from fr_ok [OF "3.prems"(2) b(1,2)] obtain s1 where
    s1: "fr p s = Some (Inr s1)" "rep s1 (free_spec (unat p) bs)"
      "\<forall>c \<in> set bs. used c \<and> c \<noteq> b \<longrightarrow> (\<forall>x. start c + 8 \<le> x \<and> x < start c + bsize c \<longrightarrow> byte s1 x = byte s x)"
    unfolding b(3) put_addr [OF "3.prems"(2) b(1)] by blast
  from "3.IH" [OF _ run s1(2)] b obtain s2 where
    s2: "run_ops al fr ops s1 = Some s2" "rep s2 cs"
      "\<forall>c \<in> set (free_spec (unat p) bs). used c \<and> Put (of_nat (start c + 8)) \<notin> set ops \<longrightarrow>
        c \<in> set cs \<and> (\<forall>x. start c + 8 \<le> x \<and> x < start c + bsize c \<longrightarrow> byte s2 x = byte s1 x)" by blast
  have "c \<noteq> b \<and> c \<in> set (free_spec (unat p) bs)" if "c \<in> set bs" "used c" "of_nat (start c + 8) \<noteq> p" for c
    using that b(3) free_spec_keeps [OF that(1,2), of "unat p"] up by metis
  with s1 s2 show ?case by (intro exI [of _ s2]) auto
qed auto

end

section \<open>The kernel heap meets the contract\<close>

definition kheap_rep :: "nat \<Rightarrow> nat \<Rightarrow> nat \<Rightarrow> kheap \<Rightarrow> block list \<Rightarrow> bool" where
  "kheap_rep h f e s bs \<longleftrightarrow> heap_rep (memory s) h f e bs"

definition heap_byte :: "kheap \<Rightarrow> nat \<Rightarrow> u8" where
  "heap_byte s x = memory s (of_nat x)"

lemma heap_rep_layout: "heap_rep m h f e bs \<Longrightarrow> layout h f e bs \<and> no_adj_free bs"
  by (simp add: heap_rep_def linked_def)

lemma heap_block:
  "heap_rep m h f e bs \<Longrightarrow> b \<in> set bs \<Longrightarrow>
     h + 8 \<le> start b \<and> start b + bsize b \<le> e \<and> e < 4294967296 \<and> 16 \<le> bsize b \<and> 8 dvd start b"
  using tiles_block [of f bs e b] by (auto simp: heap_rep_def linked_def layout_def)

lemma preserves_payload:
  assumes "preserves h e cs m m'" and "b \<in> set cs" and "used b" and "start b + bsize b \<le> e" and "e < 4294967296"
    and "start b + 8 \<le> x" and "x < start b + bsize b"
  shows "m' (of_nat x) = m (of_nat x)"
proof -
  have "x < 4294967296" and "protected h e cs x" using assms by (auto simp: protected_def)
  with assms(1) show ?thesis by (simp add: preserves_def)
qed

interpretation kh: allocator "kheap_rep h f e" "\<lambda>n. HeapAlloc (of_nat h) (of_nat n)" HeapFree heap_byte f e
  for h f e :: nat
proof
  fix s :: kheap and bs cs :: "block list" and n p :: nat
  assume rep: "kheap_rep h f e s bs" and n: "0 < n" "n \<le> 4294967280"
    and sp: "alloc_spec (request n) bs = Some (p, cs)"
  from HeapAlloc_refines_aux [of s h f e bs n "of_nat h"] rep n sp obtain m' where
    "HeapAlloc (of_nat h) (of_nat n) s = Some (Inr (of_nat p, s\<lparr>memory := m'\<rparr>))" "heap_rep m' h f e cs"
    "preserves h e bs (memory s) m'" by (auto simp: kheap_rep_def)
  then show "\<exists>s'. HeapAlloc (of_nat h) (of_nat n) s = Some (Inr (of_nat p, s')) \<and> kheap_rep h f e s' cs \<and>
    (\<forall>b \<in> set bs. used b \<longrightarrow> (\<forall>x. start b + 8 \<le> x \<and> x < start b + bsize b \<longrightarrow> heap_byte s' x = heap_byte s x))"
    using rep heap_block by (auto simp: kheap_rep_def heap_byte_def dest: preserves_payload)
next
  fix s :: kheap and bs :: "block list" and b :: block
  assume rep: "kheap_rep h f e s bs" and b: "b \<in> set bs" "used b"
  from HeapFree_refines_aux [of s h f e bs b] rep b obtain m' where
    m': "HeapFree (of_nat (start b + 8)) s = Some (Inr (s\<lparr>memory := m'\<rparr>))"
    "heap_rep m' h f e (free_spec (start b + 8) bs)"
    "preserves h e (filter (\<lambda>c. c \<noteq> b) bs) (memory s) m'" unfolding kheap_rep_def by blast
  show "\<exists>s'. HeapFree (of_nat (start b + 8)) s = Some (Inr s') \<and> kheap_rep h f e s' (free_spec (start b + 8) bs) \<and>
    (\<forall>c \<in> set bs. used c \<and> c \<noteq> b \<longrightarrow>
      (\<forall>x. start c + 8 \<le> x \<and> x < start c + bsize c \<longrightarrow> heap_byte s' x = heap_byte s x))"
    using rep m' heap_block by (intro exI) (auto simp: kheap_rep_def heap_byte_def intro!: preserves_payload [OF m'(3)])
next
  show "tiles f bs e \<and> no_adj_free bs \<and> e < 4294967296" if "kheap_rep h f e s bs" for s bs
    using that by (simp add: kheap_rep_def heap_rep_def linked_def layout_def)
qed

section \<open>A concrete heap\<close>

text \<open>A 4 KiB heap at \<open>0x10000\<close> in zeroed memory, installed as the kernel heap.\<close>

definition demo_heap :: kheap where
  "demo_heap = \<lparr>memory = snd (HeapInitialize 4096 65536 (\<lambda>_. 0)), hKernelHeap = 65536\<rparr>"

lemma demo_handle: "hKernelHeap demo_heap = 65536"
  by (simp add: demo_heap_def)

lemma demo_magic: "65536 \<noteq> AVAIL_MAGIC"
  by (simp add: AVAIL_MAGIC_def)

lemma demo_first_block: "first_block 65536 = 65544"
  by (simp add: first_block_def)

lemma demo_rep: "heap_rep (memory demo_heap) 65536 65544 69632 [blk 65544 4088 False]"
  using HeapInitialize_linked(2) [of 65536 4096 "\<lambda>_. 0"]
  by (simp add: demo_heap_def demo_magic demo_first_block)

text \<open>Evaluation of the heap code on numeric addresses.\<close>

lemma numeral_cells:
  "ld32 m (numeral k) = rd m (numeral k)" "st32 m (numeral k) v = wr m (numeral k) v"
  by (simp_all add: rd_def wr_def)

lemma HeapAlloc_loop_hit:
  "now \<noteq> 0 \<Longrightarrow> node_free m now = AVAIL_MAGIC \<Longrightarrow> sz \<le> node_size m now \<Longrightarrow>
   HeapAlloc_loop h sz now prev m = Some (Inr (Some (HeapAlloc_take h sz now prev m)))"
  by (simp add: HeapAlloc_loop.simps)

lemma HeapFree_loop_stop:
  "now \<noteq> 0 \<or> pp \<noteq> 0 \<Longrightarrow> now = 0 \<or> node < now \<Longrightarrow>
   HeapFree_loop h node now prev pp m = Some (HeapFree_insert h node now prev m)"
  by (simp add: HeapFree_loop.simps)

lemma demo_memory:
  "memory demo_heap =
     wr (wr (wr (wr (wr (\<lambda>_. 0) 65536 4096) 65540 65544) 65544 4088) 65548 AVAIL_MAGIC) 65552 0"
  by (simp add: demo_heap_def HeapInitialize_def ALIGN_CEIL_def Let_def field_defs numeral_cells)

lemmas heap_eval = Let_def field_defs ALIGN_CEIL_def HeapAlloc_take_def MIN_NODE_SIZE_def numeral_cells
  rd_wr_apart apart_def HeapAlloc_loop_hit HeapFree_loop_stop HeapFree_insert_def HeapAlloc_def HeapFree_def
  demo_memory demo_handle demo_magic

section \<open>Properties\<close>

text \<open>
  C32: \<open>HeapAlloc\<close> implements first-fit allocation. On a well-formed heap, a request of \<open>n\<close> bytes (rounded
  up to 8 plus the 8-byte header) either finds the first free block that is large enough, splits it
  when the rest can be a block, returns its payload and leaves a well-formed heap with exactly that
  change and every payload in use untouched; or no free block is large enough, and then the call
  returns NULL without changing anything, or panics if this is the kernel heap.
\<close>

theorem heap_alloc_refines:
  assumes "heap_rep (memory s) h f e bs" and "0 < n" and "n \<le> 4294967280"
    and "hh = of_nat h \<or> hh = 0 \<and> hKernelHeap s = of_nat h"
  shows "case alloc_spec (request n) bs of
      None \<Rightarrow> HeapAlloc hh (of_nat n) s =
        (if of_nat h = hKernelHeap s then Some (Inl ''Kernel ran out of heap memory'') else Some (Inr (0, s)))
    | Some (p, cs) \<Rightarrow> \<exists>m'. HeapAlloc hh (of_nat n) s = Some (Inr (of_nat p, s\<lparr>memory := m'\<rparr>)) \<and>
        heap_rep m' h f e cs \<and> preserves h e bs (memory s) m'"
  using assms by (rule HeapAlloc_refines_aux)

theorem heap_alloc_refines_witness:
  "\<exists>m'. HeapAlloc 0 100 demo_heap = Some (Inr (65552, demo_heap\<lparr>memory := m'\<rparr>)) \<and>
     heap_rep m' 65536 65544 69632 [blk 65544 112 True, blk 65656 3976 False] \<and>
     preserves 65536 69632 [blk 65544 4088 False] (memory demo_heap) m'"
  using heap_alloc_refines [OF demo_rep, of 100 0]
  by (simp add: demo_handle request_def carve_def)

text \<open>
  C33: \<open>HeapFree\<close> implements release with coalescing. Releasing the payload address of a block that is in
  use terminates without panic, leaves a well-formed heap in which the block is free and merged with
  its free neighbours on both sides, and changes no byte outside the heap and no payload of another
  block in use.
\<close>

theorem heap_free_refines:
  assumes "heap_rep (memory s) h f e bs" and "b \<in> set bs" and "used b"
  shows "\<exists>m'. HeapFree (of_nat (start b + 8)) s = Some (Inr (s\<lparr>memory := m'\<rparr>)) \<and>
    heap_rep m' h f e (free_spec (start b + 8) bs) \<and>
    preserves h e (filter (\<lambda>c. c \<noteq> b) bs) (memory s) m'"
  using assms by (rule HeapFree_refines_aux)

theorem heap_free_refines_witness:
  "\<exists>m. heap_rep m 65536 65544 69632 [blk 65544 112 True, blk 65656 3976 False] \<and>
     (\<exists>m'. HeapFree 65552 (demo_heap\<lparr>memory := m\<rparr>) = Some (Inr (demo_heap\<lparr>memory := m'\<rparr>)) \<and>
       heap_rep m' 65536 65544 69632 [blk 65544 4088 False])"
proof -
  let ?bs = "[blk 65544 112 True, blk 65656 3976 False]"
  from HeapAlloc_refines_aux [OF demo_rep, of 100 0] obtain m where m: "heap_rep m 65536 65544 69632 ?bs"
    by (auto simp: demo_handle request_def carve_def)
  then have "heap_rep (memory (demo_heap\<lparr>memory := m\<rparr>)) 65536 65544 69632 ?bs" by simp
  from heap_free_refines [OF this, of "blk 65544 112 True"] m show ?thesis
    by (auto simp: free_spec_def)
qed

text \<open>
  \<open>HeapInitialize\<close> builds a well-formed heap: one free block from the first 8-aligned address after
  the heap header to the end of the region, with nothing outside the region written.
\<close>

theorem heap_init_establishes:
  assumes "0 < h" and "of_nat h \<noteq> AVAIL_MAGIC" and "first_block h + 16 \<le> h + n" and "h + n < 4294967296"
  shows "\<exists>m'. HeapInitialize (of_nat n) (of_nat h) m = (of_nat h, m') \<and>
    heap_rep m' h (first_block h) (h + n) [blk (first_block h) (h + n - first_block h) False] \<and>
    heapSize m' (of_nat h) = of_nat n \<and> preserves h (h + n) [] m m'"
  using HeapInitialize_linked [OF assms, of m] by (metis prod.collapse)

theorem heap_init_establishes_witness:
  "\<exists>m'. HeapInitialize 4096 65536 (\<lambda>_. 0) = (65536, m') \<and>
    heap_rep m' 65536 65544 69632 [blk 65544 4088 False] \<and> heapSize m' 65536 = 4096"
  using heap_init_establishes [of 65536 4096 "\<lambda>_. 0"] by (auto simp: demo_magic demo_first_block)

text \<open>
  A pointer returned by \<open>HeapAlloc\<close> is fresh and usable: it is 8-aligned, the \<open>n\<close> requested bytes lie
  inside the heap and inside one block that is now in use, every block in use before is still there,
  and none of them overlaps the new one.
\<close>

theorem heap_alloc_fresh:
  assumes rep: "heap_rep (memory s) h f e bs" and n: "0 < n" "n \<le> 4294967280"
    and al: "HeapAlloc (of_nat h) (of_nat n) s = Some (Inr (p, s'))" and "p \<noteq> 0"
  shows "\<exists>cs b. heap_rep (memory s') h f e cs \<and> b \<in> set cs \<and> used b \<and> unat p = start b + 8 \<and>
    8 dvd unat p \<and> h + 8 < unat p \<and> unat p + n \<le> start b + bsize b \<and> start b + bsize b \<le> e \<and>
    (\<forall>c \<in> set bs. used c \<longrightarrow> c \<in> set cs \<and> (start c + bsize c \<le> start b \<or> start b + bsize b \<le> start c))"
proof -
  note ref = HeapAlloc_refines_aux [OF rep n, of "of_nat h"]
  show ?thesis
  proof (cases "alloc_spec (request n) bs")
    case None
    with ref al assms(5) show ?thesis by (auto split: if_splits)
  next
    case (Some r)
    obtain q cs where r: "r = (q, cs)" by (cases r)
    with ref Some al have q: "p = of_nat q" "heap_rep (memory s') h f e cs" by auto
    from alloc_spec_fresh [OF Some [unfolded r]] heap_rep_layout [OF rep] obtain b where
      b: "b \<in> set cs" "used b" "q = start b + 8" "request n \<le> bsize b"
        "\<forall>c \<in> set bs. used c \<longrightarrow> c \<in> set cs \<and> (start c + bsize c \<le> start b \<or> start b + bsize b \<le> start c)" by blast
    have "unat p = start b + 8"
      unfolding q(1) b(3) by (rule unat_of_nat32) (use heap_block [OF q(2) b(1)] in linarith)
    then show ?thesis
      using q(2) b heap_block [OF q(2) b(1)] request_props(3) [of n] by (intro exI [of _ cs] exI [of _ b]) auto
  qed
qed

theorem heap_alloc_fresh_witness:
  "\<exists>s' cs b. HeapAlloc 65536 100 demo_heap = Some (Inr (65552, s')) \<and> heap_rep (memory s') 65536 65544 69632 cs \<and>
     b \<in> set cs \<and> used b \<and> unat (65552 :: addr) = start b + 8"
proof -
  from HeapAlloc_refines_aux [OF demo_rep, of 100 65536] obtain s' where
    s': "HeapAlloc 65536 100 demo_heap = Some (Inr (65552, s'))" by (auto simp: demo_handle request_def)
  then have "HeapAlloc (of_nat 65536) (of_nat 100) demo_heap = Some (Inr (65552, s'))" by simp
  from heap_alloc_fresh [OF demo_rep _ _ this] s' show ?thesis by (auto simp del: unat_numeral)
qed

text \<open>
  Allocation followed by release of the returned pointer gives back the same heap: after \<open>HeapAlloc\<close>
  has found a block, \<open>HeapFree\<close> of its result succeeds and the heap has exactly the blocks it had
  before, with no fragmentation left behind.
\<close>

theorem heap_alloc_free_roundtrip:
  assumes rep: "heap_rep (memory s) h f e bs" and n: "0 < n" "n \<le> 4294967280"
    and room: "\<exists>b \<in> set bs. \<not> used b \<and> request n \<le> bsize b"
  shows "\<exists>p s1 s2. HeapAlloc (of_nat h) (of_nat n) s = Some (Inr (p, s1)) \<and>
    HeapFree p s1 = Some (Inr s2) \<and> heap_rep (memory s2) h f e bs"
proof -
  from room obtain q cs where sp: "alloc_spec (request n) bs = Some (q, cs)"
    by (cases "alloc_spec (request n) bs") (auto simp: alloc_spec_None)
  from HeapAlloc_refines_aux [OF rep n, of "of_nat h"] sp obtain m1 where
    al: "HeapAlloc (of_nat h) (of_nat n) s = Some (Inr (of_nat q, s\<lparr>memory := m1\<rparr>))"
    and m1: "heap_rep (memory (s\<lparr>memory := m1\<rparr>)) h f e cs" by auto
  from alloc_spec_split [OF sp] obtain pre b post where
    b: "request n \<le> bsize b" "q = start b + 8" "cs = pre @ carve (request n) b @ post" by blast
  have "free_spec q cs = bs"
    using free_alloc_spec [OF sp] heap_rep_layout [OF rep] request_props n by blast
  with HeapFree_refines_aux [OF m1, of "hd (carve (request n) b)"] carve_hd [OF b(1)] b(2,3) al
  show ?thesis by fastforce
qed

theorem heap_alloc_free_roundtrip_witness:
  "\<exists>p s1 s2. HeapAlloc 65536 100 demo_heap = Some (Inr (p, s1)) \<and> HeapFree p s1 = Some (Inr s2) \<and>
     heap_rep (memory s2) 65536 65544 69632 [blk 65544 4088 False]"
  using heap_alloc_free_roundtrip [OF demo_rep, of 100] by (simp add: request_def)



text \<open>
  Releasing a free block is detected. If the address handed to \<open>HeapFree\<close> is the payload address of a
  block that is already free, the call panics with "Double free" and nothing is written.
\<close>

theorem heap_double_free_panics:
  assumes "heap_rep (memory s) h f e bs" and "b \<in> set bs" and "\<not> used b"
  shows "HeapFree (of_nat (start b + 8)) s = Some (Inl ''Double free'')"
proof -
  have "rd (memory s) (start b + 4) = AVAIL_MAGIC"
    using assms by (auto simp: heap_rep_def linked_def headers_def)
  then show ?thesis by (simp add: HeapFree_def Let_def cell_simps)
qed

theorem heap_double_free_panics_witness: "HeapFree 65552 demo_heap = Some (Inl ''Double free'')"
  using heap_double_free_panics [OF demo_rep, of "blk 65544 4088 False"] by simp

text \<open>
  No fragmentation remains once everything is released: a well-formed heap with no block in use is one
  single free block that covers the whole heap, so the next allocation can use all of it.
\<close>

theorem heap_all_released_single:
  assumes "heap_rep m h f e bs" and "\<forall>b \<in> set bs. \<not> used b" and "bs \<noteq> []"
  shows "bs = [blk f (e - f) False] \<and> firstAvail m (of_nat h) = of_nat f \<and> node_size m (of_nat f) = of_nat (e - f)"
proof -
  have "bs = [blk f (e - f) False]"
    using all_free_single [of f bs e] assms by (simp add: heap_rep_def linked_def layout_def)
  with assms(1) show ?thesis by (simp add: heap_rep_def linked_def cell_simps)
qed

theorem heap_all_released_single_witness:
  "firstAvail (memory demo_heap) 65536 = 65544 \<and> node_size (memory demo_heap) 65544 = 4088"
  using heap_all_released_single [OF demo_rep] by simp


text \<open>
  The size computation of \<open>HeapAlloc\<close> wraps around. A request for \<open>2^32 - 1\<close> bytes is not refused:
  \<open>ALIGN_CEIL(size, 8) + 8\<close> is 8, and the caller gets a pointer to a node of 8 bytes, all header.
\<close>

theorem heap_huge_request_wraps:
  "case HeapAlloc 0 0xFFFFFFFF demo_heap of
     Some (Inr (p, s1)) \<Rightarrow> p \<noteq> 0 \<and> node_size (memory s1) (p - 8) = 8 | _ \<Rightarrow> False"
  by (simp add: heap_eval)

end
