(* ===== verification/Ctype.thy ===== *)
theory Ctype
  imports Prelude
begin

text \<open>
  The character classes of \<^verbatim>\<open>src/ctype.c\<close> (the user library's \<^verbatim>\<open>user/lib/ctype.c\<close> is the same file).
  The functions take a C \<open>int\<close>; none of their expressions can overflow, so \<open>int\<close> is HOL's.
  Character constants are written \<open>chr CHR ''a''\<close>, the character's ASCII code.
\<close>

abbreviation chr :: "char \<Rightarrow> int" where
  "chr c \<equiv> of_char c"

definition isascii :: "int \<Rightarrow> bool" where
  "isascii c \<longleftrightarrow> c AND NOT 0x7F = 0"

definition isupper :: "int \<Rightarrow> bool" where
  "isupper c \<longleftrightarrow> c \<ge> chr CHR ''A'' \<and> c \<le> chr CHR ''Z''"

definition islower :: "int \<Rightarrow> bool" where
  "islower c \<longleftrightarrow> c \<ge> chr CHR ''a'' \<and> c \<le> chr CHR ''z''"

definition isspace :: "int \<Rightarrow> bool" where
  "isspace c \<longleftrightarrow> c = chr CHR '' '' \<or> (c \<ge> 0x9 \<and> c \<le> 0xd)"

definition isdigit :: "int \<Rightarrow> bool" where
  "isdigit c \<longleftrightarrow> c \<ge> chr CHR ''0'' \<and> c \<le> chr CHR ''9''"

definition isxdigit :: "int \<Rightarrow> bool" where
  "isxdigit c \<longleftrightarrow> isdigit c \<or> (c \<ge> chr CHR ''a'' \<and> c \<le> chr CHR ''f'') \<or> (c \<ge> chr CHR ''A'' \<and> c \<le> chr CHR ''F'')"

definition isalpha :: "int \<Rightarrow> bool" where
  "isalpha c \<longleftrightarrow> isupper c \<or> islower c"

definition isalnum :: "int \<Rightarrow> bool" where
  "isalnum c \<longleftrightarrow> isalpha c \<or> isdigit c"

definition iscntrl :: "int \<Rightarrow> bool" where
  "iscntrl c \<longleftrightarrow> (c \<ge> 0 \<and> c < chr CHR '' '') \<or> c = 127"

definition isgraph :: "int \<Rightarrow> bool" where
  "isgraph c \<longleftrightarrow> c \<ge> chr CHR ''!'' \<and> c \<le> chr CHR ''~''"

definition ispunct :: "int \<Rightarrow> bool" where
  "ispunct c \<longleftrightarrow> (c \<ge> chr CHR ''!'' \<and> c \<le> chr CHR ''/'') \<or> (c \<ge> chr CHR '':'' \<and> c \<le> chr CHR ''@'') \<or>
     (c \<ge> chr CHR ''['' \<and> c \<le> chr CHR 0x60) \<or> (c \<ge> chr CHR ''{'' \<and> c \<le> chr CHR ''~'')"

definition toupper :: "int \<Rightarrow> int" where
  "toupper c = (if islower c then c - chr CHR ''a'' + chr CHR ''A'' else c)"

definition tolower :: "int \<Rightarrow> int" where
  "tolower c = (if isupper c then c - chr CHR ''A'' + chr CHR ''a'' else c)"

definition isprint :: "int \<Rightarrow> bool" where
  "isprint c \<longleftrightarrow> c \<ge> chr CHR '' '' \<and> c \<le> chr CHR ''~''"

lemmas ctype_defs = isupper_def islower_def isspace_def isdigit_def isxdigit_def isalpha_def isalnum_def
  iscntrl_def isgraph_def ispunct_def isprint_def

text \<open>The mask of \<open>isascii\<close> keeps exactly the codes below 128.\<close>

lemma isascii_iff: "isascii c \<longleftrightarrow> 0 \<le> c \<and> c < 128"
proof -
  have "c AND NOT (mask 7) = push_bit 7 (drop_bit 7 c)"
    by (rule bit_eqI) (auto simp: bit_simps)
  then have "c AND NOT 0x7F = 128 * (c div 128)"
    by (simp add: mask_eq_exp_minus_1 push_bit_eq_mult drop_bit_eq_div mult.commute)
  then show ?thesis unfolding isascii_def by auto
qed


end
