(* ===== verification/CString.thy ===== *)
theory CString
  imports Ctype
begin

text \<open>
  The memory and string functions of \<^verbatim>\<open>src/string.c\<close>. Pointers are addresses of the byte memory, the loops advance them with the
  machine's 32-bit arithmetic, and a loop that runs until it meets a NUL byte is a
  \<^theory_text>\<open>partial_function (option)\<close>: on a memory with no NUL byte it never returns. A comparison returns
  the C \<open>int\<close> it computes, the difference of two bytes.
\<close>

section \<open>The code\<close>

subsection \<open>Memory blocks\<close>

text \<open>The loops \<open>for (i = 0; i < len; i++)\<close>; the counter cannot wrap because it stays below \<open>len\<close>.\<close>

function memset_loop :: "addr \<Rightarrow> u8 \<Rightarrow> u32 \<Rightarrow> u32 \<Rightarrow> mem \<Rightarrow> mem" where
  "memset_loop b c len i m = (if i < len then memset_loop b c len (i + 1) (m(b + i := c)) else m)"
  by pat_completeness auto
termination
  by (relation "measure (\<lambda>(b, c, len, i, m). unat len - unat i)") (auto simp: word_count_up)

definition memset :: "addr \<Rightarrow> u32 \<Rightarrow> u32 \<Rightarrow> mem \<Rightarrow> addr \<times> mem" where
  "memset b c len m = (b, memset_loop b (ucast c) len 0 m)"

text \<open>The loop \<open>do ... while (--n != 0)\<close> of \<open>memcmp\<close>.\<close>

function memcmp_loop :: "mem \<Rightarrow> addr \<Rightarrow> addr \<Rightarrow> u32 \<Rightarrow> int" where
  "memcmp_loop m p1 p2 n =
     (if m p1 \<noteq> m p2 then uint (m p1) - uint (m p2)
      else if n - 1 \<noteq> 0 then memcmp_loop m (p1 + 1) (p2 + 1) (n - 1)
      else 0)"
  by pat_completeness auto
termination
  by (relation "measure (\<lambda>(m, p1, p2, n). unat (n - 1))") (auto simp: word_count_down2)

definition memcmp :: "mem \<Rightarrow> addr \<Rightarrow> addr \<Rightarrow> u32 \<Rightarrow> int" where
  "memcmp m s1 s2 n = (if n \<noteq> 0 then memcmp_loop m s1 s2 n else 0)"

function memcpy_loop :: "addr \<Rightarrow> addr \<Rightarrow> u32 \<Rightarrow> u32 \<Rightarrow> mem \<Rightarrow> mem" where
  "memcpy_loop dst src n i m = (if i < n then memcpy_loop dst src n (i + 1) (m(dst + i := m (src + i))) else m)"
  by pat_completeness auto
termination
  by (relation "measure (\<lambda>(dst, src, n, i, m). unat n - unat i)") (auto simp: word_count_up)

definition memcpy :: "addr \<Rightarrow> addr \<Rightarrow> u32 \<Rightarrow> mem \<Rightarrow> addr \<times> mem" where
  "memcpy dst src n m = (dst, memcpy_loop dst src n 0 m)"

subsection \<open>Strings\<close>

partial_function (option) strlen_loop :: "mem \<Rightarrow> addr \<Rightarrow> u32 \<Rightarrow> u32 option" where
  "strlen_loop m s cnt = (if m s \<noteq> 0 then strlen_loop m (s + 1) (cnt + 1) else Some cnt)"

definition strlen :: "mem \<Rightarrow> addr \<Rightarrow> u32 option" where
  "strlen m s = strlen_loop m s 0"

partial_function (option) strcmp :: "mem \<Rightarrow> addr \<Rightarrow> addr \<Rightarrow> int option" where
  "strcmp m s1 s2 =
     (if m s1 \<noteq> m s2 then Some (uint (m s1) - uint (m s2))
      else if m s1 = 0 then Some 0
      else strcmp m (s1 + 1) (s2 + 1))"

function strncmp_loop :: "mem \<Rightarrow> addr \<Rightarrow> addr \<Rightarrow> u32 \<Rightarrow> int" where
  "strncmp_loop m s1 s2 n =
     (if m s1 \<noteq> m s2 then uint (m s1) - uint (m s2)
      else if m s1 = 0 then 0
      else if n - 1 \<noteq> 0 then strncmp_loop m (s1 + 1) (s2 + 1) (n - 1)
      else 0)"
  by pat_completeness auto
termination
  by (relation "measure (\<lambda>(m, s1, s2, n). unat (n - 1))") (auto simp: word_count_down2)

definition strncmp :: "mem \<Rightarrow> addr \<Rightarrow> addr \<Rightarrow> u32 \<Rightarrow> int" where
  "strncmp m s1 s2 n = (if n = 0 then 0 else strncmp_loop m s1 s2 n)"

partial_function (option) strcasecmp :: "mem \<Rightarrow> addr \<Rightarrow> addr \<Rightarrow> int option" where
  "strcasecmp m us1 us2 =
     (if tolower (uint (m us1)) = tolower (uint (m us2))
      then if m us1 = 0 then Some 0 else strcasecmp m (us1 + 1) (us2 + 1)
      else Some (tolower (uint (m us1)) - tolower (uint (m us2))))"

function strncasecmp_loop :: "mem \<Rightarrow> addr \<Rightarrow> addr \<Rightarrow> u32 \<Rightarrow> int" where
  "strncasecmp_loop m us1 us2 n =
     (if tolower (uint (m us1)) \<noteq> tolower (uint (m us2)) then tolower (uint (m us1)) - tolower (uint (m us2))
      else if m us1 = 0 then 0
      else if n - 1 \<noteq> 0 then strncasecmp_loop m (us1 + 1) (us2 + 1) (n - 1)
      else 0)"
  by pat_completeness auto
termination
  by (relation "measure (\<lambda>(m, us1, us2, n). unat (n - 1))") (auto simp: word_count_down2)

definition strncasecmp :: "mem \<Rightarrow> addr \<Rightarrow> addr \<Rightarrow> u32 \<Rightarrow> int" where
  "strncasecmp m s1 s2 n = (if n \<noteq> 0 then strncasecmp_loop m s1 s2 n else 0)"

text \<open>\<open>strstr\<close>: the inner loop looks for the first character, the outer one compares the rest.\<close>

partial_function (option) strstr_scan :: "mem \<Rightarrow> u8 \<Rightarrow> addr \<Rightarrow> addr option option" where
  "strstr_scan m c s =
     (if m s = 0 then Some None
      else if m s \<noteq> c then strstr_scan m c (s + 1)
      else Some (Some (s + 1)))"

partial_function (option) strstr_loop :: "mem \<Rightarrow> u8 \<Rightarrow> addr \<Rightarrow> u32 \<Rightarrow> addr \<Rightarrow> addr option" where
  "strstr_loop m c fnd len s =
     Option.bind (strstr_scan m c s) (\<lambda>r. case r of
       None \<Rightarrow> Some 0
     | Some s' \<Rightarrow> if strncmp m s' fnd len \<noteq> 0 then strstr_loop m c fnd len s' else Some (s' - 1))"

definition strstr :: "mem \<Rightarrow> addr \<Rightarrow> addr \<Rightarrow> addr option" where
  "strstr m s fnd =
     (let c = m fnd; fnd = fnd + 1
      in if c \<noteq> 0 then Option.bind (strlen m fnd) (\<lambda>len. strstr_loop m c fnd len s) else Some s)"

partial_function (option) strcpy_loop :: "addr \<Rightarrow> addr \<Rightarrow> mem \<Rightarrow> mem option" where
  "strcpy_loop to from m =
     (let m' = m(to := m from)
      in if m from \<noteq> 0 then strcpy_loop (to + 1) (from + 1) m' else Some m')"

definition strcpy :: "addr \<Rightarrow> addr \<Rightarrow> mem \<Rightarrow> (addr \<times> mem) option" where
  "strcpy to from m = map_option (\<lambda>m'. (to, m')) (strcpy_loop to from m)"

text \<open>\<open>strlcpy\<close>: the loop \<open>while (--nleft != 0)\<close>, then the traversal of the rest of \<open>src\<close>.\<close>

function strlcpy_copy :: "addr \<Rightarrow> addr \<Rightarrow> u32 \<Rightarrow> mem \<Rightarrow> addr \<times> addr \<times> u32 \<times> mem" where
  "strlcpy_copy dst src nleft m =
     (let nleft' = nleft - 1
      in if nleft' \<noteq> 0
         then let m' = m(dst := m src)
              in if m src = 0 then (dst + 1, src + 1, nleft', m')
                 else strlcpy_copy (dst + 1) (src + 1) nleft' m'
         else (dst, src, nleft', m))"
  by pat_completeness auto
termination
  by (relation "measure (\<lambda>(dst, src, nleft, m). unat (nleft - 1))") (auto simp: word_count_down2)

partial_function (option) strlcpy_skip :: "mem \<Rightarrow> addr \<Rightarrow> addr option" where
  "strlcpy_skip m src = (if m src \<noteq> 0 then strlcpy_skip m (src + 1) else Some (src + 1))"

definition strlcpy :: "addr \<Rightarrow> addr \<Rightarrow> u32 \<Rightarrow> mem \<Rightarrow> (u32 \<times> mem) option" where
  "strlcpy dst0 osrc dsize m =
     (let (dst, src, nleft, m) = (if dsize \<noteq> 0 then strlcpy_copy dst0 osrc dsize m else (dst0, osrc, dsize, m))
      in if nleft = 0
         then let m = (if dsize \<noteq> 0 then m(dst := 0) else m)
              in map_option (\<lambda>src. (src - osrc - 1, m)) (strlcpy_skip m src)
         else Some (src - osrc - 1, m))"

partial_function (option) strcat_end :: "mem \<Rightarrow> addr \<Rightarrow> addr option" where
  "strcat_end m s = (if m s \<noteq> 0 then strcat_end m (s + 1) else Some s)"

text \<open>The second loop of \<open>strcat\<close>, \<open>while ((*s++ = *append++) != 0)\<close>, is the loop of \<open>strcpy\<close>.\<close>

definition strcat :: "addr \<Rightarrow> addr \<Rightarrow> mem \<Rightarrow> (addr \<times> mem) option" where
  "strcat s app m =
     Option.bind (strcat_end m s) (\<lambda>e. map_option (\<lambda>m'. (s, m')) (strcpy_loop e app m))"

subsection \<open>Numbers\<close>

text \<open>
  \<open>strtol\<close>: skip white space; take a sign and a base prefix; then accumulate digits in an
  \<open>unsigned long\<close>, with \<open>any\<close> negative after an overflow. \<open>base\<close> and \<open>cutlim\<close> are C \<open>int\<close>s, kept as
  words and read signed where the code compares them with the digit.
\<close>

partial_function (option) strtol_skip :: "mem \<Rightarrow> addr \<Rightarrow> (u8 \<times> addr) option" where
  "strtol_skip m s = (if isspace (uint (m s)) then strtol_skip m (s + 1) else Some (m s, s + 1))"

definition strtol_digit :: "u8 \<Rightarrow> u32 \<Rightarrow> u8 option" where
  "strtol_digit c base =
     (if \<not> isascii (uint c) then None
      else case (if isdigit (uint c) then Some (c - of_char CHR ''0'')
                 else if isalpha (uint c)
                 then Some (c - (if isupper (uint c) then of_char CHR ''A'' - 10 else of_char CHR ''a'' - 10))
                 else None) of
             None \<Rightarrow> None
           | Some c \<Rightarrow> if uint c \<ge> sint base then None else Some c)"

partial_function (option) strtol_loop ::
    "mem \<Rightarrow> u32 \<Rightarrow> u32 \<Rightarrow> u32 \<Rightarrow> u8 \<Rightarrow> addr \<Rightarrow> u32 \<Rightarrow> int \<Rightarrow> (addr \<times> u32 \<times> int) option" where
  "strtol_loop m base cutoff cutlim c s acc any =
     (case strtol_digit c base of
        None \<Rightarrow> Some (s, acc, any)
      | Some d \<Rightarrow>
          if any < 0 \<or> acc > cutoff \<or> (acc = cutoff \<and> uint d > sint cutlim)
          then strtol_loop m base cutoff cutlim (m s) (s + 1) acc (-1)
          else strtol_loop m base cutoff cutlim (m s) (s + 1) (acc * base + ucast d) 1)"

definition strtol :: "addr \<Rightarrow> addr \<Rightarrow> u32 \<Rightarrow> mem \<Rightarrow> (u32 \<times> mem) option" where
  "strtol nptr endptr base m =
     Option.bind (strtol_skip m nptr) (\<lambda>(c, s).
       let (neg, c, s) =
             (if c = of_char CHR ''-'' then (True, m s, s + 1)
              else if c = of_char CHR ''+'' then (False, m s, s + 1)
              else (False, c, s));
           (c, s, base) =
             (if (base = 0 \<or> base = 16) \<and> c = of_char CHR ''0'' \<and>
                 (m s = of_char CHR ''x'' \<or> m s = of_char CHR ''X'')
              then (m (s + 1), s + 2, 16) else (c, s, base));
           base = (if base = 0 then (if c = of_char CHR ''0'' then 8 else 10) else base);
           cutoff = (if neg then - 0x80000000 else 0x7FFFFFFF);
           cutlim = cutoff mod base;
           cutoff = cutoff div base
       in Option.bind (strtol_loop m base cutoff cutlim c s 0 0) (\<lambda>(s, acc, any).
            let acc = (if any < 0 then (if neg then 0x80000000 else 0x7FFFFFFF)
                       else if neg then - acc else acc);
                m = (if endptr \<noteq> 0 then st32 m endptr (if any \<noteq> 0 then s - 1 else nptr) else m)
            in Some (acc, m)))"

declare memset_loop.simps [simp del] memcpy_loop.simps [simp del] memcmp_loop.simps [simp del]
  strncmp_loop.simps [simp del] strncasecmp_loop.simps [simp del] strlcpy_copy.simps [simp del]

section \<open>Byte strings in memory\<close>

text \<open>\<open>bytes m a n\<close> reads \<open>n\<close> bytes; \<open>cstr m a xs\<close> says that \<open>a\<close> points to the NUL-terminated string \<open>xs\<close>.\<close>

definition bytes :: "mem \<Rightarrow> addr \<Rightarrow> nat \<Rightarrow> u8 list" where
  "bytes m a n = map (\<lambda>k. m (a + of_nat k)) [0..<n]"

fun cstr :: "mem \<Rightarrow> addr \<Rightarrow> u8 list \<Rightarrow> bool" where
  "cstr m a [] \<longleftrightarrow> m a = 0"
| "cstr m a (x # xs) \<longleftrightarrow> x \<noteq> 0 \<and> m a = x \<and> cstr m (a + 1) xs"

text \<open>Offsets below \<open>n\<close>, as words, so that no side condition on the end of the address space is needed.\<close>

definition disjoint :: "addr \<Rightarrow> u32 \<Rightarrow> addr \<Rightarrow> u32 \<Rightarrow> bool" where
  "disjoint a n b k \<longleftrightarrow> (\<forall>i < n. \<forall>j < k. a + i \<noteq> b + j)"

lemma cstr_iff:
  "cstr m a xs \<longleftrightarrow> (\<forall>i < length xs. m (a + of_nat i) = xs ! i) \<and> 0 \<notin> set xs \<and> m (a + of_nat (length xs)) = 0"
proof (induction xs arbitrary: a)
  case (Cons x xs)
  then show ?case by (auto simp: nth_Cons add.assoc [symmetric] less_Suc_eq_0_disj)
qed simp

text \<open>A string cannot be as long as the address space: its NUL byte has to fit.\<close>

lemma cstr_length:
  assumes "cstr m a xs"
  shows "length xs < 4294967296"
proof (rule ccontr)
  assume "\<not> ?thesis"
  then obtain i where i: "length xs = i + 4294967296" by (metis le_add_diff_inverse2 not_less)
  have e: "(of_nat (length xs) :: addr) = of_nat i" unfolding i by simp
  from assms i have "m (a + of_nat i) = xs ! i" "m (a + of_nat (length xs)) = 0" "i < length xs" "0 \<notin> set xs"
    by (simp_all add: cstr_iff)
  then show False unfolding e by (metis nth_mem)
qed

lemma length_bytes [simp]: "length (bytes m a n) = n"
  by (simp add: bytes_def)

lemma nth_bytes [simp]: "i < n \<Longrightarrow> bytes m a n ! i = m (a + of_nat i)"
  by (simp add: bytes_def)

lemma bytes_Suc: "bytes m a (Suc n) = m a # bytes m (a + 1) n"
  by (simp add: bytes_def upt_conv_Cons map_Suc_upt [symmetric] add.assoc comp_def del: upt_Suc)

lemma bytes_0 [simp]: "bytes m a 0 = []"
  by (simp add: bytes_def)

lemma bytes_eqI:
  assumes "\<And>k :: u32. unat k < n \<Longrightarrow> m' (a + k) = m (b + k)" and "n < 4294967296"
  shows "bytes m' a n = bytes m b n"
proof (rule nth_equalityI)
  show "bytes m' a n ! i = bytes m b n ! i" if "i < length (bytes m' a n)" for i
    using that assms(1) [of "of_nat i"] assms(2) by simp
qed simp

lemma cstr_bytes: "cstr m a xs \<longleftrightarrow> bytes m a (Suc (length xs)) = xs @ [0] \<and> 0 \<notin> set xs"
  by (induction xs arbitrary: a) (auto simp: bytes_Suc)

section \<open>Memory blocks\<close>

text \<open>Both loops in closed form: the byte at \<open>x\<close> is the one at offset \<open>x - b\<close>, if that is in range.\<close>

lemma memset_loop_eq:
  "memset_loop b c len i m = (\<lambda>x. if i \<le> x - b \<and> x - b < len then c else m x)"
proof (induction b c len i m rule: memset_loop.induct)
  case (1 b c len i m)
  show ?case
  proof (cases "i < len")
    case True
    have step: "memset_loop b c len i m = memset_loop b c len (i + 1) (m(b + i := c))"
      using True by (subst memset_loop.simps) simp
    have "memset_loop b c len i m x = (if i \<le> x - b \<and> x - b < len then c else m x)" for x
      unfolding step 1 [OF True] using word_le_succ [OF True, of "x - b"] True by auto
    then show ?thesis by blast
  next
    case False
    then show ?thesis by (subst memset_loop.simps) (auto simp: not_less fun_eq_iff)
  qed
qed

lemma memcpy_loop_eq:
  assumes "disjoint src n dst n"
  shows "memcpy_loop dst src n i m = (\<lambda>x. if i \<le> x - dst \<and> x - dst < n then m (src + (x - dst)) else m x)"
  using assms
proof (induction dst src n i m rule: memcpy_loop.induct)
  case (1 dst src n i m)
  show ?case
  proof (cases "i < n")
    case True
    have step: "memcpy_loop dst src n i m = memcpy_loop dst src n (i + 1) (m(dst + i := m (src + i)))"
      using True by (subst memcpy_loop.simps) simp
    have "src + k \<noteq> dst + i" if "k < n" for k using "1.prems" True that by (auto simp: disjoint_def)
    then have "memcpy_loop dst src n i m x = (if i \<le> x - dst \<and> x - dst < n then m (src + (x - dst)) else m x)" for x
      unfolding step 1(1) [OF True "1.prems"] using word_le_succ [OF True, of "x - dst"] True by auto
    then show ?thesis by blast
  next
    case False
    then show ?thesis by (subst memcpy_loop.simps) (auto simp: not_less fun_eq_iff)
  qed
qed

lemma memcpy_bytes:
  assumes "disjoint src n dst n"
  shows "bytes (snd (memcpy dst src n m)) dst (unat n) = bytes m src (unat n)"
  by (rule bytes_eqI) (use assms in \<open>simp_all add: memcpy_def memcpy_loop_eq word_less_nat_alt\<close>)

lemma memcpy_other:
  "disjoint src n dst n \<Longrightarrow> n \<le> x - dst \<Longrightarrow> snd (memcpy dst src n m) x = m x"
  by (simp add: memcpy_def memcpy_loop_eq leD)

text \<open>Without disjointness: bytes outside the destination, and those read before they are overwritten.\<close>

lemma memcpy_loop_outside: "n \<le> x - dst \<or> x - dst < i \<Longrightarrow> memcpy_loop dst src n i m x = m x"
proof (induction dst src n i m rule: memcpy_loop.induct)
  case (1 dst src n i m)
  show ?case
  proof (cases "i < n")
    case True
    then have "x - dst < i + 1" if "x - dst < i"
      using that unat_succ [OF True] by (simp add: word_less_nat_alt)
    moreover have "x \<noteq> dst + i" using "1.prems" True by auto
    moreover have "n \<le> x - dst \<or> x - dst < i + 1 \<Longrightarrow>
        memcpy_loop dst src n (i + 1) (m(dst + i := m (src + i))) x = (m(dst + i := m (src + i))) x"
      by (rule "1.IH" [OF True])
    ultimately have "memcpy_loop dst src n (i + 1) (m(dst + i := m (src + i))) x = m x"
      using "1.prems" by fastforce
    with True show ?thesis by (subst memcpy_loop.simps) (simp del: fun_upd_apply)
  qed (simp add: memcpy_loop.simps)
qed

lemma memcpy_loop_ahead:
  assumes "i \<le> k" and "k < n" and "\<And>j. i \<le> j \<Longrightarrow> j < k \<Longrightarrow> src + k \<noteq> dst + j"
  shows "memcpy_loop dst src n i m (dst + k) = m (src + k)"
  using assms
proof (induction dst src n i m rule: memcpy_loop.induct)
  case (1 dst src n i m)
  have i: "i < n" using "1.prems" by simp
  have step: "memcpy_loop dst src n i m = memcpy_loop dst src n (i + 1) (m(dst + i := m (src + i)))"
    using i by (subst memcpy_loop.simps) simp
  show ?case
  proof (cases "k = i")
    case True
    have "k < k + 1" using unat_succ [OF "1.prems"(2)] by (simp add: word_less_nat_alt)
    with True show ?thesis by (simp add: step memcpy_loop_outside)
  next
    case False
    with "1.prems"(1) word_le_succ [OF i, of k] have le: "i + 1 \<le> k" by auto
    have "memcpy_loop dst src n (i + 1) (m(dst + i := m (src + i))) (dst + k) = (m(dst + i := m (src + i))) (src + k)"
      using 1(1) [OF i le "1.prems"(2)] "1.prems"(3) word_le_succ [OF i] by blast
    with "1.prems"(1,3) False show ?thesis by (simp add: step)
  qed
qed

lemma memset_bytes: "bytes (snd (memset b c n m)) b (unat n) = replicate (unat n) (ucast c)"
  by (rule nth_equalityI) (simp_all add: memset_def memset_loop_eq word_less_nat_alt less_trans [OF _ unat_lt32])

lemma memset_other: "n \<le> x - b \<Longrightarrow> snd (memset b c n m) x = m x"
  by (simp add: memset_def memset_loop_eq leD)

section \<open>Comparison\<close>

text \<open>The reference: the first difference decides, a missing element counts as 0.\<close>

fun first_diff :: "int list \<Rightarrow> int list \<Rightarrow> int" where
  "first_diff [] [] = 0"
| "first_diff (x # xs) [] = x"
| "first_diff [] (y # ys) = - y"
| "first_diff (x # xs) (y # ys) = (if x \<noteq> y then x - y else first_diff xs ys)"

lemma first_diff_zero: "0 \<notin> set xs \<Longrightarrow> 0 \<notin> set ys \<Longrightarrow> first_diff xs ys = 0 \<longleftrightarrow> xs = ys"
  by (induction xs ys rule: first_diff.induct) auto

lemma first_diff_uint_zero:
  "0 \<notin> set xs \<Longrightarrow> 0 \<notin> set ys \<Longrightarrow> first_diff (map uint xs) (map uint ys) = 0 \<longleftrightarrow> xs = ys"
  by (induction xs ys rule: list_induct2') (auto simp: uint_0_iff)

lemma first_diff_less:
  "\<forall>x \<in> set xs. 0 < x \<Longrightarrow> \<forall>y \<in> set ys. 0 < y \<Longrightarrow>
   first_diff xs ys < 0 \<longleftrightarrow> (xs, ys) \<in> lexord {(a, b). a < b}"
  by (induction xs ys rule: first_diff.induct) auto

lemma strcmp_eq:
  "cstr m s1 xs \<Longrightarrow> cstr m s2 ys \<Longrightarrow> strcmp m s1 s2 = Some (first_diff (map uint xs) (map uint ys))"
  by (induction xs ys arbitrary: s1 s2 rule: list_induct2') (subst strcmp.simps, auto)+

lemma strncmp_loop_eq:
  "cstr m s1 xs \<Longrightarrow> cstr m s2 ys \<Longrightarrow> n \<noteq> 0 \<Longrightarrow>
   strncmp_loop m s1 s2 n = first_diff (map uint (take (unat n) xs)) (map uint (take (unat n) ys))"
proof (induction xs ys arbitrary: s1 s2 n rule: list_induct2')
  case (4 x xs y ys)
  have n: "unat n = Suc (unat (n - 1))" using 4(4) word_count_down [of n] by (simp add: unat_gt_0)
  show ?case
    using 4 by (subst strncmp_loop.simps) (auto simp: n)
qed (subst strncmp_loop.simps; auto simp: take_Cons' unat_eq_0)+

lemma strncmp_eq:
  "cstr m s1 xs \<Longrightarrow> cstr m s2 ys \<Longrightarrow>
   strncmp m s1 s2 n = first_diff (map uint (take (unat n) xs)) (map uint (take (unat n) ys))"
  by (simp add: strncmp_def strncmp_loop_eq)

abbreviation folded :: "u8 list \<Rightarrow> int list" where
  "folded xs \<equiv> map (\<lambda>x. tolower (uint x)) xs"

lemma tolower_byte: "tolower (uint (x :: u8)) = 0 \<longleftrightarrow> x = 0" "0 \<le> tolower (uint (x :: u8))"
  by (auto simp: tolower_def isupper_def uint_0_iff)

lemma tolower_0 [simp]: "tolower 0 = 0"
  by (simp add: tolower_def isupper_def)

lemma strcasecmp_eq:
  "cstr m s1 xs \<Longrightarrow> cstr m s2 ys \<Longrightarrow> strcasecmp m s1 s2 = Some (first_diff (folded xs) (folded ys))"
  by (induction xs ys arbitrary: s1 s2 rule: list_induct2') (subst strcasecmp.simps, auto simp: tolower_byte)+

lemma strncasecmp_loop_eq:
  "cstr m s1 xs \<Longrightarrow> cstr m s2 ys \<Longrightarrow> n \<noteq> 0 \<Longrightarrow>
   strncasecmp_loop m s1 s2 n = first_diff (folded (take (unat n) xs)) (folded (take (unat n) ys))"
proof (induction xs ys arbitrary: s1 s2 n rule: list_induct2')
  case (4 x xs y ys)
  have n: "unat n = Suc (unat (n - 1))" using 4(4) word_count_down [of n] by (simp add: unat_gt_0)
  show ?case
    using 4 by (subst strncasecmp_loop.simps) (auto simp: n)
qed (subst strncasecmp_loop.simps; auto simp: take_Cons' unat_eq_0 tolower_byte)+

lemma memcmp_loop_eq:
  "n \<noteq> 0 \<Longrightarrow> memcmp_loop m p1 p2 n = first_diff (map uint (bytes m p1 (unat n))) (map uint (bytes m p2 (unat n)))"
proof (induction m p1 p2 n rule: memcmp_loop.induct)
  case (1 m p1 p2 n)
  have n: "unat n = Suc (unat (n - 1))" using 1 word_count_down [of n] by (simp add: unat_gt_0)
  show ?case
    using 1 by (subst memcmp_loop.simps) (auto simp: n bytes_Suc)
qed

lemma memcmp_eq: "memcmp m p1 p2 n = first_diff (map uint (bytes m p1 (unat n))) (map uint (bytes m p2 (unat n)))"
  by (simp add: memcmp_def memcmp_loop_eq)

section \<open>Length, copy, search\<close>

lemma strlen_loop_eq: "cstr m s xs \<Longrightarrow> strlen_loop m s cnt = Some (cnt + of_nat (length xs))"
  by (induction xs arbitrary: s cnt) (subst strlen_loop.simps, auto simp: add.assoc)+

lemma strlen_eq: "cstr m s xs \<Longrightarrow> strlen m s = Some (of_nat (length xs))"
  by (simp add: strlen_def strlen_loop_eq)

text \<open>The set of \<open>n\<close> addresses from \<open>a\<close> on.\<close>

definition span :: "addr \<Rightarrow> nat \<Rightarrow> addr set" where
  "span a n = (\<lambda>k. a + of_nat k) ` {..<n}"

lemma span_0 [simp]: "span a 0 = {}"
  by (simp add: span_def)

lemma span_Suc: "span a (Suc n) = insert a (span (a + 1) n)"
  by (auto simp: span_def lessThan_Suc_eq_insert_0 image_image add.assoc)

lemma span_numeral: "span a (numeral k) = insert a (span (a + 1) (pred_numeral k))"
  by (simp add: numeral_eq_Suc span_Suc)

lemma span_next: "n < 4294967296 \<Longrightarrow> a \<notin> span (a + 1) n"
proof
  assume n: "n < 4294967296" and "a \<in> span (a + 1) n"
  then obtain k where k: "k < n" "of_nat (Suc k) = (0 :: addr)"
    by (auto simp: span_def add.assoc)
  with n have "unat (of_nat (Suc k) :: addr) = Suc k" by (intro unat_of_nat32) simp
  with k(2) show False by simp
qed

lemma st32_outside: "x \<notin> span p 4 \<Longrightarrow> st32 m p v x = m x"
  by (auto simp: st32_def span_numeral span_Suc add.assoc)

lemma ld32_same:
  assumes "\<And>x. x \<in> span p 4 \<Longrightarrow> m' x = m x"
  shows "ld32 m' p = ld32 m p"
  using assms by (simp add: ld32_def span_numeral span_Suc add.assoc)

lemma span_mono: "k \<le> n \<Longrightarrow> span a k \<subseteq> span a n"
  by (auto simp: span_def)

lemma cstr_cong: "(\<And>x. x \<in> span a (Suc (length xs)) \<Longrightarrow> m' x = m x) \<Longrightarrow> cstr m' a xs \<longleftrightarrow> cstr m a xs"
proof (induction xs arbitrary: a)
  case (Cons x xs)
  then have "m' a = m a" "cstr m' (a + 1) xs \<longleftrightarrow> cstr m (a + 1) xs" by (simp_all add: span_Suc [of a])
  then show ?case by simp
qed (simp add: span_Suc)

lemma strcpy_loop_spec:
  assumes "cstr m from xs" and "span from (Suc (length xs)) \<inter> span to (Suc (length xs)) = {}"
  shows "\<exists>m'. strcpy_loop to from m = Some m' \<and> cstr m' to xs \<and> (\<forall>x. x \<notin> span to (Suc (length xs)) \<longrightarrow> m' x = m x)"
  using assms
proof (induction xs arbitrary: to "from" m)
  case Nil
  then show ?case by (subst strcpy_loop.simps) (simp add: span_Suc)
next
  case (Cons x xs)
  let ?m = "m(to := x)" and ?n = "Suc (length xs)"
  have d: "to \<notin> span (from + 1) ?n" "span (from + 1) ?n \<inter> span (to + 1) ?n = {}"
    using Cons.prems(2) by (auto simp: span_Suc [of to] span_Suc [of "from"])
  have "cstr ?m (from + 1) xs"
    using Cons.prems(1) d(1) by (subst cstr_cong [of _ _ _ m]) auto
  from Cons.IH [OF this d(2)] obtain m' where m':
    "strcpy_loop (to + 1) (from + 1) ?m = Some m'" "cstr m' (to + 1) xs"
    "\<forall>y. y \<notin> span (to + 1) ?n \<longrightarrow> m' y = ?m y" by blast
  have "to \<notin> span (to + 1) (Suc (length xs))"
    using cstr_length [OF Cons.prems(1)] by (intro span_next) simp
  with m'(3) have "m' to = x" by auto
  with m' Cons.prems(1) show ?case by (subst strcpy_loop.simps) (auto simp: span_Suc [of to])
qed

lemma strcat_end_eq: "cstr m s xs \<Longrightarrow> strcat_end m s = Some (s + of_nat (length xs))"
  by (induction xs arbitrary: s) (subst strcat_end.simps, auto simp: add.assoc)+

lemma cstr_append: "cstr m a (xs @ ys) \<longleftrightarrow> bytes m a (length xs) = xs \<and> 0 \<notin> set xs \<and> cstr m (a + of_nat (length xs)) ys"
  by (induction xs arbitrary: a) (auto simp: bytes_Suc add.assoc)

lemma bytes_cong: "(\<And>x. x \<in> span a n \<Longrightarrow> m' x = m x) \<Longrightarrow> bytes m' a n = bytes m a n"
  by (auto simp: bytes_def span_def)

lemma strcat_spec:
  assumes s: "cstr m s xs" and a: "cstr m app ys"
    and d: "span app (Suc (length ys)) \<inter> span s (Suc (length xs + length ys)) = {}"
    and room: "length xs + length ys < 4294967296"
  shows "\<exists>m'. strcat s app m = Some (s, m') \<and> cstr m' s (xs @ ys) \<and>
    (\<forall>x. x \<notin> span s (Suc (length xs + length ys)) \<longrightarrow> m' x = m x)"
proof -
  let ?e = "s + of_nat (length xs)"
  have sub: "span ?e (Suc (length ys)) \<subseteq> span s (Suc (length xs + length ys))"
  proof
    fix x assume "x \<in> span ?e (Suc (length ys))"
    then obtain k where k: "k < Suc (length ys)" "x = s + of_nat (length xs + k)"
      by (auto simp: span_def add.assoc)
    then show "x \<in> span s (Suc (length xs + length ys))"
      unfolding span_def by (intro image_eqI [where x = "length xs + k"]) auto
  qed
  from strcpy_loop_spec [OF a, of ?e] d sub obtain m' where m': "strcpy_loop ?e app m = Some m'" "cstr m' ?e ys"
    "\<forall>x. x \<notin> span ?e (Suc (length ys)) \<longrightarrow> m' x = m x" by blast
  have "x \<notin> span ?e (Suc (length ys))" if "x \<in> span s (length xs)" for x
  proof
    assume "x \<in> span ?e (Suc (length ys))"
    with that obtain j k where "j < length xs" "k < Suc (length ys)" "(of_nat j :: addr) = of_nat (length xs + k)"
      by (auto simp: span_def add.assoc)
    then show False using room by (subst (asm) of_nat32_eq_iff) auto
  qed
  with m'(3) have "bytes m' s (length xs) = bytes m s (length xs)" by (intro bytes_cong) auto
  with s m'(2) have "cstr m' s (xs @ ys)" using cstr_append [of m s xs "[]"] by (simp add: cstr_append)
  moreover have "strcat s app m = Some (s, m')"
    using m'(1) by (simp add: strcat_def strcat_end_eq [OF s])
  ultimately show ?thesis using m'(3) sub by blast
qed

subsection \<open>\<open>strlcpy\<close>\<close>

lemma strlcpy_skip_eq: "cstr m s xs \<Longrightarrow> strlcpy_skip m s = Some (s + of_nat (length xs) + 1)"
  by (induction xs arbitrary: s) (subst strlcpy_skip.simps, auto simp: add.assoc)+

lemma unat_pred: "n \<noteq> 0 \<Longrightarrow> unat n = Suc (unat (n - 1 :: u32))"
  using word_count_down [of n] by (simp add: unat_gt_0)

text \<open>The copying loop when the string and its NUL fit before the counter reaches 0.\<close>

lemma strlcpy_copy_fits:
  assumes "cstr m src xs" and "Suc (length xs) < unat n"
    and "span src (Suc (length xs)) \<inter> span dst (Suc (length xs)) = {}"
  shows "\<exists>m' d. strlcpy_copy dst src n m = (d, src + of_nat (Suc (length xs)), n - of_nat (Suc (length xs)), m') \<and>
    cstr m' dst xs \<and> (\<forall>x. x \<notin> span dst (Suc (length xs)) \<longrightarrow> m' x = m x)"
  using assms
proof (induction xs arbitrary: dst src n m)
  case Nil
  then have "n - 1 \<noteq> 0" by auto
  with Nil show ?case by (subst strlcpy_copy.simps) (simp add: span_Suc)
next
  case (Cons x xs)
  let ?m = "m(dst := x)" and ?n = "Suc (length xs)"
  have n: "unat n = Suc (unat (n - 1))" "n - 1 \<noteq> 0" using Cons.prems(2) by (auto intro: unat_pred)
  have d: "dst \<notin> span (src + 1) ?n" "span (src + 1) ?n \<inter> span (dst + 1) ?n = {}"
    using Cons.prems(3) by (auto simp: span_Suc [of dst] span_Suc [of src])
  have "cstr ?m (src + 1) xs"
    using Cons.prems(1) d(1) by (subst cstr_cong [of _ _ _ m]) auto
  moreover have "Suc (length xs) < unat (n - 1)" using Cons.prems(2) n(1) by simp
  ultimately obtain m' d' where m':
    "strlcpy_copy (dst + 1) (src + 1) (n - 1) ?m = (d', src + 1 + of_nat ?n, n - 1 - of_nat ?n, m')"
    "cstr m' (dst + 1) xs" "\<forall>y. y \<notin> span (dst + 1) ?n \<longrightarrow> m' y = ?m y" using Cons.IH d(2) by blast
  have "dst \<notin> span (dst + 1) ?n"
    using cstr_length [OF Cons.prems(1)] by (intro span_next) simp
  with m'(3) have "m' dst = x" by auto
  with m' Cons.prems(1) n(2) show ?case
    by (subst strlcpy_copy.simps) (auto simp: span_Suc [of dst] algebra_simps)
qed

text \<open>The copying loop when the counter runs out first.\<close>

lemma strlcpy_copy_trunc:
  assumes "cstr m src xs" and "unat n = Suc k" and "k \<le> length xs" and "span src (Suc (length xs)) \<inter> span dst k = {}"
  shows "\<exists>m'. strlcpy_copy dst src n m = (dst + of_nat k, src + of_nat k, 0, m') \<and>
    bytes m' dst k = take k xs \<and> (\<forall>x. x \<notin> span dst k \<longrightarrow> m' x = m x)"
  using assms
proof (induction k arbitrary: dst src n m xs)
  case 0
  then have "n = 1" by (simp add: word_unat_eq_iff)
  then show ?case by (subst strlcpy_copy.simps) simp
next
  case (Suc k)
  then obtain x ys where xs: "xs = x # ys" by (cases xs) auto
  let ?m = "m(dst := x)"
  have "n \<noteq> 0" using Suc.prems(2) by auto
  then have n: "unat (n - 1) = Suc k" using Suc.prems(2) unat_pred [of n] by simp
  have d: "dst \<notin> span (src + 1) (Suc (length ys))" "span (src + 1) (Suc (length ys)) \<inter> span (dst + 1) k = {}"
    using Suc.prems(4) by (auto simp: span_Suc [of dst] span_Suc [of src] xs)
  have "cstr ?m (src + 1) ys"
    using Suc.prems(1) d(1) by (subst cstr_cong [of _ _ _ m]) (auto simp: xs)
  moreover have "k \<le> length ys" using Suc.prems(3) xs by simp
  ultimately obtain m' where m':
    "strlcpy_copy (dst + 1) (src + 1) (n - 1) ?m = (dst + 1 + of_nat k, src + 1 + of_nat k, 0, m')"
    "bytes m' (dst + 1) k = take k ys" "\<forall>y. y \<notin> span (dst + 1) k \<longrightarrow> m' y = ?m y" using Suc.IH n d(2) by blast
  have "dst \<notin> span (dst + 1) k"
    using Suc.prems(2) unat_lt32 [of n] by (intro span_next) simp
  with m'(3) have "m' dst = x" by auto
  moreover have "n - 1 \<noteq> 0" using n by auto
  ultimately show ?case using m' Suc.prems(1)
    by (subst strlcpy_copy.simps) (auto simp: span_Suc [of dst] algebra_simps bytes_Suc xs)
qed

lemma strlcpy_spec:
  assumes src: "cstr m src xs" and n: "0 < dsize"
    and d: "span src (Suc (length xs)) \<inter> span dst (unat dsize) = {}"
  shows "\<exists>m'. strlcpy dst src dsize m = Some (of_nat (length xs), m') \<and>
    cstr m' dst (take (unat dsize - 1) xs) \<and> (\<forall>x. x \<notin> span dst (unat dsize) \<longrightarrow> m' x = m x)"
proof (cases "Suc (length xs) < unat dsize")
  case True
  have "span dst (Suc (length xs)) \<subseteq> span dst (unat dsize)" using True by (intro span_mono) simp
  with d have "span src (Suc (length xs)) \<inter> span dst (Suc (length xs)) = {}" by blast
  from strlcpy_copy_fits [OF src True this] obtain m' d' where m':
    "strlcpy_copy dst src dsize m = (d', src + of_nat (Suc (length xs)), dsize - of_nat (Suc (length xs)), m')"
    "cstr m' dst xs" "\<forall>x. x \<notin> span dst (Suc (length xs)) \<longrightarrow> m' x = m x" by blast
  have "dsize \<noteq> of_nat (Suc (length xs))"
    using True unat_of_nat32 [of "Suc (length xs)"] cstr_length [OF src] unat_lt32 [of dsize] by auto
  with m'(1) n have "strlcpy dst src dsize m = Some (of_nat (length xs), m')"
    by (auto simp: strlcpy_def)
  with m' True show ?thesis using \<open>span dst (Suc (length xs)) \<subseteq> _\<close> by auto
next
  case False
  define k where "k = unat dsize - 1"
  have k: "unat dsize = Suc k" "k \<le> length xs" using False n unat_pred [of dsize] by (auto simp: k_def)
  have lt: "k < 4294967296" using k(1) unat_lt32 [of dsize] by simp
  have "span dst k \<subseteq> span dst (unat dsize)" using k by (intro span_mono) simp
  with d have "span src (Suc (length xs)) \<inter> span dst k = {}" by blast
  from strlcpy_copy_trunc [OF src k this] obtain m1 where m1:
    "strlcpy_copy dst src dsize m = (dst + of_nat k, src + of_nat k, 0, m1)"
    "bytes m1 dst k = take k xs" "\<forall>x. x \<notin> span dst k \<longrightarrow> m1 x = m x" by blast
  let ?m = "m1(dst + of_nat k := 0)"
  have e: "dst + of_nat k \<in> span dst (unat dsize)" "dst + of_nat k \<notin> span dst k"
    using of_nat32_eq_iff [of k] lt by (auto simp: span_def k(1))
  have same: "\<forall>x. x \<notin> span dst (unat dsize) \<longrightarrow> ?m x = m x"
    using m1(3) e \<open>span dst k \<subseteq> _\<close> by auto
  then have "cstr ?m src (take k xs @ drop k xs)"
    using src d by (subst cstr_cong [of _ _ _ m]) auto
  then have "cstr ?m (src + of_nat k) (drop k xs)" using k(2) by (simp add: cstr_append del: append_take_drop_id)
  from strlcpy_skip_eq [OF this] have "strlcpy_skip ?m (src + of_nat k) = Some (src + of_nat (length xs) + 1)"
    using k(2) by (simp add: of_nat_diff algebra_simps)
  with m1(1) n have res: "strlcpy dst src dsize m = Some (of_nat (length xs), ?m)"
    by (auto simp: strlcpy_def algebra_simps)
  have "bytes ?m dst k = bytes m1 dst k" by (rule bytes_cong) (use e(2) in auto)
  with m1(2) have "bytes ?m dst k = take k xs" by simp
  moreover have "0 \<notin> set (take k xs)" using src by (auto simp: cstr_iff dest: in_set_takeD)
  ultimately have "cstr ?m dst (take k xs)" using k(2) cstr_append [of ?m dst "take k xs" "[]"] by simp
  with res same show ?thesis by (auto simp: k_def)
qed

subsection \<open>\<open>strstr\<close>\<close>

text \<open>The position of the first occurrence of \<open>ys\<close> in \<open>xs\<close>.\<close>

fun find_sub :: "'a list \<Rightarrow> 'a list \<Rightarrow> nat option" where
  "find_sub ys [] = (if ys = [] then Some 0 else None)"
| "find_sub ys (x # xs) = (if take (length ys) (x # xs) = ys then Some 0 else map_option Suc (find_sub ys xs))"

lemma find_sub_Some: "find_sub ys xs = Some i \<Longrightarrow> take (length ys) (drop i xs) = ys \<and> i \<le> length xs"
  by (induction xs arbitrary: i) (auto split: if_splits)

lemma find_sub_least: "find_sub ys xs = Some i \<Longrightarrow> j < i \<Longrightarrow> take (length ys) (drop j xs) \<noteq> ys"
proof (induction xs arbitrary: i j)
  case (Cons x xs)
  then show ?case by (cases j) (auto split: if_splits)
qed (auto split: if_splits)

lemma find_sub_None: "find_sub ys xs = None \<Longrightarrow> take (length ys) (drop j xs) \<noteq> ys"
proof (induction xs arbitrary: j)
  case (Cons x xs)
  then show ?case by (cases j) (auto split: if_splits)
qed (auto split: if_splits)

lemma strstr_loop_skip:
  "m s \<noteq> 0 \<Longrightarrow> m s \<noteq> c \<Longrightarrow> strstr_loop m c fnd len s = strstr_loop m c fnd len (s + 1)"
  by (subst (1 2) strstr_loop.simps) (simp add: strstr_scan.simps [of m c s])

lemma strstr_loop_eq:
  assumes "cstr m s xs" and f: "cstr m fnd ys" and "c \<noteq> 0"
  shows "strstr_loop m c fnd (of_nat (length ys)) s =
    Some (case find_sub (c # ys) xs of None \<Rightarrow> 0 | Some i \<Rightarrow> s + of_nat i)"
  using assms(1)
proof (induction xs arbitrary: s)
  case Nil
  then show ?case by (simp add: strstr_loop.simps strstr_scan.simps)
next
  case (Cons x xs)
  have len: "unat (of_nat (length ys) :: u32) = length ys" using cstr_length [OF f] by simp
  have hit: "strncmp m (s + 1) fnd (of_nat (length ys)) = 0 \<longleftrightarrow> take (length ys) xs = ys"
  proof -
    have "0 \<notin> set (take (length ys) xs)" "0 \<notin> set ys" using Cons.prems f by (auto simp: cstr_iff dest: in_set_takeD)
    then show ?thesis
      using strncmp_eq [of m "s + 1" xs fnd ys] Cons.prems f by (simp add: len first_diff_uint_zero)
  qed
  show ?case
  proof (cases "x = c")
    case False
    then show ?thesis using Cons strstr_loop_skip [of m s c]
      by (auto simp: add.assoc split: option.splits)
  next
    case True
    then have "strstr_loop m c fnd (of_nat (length ys)) s =
        (if take (length ys) xs = ys then Some s else strstr_loop m c fnd (of_nat (length ys)) (s + 1))"
      using Cons.prems hit by (subst strstr_loop.simps) (simp add: strstr_scan.simps)
    then show ?thesis using Cons True by (auto simp: add.assoc split: option.splits)
  qed
qed

lemma strstr_eq:
  assumes "cstr m s xs" and "cstr m fnd ys"
  shows "strstr m s fnd = Some (case find_sub ys xs of None \<Rightarrow> 0 | Some i \<Rightarrow> s + of_nat i)"
proof (cases ys)
  case Nil
  then show ?thesis using assms by (cases xs) (auto simp: strstr_def)
next
  case (Cons y zs)
  then show ?thesis using assms strstr_loop_eq [of m s xs "fnd + 1" zs y] strlen_eq [of m "fnd + 1" zs]
    by (auto simp: strstr_def)
qed

subsection \<open>\<open>strtol\<close>\<close>

lemma strtol_skip_eq:
  assumes "cstr m s (ws @ xs)" and "\<forall>w \<in> set ws. isspace (uint w)" and "xs = [] \<or> \<not> isspace (uint (hd xs))"
  shows "strtol_skip m s = Some (m (s + of_nat (length ws)), s + of_nat (length ws) + 1)"
  using assms
proof (induction ws arbitrary: s)
  case Nil
  then have "\<not> isspace (uint (m s))" by (cases xs) (auto simp: isspace_def)
  then show ?case by (subst strtol_skip.simps) simp
next
  case (Cons w ws)
  then show ?case by (subst strtol_skip.simps) (simp add: add.assoc)
qed

text \<open>The number that a digit sequence denotes in base \<open>b\<close>, after the prefix worth \<open>a\<close>.\<close>

fun number :: "nat \<Rightarrow> nat \<Rightarrow> u8 list \<Rightarrow> nat" where
  "number b a [] = a"
| "number b a (v # vs) = number b (a * b + unat v) vs"

lemma number_ge: "1 \<le> b \<Longrightarrow> a \<le> number b a vs"
proof (induction vs arbitrary: a)
  case (Cons v vs)
  have "a \<le> a * b + unat v" using Cons.prems by (cases b) auto
  also have "\<dots> \<le> number b (a * b + unat v) vs" using Cons by blast
  finally show ?case by simp
qed simp

definition digit_values :: "nat \<Rightarrow> u8 list \<Rightarrow> u8 list option" where
  "digit_values b cs = those (map (\<lambda>c. strtol_digit c (of_nat b)) cs)"

lemma digit_values_Cons:
  "digit_values b (c # cs) = Some vs \<longleftrightarrow>
     (\<exists>d ds. strtol_digit c (of_nat b) = Some d \<and> digit_values b cs = Some ds \<and> vs = d # ds)"
  by (auto simp: digit_values_def split: option.splits)

lemma strtol_digit_less:
  "strtol_digit c (of_nat b) = Some d \<Longrightarrow> b \<le> 36 \<Longrightarrow> unat d < b"
proof -
  assume "strtol_digit c (of_nat b) = Some d" and b: "b \<le> 36"
  then have "uint d < sint (of_nat b :: u32)" by (auto simp: strtol_digit_def split: if_splits)
  with b show ?thesis by (simp add: sint_of_nat32 uint_vs_int)
qed

lemma strtol_digit_NUL: "strtol_digit 0 b = None"
  by (simp add: strtol_digit_def isdigit_def isalpha_def isupper_def islower_def)

lemma strtol_loop_over:
  assumes "cstr m s (cs @ rest)" and "digit_values b cs = Some vs" and "rest = [] \<or> strtol_digit (hd rest) (of_nat b) = None"
  shows "strtol_loop m (of_nat b) cutoff cutlim (m s) (s + 1) acc (-1) = Some (s + of_nat (length cs) + 1, acc, -1)"
  using assms
proof (induction cs arbitrary: s vs)
  case Nil
  then have "strtol_digit (m s) (of_nat b) = None" by (cases rest) (auto simp: strtol_digit_NUL)
  then show ?case by (subst strtol_loop.simps) simp
next
  case (Cons c cs)
  then obtain d ds where d: "strtol_digit (m s) (of_nat b) = Some d" "digit_values b cs = Some ds"
    by (auto simp: digit_values_Cons)
  with Cons.IH [of "s + 1" ds] Cons.prems show ?case
    by (subst strtol_loop.simps) (simp add: algebra_simps)
qed

text \<open>The test against \<open>cutoff\<close> and \<open>cutlim\<close> is exact: it holds when the next value would exceed the limit.\<close>

lemma cutoff_exact:
  fixes a b d l :: nat
  assumes "d < b"
  shows "a > l div b \<or> (a = l div b \<and> d > l mod b) \<longleftrightarrow> l < a * b + d"
proof -
  have l: "l = l div b * b + l mod b" "l mod b < b" using assms by auto
  consider "a < l div b" | "a = l div b" | "a > l div b" by linarith
  then show ?thesis
  proof cases
    case 1
    then have "Suc a * b \<le> l div b * b" by (intro mult_le_mono1) simp
    then have "a * b + b \<le> l" using l(1) by (metis add.commute le_add1 le_trans mult_Suc)
    with 1 assms show ?thesis by linarith
  next
    case 2
    then show ?thesis using l(1) by (metis add_less_cancel_left less_irrefl)
  next
    case 3
    then have "Suc (l div b) * b \<le> a * b" by (intro mult_le_mono1) simp
    then have "l < a * b" using l by (metis add.commute add_less_cancel_right less_le_trans mult_Suc)
    with 3 show ?thesis by linarith
  qed
qed


lemma strtol_loop_eq:
  assumes "cstr m s (cs @ rest)" and "digit_values b cs = Some vs" and "rest = [] \<or> strtol_digit (hd rest) (of_nat b) = None"
    and "1 < b" "b \<le> 36" and "a \<le> l" and "l < 4294967296" and "0 \<le> any"
  shows "\<exists>acc. strtol_loop m (of_nat b) (of_nat (l div b)) (of_nat (l mod b)) (m s) (s + 1) (of_nat a) any =
    Some (s + of_nat (length cs) + 1, acc, if l < number b a vs then -1 else if cs = [] then any else 1) \<and>
    (number b a vs \<le> l \<longrightarrow> acc = of_nat (number b a vs))"
  using assms
proof (induction cs arbitrary: s vs a any)
  case Nil
  then have "strtol_digit (m s) (of_nat b) = None" by (cases rest) (auto simp: strtol_digit_NUL)
  moreover have "vs = []" using Nil.prems(2) by (simp add: digit_values_def)
  ultimately show ?case using Nil by (subst strtol_loop.simps) simp
next
  case (Cons c cs)
  then obtain d ds where d: "strtol_digit (m s) (of_nat b) = Some d" "digit_values b cs = Some ds" "vs = d # ds"
    by (auto simp: digit_values_Cons)
  have dl: "unat d < b" using strtol_digit_less [OF d(1)] Cons.prems(5) by simp
  have small: "l div b < 4294967296" "l mod b < 2147483648" "a < 4294967296"
    using Cons.prems(4-7) div_le_dividend [of l b] mod_less_divisor [of b l] by linarith+
  have over: "((of_nat (l div b) :: u32) < of_nat a \<or> of_nat a = (of_nat (l div b) :: u32) \<and>
      sint (of_nat (l mod b) :: u32) < uint d) \<longleftrightarrow> l < a * b + unat d"
    using cutoff_exact [OF dl, of l a] small
    by (auto simp: word_less_nat_alt of_nat32_eq_iff sint_of_nat32 uint_vs_int)
  let ?loop = "strtol_loop m (of_nat b) (of_nat (l div b)) (of_nat (l mod b))"
  have "?loop (m s) (s + 1) (of_nat a) any =
      (if any < 0 \<or> l < a * b + unat d then ?loop (m (s + 1)) (s + 1 + 1) (of_nat a) (- 1)
       else ?loop (m (s + 1)) (s + 1 + 1) (of_nat a * of_nat b + ucast d) 1)"
    unfolding over [symmetric] by (subst strtol_loop.simps) (simp only: d(1) option.case)
  then have step: "?loop (m s) (s + 1) (of_nat a) any =
      (if l < a * b + unat d then ?loop (m (s + 1)) (s + 1 + 1) (of_nat a) (- 1)
       else ?loop (m (s + 1)) (s + 1 + 1) (of_nat (a * b + unat d)) 1)"
    using Cons.prems(8) by simp
  have len: "s + 1 + of_nat (length cs) + 1 = s + of_nat (length (c # cs)) + (1 :: addr)" by simp
  have str: "cstr m (s + 1) (cs @ rest)" using Cons.prems(1) by simp
  show ?case
  proof (cases "l < a * b + unat d")
    case True
    then have "l < number b a vs"
      using d(3) number_ge [of b "a * b + unat d" ds] Cons.prems(4) by simp
    then show ?thesis
      using strtol_loop_over [OF str d(2) Cons.prems(3)] True unfolding step len by simp
  next
    case False
    with Cons.IH [OF str d(2) Cons.prems(3-5) _ Cons.prems(7), of "a * b + unat d" 1]
    show ?thesis unfolding step len d(3) by auto
  qed
qed

text \<open>How \<open>strtol\<close> chooses the base \<open>b\<close> from its argument and an optional prefix of the text \<open>cs\<close>.\<close>

definition hex_prefix :: "u8 list \<Rightarrow> bool" where
  "hex_prefix cs \<longleftrightarrow> take 1 cs = [of_char CHR ''0''] \<and> (take 1 (drop 1 cs) = [of_char CHR ''x''] \<or> take 1 (drop 1 cs) = [of_char CHR ''X''])"

definition base_of :: "nat \<Rightarrow> u8 list \<Rightarrow> u8 list \<Rightarrow> nat" where
  "base_of base pf cs =
     (if pf \<noteq> [] then 16 else if base = 0 then (if hd cs = of_char CHR ''0'' then 8 else 10) else base)"

definition prefix_ok :: "nat \<Rightarrow> u8 list \<Rightarrow> u8 list \<Rightarrow> bool" where
  "prefix_ok base pf cs \<longleftrightarrow>
     (if base = 0 \<or> base = 16 then (if pf = [] then \<not> hex_prefix cs else length pf = 2 \<and> hex_prefix pf) else pf = [])"

definition clamp32 :: "int \<Rightarrow> int" where
  "clamp32 x = max (- 2147483648) (min 2147483647 x)"

lemma strtol_result:
  "n \<le> 2147483647 \<Longrightarrow> sint (of_nat n :: u32) = int n"
  "n \<le> 2147483648 \<Longrightarrow> sint (- of_nat n :: u32) = - int n"
proof -
  assume n: "n \<le> 2147483648"
  have "(- of_nat n :: u32) = word_of_int (- int n)" by simp
  moreover have "sint (word_of_int (- int n) :: u32) = - int n"
    using n signed_take_bit_int_eq_self [of 31 "- int n"] by (simp only: signed_of_int) simp
  ultimately show "sint (- of_nat n :: u32) = - int n" by (simp only:)
qed (simp add: sint_of_nat32)

lemma digit_not_space_sign:
  "strtol_digit c b = Some d \<Longrightarrow> \<not> isspace (uint c) \<and> c \<noteq> of_char CHR ''+'' \<and> c \<noteq> of_char CHR ''-''"
  by (auto simp: strtol_digit_def isspace_def isdigit_def isalpha_def isupper_def islower_def split: if_splits)

lemma of_nat_div32:
  assumes "a < 4294967296" and "b < 4294967296"
  shows "of_nat a div of_nat b = (of_nat (a div b) :: u32)" "of_nat a mod of_nat b = (of_nat (a mod b) :: u32)"
  using assms by (simp_all add: word_unat_eq_iff unat_div unat_mod le_less_trans [OF div_le_dividend] le_less_trans [OF mod_less_eq_dividend])

lemma hex_prefix_two: "length pf = 2 \<Longrightarrow> hex_prefix pf \<Longrightarrow> pf = [48, 120] \<or> pf = [48, 88]"
  by (cases pf; cases "tl pf") (auto simp: hex_prefix_def)

lemma strtol_sign:
  assumes "cstr m p (sg @ xs)" and "xs \<noteq> []"
    and "sg = [] \<or> sg = [of_char CHR ''+''] \<or> sg = [of_char CHR ''-'']"
    and "sg = [] \<Longrightarrow> hd xs \<noteq> of_char CHR ''+'' \<and> hd xs \<noteq> of_char CHR ''-''"
  shows "(if m p = of_char CHR ''-'' then (True, m (p + 1), p + 1 + 1)
      else if m p = of_char CHR ''+'' then (False, m (p + 1), p + 1 + 1) else (False, m p, p + 1)) =
    (sg = [of_char CHR ''-''], m (p + of_nat (length sg)), p + of_nat (length sg) + 1)"
  using assms by (elim disjE; cases xs) auto

lemma strtol_prefix:
  assumes "cstr m q (pf @ cs @ rest)" and pf: "prefix_ok base pf (cs @ rest)" and cs: "cs = c # cs'" and base: "base \<le> 36"
  shows "(if (of_nat base = (0 :: u32) \<or> of_nat base = (16 :: u32)) \<and> m q = of_char CHR ''0'' \<and>
        (m (q + 1) = of_char CHR ''x'' \<or> m (q + 1) = of_char CHR ''X'')
      then (m (q + 1 + 1), q + 1 + 2, 16 :: u32) else (m q, q + 1, of_nat base)) =
    (m (q + of_nat (length pf)), q + of_nat (length pf) + 1, of_nat (if pf \<noteq> [] then 16 else base))"
proof -
  have eqs: "of_nat base = (0 :: u32) \<longleftrightarrow> base = 0" "of_nat base = (16 :: u32) \<longleftrightarrow> base = 16"
    using base of_nat32_eq_iff [of base 0] of_nat32_eq_iff [of base 16] by auto
  show ?thesis
  proof (cases "pf = []")
    case True
    then have "m q = c" "m (q + 1) = (case cs' @ rest of [] \<Rightarrow> 0 | x # _ \<Rightarrow> x)"
      using assms(1) cs by (auto split: list.splits)
    with True pf show ?thesis by (auto simp: eqs prefix_ok_def hex_prefix_def cs split: list.splits if_splits)
  next
    case False
    then have "base = 0 \<or> base = 16" "pf = [48, 120] \<or> pf = [48, 88]"
      using pf hex_prefix_two [of pf] by (auto simp: prefix_ok_def split: if_splits)
    with assms(1) show ?thesis by (auto simp: add.commute)
  qed
qed

lemma strtol_base:
  assumes "base \<le> 36" and "x = hd cs"
  shows "(if of_nat (if pf \<noteq> [] then 16 else base) = (0 :: u32) then (if x = of_char CHR ''0'' then 8 else 10)
      else of_nat (if pf \<noteq> [] then 16 else base)) = (of_nat (base_of base pf cs) :: u32)"
  using assms of_nat32_eq_iff [of base 0] by (simp add: base_of_def)

lemma strtol_spec:
  assumes str: "cstr m nptr (ws @ sg @ pf @ cs @ rest)" and ws: "\<forall>w \<in> set ws. isspace (uint w)"
    and sg: "sg = [] \<or> sg = [of_char CHR ''+''] \<or> sg = [of_char CHR ''-'']"
    and pf: "prefix_ok base pf (cs @ rest)" and b: "b = base_of base pf cs" "1 < b" "b \<le> 36"
    and cs: "digit_values b cs = Some vs" "cs \<noteq> []" and rest: "rest = [] \<or> strtol_digit (hd rest) (of_nat b) = None"
  shows "\<exists>r. strtol nptr endptr (of_nat base) m =
      Some (r, if endptr \<noteq> 0 then st32 m endptr (nptr + of_nat (length (ws @ sg @ pf @ cs))) else m) \<and>
    sint r = clamp32 (if sg = [of_char CHR ''-''] then - int (number b 0 vs) else int (number b 0 vs))"
proof -
  define p where "p = nptr + of_nat (length ws)"
  define q where "q = p + of_nat (length sg)"
  define t where "t = q + of_nat (length pf)"
  define neg where "neg \<longleftrightarrow> sg = [of_char CHR ''-'' :: u8]"
  define l where "l = (if neg then 2147483648 else 2147483647 :: nat)"
  have cp: "cstr m p (sg @ pf @ cs @ rest)" using str unfolding p_def by (subst (asm) cstr_append) simp
  have cq: "cstr m q (pf @ cs @ rest)" using cp unfolding q_def by (subst (asm) cstr_append) simp
  have ct: "cstr m t (cs @ rest)" using cq unfolding t_def by (subst (asm) cstr_append) simp
  obtain c cs' d where c: "cs = c # cs'" "strtol_digit c (of_nat b) = Some d"
    using cs by (cases cs) (auto simp: digit_values_Cons)
  have base: "base \<le> 36" using b pf by (auto simp: base_of_def prefix_ok_def split: if_splits)
  have pfx: "pf = [] \<or> pf = [48, 120] \<or> pf = [48, 88]"
    using pf hex_prefix_two [of pf] by (auto simp: prefix_ok_def split: if_splits)
  note c_ok = digit_not_space_sign [OF c(2)]
  have first: "hd (pf @ cs @ rest) = (if pf = [] then c else 48)" using pfx by (auto simp: c(1))
  have hd: "\<not> isspace (uint (hd (sg @ pf @ cs @ rest)))"
    using sg c_ok first by (elim disjE) (auto simp: isspace_def split: if_splits)
  have skip: "strtol_skip m nptr = Some (m p, p + 1)"
    unfolding p_def by (rule strtol_skip_eq) (use str ws hd in auto)
  note sign = strtol_sign [OF cp _ sg, folded q_def neg_def]
  note prefix = strtol_prefix [OF cq pf c(1) base, folded t_def]
  note number_base = strtol_base [OF base, of "m t" cs pf, folded b(1)]
  have conds: "pf @ cs @ rest \<noteq> []" "sg = [] \<Longrightarrow> hd (pf @ cs @ rest) \<noteq> of_char CHR ''+'' \<and> hd (pf @ cs @ rest) \<noteq> of_char CHR ''-''"
    "m t = hd cs" using c_ok first ct c(1) by simp_all
  have cut: "(if neg then - 2147483648 else 2147483647) = (of_nat l :: u32)" by (simp add: l_def)
  have l: "l < 4294967296" by (simp add: l_def)
  have "\<exists>acc. strtol_loop m (of_nat b) (of_nat l div of_nat b) (of_nat l mod of_nat b) (m t) (t + 1) 0 0 =
      Some (t + of_nat (length cs) + 1, acc, if l < number b 0 vs then -1 else 1) \<and>
      (number b 0 vs \<le> l \<longrightarrow> acc = of_nat (number b 0 vs))"
    using strtol_loop_eq [OF ct cs(1) rest b(2,3) _ l, of 0 0] cs(2) b(3) of_nat_div32 [OF l, of b] by auto
  then obtain acc where loop: "strtol_loop m (of_nat b) (of_nat l div of_nat b) (of_nat l mod of_nat b) (m t) (t + 1) 0 0 =
      Some (t + of_nat (length cs) + 1, acc, if l < number b 0 vs then -1 else 1)"
    and acc: "number b 0 vs \<le> l \<Longrightarrow> acc = of_nat (number b 0 vs)" by blast
  let ?r = "if l < number b 0 vs then (if neg then 2147483648 else 2147483647) else if neg then - acc else acc"
  have fin: "t + of_nat (length cs) + 1 - 1 = nptr + of_nat (length (ws @ sg @ pf @ cs))"
    by (simp add: t_def q_def p_def add.assoc)
  have "strtol nptr endptr (of_nat base) m =
      Some (?r, if endptr \<noteq> 0 then st32 m endptr (nptr + of_nat (length (ws @ sg @ pf @ cs))) else m)"
    unfolding strtol_def skip by (simp only: bind.simps prod.case Let_def sign [OF conds(1,2)] prefix number_base [OF conds(3)] cut loop fin) simp
  moreover have "sint ?r = clamp32 (if neg then - int (number b 0 vs) else int (number b 0 vs))"
    using acc strtol_result [of "number b 0 vs"] by (auto simp: clamp32_def l_def max_def min_def)
  ultimately show ?thesis unfolding neg_def by blast
qed

section \<open>Properties\<close>

text \<open>A text stored at an address, for the concrete examples.\<close>

fun text_at :: "addr \<Rightarrow> string \<Rightarrow> mem \<Rightarrow> mem" where
  "text_at a [] m = m(a := 0)"
| "text_at a (c # cs) m = (text_at (a + 1) cs m)(a := of_char c)"

abbreviation ascii :: "string \<Rightarrow> u8 list" where
  "ascii cs \<equiv> map of_char cs"

text \<open>
  String comparison is the lexicographic order on unsigned bytes. On NUL-terminated strings \<open>strcmp\<close>
  returns; its result is 0 exactly for equal strings and negative exactly when the first string is
  smaller; \<open>strncmp\<close> compares the first \<open>n\<close> characters in the same way, \<open>strcasecmp\<close> does it after
  mapping both strings to lower case, and all of them return the difference at the first mismatch.
\<close>

theorem string_compare_order:
  assumes "cstr m s1 xs" and "cstr m s2 ys"
  shows "\<exists>r q. strcmp m s1 s2 = Some r \<and> (r = 0 \<longleftrightarrow> xs = ys) \<and> (r < 0 \<longleftrightarrow> (map uint xs, map uint ys) \<in> lexord {(a, b). a < b}) \<and>
    (strncmp m s1 s2 n = 0 \<longleftrightarrow> take (unat n) xs = take (unat n) ys) \<and>
    strcasecmp m s1 s2 = Some q \<and> (q = 0 \<longleftrightarrow> folded xs = folded ys)"
proof -
  have nz: "0 \<notin> set xs" "0 \<notin> set ys" using assms by (simp_all add: cstr_iff)
  then have pos: "\<forall>x \<in> set (map uint xs). 0 < x" "\<forall>y \<in> set (map uint ys). 0 < y"
    by (auto simp: less_le uint_0_iff)
  have "0 \<notin> set (folded xs)" "0 \<notin> set (folded ys)" using nz tolower_byte(1) by (auto simp: image_iff)
  with nz show ?thesis
    using first_diff_less [OF pos] first_diff_uint_zero [OF nz]
      first_diff_uint_zero [of "take (unat n) xs" "take (unat n) ys"] first_diff_zero
    by (auto simp: strcmp_eq [OF assms] strcasecmp_eq [OF assms] strncmp_eq [OF assms] dest: in_set_takeD)
qed

theorem string_compare_order_witness:
  "strncmp (text_at 100 ''abc'' (text_at 200 ''abd'' (\<lambda>_. 0))) 100 200 2 = 0"
  using string_compare_order [of "text_at 100 ''abc'' (text_at 200 ''abd'' (\<lambda>_. 0))" 100 "ascii ''abc''" 200 "ascii ''abd''" 2]
  by auto

text \<open>
  \<open>strlcpy\<close> never overruns its buffer and always terminates the copy. For a NUL-terminated source that
  does not overlap the destination buffer of \<open>dsize > 0\<close> bytes, the destination then holds the first
  \<open>dsize - 1\<close> characters of the source and a NUL, no byte outside the buffer changes, and the result is
  the length of the source, so the caller can detect truncation.
\<close>

theorem strlcpy_bounded:
  assumes "cstr m src xs" and "0 < dsize" and "span src (Suc (length xs)) \<inter> span dst (unat dsize) = {}"
  shows "\<exists>m'. strlcpy dst src dsize m = Some (of_nat (length xs), m') \<and>
    cstr m' dst (take (unat dsize - 1) xs) \<and> (\<forall>x. x \<notin> span dst (unat dsize) \<longrightarrow> m' x = m x)"
  using assms by (rule strlcpy_spec)

theorem strlcpy_bounded_witness:
  "\<exists>m'. strlcpy 200 100 3 (text_at 100 ''abcd'' (\<lambda>_. 0)) = Some (4, m') \<and> cstr m' 200 (ascii ''ab'')"
proof -
  have "span 100 (Suc (length (ascii ''abcd''))) \<inter> span 200 (unat (3 :: u32)) = {}" by (simp add: span_numeral span_Suc)
  with strlcpy_bounded [of "text_at 100 ''abcd'' (\<lambda>_. 0)" 100 "ascii ''abcd''" 3 200] show ?thesis by auto
qed

text \<open>
  \<open>strstr\<close> finds the first occurrence: it returns NULL when the second string does not occur in the
  first, and otherwise a pointer to the first position at which it does.
\<close>

theorem strstr_first_occurrence:
  assumes "cstr m s xs" and "cstr m fnd ys"
  shows "(\<exists>i. strstr m s fnd = Some (s + of_nat i) \<and> i \<le> length xs \<and> take (length ys) (drop i xs) = ys \<and>
      (\<forall>j < i. take (length ys) (drop j xs) \<noteq> ys)) \<or>
    (strstr m s fnd = Some 0 \<and> (\<forall>j. take (length ys) (drop j xs) \<noteq> ys))"
  using strstr_eq [OF assms] find_sub_Some [of ys xs] find_sub_least [of ys xs] find_sub_None [of ys xs]
  by (cases "find_sub ys xs") auto

theorem strstr_first_occurrence_witness:
  "\<exists>i. strstr (text_at 100 ''aabab'' (text_at 200 ''ab'' (\<lambda>_. 0))) 100 200 = Some (100 + of_nat i) \<and>
     take 2 (drop i (ascii ''aabab'')) = ascii ''ab''"
proof -
  let ?m = "text_at 100 ''aabab'' (text_at 200 ''ab'' (\<lambda>_. 0))"
  have "cstr ?m 100 (ascii ''aabab'')" "cstr ?m 200 (ascii ''ab'')" by simp_all
  from strstr_first_occurrence [OF this] show ?thesis
  proof (elim disjE exE conjE)
    assume "\<forall>j. take (length (ascii ''ab'')) (drop j (ascii ''aabab'')) \<noteq> ascii ''ab''"
    from spec [OF this, of 1] show ?thesis by simp
  next
    fix i
    assume "strstr ?m 100 200 = Some (100 + of_nat i)"
      and "take (length (ascii ''ab'')) (drop i (ascii ''aabab'')) = ascii ''ab''"
    then show ?thesis by (intro exI [of _ i]) (simp add: numeral_2_eq_2)
  qed
qed



end
