(* ===== verification/Printf.thy ===== *)
theory Printf
  imports CString
begin

text \<open>
  The formatted output of \<^verbatim>\<open>src/printf.c\<close>: \<open>format_int\<close>, the state machine of \<open>vsnprintf\<close>, \<open>snprintf\<close>.
  (The user library's \<^verbatim>\<open>user/lib/stdio.c\<close> has the same two functions.) The output buffer, the format,
  the strings and the variable arguments are all in the byte memory, so a conversion sees what
  earlier conversions wrote.

  Unsigned C values are words of their width. A C \<open>int\<close> is HOL's \<open>int\<close>, reduced to 32 bits where the
  format or an argument can drive it past the range (\<open>wrap32\<close>); the counter of the string loop,
  which runs down to 0, is a word. On i686 a \<open>va_list\<close> is a pointer into the caller's argument area:
  \<open>va_arg\<close> reads the 32-bit or 64-bit slot it points to and moves on.
\<close>

section \<open>The code\<close>

subsection \<open>Flags and output\<close>

definition FL_ZERO :: u32 where "FL_ZERO = 0x01"
definition FL_MINUS :: u32 where "FL_MINUS = 0x02"
definition FL_PLUS :: u32 where "FL_PLUS = 0x04"
definition FL_TICK :: u32 where "FL_TICK = 0x08"
definition FL_SPACE :: u32 where "FL_SPACE = 0x10"
definition FL_HASH :: u32 where "FL_HASH = 0x20"
definition FL_SIGNED :: u32 where "FL_SIGNED = 0x40"
definition FL_UPPER :: u32 where "FL_UPPER = 0x80"

lemmas flag_defs = FL_ZERO_def FL_MINUS_def FL_PLUS_def FL_TICK_def FL_SPACE_def FL_HASH_def FL_SIGNED_def
  FL_UPPER_def

definition rank_char :: int where "rank_char = -2"
definition rank_short :: int where "rank_short = -1"
definition rank_int :: int where "rank_int = 0"
definition rank_long :: int where "rank_long = 1"
definition rank_longlong :: int where "rank_longlong = 2"

lemmas rank_defs = rank_char_def rank_short_def rank_int_def rank_long_def rank_longlong_def

definition wrap32 :: "int \<Rightarrow> int" where
  "wrap32 x = signed_take_bit 31 x"

text \<open>The output cursor: the pointer \<open>q\<close>, the number \<open>o\<close> of characters so far, the memory.\<close>

type_synonym out = "addr \<times> u32 \<times> mem"

fun EMIT :: "u32 \<Rightarrow> u8 \<Rightarrow> out \<Rightarrow> out" where
  "EMIT n x (q, cnt, m) = (if cnt < n then (q + 1, cnt + 1, m(q := x)) else (q, cnt + 1, m))"

text \<open>The padding loops: \<open>while (width > limit) { EMIT(c); width--; }\<close>.\<close>

function pad :: "u32 \<Rightarrow> u8 \<Rightarrow> int \<Rightarrow> int \<Rightarrow> out \<Rightarrow> int \<times> out" where
  "pad n c width lim out = (if lim < width then pad n c (width - 1) lim (EMIT n c out) else (width, out))"
  by pat_completeness auto
termination
  by (relation "measure (\<lambda>(n, c, width, lim, out). nat (width - lim))") auto

declare pad.simps [simp del]

subsection \<open>Integers\<close>

definition lcdigits :: "u8 list" where
  "lcdigits = ascii ''0123456789abcdef''"

definition ucdigits :: "u8 list" where
  "ucdigits = ascii ''0123456789ABCDEF''"

partial_function (option) count_digits :: "u64 \<Rightarrow> u64 \<Rightarrow> int \<Rightarrow> int option" where
  "count_digits tmpval base ndigits =
     (if tmpval \<noteq> 0 then count_digits (tmpval div base) base (ndigits + 1) else Some ndigits)"

text \<open>The digits, from right to left; \<open>qq\<close> and \<open>oo\<close> are the position behind the next character.\<close>

function digit_loop ::
    "u8 list \<Rightarrow> u64 \<Rightarrow> int \<Rightarrow> u32 \<Rightarrow> int \<Rightarrow> int \<Rightarrow> u64 \<Rightarrow> addr \<Rightarrow> u32 \<Rightarrow> mem \<Rightarrow> mem" where
  "digit_loop digits base tickskip n ndigits b4tick val qq oo m =
     (if ndigits > 0
      then let (qq, oo, ndigits, m, b4tick) =
                 (if b4tick = 0
                  then (qq - 1, oo - 1, ndigits - 1, if oo - 1 < n then m(qq - 1 := of_char CHR ''_'') else m, tickskip - 1)
                  else (qq, oo, ndigits, m, b4tick - 1));
               qq = qq - 1;
               oo = oo - 1;
               m = (if oo < n then m(qq := digits ! unat (val mod base)) else m)
           in digit_loop digits base tickskip n (ndigits - 1) b4tick (val div base) qq oo m
      else m)"
  by pat_completeness auto
termination
  by (relation "measure (\<lambda>(digits, base, tickskip, n, ndigits, b4tick, val, qq, oo, m). nat ndigits)")
    (auto split: if_splits)

declare digit_loop.simps [simp del]

text \<open>The second half of \<open>format_int\<close>, from the early padding on: it emits the characters.\<close>

definition format_emit ::
    "addr \<Rightarrow> u32 \<Rightarrow> u64 \<Rightarrow> u32 \<Rightarrow> u64 \<Rightarrow> int \<Rightarrow> bool \<Rightarrow> u8 list \<Rightarrow> int \<Rightarrow> int \<Rightarrow> int \<Rightarrow> mem \<Rightarrow> u32 \<times> mem" where
  "format_emit q n val flags base width neg digits tickskip ndigits nchars m =
     (let (width, out) = (if flags AND (FL_MINUS OR FL_ZERO) = 0
            then pad n (of_char CHR '' '') width nchars (q, 0, m) else (width, (q, 0, m)));
          out = (if neg then EMIT n (of_char CHR ''-'') out
                 else if flags AND FL_PLUS \<noteq> 0 then EMIT n (of_char CHR ''+'') out
                 else if flags AND FL_SPACE \<noteq> 0 then EMIT n (of_char CHR '' '') out
                 else out);
          out = (if flags AND FL_HASH \<noteq> 0 \<and> base = 16
                 then EMIT n (if flags AND FL_UPPER \<noteq> 0 then of_char CHR ''X'' else of_char CHR ''x'')
                   (EMIT n (of_char CHR ''0'') out)
                 else out);
          (width, out) = (if flags AND (FL_MINUS OR FL_ZERO) = FL_ZERO \<and> width > ndigits
            then pad n (of_char CHR ''0'') width nchars out else (width, out));
          (q, cnt, m) = out;
          q = q + word_of_int ndigits;
          cnt = cnt + word_of_int ndigits;
          m = digit_loop digits base tickskip n ndigits tickskip val q cnt m;
          (width, out) = (if flags AND FL_MINUS \<noteq> 0
            then pad n (of_char CHR '' '') width nchars (q, cnt, m) else (width, (q, cnt, m)))
      in snd out)"

definition format_int ::
    "addr \<Rightarrow> u32 \<Rightarrow> u64 \<Rightarrow> u32 \<Rightarrow> u64 \<Rightarrow> int \<Rightarrow> int \<Rightarrow> mem \<Rightarrow> (u32 \<times> mem) option" where
  "format_int q n val flags base width prec m =
     (let digits = (if flags AND FL_UPPER \<noteq> 0 then ucdigits else lcdigits);
          neg = (flags AND FL_SIGNED \<noteq> 0 \<and> sint val < 0);
          val = (if neg then - val else val)
      in Option.bind (count_digits val base 0) (\<lambda>ndigits.
      let prec = (if flags AND FL_HASH \<noteq> 0 \<and> base = 8 \<and> prec < ndigits + 1 then ndigits + 1 else prec);
          ndigits = (if ndigits < prec then prec else if val = 0 then 1 else ndigits);
          tickskip = (if flags AND FL_TICK \<noteq> 0 then (if base = 16 then 4 else 3) else ndigits);
          ndigits = wrap32 (ndigits + (ndigits - 1) div tickskip);
          nchars = ndigits;
          nchars = (if neg \<or> flags AND (FL_PLUS OR FL_SPACE) \<noteq> 0 then wrap32 (nchars + 1) else nchars);
          nchars = (if flags AND FL_HASH \<noteq> 0 \<and> base = 16 then wrap32 (nchars + 2) else nchars)
      in Some (format_emit q n val flags base width neg digits tickskip ndigits nchars m)))"

subsection \<open>Arguments\<close>

definition st16 :: "mem \<Rightarrow> addr \<Rightarrow> u16 \<Rightarrow> mem" where
  "st16 m p v = m(p := ucast v, p + 1 := ucast (drop_bit 8 v))"

definition ld64 :: "mem \<Rightarrow> addr \<Rightarrow> u64" where
  "ld64 m p = ucast (ld32 m p) OR push_bit 32 (ucast (ld32 m (p + 4)))"

definition st64 :: "mem \<Rightarrow> addr \<Rightarrow> u64 \<Rightarrow> mem" where
  "st64 m p v = st32 (st32 m p (ucast v)) (p + 4) (ucast (drop_bit 32 v))"

text \<open>The casts of the signed and of the unsigned conversions, by rank; the result has the argument pointer after it.\<close>

definition signed_arg :: "int \<Rightarrow> mem \<Rightarrow> addr \<Rightarrow> u64 \<times> addr" where
  "signed_arg rank m ap =
     (if rank = rank_char then (scast (ucast (ld32 m ap) :: u8), ap + 4)
      else if rank = rank_short then (scast (ucast (ld32 m ap) :: u16), ap + 4)
      else if rank = rank_int then (scast (ld32 m ap), ap + 4)
      else if rank = rank_long then (scast (ld32 m ap), ap + 4)
      else (ld64 m ap, ap + 8))"

definition unsigned_arg :: "int \<Rightarrow> mem \<Rightarrow> addr \<Rightarrow> u64 \<times> addr" where
  "unsigned_arg rank m ap =
     (if rank = rank_char then (ucast (ucast (ld32 m ap) :: u8), ap + 4)
      else if rank = rank_short then (ucast (ucast (ld32 m ap) :: u16), ap + 4)
      else if rank = rank_int then (ucast (ld32 m ap), ap + 4)
      else if rank = rank_long then (ucast (ld32 m ap), ap + 4)
      else (ld64 m ap, ap + 8))"

text \<open>The store of \<open>%n\<close>, by rank.\<close>

definition store_count :: "int \<Rightarrow> addr \<Rightarrow> u32 \<Rightarrow> mem \<Rightarrow> mem" where
  "store_count rank p cnt m =
     (if rank = rank_char then m(p := ucast cnt)
      else if rank = rank_short then st16 m p (ucast cnt)
      else if rank = rank_int then st32 m p cnt
      else if rank = rank_long then st32 m p cnt
      else st64 m p (ucast cnt))"

subsection \<open>Strings\<close>

text \<open>
  The source of \<open>is_string\<close>: a string in memory, or characters that are not in the modelled memory
  (the local \<open>carg\<close> and the literal \<open>"(null)"\<close>).
\<close>

datatype sarg = InMem addr | Chars "u8 list"

function string_loop :: "u32 \<Rightarrow> u32 \<Rightarrow> sarg \<Rightarrow> out \<Rightarrow> out" where
  "string_loop n i src out =
     (if i \<noteq> 0
      then let (sch, src') = (case src of InMem a \<Rightarrow> (snd (snd out) a, InMem (a + 1))
                                        | Chars cs \<Rightarrow> (hd cs, Chars (tl cs)))
           in string_loop n (i - 1) src' (EMIT n sch out)
      else out)"
  by pat_completeness auto
termination
  by (relation "measure (\<lambda>(n, i, src, out). unat i)") (auto simp: word_count_down unat_gt_0)

declare string_loop.simps [simp del]

definition emit_string :: "u32 \<Rightarrow> sarg \<Rightarrow> int \<Rightarrow> u32 \<Rightarrow> int \<Rightarrow> int \<Rightarrow> out \<Rightarrow> out" where
  "emit_string n src slen flags width prec out =
     (let slen = (if prec \<noteq> -1 \<and> slen > prec then prec else slen);
          (width, out) = (if width > slen \<and> flags AND FL_MINUS = 0
            then pad n (if flags AND FL_ZERO \<noteq> 0 then of_char CHR ''0'' else of_char CHR '' '') width slen out
            else (width, out));
          out = string_loop n (word_of_int slen) src out
      in if width > slen \<and> flags AND FL_MINUS \<noteq> 0 then snd (pad n (of_char CHR '' '') width slen out) else out)"

subsection \<open>The state machine\<close>

datatype pstate = st_normal | st_flags | st_width | st_prec | st_modifiers

text \<open>
  The local variables of \<open>vsnprintf\<close>: \<open>state\<close>, \<open>flags\<close>, \<open>rank\<close>, \<open>width\<close>, \<open>prec\<close>, \<open>ap\<close>, and in the extension
  \<open>p\<close> and the output cursor.
\<close>

record pctl =
  fstate :: pstate
  fflags :: u32
  frank :: int
  fwidth :: int
  fprec :: int
  fap :: addr

record vstate = pctl +
  fp :: addr
  fout :: out

abbreviation omem :: "out \<Rightarrow> mem" where
  "omem out \<equiv> snd (snd out)"

text \<open>
  The cases of the states \<open>st_flags\<close>, \<open>st_width\<close>, \<open>st_prec\<close> and of the length modifiers; \<open>None\<close> is their
  \<open>default\<close> branch.
\<close>

definition flags_step :: "u8 \<Rightarrow> 'a pctl_scheme \<Rightarrow> 'a pctl_scheme option" where
  "flags_step ch v =
     (if ch = of_char CHR ''-'' then Some (v\<lparr>fflags := fflags v OR FL_MINUS\<rparr>)
      else if ch = of_char CHR ''+'' then Some (v\<lparr>fflags := fflags v OR FL_PLUS\<rparr>)
      else if ch = of_char CHR 0x27 then Some (v\<lparr>fflags := fflags v OR FL_TICK\<rparr>)
      else if ch = of_char CHR '' '' then Some (v\<lparr>fflags := fflags v OR FL_SPACE\<rparr>)
      else if ch = of_char CHR ''#'' then Some (v\<lparr>fflags := fflags v OR FL_HASH\<rparr>)
      else if ch = of_char CHR ''0'' then Some (v\<lparr>fflags := fflags v OR FL_ZERO\<rparr>)
      else None)"

definition width_step :: "mem \<Rightarrow> u8 \<Rightarrow> 'a pctl_scheme \<Rightarrow> 'a pctl_scheme option" where
  "width_step m ch v =
     (if sint ch \<ge> chr CHR ''0'' \<and> sint ch \<le> chr CHR ''9''
      then Some (v\<lparr>fwidth := wrap32 (fwidth v * 10 + (sint ch - chr CHR ''0''))\<rparr>)
      else if ch = of_char CHR ''*'' then
        let w = sint (ld32 m (fap v)); v = v\<lparr>fap := fap v + 4\<rparr>
        in if w < 0 then Some (v\<lparr>fwidth := wrap32 (- w), fflags := fflags v OR FL_MINUS\<rparr>)
           else Some (v\<lparr>fwidth := w\<rparr>)
      else if ch = of_char CHR ''.'' then Some (v\<lparr>fprec := 0, fstate := st_prec\<rparr>)
      else None)"

definition prec_step :: "mem \<Rightarrow> u8 \<Rightarrow> 'a pctl_scheme \<Rightarrow> 'a pctl_scheme option" where
  "prec_step m ch v =
     (if sint ch \<ge> chr CHR ''0'' \<and> sint ch \<le> chr CHR ''9''
      then Some (v\<lparr>fprec := wrap32 (fprec v * 10 + (sint ch - chr CHR ''0''))\<rparr>)
      else if ch = of_char CHR ''*'' then
        let w = sint (ld32 m (fap v))
        in Some (v\<lparr>fap := fap v + 4, fprec := (if w < 0 then -1 else w)\<rparr>)
      else None)"

definition rank_step :: "u8 \<Rightarrow> 'a pctl_scheme \<Rightarrow> 'a pctl_scheme option" where
  "rank_step ch v =
     (if ch = of_char CHR ''h'' then Some (v\<lparr>frank := frank v - 1\<rparr>)
      else if ch = of_char CHR ''l'' then Some (v\<lparr>frank := frank v + 1\<rparr>)
      else if ch = of_char CHR ''j'' then Some (v\<lparr>frank := rank_longlong\<rparr>)
      else if ch = of_char CHR ''z'' then Some (v\<lparr>frank := rank_long\<rparr>)
      else if ch = of_char CHR ''t'' then Some (v\<lparr>frank := rank_long\<rparr>)
      else if ch = of_char CHR ''L'' \<or> ch = of_char CHR ''q'' then Some (v\<lparr>frank := frank v + 2\<rparr>)
      else None)"

text \<open>The next state is normal and the rank is brought into range.\<close>

definition canonical :: "'a pctl_scheme \<Rightarrow> 'a pctl_scheme" where
  "canonical v = v\<lparr>fstate := st_normal,
     frank := (if frank v < rank_char then rank_char else if frank v > rank_longlong then rank_longlong else frank v)\<rparr>"

text \<open>The integer conversions up to the label \<open>is_integer\<close>: the value, the base, the variables.\<close>

definition int_conv :: "mem \<Rightarrow> u8 \<Rightarrow> 'a pctl_scheme \<Rightarrow> (u64 \<times> u64 \<times> 'a pctl_scheme) option" where
  "int_conv m ch v =
     (if ch = of_char CHR ''P'' \<or> ch = of_char CHR ''p'' then
        let fl = (if ch = of_char CHR ''P'' then fflags v OR FL_UPPER else fflags v)
        in Some (ucast (ld32 m (fap v)), 16, v\<lparr>fflags := fl OR FL_HASH, fprec := (8 * 4 + 3) div 4, fap := fap v + 4\<rparr>)
      else if ch = of_char CHR ''d'' \<or> ch = of_char CHR ''i'' then
        let (val, ap) = signed_arg (frank v) m (fap v)
        in Some (val, 10, v\<lparr>fflags := fflags v OR FL_SIGNED, fap := ap\<rparr>)
      else if ch = of_char CHR ''o'' \<or> ch = of_char CHR ''u'' \<or> ch = of_char CHR ''X'' \<or> ch = of_char CHR ''x'' then
        let fl = (if ch = of_char CHR ''X'' then fflags v OR FL_UPPER else fflags v);
            base = (if ch = of_char CHR ''o'' then 8 else if ch = of_char CHR ''u'' then 10 else 16);
            (val, ap) = unsigned_arg (frank v) m (fap v)
        in Some (val, base, v\<lparr>fflags := fl, fap := ap\<rparr>)
      else None)"

text \<open>The label \<open>is_integer\<close>.\<close>

definition emit_integer :: "u32 \<Rightarrow> u64 \<Rightarrow> u64 \<Rightarrow> vstate \<Rightarrow> vstate option" where
  "emit_integer n val base v =
     (case fout v of (q, cnt, m) \<Rightarrow>
        map_option (\<lambda>(sz, m'). v\<lparr>fout := (q + sz, cnt + sz, m')\<rparr>)
          (format_int q (if cnt < n then n - cnt else 0) val (fflags v) base (fwidth v) (fprec v) m))"

text \<open>The terminal conversions: the inner \<open>switch (ch)\<close> of \<open>st_modifiers\<close>.\<close>

definition convert :: "u32 \<Rightarrow> u8 \<Rightarrow> vstate \<Rightarrow> vstate option" where
  "convert n ch v =
     (let m = omem (fout v); a = ld32 m (fap v); cnt = fst (snd (fout v)) in
      case int_conv m ch v of
        Some (val, base, v') \<Rightarrow> emit_integer n val base v'
      | None \<Rightarrow>
          if ch = of_char CHR ''c'' then
            Some (v\<lparr>fout := emit_string n (Chars [ucast a]) 1 (fflags v) (fwidth v) (fprec v) (fout v), fap := fap v + 4\<rparr>)
          else if ch = of_char CHR ''s'' then
            (if a = 0
             then Some (v\<lparr>fout := emit_string n (Chars (ascii ''(null)'')) 6 (fflags v) (fwidth v) (fprec v) (fout v),
                    fap := fap v + 4\<rparr>)
             else map_option (\<lambda>l. v\<lparr>fout := emit_string n (InMem a) (sint l) (fflags v) (fwidth v) (fprec v) (fout v),
                    fap := fap v + 4\<rparr>) (strlen m a))
          else if ch = of_char CHR ''n'' then
            Some (v\<lparr>fout := (fst (fout v), cnt, store_count (frank v) a cnt m), fap := fap v + 4\<rparr>)
          else Some (v\<lparr>fout := EMIT n ch (fout v)\<rparr>))"

text \<open>One turn of the loop, with \<open>p\<close> already behind \<open>ch\<close>.\<close>

definition start_conv :: "'a pctl_scheme \<Rightarrow> 'a pctl_scheme" where
  "start_conv v = v\<lparr>fstate := st_flags, fflags := 0, frank := rank_int, fwidth := 0, fprec := -1\<rparr>"

definition vsn_step :: "u32 \<Rightarrow> u8 \<Rightarrow> vstate \<Rightarrow> vstate option" where
  "vsn_step n ch v = (case fstate v of
     st_normal \<Rightarrow> Some (if ch = of_char CHR ''%'' then start_conv v else v\<lparr>fout := EMIT n ch (fout v)\<rparr>)
   | st_flags \<Rightarrow> (case flags_step ch v of
        Some v' \<Rightarrow> Some v' | None \<Rightarrow> Some (v\<lparr>fstate := st_width, fp := fp v - 1\<rparr>))
   | st_width \<Rightarrow> (case width_step (omem (fout v)) ch v of
        Some v' \<Rightarrow> Some v' | None \<Rightarrow> Some (v\<lparr>fstate := st_modifiers, fp := fp v - 1\<rparr>))
   | st_prec \<Rightarrow> (case prec_step (omem (fout v)) ch v of
        Some v' \<Rightarrow> Some v' | None \<Rightarrow> Some (v\<lparr>fstate := st_modifiers, fp := fp v - 1\<rparr>))
   | st_modifiers \<Rightarrow> (case rank_step ch v of
        Some v' \<Rightarrow> Some v' | None \<Rightarrow> convert n ch (canonical v)))"

partial_function (option) vsn_loop :: "u32 \<Rightarrow> vstate \<Rightarrow> vstate option" where
  "vsn_loop n v =
     (let ch = omem (fout v) (fp v); v = v\<lparr>fp := fp v + 1\<rparr>
      in if ch \<noteq> 0 then Option.bind (vsn_step n ch v) (vsn_loop n) else Some v)"

definition vsnprintf :: "addr \<Rightarrow> u32 \<Rightarrow> addr \<Rightarrow> addr \<Rightarrow> mem \<Rightarrow> (u32 \<times> mem) option" where
  "vsnprintf buffer n format ap m =
     Option.bind (vsn_loop n \<lparr>fstate = st_normal, fflags = 0, frank = rank_int, fwidth = 0, fprec = -1, fap = ap,
         fp = format, fout = (buffer, 0, m)\<rparr>)
       (\<lambda>v. case fout v of (q, cnt, m) \<Rightarrow>
          Some (cnt, if cnt < n then m(q := 0) else if n > 0 then m(buffer + (n - 1) := 0) else m))"

text \<open>\<open>snprintf\<close> passes the address of its own variable arguments.\<close>

definition snprintf :: "addr \<Rightarrow> u32 \<Rightarrow> addr \<Rightarrow> addr \<Rightarrow> mem \<Rightarrow> (u32 \<times> mem) option" where
  "snprintf buffer n format args m = vsnprintf buffer n format args m"

section \<open>What the output should be\<close>

text \<open>Digits, least significant first; the number of digits; underscores every \<open>t\<close> digits from the right.\<close>

fun lsd :: "nat \<Rightarrow> nat \<Rightarrow> nat \<Rightarrow> nat list" where
  "lsd b 0 v = []"
| "lsd b (Suc k) v = v mod b # lsd b k (v div b)"

function ndigs :: "nat \<Rightarrow> nat \<Rightarrow> nat" where
  "ndigs b v = (if v = 0 \<or> b < 2 then 0 else Suc (ndigs b (v div b)))"
  by pat_completeness auto
termination
  by (relation "measure snd") (auto simp: div_less_dividend)

declare ndigs.simps [simp del]

fun ticked :: "nat \<Rightarrow> nat \<Rightarrow> u8 list \<Rightarrow> u8 list" where
  "ticked t b [] = []"
| "ticked t 0 (c # cs) = of_char CHR ''_'' # c # ticked t (t - 1) cs"
| "ticked t (Suc b) (c # cs) = c # ticked t b cs"

definition number_text :: "u32 \<Rightarrow> nat \<Rightarrow> int \<Rightarrow> nat \<Rightarrow> u8 list" where
  "number_text flags b prec v =
     (let k = ndigs b v;
          k = (if flags AND FL_HASH \<noteq> 0 \<and> b = 8 then max (k + 1) (nat prec) else max k (nat prec));
          k = max 1 k;
          t = (if flags AND FL_TICK \<noteq> 0 then (if b = 16 then 4 else 3) else k)
      in rev (ticked t t (map (\<lambda>d. (if flags AND FL_UPPER \<noteq> 0 then ucdigits else lcdigits) ! d) (lsd b k v))))"

definition sign_text :: "u32 \<Rightarrow> nat \<Rightarrow> bool \<Rightarrow> u8 list" where
  "sign_text flags b neg =
     (if neg then ascii ''-'' else if flags AND FL_PLUS \<noteq> 0 then ascii ''+''
      else if flags AND FL_SPACE \<noteq> 0 then ascii '' '' else []) @
     (if flags AND FL_HASH \<noteq> 0 \<and> b = 16 then (if flags AND FL_UPPER \<noteq> 0 then ascii ''0X'' else ascii ''0x'') else [])"

definition int_text :: "u32 \<Rightarrow> nat \<Rightarrow> int \<Rightarrow> int \<Rightarrow> bool \<Rightarrow> nat \<Rightarrow> u8 list" where
  "int_text flags b width prec neg v =
     (let sg = sign_text flags b neg; num = number_text flags b prec v;
          fill = nat width - (length sg + length num)
      in if flags AND FL_MINUS \<noteq> 0 then sg @ num @ replicate fill (of_char CHR '' '')
         else if flags AND FL_ZERO \<noteq> 0 then sg @ replicate fill (of_char CHR ''0'') @ num
         else replicate fill (of_char CHR '' '') @ sg @ num)"

section \<open>Output through a bounded buffer\<close>

definition overlay :: "mem \<Rightarrow> addr \<Rightarrow> u8 list \<Rightarrow> mem" where
  "overlay m b xs = (\<lambda>x. if unat (x - b) < length xs then xs ! unat (x - b) else m x)"

text \<open>
  The cursor after the text \<open>ts\<close> has been sent to a buffer of \<open>n\<close> bytes at \<open>b\<close>: the count is exact, the
  first \<open>n\<close> bytes are in the buffer, nothing else has changed.
\<close>

definition sent :: "mem \<Rightarrow> addr \<Rightarrow> u32 \<Rightarrow> u8 list \<Rightarrow> out \<Rightarrow> bool" where
  "sent m0 b n ts = (\<lambda>(q, cnt, m). length ts < 4294967296 \<and> cnt = of_nat (length ts) \<and>
     (cnt < n \<longrightarrow> q = b + cnt) \<and> m = overlay m0 b (take (unat n) ts))"

lemma sent_Nil [simp]: "sent m b n [] (b, 0, m)"
  by (simp add: sent_def overlay_def fun_eq_iff)

lemma overlay_snoc:
  assumes "length xs < 4294967296"
  shows "overlay m b (xs @ [x]) = (overlay m b xs)(b + of_nat (length xs) := x)"
proof
  fix y
  have "y = b + of_nat (length xs) \<longleftrightarrow> unat (y - b) = length xs"
    using eq_of_nat32 [OF assms, of "y - b"] by (auto simp: algebra_simps)
  then show "overlay m b (xs @ [x]) y = ((overlay m b xs)(b + of_nat (length xs) := x)) y"
    by (auto simp: overlay_def nth_append)
qed

lemma sent_EMIT:
  assumes "sent m b n ts out" and "length ts + 1 < 4294967296"
  shows "sent m b n (ts @ [x]) (EMIT n x out)"
proof -
  obtain q cnt m' where out: "out = (q, cnt, m')" by (cases out)
  have len: "length ts < 4294967296" using assms(2) by simp
  have c: "cnt = of_nat (length ts)" "cnt < n \<Longrightarrow> q = b + cnt" "m' = overlay m b (take (unat n) ts)"
    using assms(1) by (auto simp: sent_def out)
  show ?thesis
  proof (cases "cnt < n")
    case True
    then have "length ts < unat n" using c(1) len by (simp add: word_less_nat_alt)
    then show ?thesis using True c overlay_snoc [OF len, of m b x] assms(2)
      by (auto simp: sent_def out add.assoc)
  next
    case False
    then have "unat n \<le> length ts" using c(1) len by (simp add: word_less_nat_alt not_less)
    moreover have "\<not> cnt + 1 < n"
      using False c(1) assms(2) by (simp add: word_less_nat_alt unat_of_nat32 [of "Suc (length ts)", simplified] add.commute)
    ultimately show ?thesis using False c assms(2) by (auto simp: sent_def out add.commute)
  qed
qed

lemma sent_pad:
  assumes "sent m b n ts out" and "length ts + nat (width - lim) < 4294967296"
  shows "sent m b n (ts @ replicate (nat (width - lim)) c) (snd (pad n c width lim out))"
  using assms
proof (induction n c width lim out arbitrary: ts rule: pad.induct)
  case (1 n c width lim out)
  show ?case
  proof (cases "lim < width")
    case True
    then have k: "nat (width - lim) = Suc (nat (width - 1 - lim))" by simp
    from sent_EMIT [OF "1.prems"(1), of c] "1.prems"(2) k
    have "sent m b n (ts @ [c]) (EMIT n c out)" by simp
    from "1.IH" [OF True this] "1.prems"(2) k show ?thesis
      using True by (subst pad.simps) simp
  next
    case False
    then show ?thesis using "1.prems" by (subst pad.simps) simp
  qed
qed

section \<open>\<open>format_int\<close>\<close>

lemma count_digits_eq:
  fixes v b :: u64
  assumes "1 < unat b"
  shows "count_digits v b k = Some (k + int (ndigs (unat b) (unat v)))"
proof (induction "unat v" arbitrary: v k rule: less_induct)
  case less
  show ?case
  proof (cases "v = 0")
    case True
    then show ?thesis by (subst count_digits.simps, subst ndigs.simps) simp
  next
    case False
    then have "unat (v div b) < unat v" using assms by (simp add: unat_div unat_gt_0 div_less_dividend)
    from less [OF this] False assms show ?thesis
      by (subst count_digits.simps, subst ndigs.simps) (simp add: unat_div unat_eq_0)
  qed
qed

lemma length_lsd [simp]: "length (lsd b k v) = k"
  by (induction b k v rule: lsd.induct) auto

lemma length_ticked: "b \<le> t \<Longrightarrow> 0 < t \<Longrightarrow> length (ticked t b cs) = length cs + (length cs + t - 1 - b) div t"
proof (induction t b cs rule: ticked.induct)
  case (2 t c cs)
  then have "length (ticked t (t - 1) cs) = length cs + length cs div t" by simp
  moreover have "(length cs + t) div t = Suc (length cs div t)" using 2 by (simp add: div_add_self2)
  ultimately show ?case by simp
next
  case (3 t b c cs)
  then have "length cs + t - 1 - b = Suc (length cs) + t - 1 - Suc b" by simp
  with 3 show ?case by simp
qed simp

text \<open>
  The effect of the loop: the characters \<open>cs\<close>, from right to left, end before address \<open>qq\<close> and count \<open>oo\<close>;
  \<open>r = qq - 1 - x\<close> is the index of address \<open>x\<close>, counted from the right.
\<close>

definition stamp :: "u32 \<Rightarrow> u8 list \<Rightarrow> addr \<Rightarrow> u32 \<Rightarrow> mem \<Rightarrow> mem" where
  "stamp n cs qq oo m =
     (\<lambda>x. let r = unat (qq - 1 - x) in if r < length cs \<and> unat oo - 1 - r < unat n then cs ! r else m x)"

lemma stamp_Nil [simp]: "stamp n [] qq oo m = m"
  by (simp add: stamp_def)

lemma stamp_Cons:
  assumes "length (c # cs) \<le> unat oo"
  shows "stamp n (c # cs) qq oo m = stamp n cs (qq - 1) (oo - 1) (if oo - 1 < n then m(qq - 1 := c) else m)"
proof
  fix x
  have oo: "unat (oo - 1) = unat oo - 1" "(oo - 1 < n) = (unat oo - 1 < unat n)"
    using assms unat_sub32 [of 1 oo] by (auto simp: word_less_nat_alt)
  show "stamp n (c # cs) qq oo m x = stamp n cs (qq - 1) (oo - 1) (if oo - 1 < n then m(qq - 1 := c) else m) x"
  proof (cases "x = qq - 1")
    case True
    then have "unat (qq - 1 - x) = 0" "unat (qq - 1 - 1 - x) = 4294967295" by (simp_all add: unsigned_minus_1_eq_mask mask_eq_exp_minus_1)
    moreover have "length cs < 4294967295" using assms unat_lt32 [of oo] by (simp del: unat_lt32)
    ultimately show ?thesis using True by (simp add: stamp_def oo)
  next
    case False
    define r where "r = qq - 1 - x"
    have r: "r \<noteq> 0" using False by (simp add: r_def algebra_simps)
    have e: "qq - 1 - 1 - x = r - 1" by (simp add: r_def algebra_simps)
    have "unat r = Suc (unat (r - 1))" using r by (rule unat_pred)
    with False show ?thesis unfolding stamp_def e r_def [symmetric] by (auto simp: oo Let_def)
  qed
qed

lemma digit_loop_eq:
  fixes val base :: u64
  assumes "cs = ticked t b (map (\<lambda>d. digits ! d) (lsd (unat base) k (unat val)))" and "0 < t"
    and "length cs \<le> unat oo"
  shows "digit_loop digits base (int t) n (int (length cs)) (int b) val qq oo m = stamp n cs qq oo m"
  using assms
proof (induction k arbitrary: cs b val qq oo m)
  case 0
  then show ?case by (subst digit_loop.simps) simp
next
  case (Suc k)
  let ?d = "digits ! unat (val mod base)"
  let ?ds = "map (\<lambda>d. digits ! d) (lsd (unat base) k (unat (val div base)))"
  have lsd: "map (\<lambda>d. digits ! d) (lsd (unat base) (Suc k) (unat val)) = ?d # ?ds"
    by (simp add: unat_div unat_mod)
  note dec = unat_sub32 [of 1 oo] unat_sub32 [of 2 oo]
  show ?case
  proof (cases b)
    case 0
    let ?cs = "ticked t (t - 1) ?ds" and ?m = "if oo - 1 < n then m(qq - 1 := of_char CHR ''_'') else m"
    have cs: "cs = of_char CHR ''_'' # ?d # ?cs" using Suc.prems(1) lsd 0 by simp
    have "digit_loop digits base (int t) n (int (length cs)) (int b) val qq oo m =
        digit_loop digits base (int t) n (int (length ?cs)) (int (t - 1)) (val div base) (qq - 1 - 1) (oo - 1 - 1)
          (if oo - 1 - 1 < n then ?m(qq - 1 - 1 := ?d) else ?m)"
      unfolding cs 0 using Suc.prems(2) by (subst digit_loop.simps) (simp add: of_nat_diff Let_def)
    also have "\<dots> = stamp n ?cs (qq - 1 - 1) (oo - 1 - 1) (if oo - 1 - 1 < n then ?m(qq - 1 - 1 := ?d) else ?m)"
      by (rule Suc.IH [OF refl Suc.prems(2)]) (use Suc.prems(3) cs dec in auto)
    also have "\<dots> = stamp n cs qq oo m"
    proof -
      have l: "length (of_char CHR ''_'' # ?d # ?cs) \<le> unat oo" "length (?d # ?cs) \<le> unat (oo - 1)"
        using Suc.prems(3) cs dec by auto
      show ?thesis unfolding cs stamp_Cons [OF l(1)] stamp_Cons [OF l(2)] ..
    qed
    finally show ?thesis .
  next
    case (Suc b')
    let ?cs = "ticked t b' ?ds"
    have cs: "cs = ?d # ?cs" using Suc.prems(1) lsd \<open>b = Suc b'\<close> by simp
    have "digit_loop digits base (int t) n (int (length cs)) (int b) val qq oo m =
        digit_loop digits base (int t) n (int (length ?cs)) (int b') (val div base) (qq - 1) (oo - 1)
          (if oo - 1 < n then m(qq - 1 := ?d) else m)"
      unfolding cs \<open>b = Suc b'\<close> by (subst digit_loop.simps) (simp add: Let_def)
    also have "\<dots> = stamp n ?cs (qq - 1) (oo - 1) (if oo - 1 < n then m(qq - 1 := ?d) else m)"
      by (rule Suc.IH [OF refl Suc.prems(2)]) (use Suc.prems(3) cs dec in auto)
    also have "\<dots> = stamp n cs qq oo m"
    proof -
      have l: "length (?d # ?cs) \<le> unat oo" using Suc.prems(3) cs by simp
      show ?thesis unfolding cs stamp_Cons [OF l] ..
    qed
    finally show ?thesis .
  qed
qed


lemma unat_diff32:
  assumes "a < 4294967296" and "j < 4294967296"
  shows "unat (of_nat a - of_nat j :: u32) = (if j \<le> a then a - j else 4294967296 + a - j)"
proof (cases "j \<le> a")
  case True
  then show ?thesis using assms unat_sub32 [of "of_nat j" "of_nat a"] by simp
next
  case False
  have "of_nat (4294967296 + a - j) + of_nat j = (of_nat (4294967296 + a) :: u32)"
    using assms by (simp flip: of_nat_add del: of_nat_add)
  also have "\<dots> = of_nat a" by simp
  finally have "of_nat a - of_nat j = (of_nat (4294967296 + a - j) :: u32)" by (simp add: algebra_simps)
  then show ?thesis using False assms by (simp only: unat_of_nat32) simp
qed

lemma stamp_sent:
  assumes "sent m0 b n ts (q, cnt, m)" and len: "length ts + length cs < 4294967296"
  shows "sent m0 b n (ts @ rev cs) (q + of_nat (length cs), cnt + of_nat (length cs),
    stamp n cs (q + of_nat (length cs)) (cnt + of_nat (length cs)) m)"
proof -
  let ?T = "length ts" and ?L = "length cs"
  have c: "cnt = of_nat ?T" "cnt < n \<Longrightarrow> q = b + cnt" "m = overlay m0 b (take (unat n) ts)"
    using assms(1) by (auto simp: sent_def)
  have cl: "cnt + of_nat ?L = of_nat (?T + ?L)" "unat (of_nat (?T + ?L) :: u32) = ?T + ?L" "unat cnt = ?T"
    using len by (simp_all add: c(1) del: of_nat_add) simp
  have "stamp n cs (q + of_nat ?L) (cnt + of_nat ?L) m x = overlay m0 b (take (unat n) (ts @ rev cs)) x" for x
  proof (cases "?T < unat n")
    case False
    then show ?thesis unfolding stamp_def cl(1,2) by (auto simp: c(3) Let_def)
  next
    case True
    then have q: "q = b + of_nat ?T" using c cl(3) by (simp add: word_less_nat_alt)
    define j where "j = unat (x - b)"
    have j: "j < 4294967296" "x = b + of_nat j" by (simp_all add: j_def)
    have "?L = 0 \<or> q + of_nat ?L - 1 - x = of_nat (?T + ?L - 1) - of_nat j"
      by (cases cs) (simp_all add: q j(2))
    then have r: "?L = 0 \<or> unat (q + of_nat ?L - 1 - x) = (if j \<le> ?T + ?L - 1 then ?T + ?L - 1 - j else 4294967296 + (?T + ?L - 1) - j)"
      using unat_diff32 [of "?T + ?L - 1" j] j(1) len by auto
    show ?thesis
    proof (cases "?T \<le> j \<and> j < ?T + ?L")
      case True
      then have "unat (q + of_nat ?L - 1 - x) = ?T + ?L - 1 - j" "?L \<noteq> 0" using r by auto
      with True show ?thesis unfolding stamp_def cl(1,2) c(3) overlay_def j_def [symmetric]
        by (auto simp: Let_def nth_append rev_nth add.commute)
    next
      case False
      have "?L = 0 \<or> \<not> unat (q + of_nat ?L - 1 - x) < ?L"
      proof (cases "?L = 0")
        case L: False
        with r have "unat (q + of_nat ?L - 1 - x) = (if j \<le> ?T + ?L - 1 then ?T + ?L - 1 - j else 4294967296 + (?T + ?L - 1) - j)"
          by blast
        with L False j(1) len show ?thesis by (cases "j \<le> ?T + ?L - 1"; cases "?T \<le> j") (simp; linarith)+
      qed simp
      with False show ?thesis unfolding stamp_def cl(1,2) c(3) overlay_def j_def [symmetric]
        by (auto simp: Let_def nth_append)
    qed
  qed
  moreover have "cnt + of_nat ?L < n \<Longrightarrow> q = b + cnt"
    using c(2) cl by (simp add: word_less_nat_alt)
  ultimately show ?thesis using len cl(1) by (auto simp: sent_def fun_eq_iff add.assoc)
qed


lemma flag_bit:
  fixes w :: u32
  shows "w AND 1 = (if bit w 0 then 1 else 0)" "w AND 2 = (if bit w 1 then 2 else 0)"
  by (rule bit_word_eqI; auto simp: bit_and_iff bit_1_iff bit_2_iff intro: gr0I)+

lemma pad_flags:
  "flags AND (FL_MINUS OR FL_ZERO) = 0 \<longleftrightarrow> flags AND FL_MINUS = 0 \<and> flags AND FL_ZERO = 0"
  "flags AND (FL_MINUS OR FL_ZERO) = FL_ZERO \<longleftrightarrow> flags AND FL_MINUS = 0 \<and> flags AND FL_ZERO \<noteq> 0"
  "flags AND (FL_PLUS OR FL_SPACE) = 0 \<longleftrightarrow> flags AND FL_PLUS = 0 \<and> flags AND FL_SPACE = 0"
proof -
  have d: "flags AND (FL_MINUS OR FL_ZERO) = (flags AND FL_MINUS) OR (flags AND FL_ZERO)"
    "flags AND (FL_PLUS OR FL_SPACE) = (flags AND FL_PLUS) OR (flags AND FL_SPACE)"
    by (simp_all add: bit.conj_disj_distrib)
  show "flags AND (FL_MINUS OR FL_ZERO) = 0 \<longleftrightarrow> flags AND FL_MINUS = 0 \<and> flags AND FL_ZERO = 0"
    "flags AND (FL_PLUS OR FL_SPACE) = 0 \<longleftrightarrow> flags AND FL_PLUS = 0 \<and> flags AND FL_SPACE = 0"
    unfolding d by (simp_all add: or_eq_0_iff)
  show "flags AND (FL_MINUS OR FL_ZERO) = FL_ZERO \<longleftrightarrow> flags AND FL_MINUS = 0 \<and> flags AND FL_ZERO \<noteq> 0"
    unfolding d by (simp add: FL_MINUS_def FL_ZERO_def flag_bit)
qed

lemma ndigs_bound: "v < 2 ^ k \<Longrightarrow> ndigs b v \<le> k"
proof (induction k arbitrary: v)
  case (Suc k)
  show ?case
  proof (cases "v = 0 \<or> b < 2")
    case False
    then have "v div b \<le> v div 2" by (intro div_le_mono2) auto
    then have "v div b < 2 ^ k" using Suc.prems by (auto simp: less_mult_imp_div_less mult.commute)
    with Suc.IH False show ?thesis by (subst ndigs.simps) simp
  qed (simp add: ndigs.simps)
qed (simp add: ndigs.simps)

lemma wrap32_id [simp]: "- 2147483648 \<le> x \<Longrightarrow> x < 2147483648 \<Longrightarrow> wrap32 x = x"
  by (simp add: wrap32_def signed_take_bit_int_eq_self)


lemma fst_pad: "fst (pad n c width lim out) = min width lim"
proof (induction n c width lim out rule: pad.induct)
  case (1 n c width lim out)
  then show ?case by (subst pad.simps) auto
qed

lemma length_sign_text:
  "int (length (sign_text flags b neg)) =
     (if neg \<or> flags AND (FL_PLUS OR FL_SPACE) \<noteq> 0 then 1 else 0) + (if flags AND FL_HASH \<noteq> 0 \<and> b = 16 then 2 else 0)"
  by (simp add: sign_text_def pad_flags)

lemma sent_sign:
  fixes base :: u64
  assumes "sent m b n ts out" and "length ts + 3 < 4294967296"
  shows "sent m b n (ts @ sign_text flags (unat base) neg)
    (let out = (if neg then EMIT n (of_char CHR ''-'') out
         else if flags AND FL_PLUS \<noteq> 0 then EMIT n (of_char CHR ''+'') out
         else if flags AND FL_SPACE \<noteq> 0 then EMIT n (of_char CHR '' '') out
         else out)
     in if flags AND FL_HASH \<noteq> 0 \<and> base = 16
        then EMIT n (if flags AND FL_UPPER \<noteq> 0 then of_char CHR ''X'' else of_char CHR ''x'')
          (EMIT n (of_char CHR ''0'') out)
        else out)"
proof -
  define sg where "sg = (if neg then ascii ''-'' else if flags AND FL_PLUS \<noteq> 0 then ascii ''+''
      else if flags AND FL_SPACE \<noteq> 0 then ascii '' '' else [])"
  define o1 where "o1 = (if neg then EMIT n (of_char CHR ''-'') out
         else if flags AND FL_PLUS \<noteq> 0 then EMIT n (of_char CHR ''+'') out
         else if flags AND FL_SPACE \<noteq> 0 then EMIT n (of_char CHR '' '') out else out)"
  have s1: "sent m b n (ts @ sg) o1" "length sg \<le> 1"
    using assms by (auto simp: sg_def o1_def intro!: sent_EMIT)
  then have s2: "sent m b n ((ts @ sg) @ [48]) (EMIT n 48 o1)"
    using assms(2) by (intro sent_EMIT) auto
  have s3: "sent m b n (((ts @ sg) @ [48]) @ [c]) (EMIT n c (EMIT n 48 o1))" for c
    using assms(2) s1(2) by (intro sent_EMIT [OF s2]) auto
  from s1(1) s3 show ?thesis
    by (simp add: sign_text_def sg_def [symmetric] o1_def [symmetric] word_unat_eq_iff)
qed


lemma sent_digits:
  fixes val base :: u64
  assumes out: "sent m0 b n ts out" and cs: "cs = ticked t t (map (\<lambda>d. digits ! d) (lsd (unat base) k (unat val)))"
    and t: "0 < t" and len: "length ts + length cs < 4294967296"
  shows "sent m0 b n (ts @ rev cs) (fst out + of_nat (length cs), fst (snd out) + of_nat (length cs),
    digit_loop digits base (int t) n (int (length cs)) (int t) val (fst out + of_nat (length cs))
      (fst (snd out) + of_nat (length cs)) (snd (snd out)))"
proof -
  obtain q cnt m where o: "out = (q, cnt, m)" by (cases out)
  have "cnt + of_nat (length cs) = of_nat (length ts + length cs)" using out by (simp add: sent_def o)
  then have "length cs \<le> unat (cnt + of_nat (length cs))" using len by (simp del: of_nat_add)
  from digit_loop_eq [OF cs t this] stamp_sent [of m0 b n ts q cnt m cs] out len show ?thesis by (simp add: o)
qed

lemma sent_snd: "sent m b n ts out \<Longrightarrow> \<exists>q'. sent m b n ts (q', snd out)"
  by (cases out) auto

lemma pad_none: "width \<le> lim \<Longrightarrow> pad n c width lim out = (width, out)"
  by (subst pad.simps) simp

lemma format_emit_sent:
  fixes val base :: u64
  assumes cs: "cs = ticked t t (map (\<lambda>d. digits ! d) (lsd (unat base) k (unat val)))" and t: "0 < t"
    and sg: "sg = sign_text flags (unat base) neg" and fill: "fill = nat width - (length sg + length cs)"
    and len: "fill + length sg + length cs < 4294967290"
  shows "\<exists>q'. sent m q n
    (if flags AND FL_MINUS \<noteq> 0 then sg @ rev cs @ replicate fill (of_char CHR '' '')
     else if flags AND FL_ZERO \<noteq> 0 then sg @ replicate fill (of_char CHR ''0'') @ rev cs
     else replicate fill (of_char CHR '' '') @ sg @ rev cs)
    (q', format_emit q n val flags base width neg digits (int t) (int (length cs)) (int (length sg + length cs)) m)"
proof -
  define N where "N = int (length sg + length cs)"
  have f: "nat (width - N) = fill" by (simp add: N_def fill)
  define early where "early = snd (pad n (of_char CHR '' '') width N (q, 0, m))"
  define sign where "sign = (\<lambda>out. let out = (if neg then EMIT n (of_char CHR ''-'') out
         else if flags AND FL_PLUS \<noteq> 0 then EMIT n (of_char CHR ''+'') out
         else if flags AND FL_SPACE \<noteq> 0 then EMIT n (of_char CHR '' '') out
         else out)
     in if flags AND FL_HASH \<noteq> 0 \<and> base = 16
        then EMIT n (if flags AND FL_UPPER \<noteq> 0 then of_char CHR ''X'' else of_char CHR ''x'')
          (EMIT n (of_char CHR ''0'') out)
        else out)"
  define number where "number = (\<lambda>out :: out. (fst out + of_nat (length cs), fst (snd out) + of_nat (length cs),
    digit_loop digits base (int t) n (int (length cs)) (int t) val (fst out + of_nat (length cs))
      (fst (snd out) + of_nat (length cs)) (snd (snd out))))"
  have sign: "sent m q n (ts @ sg) (sign out)" if "sent m q n ts out" "length ts + 3 < 4294967296" for ts out
    using sent_sign [OF that] unfolding sign_def sg .
  have number: "sent m q n (ts @ rev cs) (number out)" if "sent m q n ts out" "length ts + length cs < 4294967296" for ts out
    using sent_digits [OF that(1) cs t that(2)] unfolding number_def .
  have pad: "sent m q n (ts @ replicate fill c) (snd (pad n c width N out))" if "sent m q n ts out" "length ts + fill < 4294967296" for ts out c
    using sent_pad [OF that(1), of width N c] that(2) f by simp
  show ?thesis
  proof (cases "flags AND FL_MINUS = 0")
    case False
    have "format_emit q n val flags base width neg digits (int t) (int (length cs)) N m =
        snd (snd (pad n (of_char CHR '' '') width N (number (sign (q, 0, m)))))"
      using False by (simp add: format_emit_def pad_flags number_def sign_def Let_def case_prod_beta)
    moreover have "sent m q n (([] @ sg) @ rev cs @ replicate fill (of_char CHR '' ''))
        (snd (pad n (of_char CHR '' '') width N (number (sign (q, 0, m)))))"
      unfolding append_assoc [symmetric] by (intro pad number sign sent_Nil) (use len in auto)
    ultimately show ?thesis using False unfolding N_def by (auto intro: sent_snd)
  next
    case M: True
    show ?thesis
    proof (cases "flags AND FL_ZERO = 0")
      case False
      have "format_emit q n val flags base width neg digits (int t) (int (length cs)) N m =
          snd (number (snd (pad n (of_char CHR ''0'') width N (sign (q, 0, m)))))"
      proof (cases "int (length cs) < width")
        case True
        then show ?thesis using M False unfolding format_emit_def
          by (simp add: pad_flags number_def sign_def Let_def case_prod_beta)
      next
        case le: False
        then have "width \<le> N" by (simp add: N_def)
        with le show ?thesis using M False unfolding format_emit_def
          by (simp add: pad_flags number_def sign_def Let_def case_prod_beta pad_none)
      qed
      moreover have "sent m q n (([] @ sg) @ replicate fill (of_char CHR ''0'') @ rev cs)
          (number (snd (pad n (of_char CHR ''0'') width N (sign (q, 0, m)))))"
        unfolding append_assoc [symmetric] by (intro pad number sign sent_Nil) (use len in auto)
      ultimately show ?thesis using M False unfolding N_def by (auto intro: sent_snd)
    next
      case True
      have "format_emit q n val flags base width neg digits (int t) (int (length cs)) N m =
          snd (number (sign (snd (pad n (of_char CHR '' '') width N (q, 0, m)))))"
        using M True unfolding format_emit_def
        by (simp add: pad_flags number_def sign_def Let_def case_prod_beta)
      moreover have "sent m q n (([] @ replicate fill (of_char CHR '' '')) @ sg @ rev cs)
          (number (sign (snd (pad n (of_char CHR '' '') width N (q, 0, m)))))"
        unfolding append_assoc [symmetric] by (intro pad number sign sent_Nil) (use len in auto)
      ultimately show ?thesis using M True unfolding N_def by (auto intro: sent_snd)
    qed
  qed
qed


lemma num_len_bound:
  assumes "k \<le> 536870912" and "0 < t"
  shows "length (ticked t t (map f (lsd b k v))) = k + (k - 1) div t" "k + (k - 1) div t \<le> 1073741824"
proof -
  show "length (ticked t t (map f (lsd b k v))) = k + (k - 1) div t" using assms by (simp add: length_ticked)
  have "(k - 1) div t \<le> k - 1" by (rule div_le_dividend)
  with assms show "k + (k - 1) div t \<le> 1073741824" by linarith
qed

lemma format_int_text:
  fixes val base :: u64 and flags :: u32
  assumes base: "1 < unat base" and w: "width < 1073741824" and p: "prec < 536870912"
  defines "neg \<equiv> flags AND FL_SIGNED \<noteq> 0 \<and> sint val < 0"
  defines "v \<equiv> if neg then - val else val"
  defines "ts \<equiv> int_text flags (unat base) width prec neg (unat v)"
  shows "\<exists>q'. sent m q n ts (q', the (format_int q n val flags base width prec m))"
    and "format_int q n val flags base width prec m \<noteq> None"
proof -
  let ?b = "unat base"
  define k0 where "k0 = ndigs ?b (unat v)"
  define k where "k = max 1 (if flags AND FL_HASH \<noteq> 0 \<and> ?b = 8 then max (k0 + 1) (nat prec) else max k0 (nat prec))"
  define t where "t = (if flags AND FL_TICK \<noteq> 0 then (if ?b = 16 then 4 else 3) else k)"
  define digits where "digits = (if flags AND FL_UPPER \<noteq> 0 then ucdigits else lcdigits)"
  define cs where "cs = ticked t t (map (\<lambda>d. digits ! d) (lsd ?b k (unat v)))"
  define sg where "sg = sign_text flags ?b neg"
  have b8: "base = 8 \<longleftrightarrow> ?b = 8" "base = 16 \<longleftrightarrow> ?b = 16" by (simp_all add: word_unat_eq_iff)
  have k0: "k0 \<le> 64" unfolding k0_def
    by (rule ndigs_bound) (use unsigned_less [of v, where ?'a = nat] in simp)
  have k: "1 \<le> k" "k \<le> 536870912" using k0 p by (auto simp: k_def)
  have t: "0 < t" using k by (simp add: t_def)
  note N = num_len_bound(1) [OF k(2) t, of "\<lambda>d. digits ! d" ?b "unat v", folded cs_def] num_len_bound(2) [OF k(2) t]
  have sl: "length sg \<le> 3" unfolding sg_def using length_sign_text [of flags ?b neg] by (simp split: if_splits)
  have v0: "v = 0 \<longleftrightarrow> k0 = 0" using base by (simp add: k0_def ndigs.simps unat_eq_0)
  let ?prec = "if flags AND FL_HASH \<noteq> 0 \<and> base = 8 \<and> prec < int k0 + 1 then int k0 + 1 else prec"
  have kk: "(if int k0 < ?prec then ?prec else if v = 0 then 1 else int k0) = int k"
    by (auto simp: k_def v0 b8)
  have tt: "(if flags AND FL_TICK \<noteq> 0 then (if base = 16 then 4 else 3) else int k) = int t"
    by (simp add: t_def b8)
  have "int k + (int k - 1) div int t = int (length cs)" using N(1) k(1) by (simp add: of_nat_diff zdiv_int)
  then have nd: "wrap32 (int k + (int k - 1) div int t) = int (length cs)" using N by simp
  have nc: "(if flags AND FL_HASH \<noteq> 0 \<and> base = 16
      then wrap32 ((if neg \<or> flags AND (FL_PLUS OR FL_SPACE) \<noteq> 0 then wrap32 (int (length cs) + 1) else int (length cs)) + 2)
      else if neg \<or> flags AND (FL_PLUS OR FL_SPACE) \<noteq> 0 then wrap32 (int (length cs) + 1) else int (length cs)) =
      int (length sg + length cs)"
    using N length_sign_text [of flags ?b neg] unfolding sg_def b8 by auto
  have fi: "format_int q n val flags base width prec m =
      Some (format_emit q n v flags base width neg digits (int t) (int (length cs)) (int (length sg + length cs)) m)"
    unfolding format_int_def
    by (simp only: Let_def neg_def [symmetric] v_def [symmetric] count_digits_eq [OF base] bind.simps add_0
      k0_def [symmetric] kk tt nd nc digits_def [symmetric])
  show "format_int q n val flags base width prec m \<noteq> None" by (simp add: fi)
  have num: "number_text flags ?b prec (unat v) = rev cs"
    unfolding number_text_def Let_def cs_def t_def k_def k0_def digits_def ..
  have "ts = (let fill = nat width - (length sg + length cs) in
     if flags AND FL_MINUS \<noteq> 0 then sg @ rev cs @ replicate fill (of_char CHR '' '')
     else if flags AND FL_ZERO \<noteq> 0 then sg @ replicate fill (of_char CHR ''0'') @ rev cs
     else replicate fill (of_char CHR '' '') @ sg @ rev cs)"
    unfolding ts_def int_text_def num sg_def [symmetric] by (simp add: Let_def)
  then have ts: "ts = (if flags AND FL_MINUS \<noteq> 0 then sg @ rev cs @ replicate (nat width - (length sg + length cs)) (of_char CHR '' '')
     else if flags AND FL_ZERO \<noteq> 0 then sg @ replicate (nat width - (length sg + length cs)) (of_char CHR ''0'') @ rev cs
     else replicate (nat width - (length sg + length cs)) (of_char CHR '' '') @ sg @ rev cs)"
    by (simp only: Let_def)
  have "nat width - (length sg + length cs) + length sg + length cs < 4294967290"
    using N sl w by linarith
  from format_emit_sent [OF cs_def t sg_def refl this, of m q n]
  show "\<exists>q'. sent m q n ts (q', the (format_int q n val flags base width prec m))"
    unfolding fi option.sel ts .
qed

end
