(* ===== verification/PrintfSpec.thy ===== *)
theory PrintfSpec
  imports Printf
begin

text \<open>
  What \<open>vsnprintf\<close> (\<^verbatim>\<open>src/printf.c\<close>) prints: the text that a format and its arguments denote, as an
  inductive relation, and the proof that the code writes exactly this text, cut to the buffer. The
  arguments and strings are read from a memory \<open>m\<close>, and have to lie outside the set \<open>B\<close> of buffer
  addresses. \<open>%n\<close>, which stores through a pointer argument, denotes no text.
\<close>

section \<open>The text of a format\<close>

definition string_text :: "u32 \<Rightarrow> int \<Rightarrow> int \<Rightarrow> u8 list \<Rightarrow> u8 list" where
  "string_text flags width prec xs =
     (let ys = (if prec \<noteq> -1 then take (nat prec) xs else xs);
          fill = nat width - length ys
      in if flags AND FL_MINUS \<noteq> 0 then ys @ replicate fill (of_char CHR '' '')
         else replicate fill (if flags AND FL_ZERO \<noteq> 0 then of_char CHR ''0'' else of_char CHR '' '') @ ys)"

abbreviation moderate :: "pctl \<Rightarrow> bool" where
  "moderate c \<equiv> fwidth c < 1073741824 \<and> -1 \<le> fprec c \<and> fprec c < 536870912"

inductive conv :: "mem \<Rightarrow> addr set \<Rightarrow> u8 \<Rightarrow> pctl \<Rightarrow> u8 list \<Rightarrow> pctl \<Rightarrow> bool" for m B where
  integer: "int_conv m ch c = Some (val, base, c') \<Longrightarrow> moderate c' \<Longrightarrow>
    neg \<longleftrightarrow> fflags c' AND FL_SIGNED \<noteq> 0 \<and> sint val < 0 \<Longrightarrow>
    ts = int_text (fflags c') (unat base) (fwidth c') (fprec c') neg (unat (if neg then - val else val)) \<Longrightarrow>
    conv m B ch c ts c'"
| character: "ch = of_char CHR ''c'' \<Longrightarrow> moderate c \<Longrightarrow> c' = c\<lparr>fap := fap c + 4\<rparr> \<Longrightarrow>
    ts = string_text (fflags c) (fwidth c) (fprec c) [ucast (ld32 m (fap c))] \<Longrightarrow> conv m B ch c ts c'"
| null: "ch = of_char CHR ''s'' \<Longrightarrow> ld32 m (fap c) = 0 \<Longrightarrow> moderate c \<Longrightarrow> c' = c\<lparr>fap := fap c + 4\<rparr> \<Longrightarrow>
    ts = string_text (fflags c) (fwidth c) (fprec c) (ascii ''(null)'') \<Longrightarrow> conv m B ch c ts c'"
| str: "ch = of_char CHR ''s'' \<Longrightarrow> ld32 m (fap c) = a \<Longrightarrow> a \<noteq> 0 \<Longrightarrow> cstr m a xs \<Longrightarrow> length xs < 2147483648 \<Longrightarrow>
    span a (Suc (length xs)) \<inter> B = {} \<Longrightarrow> moderate c \<Longrightarrow> c' = c\<lparr>fap := fap c + 4\<rparr> \<Longrightarrow>
    ts = string_text (fflags c) (fwidth c) (fprec c) xs \<Longrightarrow> conv m B ch c ts c'"
| other: "int_conv m ch c = None \<Longrightarrow> ch \<noteq> of_char CHR ''c'' \<Longrightarrow> ch \<noteq> of_char CHR ''s'' \<Longrightarrow> ch \<noteq> of_char CHR ''n'' \<Longrightarrow>
    conv m B ch c [ch] c"

inductive fmt :: "mem \<Rightarrow> addr set \<Rightarrow> pctl \<Rightarrow> u8 list \<Rightarrow> u8 list \<Rightarrow> bool" for m B where
  stop: "fmt m B c [] []"
| plain: "fstate c = st_normal \<Longrightarrow> ch \<noteq> of_char CHR ''%'' \<Longrightarrow> fmt m B c fs ts \<Longrightarrow> fmt m B c (ch # fs) (ch # ts)"
| percent: "fstate c = st_normal \<Longrightarrow> fmt m B (start_conv c) fs ts \<Longrightarrow> fmt m B c (of_char CHR ''%'' # fs) ts"
| flags: "fstate c = st_flags \<Longrightarrow> flags_step ch c = Some c' \<Longrightarrow> fmt m B c' fs ts \<Longrightarrow> fmt m B c (ch # fs) ts"
| flags_end: "fstate c = st_flags \<Longrightarrow> flags_step ch c = None \<Longrightarrow> fmt m B (c\<lparr>fstate := st_width\<rparr>) (ch # fs) ts \<Longrightarrow>
    fmt m B c (ch # fs) ts"
| width: "fstate c = st_width \<Longrightarrow> span (fap c) 4 \<inter> B = {} \<Longrightarrow> width_step m ch c = Some c' \<Longrightarrow> fmt m B c' fs ts \<Longrightarrow>
    fmt m B c (ch # fs) ts"
| width_end: "fstate c = st_width \<Longrightarrow> width_step m ch c = None \<Longrightarrow> fmt m B (c\<lparr>fstate := st_modifiers\<rparr>) (ch # fs) ts \<Longrightarrow>
    fmt m B c (ch # fs) ts"
| prec: "fstate c = st_prec \<Longrightarrow> span (fap c) 4 \<inter> B = {} \<Longrightarrow> prec_step m ch c = Some c' \<Longrightarrow> fmt m B c' fs ts \<Longrightarrow>
    fmt m B c (ch # fs) ts"
| prec_end: "fstate c = st_prec \<Longrightarrow> prec_step m ch c = None \<Longrightarrow> fmt m B (c\<lparr>fstate := st_modifiers\<rparr>) (ch # fs) ts \<Longrightarrow>
    fmt m B c (ch # fs) ts"
| rank: "fstate c = st_modifiers \<Longrightarrow> rank_step ch c = Some c' \<Longrightarrow> fmt m B c' fs ts \<Longrightarrow> fmt m B c (ch # fs) ts"
| convert: "fstate c = st_modifiers \<Longrightarrow> rank_step ch c = None \<Longrightarrow> span (fap c) 8 \<inter> B = {} \<Longrightarrow>
    conv m B ch (canonical c) t c' \<Longrightarrow> fmt m B c' fs ts \<Longrightarrow> fmt m B c (ch # fs) (t @ ts)"

section \<open>Reading around the buffer\<close>

lemma overlay_beyond: "length xs \<le> k \<Longrightarrow> x \<notin> span b k \<Longrightarrow> overlay m b xs x = m x"
proof -
  assume k: "length xs \<le> k" and x: "x \<notin> span b k"
  have "x = b + of_nat (unat (x - b))" by simp
  with x have "\<not> unat (x - b) < k" unfolding span_def by blast
  with k show ?thesis by (simp add: overlay_def)
qed

lemma overlay_outside: "x \<notin> span b (unat n) \<Longrightarrow> overlay m b (take (unat n) ts) x = m x"
  by (rule overlay_beyond) simp_all

lemma sent_outside: "sent m b n ts out \<Longrightarrow> x \<notin> span b (unat n) \<Longrightarrow> omem out x = m x"
  by (auto simp: sent_def overlay_outside)

lemma sent_ld32:
  assumes "sent m b n ts out" and "span p 4 \<inter> span b (unat n) = {}"
  shows "ld32 (omem out) p = ld32 m p"
  by (rule ld32_same) (use assms sent_outside in blast)

lemma span8: "span p 4 \<subseteq> span p 8" "span (p + 4) 4 \<subseteq> span p 8"
  by (auto simp: span_numeral span_Suc add.assoc)

lemma sent_ld64:
  assumes "sent m b n ts out" and "span p 8 \<inter> span b (unat n) = {}"
  shows "ld64 (omem out) p = ld64 m p"
proof -
  have "span p 4 \<inter> span b (unat n) = {}" "span (p + 4) 4 \<inter> span b (unat n) = {}"
    using assms(2) span8 [of p] by blast+
  then show ?thesis by (simp add: ld64_def sent_ld32 [OF assms(1)])
qed

lemma sent_int_conv:
  assumes "sent m b n ts out" and "span (fap v) 8 \<inter> span b (unat n) = {}"
  shows "int_conv (omem out) ch v = int_conv m ch v"
proof -
  have "span (fap v) 4 \<inter> span b (unat n) = {}" using assms(2) span8 by blast
  then show ?thesis
    using sent_ld32 [OF assms(1)] sent_ld64 [OF assms]
    by (simp add: int_conv_def signed_arg_def unsigned_arg_def Let_def)
qed

section \<open>Strings\<close>

lemma string_loop_chars:
  assumes "sent m b n ts out" and "k \<le> length xs" and "length ts + k < 4294967296"
  shows "sent m b n (ts @ take k xs) (string_loop n (of_nat k) (Chars xs) out)"
  using assms
proof (induction k arbitrary: ts xs out)
  case 0
  then show ?case by (simp add: string_loop.simps)
next
  case (Suc k)
  then obtain y ys where xs: "xs = y # ys" by (cases xs) auto
  have nz: "(of_nat (Suc k) :: u32) \<noteq> 0" using of_nat32_eq_iff [of "Suc k" 0] Suc.prems(3) by simp
  have "sent m b n (ts @ [y]) (EMIT n y out)" using Suc.prems by (intro sent_EMIT) auto
  from Suc.IH [OF this, of ys] Suc.prems nz show ?case
    by (subst string_loop.simps) (simp add: xs)
qed

lemma string_loop_mem:
  assumes "sent m b n ts out" and "cstr m a xs" and "k \<le> length xs" and "span a (length xs) \<inter> span b (unat n) = {}"
    and "length ts + k < 4294967296"
  shows "sent m b n (ts @ take k xs) (string_loop n (of_nat k) (InMem a) out)"
  using assms
proof (induction k arbitrary: ts xs a out)
  case 0
  then show ?case by (simp add: string_loop.simps)
next
  case (Suc k)
  then obtain y ys where xs: "xs = y # ys" by (cases xs) auto
  have nz: "(of_nat (Suc k) :: u32) \<noteq> 0" using of_nat32_eq_iff [of "Suc k" 0] Suc.prems(5) by simp
  have d: "a \<notin> span b (unat n)" "span (a + 1) (length ys) \<inter> span b (unat n) = {}"
    using Suc.prems(4) by (auto simp: xs span_Suc)
  have y: "omem out a = y" using sent_outside [OF Suc.prems(1) d(1)] Suc.prems(2) xs by simp
  have "sent m b n (ts @ [y]) (EMIT n y out)" using Suc.prems by (intro sent_EMIT) auto
  from Suc.IH [OF this, of "a + 1" ys] Suc.prems nz d(2) y show ?case
    by (subst string_loop.simps) (simp add: xs)
qed

lemma emit_string_sent:
  assumes out: "sent m b n ts out" and w: "width < 1073741824" and p: "-1 \<le> prec"
    and len: "length ts + length (string_text flags width prec xs) < 4294967296"
    and loop: "\<And>ts k out. sent m b n ts out \<Longrightarrow> k \<le> length xs \<Longrightarrow> length ts + k < 4294967296 \<Longrightarrow>
      sent m b n (ts @ take k xs) (string_loop n (of_nat k) src out)"
  shows "sent m b n (ts @ string_text flags width prec xs) (emit_string n src (int (length xs)) flags width prec out)"
proof -
  define k where "k = (if prec \<noteq> -1 then min (nat prec) (length xs) else length xs)"
  define fill where "fill = nat width - k"
  have k: "k \<le> length xs" "(if prec \<noteq> -1 then take (nat prec) xs else xs) = take k xs" "length (take k xs) = k"
    by (auto simp: k_def min_def)
  have sl: "(if prec \<noteq> -1 \<and> int (length xs) > prec then prec else int (length xs)) = int k"
    using p by (auto simp: k_def)
  have f: "nat (width - int k) = fill" by (simp add: fill_def)
  have st: "string_text flags width prec xs = (if flags AND FL_MINUS \<noteq> 0 then take k xs @ replicate fill 32
      else replicate fill (if flags AND FL_ZERO \<noteq> 0 then 48 else 32) @ take k xs)"
    by (simp add: string_text_def Let_def k fill_def)
  have padded: "sent m b n (ts @ replicate fill c) (if width > int k then snd (pad n c width (int k) out) else out)"
    if "sent m b n ts out" "length ts + fill < 4294967296" for ts out c
    using sent_pad [OF that(1), of width "int k" c] that f by (auto simp: fill_def)
  have l: "length ts + fill + k < 4294967296" using len k(1) by (auto simp: st split: if_splits)
  show ?thesis
  proof (cases "flags AND FL_MINUS = 0")
    case True
    let ?c = "if flags AND FL_ZERO \<noteq> 0 then 48 else 32"
    have "emit_string n src (int (length xs)) flags width prec out =
        string_loop n (of_nat k) src (if width > int k then snd (pad n ?c width (int k) out) else out)"
      unfolding emit_string_def sl using True by (simp add: Let_def case_prod_beta)
    moreover have "sent m b n ((ts @ replicate fill ?c) @ take k xs)
        (string_loop n (of_nat k) src (if width > int k then snd (pad n ?c width (int k) out) else out))"
      by (intro loop padded out) (use l k in auto)
    ultimately show ?thesis using True by (simp add: st)
  next
    case False
    have "emit_string n src (int (length xs)) flags width prec out =
        (if width > int k then snd (pad n 32 width (int k) (string_loop n (of_nat k) src out)) else string_loop n (of_nat k) src out)"
      unfolding emit_string_def sl using False by (simp add: Let_def)
    moreover have "sent m b n ((ts @ take k xs) @ replicate fill 32)
        (if width > int k then snd (pad n 32 width (int k) (string_loop n (of_nat k) src out)) else string_loop n (of_nat k) src out)"
      by (intro loop padded out) (use l k in auto)
    ultimately show ?thesis using False by (simp add: st)
  qed
qed

section \<open>Integers\<close>

lemma overlay_append:
  assumes "length xs + length ys < 4294967296"
  shows "overlay (overlay m b xs) (b + of_nat (length xs)) ys = overlay m b (xs @ ys)"
proof
  fix x
  define j where "j = unat (x - b)"
  have j: "x - b = of_nat j" "j < 4294967296" by (simp_all add: j_def)
  have e: "x - (b + of_nat (length xs)) = of_nat j - of_nat (length xs)" by (simp add: j(1) [symmetric])
  have "unat (x - (b + of_nat (length xs))) = (if length xs \<le> j then j - length xs else 4294967296 + j - length xs)"
    unfolding e using unat_diff32 [of j "length xs"] j(2) assms by simp
  then show "overlay (overlay m b xs) (b + of_nat (length xs)) ys x = overlay m b (xs @ ys) x"
    using assms j(2) by (auto simp: overlay_def j_def [symmetric] nth_append)
qed

lemma emit_integer_sent:
  assumes out: "sent m b n ts (fout v)" and base: "1 < unat base" and w: "fwidth v < 1073741824" "fprec v < 536870912"
    and neg: "neg \<longleftrightarrow> fflags v AND FL_SIGNED \<noteq> 0 \<and> sint val < 0"
    and us: "us = int_text (fflags v) (unat base) (fwidth v) (fprec v) neg (unat (if neg then - val else val))"
    and len: "length ts + length us < 4294967296"
  shows "\<exists>out'. emit_integer n val base v = Some (v\<lparr>fout := out'\<rparr>) \<and> sent m b n (ts @ us) out'"
proof -
  obtain q cnt m1 where o: "fout v = (q, cnt, m1)" by (cases "fout v")
  let ?n = "if cnt < n then n - cnt else 0"
  have c: "cnt = of_nat (length ts)" "cnt < n \<Longrightarrow> q = b + cnt" "m1 = overlay m b (take (unat n) ts)" "unat cnt = length ts"
    using out len by (auto simp: sent_def o)
  have nn: "unat ?n = unat n - length ts"
    using c(4) unat_sub32 [of cnt n] by (auto simp: word_less_nat_alt not_less)
  have fi: "format_int q ?n val (fflags v) base (fwidth v) (fprec v) m1 = Some (of_nat (length us), overlay m1 q (take (unat ?n) us))"
    using format_int_text [OF base w, where flags = "fflags v" and val = val and m = m1 and q = q and n = ?n] unfolding neg [symmetric] us [symmetric]
    by (auto simp: sent_def)
  have "overlay m1 q (take (unat ?n) us) = overlay m b (take (unat n) (ts @ us))"
  proof (cases "cnt < n")
    case True
    then have "length ts < unat n" using c(4) by (simp add: word_less_nat_alt)
    then show ?thesis
      using c True overlay_append [of ts "take (unat n - length ts) us" m b] len unfolding nn by simp
  next
    case False
    then have "unat n \<le> length ts" using c(4) by (simp add: word_less_nat_alt)
    then show ?thesis using c nn by (simp add: overlay_def)
  qed
  moreover have "cnt + of_nat (length us) < n \<Longrightarrow> q = b + cnt"
    using c len unat_of_nat32 [of "length ts + length us"] by (simp add: word_less_nat_alt)
  ultimately have "sent m b n (ts @ us) (q + of_nat (length us), cnt + of_nat (length us), overlay m1 q (take (unat ?n) us))"
    using len by (auto simp: sent_def c(1) add.assoc)
  moreover have "emit_integer n val base v = Some (v\<lparr>fout := (q + of_nat (length us), cnt + of_nat (length us),
      overlay m1 q (take (unat ?n) us))\<rparr>)" unfolding emit_integer_def o by (simp only: prod.case fi option.map)
  ultimately show ?thesis by blast
qed

section \<open>Control steps\<close>

text \<open>The control steps do not touch the cursor, and see only the control variables.\<close>

abbreviation ctl :: "vstate \<Rightarrow> pctl" where
  "ctl v \<equiv> pctl.truncate v"

lemma ctl_simps [simp]:
  "fstate (ctl v) = fstate v" "fflags (ctl v) = fflags v" "frank (ctl v) = frank v" "fwidth (ctl v) = fwidth v"
  "fprec (ctl v) = fprec v" "fap (ctl v) = fap v"
  by (simp_all add: pctl.truncate_def)

lemma ctl_updates [simp]:
  "ctl (v\<lparr>fp := p\<rparr>) = ctl v" "ctl (v\<lparr>fout := out\<rparr>) = ctl v" "ctl (v\<lparr>fstate := st\<rparr>) = (ctl v)\<lparr>fstate := st\<rparr>"
  "ctl (v\<lparr>fap := a\<rparr>) = (ctl v)\<lparr>fap := a\<rparr>" "ctl (start_conv v) = start_conv (ctl v)" "ctl (canonical v) = canonical (ctl v)"
  by (simp_all add: pctl.truncate_def start_conv_def canonical_def)

lemma start_canonical [simp]:
  "fp (start_conv v) = fp v" "fout (start_conv v) = fout v" "fp (canonical v) = fp v" "fout (canonical v) = fout v"
  "fap (canonical v) = fap v"
  by (simp_all add: start_conv_def canonical_def)

definition lifts :: "pctl option \<Rightarrow> vstate \<Rightarrow> vstate option \<Rightarrow> bool" where
  "lifts r v r' \<longleftrightarrow> (case r of None \<Rightarrow> r' = None | Some c \<Rightarrow> \<exists>v'. r' = Some v' \<and> ctl v' = c \<and> fp v' = fp v \<and> fout v' = fout v)"

lemma lifts_simps:
  "lifts None v r' \<longleftrightarrow> r' = None"
  "lifts (Some c) v r' \<longleftrightarrow> (\<exists>v'. r' = Some v' \<and> ctl v' = c \<and> fp v' = fp v \<and> fout v' = fout v)"
  by (simp_all add: lifts_def)

lemma control_lifts:
  "lifts (flags_step ch (ctl v)) v (flags_step ch v)" "lifts (width_step m ch (ctl v)) v (width_step m ch v)"
  "lifts (prec_step m ch (ctl v)) v (prec_step m ch v)" "lifts (rank_step ch (ctl v)) v (rank_step ch v)"
  by (simp_all add: flags_step_def width_step_def prec_step_def rank_step_def lifts_simps Let_def pctl.truncate_def)

lemma int_conv_lifts:
  "case int_conv m ch (ctl v) of None \<Rightarrow> int_conv m ch v = None
   | Some (val, base, c) \<Rightarrow> 1 < unat base \<and> (\<exists>v'. int_conv m ch v = Some (val, base, v') \<and> ctl v' = c \<and> fp v' = fp v \<and> fout v' = fout v)"
  by (simp add: int_conv_def Let_def case_prod_beta pctl.truncate_def)

lemma sent_steps:
  assumes "sent m b n ts out" and "span (fap v) 4 \<inter> span b (unat n) = {}"
  shows "width_step (omem out) ch v = width_step m ch v" "prec_step (omem out) ch v = prec_step m ch v"
  by (simp_all add: width_step_def prec_step_def sent_ld32 [OF assms])

lemma width_prec_none:
  "width_step m ch c = None \<longleftrightarrow> width_step m' ch c' = None" "prec_step m ch c = None \<longleftrightarrow> prec_step m' ch c' = None"
  by (auto simp: width_step_def prec_step_def Let_def)

lemma convert_sent:
  assumes out: "sent m b n ts (fout v)" and ap: "span (fap v) 8 \<inter> span b (unat n) = {}"
    and cv: "conv m (span b (unat n)) ch (ctl v) us c'" and len: "length ts + length us < 4294967296"
  shows "\<exists>v'. convert n ch v = Some v' \<and> ctl v' = c' \<and> fp v' = fp v \<and> sent m b n (ts @ us) (fout v')"
proof -
  have ap4: "span (fap v) 4 \<inter> span b (unat n) = {}" using ap span8 by blast
  note rd = sent_ld32 [OF out ap4] sent_int_conv [OF out ap]
  show ?thesis
    using cv
  proof cases
    case (integer val base neg)
    then obtain v' where v': "int_conv m ch v = Some (val, base, v')" "ctl v' = c'" "fp v' = fp v" "fout v' = fout v" "1 < unat base"
      using int_conv_lifts [of m ch v] by auto
    have e: "fflags v' = fflags c'" "fwidth v' = fwidth c'" "fprec v' = fprec c'" using v'(2) by auto
    from emit_integer_sent [of m b n ts v' base neg val us] integer out len v' e obtain out' where
      "emit_integer n val base v' = Some (v'\<lparr>fout := out'\<rparr>)" "sent m b n (ts @ us) out'" by auto
    with v' show ?thesis by (simp add: convert_def Let_def rd)
  next
    case character
    let ?xs = "[ucast (ld32 m (fap v))] :: u8 list"
    have "sent m b n (ts @ us) (emit_string n (Chars ?xs) (int (length ?xs)) (fflags v) (fwidth v) (fprec v) (fout v))"
      unfolding character(4) ctl_simps using out
      by (rule emit_string_sent) (use character(2-4) len in \<open>auto simp: character(4) intro: string_loop_chars\<close>)
    with character show ?thesis by (simp add: convert_def Let_def rd int_conv_def)
  next
    case null
    let ?xs = "ascii ''(null)''"
    have "sent m b n (ts @ us) (emit_string n (Chars ?xs) (int (length ?xs)) (fflags v) (fwidth v) (fprec v) (fout v))"
      unfolding null(5) ctl_simps using out
      by (rule emit_string_sent) (use null(2-5) len in \<open>auto simp: null(5) intro: string_loop_chars\<close>)
    with null show ?thesis by (simp add: convert_def Let_def rd int_conv_def)
  next
    case (str a xs)
    have d: "span a (length xs) \<inter> span b (unat n) = {}" using str(6) span_mono [of "length xs" "Suc (length xs)" a] by auto
    have "cstr (omem (fout v)) a xs"
      using str(4,6) sent_outside [OF out] by (subst cstr_cong [of _ _ _ m]) auto
    then have sl: "strlen (omem (fout v)) a = Some (of_nat (length xs))" by (rule strlen_eq)
    have "sent m b n (ts @ us) (emit_string n (InMem a) (int (length xs)) (fflags v) (fwidth v) (fprec v) (fout v))"
      unfolding str(9) ctl_simps using out
      by (rule emit_string_sent) (use str(7-9) len in \<open>auto simp: str(9) intro: string_loop_mem [OF _ str(4) _ d]\<close>)
    with str sl show ?thesis by (simp add: convert_def Let_def rd int_conv_def sint_of_nat32)
  next
    case other
    then have "int_conv m ch v = None" using int_conv_lifts [of m ch v] by simp
    with other sent_EMIT [OF out, of ch] len show ?thesis by (simp add: convert_def Let_def rd)
  qed
qed

section \<open>The loop\<close>

lemma vsn_loop_step:
  assumes "sent m b n ts (fout v)" and "cstr m (fp v) (ch # fs)" and "span (fp v) (Suc (Suc (length fs))) \<inter> span b (unat n) = {}"
    and "vsn_step n ch (v\<lparr>fp := fp v + 1\<rparr>) = Some v1"
  shows "vsn_loop n v = vsn_loop n v1"
proof -
  have "omem (fout v) (fp v) = ch" "ch \<noteq> 0"
    using sent_outside [OF assms(1), of "fp v"] assms(2,3) by (auto simp: span_Suc)
  with assms(4) show ?thesis by (subst vsn_loop.simps) simp
qed

definition runs :: "mem \<Rightarrow> addr \<Rightarrow> u32 \<Rightarrow> u8 list \<Rightarrow> u8 list \<Rightarrow> vstate \<Rightarrow> bool" where
  "runs m b n ts us v \<longleftrightarrow> (\<exists>v'. vsn_loop n v = Some v' \<and> sent m b n (ts @ us) (fout v'))"

text \<open>What holds of the loop's variables before a turn, with \<open>fs\<close> the rest of the format.\<close>

definition ready :: "mem \<Rightarrow> addr \<Rightarrow> u32 \<Rightarrow> u8 list \<Rightarrow> pctl \<Rightarrow> u8 list \<Rightarrow> vstate \<Rightarrow> bool" where
  "ready m b n ts c fs v \<longleftrightarrow> ctl v = c \<and> sent m b n ts (fout v) \<and> cstr m (fp v) fs \<and>
     span (fp v) (Suc (length fs)) \<inter> span b (unat n) = {}"

lemma ready_next:
  assumes "ready m b n ts c (ch # fs) v" and "fp v1 = fp v + 1" and "sent m b n ts' (fout v1)"
  shows "ready m b n ts' (ctl v1) fs v1"
  using assms by (auto simp: ready_def span_Suc)

lemma runs_step:
  assumes "ready m b n ts c (ch # fs) v" and "vsn_step n ch (v\<lparr>fp := fp v + 1\<rparr>) = Some v1" and "runs m b n ts us v1"
  shows "runs m b n ts us v"
  using assms vsn_loop_step [of m b n ts v ch fs v1] by (auto simp: ready_def runs_def)

text \<open>A control step that consumes the character, and one that leaves it to the next state.\<close>

lemma control_consumes:
  assumes rdy: "ready m b n ts c (ch # fs) v"
    and step: "fstate c = st_flags \<and> flags_step ch c = Some c' \<or>
      fstate c = st_width \<and> span (fap c) 4 \<inter> span b (unat n) = {} \<and> width_step m ch c = Some c' \<or>
      fstate c = st_prec \<and> span (fap c) 4 \<inter> span b (unat n) = {} \<and> prec_step m ch c = Some c' \<or>
      fstate c = st_modifiers \<and> rank_step ch c = Some c'"
  shows "\<exists>v1. vsn_step n ch (v\<lparr>fp := fp v + 1\<rparr>) = Some v1 \<and> ready m b n ts c' fs v1"
proof -
  let ?v = "v\<lparr>fp := fp v + 1\<rparr>"
  have c: "ctl ?v = c" "sent m b n ts (fout v)" using rdy by (simp_all add: ready_def)
  note lift = control_lifts(1,4) [of ch ?v] control_lifts(2,3) [of m ch ?v]
  have "\<exists>v1. vsn_step n ch ?v = Some v1 \<and> ctl v1 = c' \<and> fp v1 = fp ?v \<and> fout v1 = fout v"
    using step lift c sent_steps [OF c(2), of ?v]
    by (elim disjE conjE) (auto simp: vsn_step_def lifts_simps)
  then show ?thesis using ready_next [OF rdy] c(2) by fastforce
qed

lemma control_again:
  assumes rdy: "ready m b n ts c (ch # fs) v"
    and step: "fstate c = st_flags \<and> flags_step ch c = None \<and> s = st_width \<or>
      fstate c = st_width \<and> width_step m ch c = None \<and> s = st_modifiers \<or>
      fstate c = st_prec \<and> prec_step m ch c = None \<and> s = st_modifiers"
  shows "vsn_step n ch (v\<lparr>fp := fp v + 1\<rparr>) = Some (v\<lparr>fstate := s\<rparr>) \<and> ready m b n ts (c\<lparr>fstate := s\<rparr>) (ch # fs) (v\<lparr>fstate := s\<rparr>)"
proof -
  let ?v = "v\<lparr>fp := fp v + 1\<rparr>"
  have c: "ctl ?v = c" using rdy by (simp add: ready_def)
  have "vsn_step n ch ?v = Some (v\<lparr>fstate := s\<rparr>)"
    using step control_lifts(1) [of ch ?v] c width_prec_none [of m ch c "omem (fout v)" ?v]
    by (elim disjE conjE) (auto simp: vsn_step_def lifts_simps)
  with rdy show ?thesis by (auto simp: ready_def)
qed

lemma vsn_loop_text:
  assumes "fmt m (span b (unat n)) c fs us"
  shows "ready m b n ts c fs v \<Longrightarrow> length ts + length us < 4294967296 \<Longrightarrow> runs m b n ts us v"
  using assms
proof (induction arbitrary: v ts rule: fmt.induct)
  case (stop c)
  then have "omem (fout v) (fp v) = 0" using sent_outside [of m b n ts "fout v" "fp v"] by (auto simp: ready_def span_Suc)
  with stop show ?case unfolding runs_def ready_def by (subst vsn_loop.simps) simp
next
  case (plain c ch fs us)
  let ?v = "v\<lparr>fp := fp v + 1, fout := EMIT n ch (fout v)\<rparr>"
  have out: "sent m b n (ts @ [ch]) (fout ?v)"
    using sent_EMIT [of m b n ts "fout v" ch] plain.prems by (simp add: ready_def)
  have "runs m b n (ts @ [ch]) us ?v"
    using plain.IH [of "ts @ [ch]" ?v] ready_next [OF plain.prems(1) _ out] plain.prems by (simp add: ready_def)
  then show ?case
    using runs_step [OF plain.prems(1), of ?v "ch # us"] plain by (auto simp: runs_def ready_def vsn_step_def)
next
  case (percent c fs us)
  let ?v = "start_conv (v\<lparr>fp := fp v + 1\<rparr>)"
  have "runs m b n ts us ?v"
    using percent.IH [of ts ?v] ready_next [OF percent.prems(1), of ?v ts] percent.prems by (simp add: ready_def)
  then show ?case
    using runs_step [OF percent.prems(1), of ?v us] percent by (auto simp: ready_def vsn_step_def)
next
  case (flags c ch c' fs us)
  then show ?case using control_consumes by (metis runs_step)
next
  case (width c ch c' fs us)
  then show ?case using control_consumes by (metis runs_step)
next
  case (prec c ch c' fs us)
  then show ?case using control_consumes by (metis runs_step)
next
  case (rank c ch c' fs us)
  then show ?case using control_consumes by (metis runs_step)
next
  case (flags_end c ch fs us)
  then show ?case using control_again [of m b n ts c ch fs v st_width] by (metis runs_step)
next
  case (width_end c ch fs us)
  then show ?case using control_again [of m b n ts c ch fs v st_modifiers] by (metis runs_step)
next
  case (prec_end c ch fs us)
  then show ?case using control_again [of m b n ts c ch fs v st_modifiers] by (metis runs_step)
next
  case (convert c ch t c' fs us)
  from convert have out: "sent m b n ts (fout (canonical (v\<lparr>fp := fp v + 1\<rparr>)))" by (simp add: ready_def)
  from convert_sent [OF out, of ch t c'] convert obtain v1 where
    v1: "Printf.convert n ch (canonical (v\<lparr>fp := fp v + 1\<rparr>)) = Some v1" "ctl v1 = c'" "fp v1 = fp v + 1" "sent m b n (ts @ t) (fout v1)"
    by (auto simp: ready_def)
  have "rank_step ch (v\<lparr>fp := fp v + 1\<rparr>) = None"
    using control_lifts(4) [of ch "v\<lparr>fp := fp v + 1\<rparr>"] convert by (auto simp: lifts_simps ready_def)
  moreover have "runs m b n (ts @ t) us v1"
    using convert.IH [of "ts @ t" v1] ready_next [OF convert.prems(1) v1(3,4)] convert.prems v1 by simp
  ultimately show ?case
    using runs_step [OF convert.prems(1), of v1 "t @ us"] convert v1(1) by (auto simp: runs_def ready_def vsn_step_def)
qed

section \<open>The whole call\<close>

definition initial :: "addr \<Rightarrow> pctl" where
  "initial ap = \<lparr>fstate = st_normal, fflags = 0, frank = rank_int, fwidth = 0, fprec = -1, fap = ap\<rparr>"

lemma overlay_update:
  assumes "i < length xs" and "length xs < 4294967296"
  shows "(overlay m b xs)(b + of_nat i := c) = overlay m b (xs[i := c])"
proof
  fix x
  have "x = b + of_nat i \<longleftrightarrow> unat (x - b) = i"
    using eq_of_nat32 [of i "x - b"] assms by (auto simp: algebra_simps)
  then show "((overlay m b xs)(b + of_nat i := c)) x = overlay m b (xs[i := c]) x"
    using assms by (auto simp: overlay_def nth_list_update)
qed

lemma vsnprintf_eq:
  assumes f: "fmt m (span buf (unat n)) (initial ap) fs ts" and str: "cstr m format fs"
    and d: "span format (Suc (length fs)) \<inter> span buf (unat n) = {}" and len: "length ts < 4294967296"
  shows "vsnprintf buf n format ap m =
    Some (of_nat (length ts), if n = 0 then m else overlay m buf (take (unat n - 1) ts @ [0]))"
proof -
  let ?v = "\<lparr>fstate = st_normal, fflags = 0, frank = rank_int, fwidth = 0, fprec = -1, fap = ap,
         fp = format, fout = (buf, 0, m)\<rparr>"
  have "ready m buf n [] (initial ap) fs ?v"
    using str d by (simp add: ready_def initial_def pctl.truncate_def)
  from vsn_loop_text [OF f this] len obtain v' where
    v': "vsn_loop n ?v = Some v'" "sent m buf n ts (fout v')" by (auto simp: runs_def)
  obtain q cnt m1 where o: "fout v' = (q, cnt, m1)" by (cases "fout v'")
  have c: "cnt = of_nat (length ts)" "cnt < n \<Longrightarrow> q = buf + of_nat (length ts)" "m1 = overlay m buf (take (unat n) ts)" "unat cnt = length ts"
    using v'(2) len by (auto simp: sent_def o)
  let ?m = "if cnt < n then m1(q := 0) else if n > 0 then m1(buf + (n - 1) := 0) else m1"
  have "?m = (if n = 0 then m else overlay m buf (take (unat n - 1) ts @ [0]))"
  proof (cases "cnt < n")
    case True
    then have "length ts < unat n" using c(4) by (simp add: word_less_nat_alt)
    then show ?thesis using True c overlay_snoc [OF len, of m buf 0] by auto
  next
    case False
    then have le: "unat n \<le> length ts" using c(4) by (simp add: word_less_nat_alt)
    show ?thesis
    proof (cases "n = 0")
      case True
      then show ?thesis using False c by (simp add: overlay_def)
    next
      case nz: False
      have n1: "n - 1 = of_nat (unat n - 1)" "0 < unat n"
        using word_count_down [OF nz] nz by (metis of_nat_unat ucast_id, simp add: unat_gt_0)
      have "(take (unat n) ts)[unat n - 1 := 0] = take (unat n - 1) ts @ [0]"
        using le n1(2) by (cases "unat n") (simp_all add: take_Suc_conv_app_nth list_update_append)
      moreover have "(overlay m buf (take (unat n) ts))(buf + of_nat (unat n - 1) := 0) =
          overlay m buf ((take (unat n) ts)[unat n - 1 := 0])"
        using le n1(2) len by (intro overlay_update) simp_all
      ultimately have "m1(buf + (n - 1) := 0) = overlay m buf (take (unat n - 1) ts @ [0])"
        unfolding c(3) n1(1) by simp
      then show ?thesis using False nz by (simp add: word_gt_0)
    qed
  qed
  then show ?thesis unfolding vsnprintf_def v'(1) by (simp add: o c(1))
qed

section \<open>Printed numbers read back\<close>

lemma lsd_less: "0 < b \<Longrightarrow> d \<in> set (lsd b k v) \<Longrightarrow> d < b"
  by (induction b k v rule: lsd.induct) auto

lemma number_append: "number b a (xs @ ys) = number b (number b a xs) ys"
  by (induction xs arbitrary: a) auto

lemma number_lsd: "0 < b \<Longrightarrow> b \<le> 256 \<Longrightarrow> number b 0 (rev (map of_nat (lsd b k v))) = v mod b ^ k"
proof (induction b k v rule: lsd.induct)
  case (2 b k v)
  have "v mod b < 256" using 2(2,3) by (metis less_le_trans mod_less_divisor)
  then have "unat (of_nat (v mod b) :: u8) = v mod b" by (simp add: unat_of_nat take_bit_nat_eq_self)
  moreover have "v div b mod b ^ k * b + v mod b = v mod (b * b ^ k)"
    by (simp add: mod_mult2_eq mult.commute)
  ultimately show ?case using 2 by (simp add: number_append)
qed simp

lemma ndigs_enough: "1 < b \<Longrightarrow> v < b ^ ndigs b v"
proof (induction b v rule: ndigs.induct)
  case (1 b v)
  show ?case
  proof (cases "v = 0")
    case False
    then have "v div b < b ^ ndigs b (v div b)" using 1 by simp
    then have "v < b * b ^ ndigs b (v div b)" using 1(2) by (simp add: div_less_iff_less_mult mult.commute)
    then show ?thesis using False 1(2) by (subst ndigs.simps) simp
  qed (use 1(2) in simp)
qed

text \<open>The digit characters and the digit values agree in every base up to 16.\<close>

lemma lcdigits_value:
  assumes "d < 16"
  shows "isascii (uint (lcdigits ! d)) \<and>
    (if isdigit (uint (lcdigits ! d)) then Some (lcdigits ! d - of_char CHR ''0'')
     else if isalpha (uint (lcdigits ! d))
     then Some (lcdigits ! d - (if isupper (uint (lcdigits ! d)) then of_char CHR ''A'' - 10 else of_char CHR ''a'' - 10))
     else None) = Some (of_nat d)"
proof -
  have "d = 0 \<or> d = 1 \<or> d = 2 \<or> d = 3 \<or> d = 4 \<or> d = 5 \<or> d = 6 \<or> d = 7 \<or> d = 8 \<or> d = 9 \<or> d = 10 \<or>
      d = 11 \<or> d = 12 \<or> d = 13 \<or> d = 14 \<or> d = 15" using assms by presburger
  then show ?thesis by (elim disjE) (simp_all add: lcdigits_def isascii_iff isdigit_def isalpha_def isupper_def islower_def)
qed

lemma strtol_digit_lc:
  assumes "d < b" and "b \<le> 16"
  shows "strtol_digit (lcdigits ! d) (of_nat b) = Some (of_nat d)"
proof -
  have "uint (of_nat d :: u8) = int d" using assms by (simp add: unsigned_of_nat take_bit_nat_eq_self)
  moreover have "sint (of_nat b :: u32) = int b" using assms by (intro sint_of_nat32) simp
  moreover have "d < 16" using assms by simp
  ultimately show ?thesis using lcdigits_value [of d] assms(1) unfolding strtol_digit_def by simp
qed

lemma digit_values_lc:
  "\<forall>d \<in> set ds. d < b \<Longrightarrow> b \<le> 16 \<Longrightarrow> digit_values b (map (\<lambda>d. lcdigits ! d) ds) = Some (map of_nat ds)"
  by (induction ds) (auto simp: digit_values_Cons strtol_digit_lc, simp add: digit_values_def)

lemma ticked_none: "length cs \<le> b \<Longrightarrow> ticked t b cs = cs"
  by (induction t b cs rule: ticked.induct) auto

lemma number_text_plain:
  assumes "flags AND FL_HASH = 0" and "flags AND FL_TICK = 0" and "flags AND FL_UPPER = 0" and "prec \<le> 1"
  shows "number_text flags b prec v = map (\<lambda>d. lcdigits ! d) (rev (lsd b (max 1 (ndigs b v)) v))"
proof -
  have "max 1 (max (ndigs b v) (nat prec)) = max 1 (ndigs b v)" using assms(4) by simp
  then show ?thesis using assms(1-3) by (simp add: number_text_def ticked_none rev_map Let_def del: max_less_iff_conj)
qed

lemma ndigs_le: "1 < b \<Longrightarrow> v < b ^ k \<Longrightarrow> ndigs b v \<le> k"
proof (induction k arbitrary: v)
  case (Suc k)
  show ?case
  proof (cases "v = 0")
    case False
    have "v div b < b ^ k" using Suc.prems by (simp add: less_mult_imp_div_less mult.commute)
    with Suc False show ?thesis by (subst ndigs.simps) simp
  qed (simp add: ndigs.simps)
qed (simp add: ndigs.simps)

lemma cstr_overlay:
  assumes "0 \<notin> set xs" and "length xs + 1 < 4294967296"
  shows "cstr (overlay m b (xs @ [0])) b xs"
  using assms by (auto simp: cstr_iff overlay_def nth_append)

lemma lcdigits_nonzero: "d < 16 \<Longrightarrow> lcdigits ! d \<noteq> 0"
  using lcdigits_value [of d] by (auto simp: isdigit_def isalpha_def isupper_def islower_def)

text \<open>The text of \<open>%d\<close>, and its reading by \<open>strtol\<close>.\<close>

definition decimal :: "bool \<Rightarrow> nat \<Rightarrow> u8 list" where
  "decimal neg v = (if neg then ascii ''-'' else []) @ map (\<lambda>d. lcdigits ! d) (rev (lsd 10 (max 1 (ndigs 10 v)) v))"

lemma int_text_decimal: "int_text FL_SIGNED 10 0 (- 1) neg v = decimal neg v"
proof -
  have f: "FL_SIGNED AND FL_HASH = 0" "FL_SIGNED AND FL_TICK = 0" "FL_SIGNED AND FL_UPPER = 0" "FL_SIGNED AND FL_MINUS = 0"
    "FL_SIGNED AND FL_ZERO = 0" "FL_SIGNED AND FL_PLUS = 0" "FL_SIGNED AND FL_SPACE = 0"
    by (simp_all add: flag_defs)
  show ?thesis by (simp add: int_text_def number_text_plain sign_text_def f decimal_def Let_def)
qed

lemma decimal_ok:
  assumes "v < 10 ^ 10"
  shows "length (decimal neg v) \<le> 11" "0 \<notin> set (decimal neg v)"
proof -
  have "ndigs 10 v \<le> 10" using ndigs_le [of 10 v 10] assms by simp
  then show "length (decimal neg v) \<le> 11" by (simp add: decimal_def)
  have "lcdigits ! d \<noteq> 0" if "d \<in> set (lsd 10 (max 1 (ndigs 10 v)) v)" for d
    using lsd_less [OF _ that] by (intro lcdigits_nonzero) simp
  then show "0 \<notin> set (decimal neg v)" by (auto simp: decimal_def)
qed

lemma strtol_decimal:
  assumes "cstr m s (decimal neg v)"
  shows "\<exists>r. strtol s 0 10 m = Some (r, m) \<and> sint r = clamp32 (if neg then - int v else int v)"
proof -
  let ?k = "max 1 (ndigs 10 v)" and ?sg = "if neg then ascii ''-'' else []"
  let ?ds = "rev (lsd 10 ?k v)"
  have d: "\<forall>d \<in> set ?ds. d < 10" using lsd_less [of 10] by auto
  have ne: "map (\<lambda>d. lcdigits ! d) ?ds \<noteq> []" using length_lsd [of 10 ?k v] by (auto simp del: length_lsd)
  have v: "number 10 0 (map of_nat ?ds) = v"
  proof -
    have "v < 10 ^ ?k" using ndigs_enough [of 10 v] by (auto intro: less_le_trans simp: power_increasing)
    then show ?thesis using number_lsd [of 10 ?k v] by (simp add: rev_map)
  qed
  have "\<exists>r. strtol s 0 (of_nat 10) m =
      Some (r, if (0 :: addr) \<noteq> 0 then st32 m 0 (s + of_nat (length ([] @ ?sg @ [] @ map (\<lambda>d. lcdigits ! d) ?ds))) else m) \<and>
    sint r = clamp32 (if ?sg = [of_char CHR ''-''] then - int (number 10 0 (map of_nat ?ds)) else int (number 10 0 (map of_nat ?ds)))"
    by (rule strtol_spec [where ws = "[]" and pf = "[]" and rest = "[]" and b = 10])
      (use assms ne digit_values_lc [OF d] in \<open>auto simp: decimal_def prefix_ok_def base_of_def\<close>)
  then show ?thesis by (simp only: v) auto
qed

text \<open>The value that \<open>%d\<close> prints for a 32-bit argument.\<close>

lemma signed_arg_value:
  fixes x :: u32
  shows "sint (scast x :: u64) = sint x" "unat (if sint x < 0 then - scast x else scast x :: u64) = nat \<bar>sint x\<bar>"
proof -
  have r: "- (2 ^ 31) \<le> sint x" "sint x < 2 ^ 31" using sint_range_size [of x] by (simp_all add: word_size)
  have val: "scast x = (word_of_int (sint x) :: u64)" by simp
  show "sint (scast x :: u64) = sint x"
    unfolding val using r signed_take_bit_int_eq_self [of 63 "sint x"] by (simp only: signed_of_int) simp
  have u: "unat (word_of_int y :: u64) = nat y" if "0 \<le> y" "y \<le> 2 ^ 31" for y
    using that by (simp add: unsigned_of_int take_bit_int_eq_self)
  have "- scast x = (word_of_int (- sint x) :: u64)" by simp
  with u [of "sint x"] u [of "- sint x"] r show "unat (if sint x < 0 then - scast x else scast x :: u64) = nat \<bar>sint x\<bar>"
    unfolding val by (simp only: split: if_split) simp
qed

lemma fmt_decimal:
  assumes "span ap 8 \<inter> B = {}" and "ld32 m ap = x"
  shows "fmt m B (initial ap) (ascii ''%d'') (decimal (sint x < 0) (nat \<bar>sint x\<bar>))"
proof -
  let ?c = "start_conv (initial ap)" and ?d = "of_char CHR ''d'' :: u8" and ?ts = "decimal (sint x < 0) (nat \<bar>sint x\<bar>)"
  let ?c3 = "?c\<lparr>fstate := st_width, fstate := st_modifiers\<rparr>"
  let ?e = "(canonical ?c3)\<lparr>fflags := FL_SIGNED, fap := ap + 4\<rparr>"
  have ic: "int_conv m ?d (canonical ?c3) = Some (scast x, 10, ?e)"
    using assms(2) by (simp add: int_conv_def canonical_def start_conv_def initial_def signed_arg_def rank_defs)
  have e: "fflags ?e = FL_SIGNED" "fwidth ?e = 0" "fprec ?e = - 1" by (simp_all add: canonical_def start_conv_def)
  have "conv m B ?d (canonical ?c3)
      (int_text (fflags ?e) (unat (10 :: u64)) (fwidth ?e) (fprec ?e) (sint x < 0) (unat (if sint x < 0 then - scast x else scast x :: u64))) ?e"
    by (rule conv.integer [OF ic]) (simp_all only: e, simp_all add: signed_arg_value FL_SIGNED_def)
  then have cv: "conv m B ?d (canonical ?c3) ?ts ?e"
    unfolding e signed_arg_value by (simp add: int_text_decimal)
  have "fmt m B ?c3 [?d] (?ts @ [])"
    by (rule fmt.convert [OF _ _ _ cv fmt.stop]) (use assms(1) in \<open>simp_all add: rank_step_def start_conv_def initial_def\<close>)
  then have w: "fmt m B (?c\<lparr>fstate := st_width\<rparr>\<lparr>fstate := st_modifiers\<rparr>) [?d] ?ts" by simp
  have "fmt m B (?c\<lparr>fstate := st_width\<rparr>) [?d] ?ts"
    by (rule fmt.width_end [OF _ _ w]) (simp_all add: width_step_def)
  then have "fmt m B ?c [?d] ?ts"
    by (rule fmt.flags_end [rotated 2]) (simp_all add: flags_step_def start_conv_def)
  then show ?thesis using fmt.percent [of "initial ap" m B "[?d]"] by (simp add: initial_def)
qed

lemma print_parse_aux:
  assumes str: "cstr m format (ascii ''%d'')" and x: "ld32 m ap = x" and n: "12 \<le> unat n"
    and d: "span format 3 \<inter> span buf (unat n) = {}" "span ap 8 \<inter> span buf (unat n) = {}"
  shows "\<exists>r m'. snprintf buf n format ap m = Some (r, m') \<and> strtol buf 0 10 m' = Some (x, m')"
proof -
  let ?neg = "sint x < 0" and ?v = "nat \<bar>sint x\<bar>"
  let ?ts = "decimal ?neg ?v"
  have r: "- 2147483648 \<le> sint x" "sint x < 2147483648" using sint_range_size [of x] by (simp_all add: word_size)
  then have ok: "length ?ts \<le> 11" "0 \<notin> set ?ts" using decimal_ok [of ?v ?neg] by simp_all
  have d3: "span format (Suc (length (ascii ''%d''))) \<inter> span buf (unat n) = {}" using d(1) by (simp add: numeral_3_eq_3)
  have "vsnprintf buf n format ap m = Some (of_nat (length ?ts), overlay m buf (?ts @ [0]))"
    using vsnprintf_eq [OF fmt_decimal [OF d(2) x] str d3] ok n by (auto simp: unat_eq_0)
  moreover have "cstr (overlay m buf (?ts @ [0])) buf ?ts" using ok by (intro cstr_overlay) auto
  from strtol_decimal [OF this] obtain y where
    y: "strtol buf 0 10 (overlay m buf (?ts @ [0])) = Some (y, overlay m buf (?ts @ [0]))" "sint y = sint x"
    using r by (auto simp: clamp32_def split: if_splits)
  moreover have "y = x" using y(2) by (rule signed_word_eqI)
  ultimately show ?thesis by (auto simp: snprintf_def)
qed

text \<open>A concrete call: the format \<open>%d\<close> at 100, its argument 42 at 200, a buffer at 300.\<close>

definition demo_print :: mem where
  "demo_print = st32 (text_at 100 ''%d'' (\<lambda>_. 0)) 200 42"

lemma demo_print_facts:
  "cstr demo_print 100 (ascii ''%d'')" "ld32 demo_print 200 = 42"
  "span 100 3 \<inter> span 300 (unat (16 :: u32)) = {}" "span 200 8 \<inter> span 300 (unat (16 :: u32)) = {}"
  by (simp_all add: demo_print_def st32_def ld32_def span_numeral span_Suc)

section \<open>Properties\<close>

text \<open>
  \<open>format_int\<close> prints integers as specified: for any value, flags, base of at least 2 and moderate width
  and precision it returns the length of the full text (sign, \<open>0x\<close>, zero or space padding on the
  right side, underscores every three or four digits with the tick flag, at least \<open>prec\<close> digits) and
  writes its first \<open>n\<close> characters at \<open>q\<close>, and nothing else.
\<close>

theorem format_int_prints:
  fixes val base :: u64
  assumes "1 < unat base" and "width < 1073741824" and "prec < 536870912"
  shows "\<exists>neg v us. (neg \<longleftrightarrow> flags AND FL_SIGNED \<noteq> 0 \<and> sint val < 0) \<and> v = unat (if neg then - val else val) \<and>
    us = int_text flags (unat base) width prec neg v \<and>
    format_int q n val flags base width prec m = Some (of_nat (length us), overlay m q (take (unat n) us))"
  using format_int_text [OF assms, where flags = flags and val = val and m = m and q = q and n = n]
  by (auto simp: sent_def)

theorem format_int_prints_witness:
  "\<exists>us. us = int_text 0x42 10 8 4 True 42 \<and>
     format_int 100 20 (- 42) 0x42 10 8 4 (\<lambda>_. 0) = Some (of_nat (length us), overlay (\<lambda>_. 0) 100 (take 20 us))"
proof -
  have "1 < unat (10 :: u64)" "(8 :: int) < 1073741824" "(4 :: int) < 536870912" by simp_all
  from format_int_prints [OF this, where flags = "0x42" and val = "- 42" and q = 100 and n = 20 and m = "\<lambda>_. 0"]
  show ?thesis by (auto simp: FL_SIGNED_def)
qed



text \<open>
  C37: what \<open>snprintf\<close> prints with \<open>%d\<close>, \<open>strtol\<close> reads back: for every 32-bit integer, a buffer of at least
  12 bytes holds its decimal text, and \<open>strtol\<close> in base 10 returns the same integer.
\<close>

theorem print_parse_decimal:
  assumes "cstr m format (ascii ''%d'')" and "ld32 m ap = x" and "12 \<le> unat n"
    and "span format 3 \<inter> span buf (unat n) = {}" and "span ap 8 \<inter> span buf (unat n) = {}"
  shows "\<exists>r m'. snprintf buf n format ap m = Some (r, m') \<and> strtol buf 0 10 m' = Some (x, m')"
  using assms by (rule print_parse_aux)

theorem print_parse_decimal_witness:
  "\<exists>r m'. snprintf 300 16 100 200 demo_print = Some (r, m') \<and> strtol 300 0 10 m' = Some (42, m')"
  by (rule print_parse_decimal [OF demo_print_facts(1,2) _ demo_print_facts(3,4)]) simp

end
