(* ===== verification/Stdlib.thy ===== *)
theory Stdlib
  imports CString HeapContract
begin

text \<open>
  The allocation functions of \<^verbatim>\<open>src/stdlib.c\<close> and \<open>strdup\<close> of \<^verbatim>\<open>src/string.c\<close>: clients of the kernel
  heap that also read and write the memory it hands out.
\<close>

section \<open>The code\<close>

definition malloc :: "u32 \<Rightarrow> kheap \<Rightarrow> (addr \<times> kheap) outcome option" where
  "malloc sz s = HeapAlloc 0 sz s"

definition free :: "addr \<Rightarrow> kheap \<Rightarrow> kheap outcome option" where
  "free p s = HeapFree p s"

definition calloc :: "u32 \<Rightarrow> u32 \<Rightarrow> kheap \<Rightarrow> (addr \<times> kheap) outcome option" where
  "calloc cnt sz s =
     (let n = cnt * sz
      in and_then (malloc n s) (\<lambda>(ret, s).
           Some (Inr (ret, s\<lparr>memory := snd (memset ret 0 n (memory s))\<rparr>))))"

definition realloc :: "addr \<Rightarrow> u32 \<Rightarrow> kheap \<Rightarrow> (addr \<times> kheap) outcome option" where
  "realloc p sz s =
     and_then (malloc sz s) (\<lambda>(ret, s).
       if p \<noteq> 0
       then and_then (free p (s\<lparr>memory := snd (memcpy ret p sz (memory s))\<rparr>)) (\<lambda>s. Some (Inr (ret, s)))
       else Some (Inr (ret, s)))"

definition abort :: "kheap \<Rightarrow> kheap outcome option" where
  "abort s = Some (Inl ''abort() called'')"

definition strdup :: "addr \<Rightarrow> kheap \<Rightarrow> (addr \<times> kheap) outcome option" where
  "strdup s1 s =
     Option.bind (strlen (memory s) s1) (\<lambda>l.
       let len = l + 1
       in and_then (malloc len s) (\<lambda>(ret, s).
            Some (Inr (ret, s\<lparr>memory := snd (memcpy ret s1 len (memory s))\<rparr>))))"

section \<open>Writing into a block in use\<close>

text \<open>An offset below \<open>n\<close> from \<open>p\<close> is an address of the interval \<open>[p, p + n)\<close>.\<close>

lemma offset_range:
  fixes x p n :: u32
  assumes "unat p + unat n \<le> 4294967296" and "x - p < n"
  shows "unat p \<le> unat x" "unat x < unat p + unat n" "unat (x - p) = unat x - unat p"
proof -
  have "unat (x - p) < unat n" using assms(2) by (simp add: word_less_nat_alt)
  with assms(1) have "unat (p + (x - p)) = unat p + unat (x - p)" by (intro unat_add32) simp
  then have "unat x = unat p + unat (x - p)" by simp
  with assms(2) show "unat p \<le> unat x" "unat x < unat p + unat n" "unat (x - p) = unat x - unat p"
    by (simp_all add: word_less_nat_alt)
qed

text \<open>The allocator never reads what it has handed out: changing protected bytes keeps the heap.\<close>

lemma heap_rep_protected:
  assumes rep: "heap_rep m h f e bs" and same: "\<And>x. \<not> protected h e bs (unat x) \<Longrightarrow> m' x = m x"
  shows "heap_rep m' h f e bs"
proof -
  have lay: "tiles f bs e" "h + 8 \<le> f" "e < 4294967296" "0 < h" using rep by (auto simp: heap_rep_def linked_def layout_def)
  have cell: "rd m' y = rd m y" if free: "\<forall>k < 4. \<not> protected h e bs (y + k)" and y: "y + 4 \<le> 4294967296" for y
    unfolding rd_def
  proof (rule ld32_cong, rule same)
    fix k :: nat
    assume "k < 4"
    with y have "unat (of_nat (y + k) :: addr) = y + k" by (intro unat_of_nat32) simp
    with free \<open>k < 4\<close> show "\<not> protected h e bs (unat (of_nat (y + k) :: addr))" by simp
  qed
  have inside: "\<not> protected h e bs (start c + k)" if cc: "c \<in> set bs" and kk: "k < 8 \<or> \<not> used c \<and> k < 16" for c k
  proof
    assume p: "protected h e bs (start c + k)"
    have c: "f \<le> start c" "start c + bsize c \<le> e" "16 \<le> bsize c" using tiles_block [OF lay(1) cc] by auto
    then obtain d where d: "d \<in> set bs" "used d" "start d + 8 \<le> start c + k" "start c + k < start d + bsize d"
      using p lay kk by (auto simp: protected_def)
    with tiles_apart [OF lay(1) cc d(1)] c kk show False by auto
  qed
  have block: "rd m' (start c) = rd m (start c) \<and> rd m' (start c + 4) = rd m (start c + 4) \<and>
      (\<not> used c \<longrightarrow> rd m' (start c + 8) = rd m (start c + 8))" if "c \<in> set bs" for c
  proof -
    have "start c + bsize c \<le> e" "16 \<le> bsize c" using tiles_block [OF lay(1) that] by auto
    then show ?thesis
      using lay(3) inside [OF that] by (auto intro!: cell simp: add.assoc)
  qed
  have "seg m' p (free_starts cs) q \<longleftrightarrow> seg m p (free_starts cs) q" if "set cs \<subseteq> set bs" for p q cs
    using that by (induction cs arbitrary: p) (auto simp: block)
  moreover have "rd m' (h + 4) = rd m (h + 4)"
  proof (rule cell)
    have "h + 8 \<le> e" using lay tiles_le [OF lay(1)] by simp
    moreover have "f \<le> start b" if "b \<in> set bs" for b using tiles_block [OF lay(1) that] by simp
    ultimately show "\<forall>k < 4. \<not> protected h e bs (h + 4 + k)"
      using lay(2) by (force simp: protected_def)
  qed (use lay tiles_le [OF lay(1)] in simp)
  ultimately show ?thesis using rep block by (auto simp: heap_rep_def linked_def headers_def)
qed

lemma heap_rep_payload:
  assumes rep: "heap_rep m h f e bs" and b: "b \<in> set bs" "used b"
    and same: "\<And>x. \<not> (start b + 8 \<le> unat x \<and> unat x < start b + bsize b) \<Longrightarrow> m' x = m x"
  shows "heap_rep m' h f e bs"
  by (rule heap_rep_protected [OF rep]) (use b same in \<open>auto simp: protected_def\<close>)

text \<open>What a successful \<open>malloc\<close> gives: a fresh block \<open>b\<close> in use, with room for \<open>n\<close> bytes.\<close>

definition fresh_block :: "block list \<Rightarrow> block list \<Rightarrow> nat \<Rightarrow> block \<Rightarrow> bool" where
  "fresh_block bs cs n b \<longleftrightarrow> b \<in> set cs \<and> used b \<and> n + 8 \<le> bsize b \<and>
     (\<forall>c \<in> set bs. used c \<longrightarrow> c \<in> set cs \<and> (start c + bsize c \<le> start b \<or> start b + bsize b \<le> start c))"

lemma malloc_ok:
  assumes rep: "heap_rep (memory s) h f e bs" and k: "hKernelHeap s = of_nat h" and n: "0 < n" "n \<le> 4294967280"
    and room: "\<exists>b \<in> set bs. \<not> used b \<and> request n \<le> bsize b"
  obtains m' cs b where "malloc (of_nat n) s = Some (Inr (of_nat (start b + 8), s\<lparr>memory := m'\<rparr>))"
    and "heap_rep m' h f e cs" and "preserves h e bs (memory s) m'" and "fresh_block bs cs n b"
    and "alloc_spec (request n) bs = Some (start b + 8, cs)"
proof -
  from room obtain q cs where sp: "alloc_spec (request n) bs = Some (q, cs)"
    by (cases "alloc_spec (request n) bs") (auto simp: alloc_spec_None)
  from HeapAlloc_refines_aux [OF rep n, of 0] k sp obtain m' where
    m': "HeapAlloc 0 (of_nat n) s = Some (Inr (of_nat q, s\<lparr>memory := m'\<rparr>))" "heap_rep m' h f e cs"
      "preserves h e bs (memory s) m'" by auto
  from alloc_spec_fresh [OF sp] heap_rep_layout [OF rep] obtain b where
    b: "b \<in> set cs" "used b" "q = start b + 8" "request n \<le> bsize b"
      "\<forall>c \<in> set bs. used c \<longrightarrow> c \<in> set cs \<and> (start c + bsize c \<le> start b \<or> start b + bsize b \<le> start c)" by blast
  have "fresh_block bs cs n b" using b request_props(3) [of n] by (auto simp: fresh_block_def)
  with m' b(3) sp show thesis by (intro that) (auto simp: malloc_def)
qed

lemma fresh_block_range:
  assumes "heap_rep m h f e cs" and "fresh_block bs cs n b"
  shows "unat (of_nat (start b + 8) :: addr) = start b + 8" "start b + 8 + n \<le> e" "e < 4294967296" "n < 4294967296"
    "h + 8 \<le> start b" "unat (of_nat n :: u32) = n"
proof -
  have b: "h + 8 \<le> start b" "start b + bsize b \<le> e" "e < 4294967296" "n + 8 \<le> bsize b"
    using heap_block [OF assms(1), of b] assms(2) by (auto simp: fresh_block_def)
  then show "start b + 8 + n \<le> e" "e < 4294967296" "n < 4294967296" "h + 8 \<le> start b" by simp_all
  then show "unat (of_nat n :: u32) = n" by simp
  show "unat (of_nat (start b + 8) :: addr) = start b + 8" by (rule unat_of_nat32) (use b in linarith)
qed

lemma fresh_not_protected:
  assumes "heap_rep m h f e cs" and "fresh_block bs cs n b" and "start b + 8 \<le> y" "y < start b + 8 + n"
  shows "\<not> protected h e bs y"
  using fresh_block_range(2,5) [OF assms(1,2)] assms(2-4) by (fastforce simp: protected_def fresh_block_def)

text \<open>Filling the fresh block, at most \<open>n\<close> bytes of it, keeps the heap and everything that was protected.\<close>

lemma fill_fresh:
  assumes rep: "heap_rep m h f e cs" and fr: "fresh_block bs cs n b"
    and same: "\<And>x. of_nat n \<le> x - of_nat (start b + 8) \<Longrightarrow> m' x = m x"
  shows "heap_rep m' h f e cs" and "preserves h e bs m m'"
proof -
  note r = fresh_block_range [OF rep fr]
  have sub: "start b + 8 \<le> unat x \<and> unat x < start b + 8 + n" if "x - of_nat (start b + 8) < of_nat n" for x :: addr
    using offset_range [of "of_nat (start b + 8)" "of_nat n" x] that r by auto
  have b: "b \<in> set cs" "used b" "n + 8 \<le> bsize b" using fr by (auto simp: fresh_block_def)
  show "heap_rep m' h f e cs"
    by (rule heap_rep_payload [OF rep b(1,2)]) (use same sub b(3) in \<open>force simp: not_le [symmetric]\<close>)
  have "m' (of_nat y) = m (of_nat y)" if "y < 4294967296" "protected h e bs y" for y
  proof (rule same, rule leI, rule notI)
    assume "of_nat y - of_nat (start b + 8) < (of_nat n :: addr)"
    then have "start b + 8 \<le> y \<and> y < start b + 8 + n" using sub [of "of_nat y"] that(1) by simp
    with that(2) fresh_not_protected [OF rep fr] show False by blast
  qed
  then show "preserves h e bs m m'" by (simp add: preserves_def)
qed

lemma preserves_span:
  assumes "preserves h e bs m m'" and "\<forall>x \<in> S. protected h e bs (unat x)" and "x \<in> S"
  shows "m' x = m x"
proof -
  have "m' (of_nat (unat x)) = m (of_nat (unat x))"
    using assms by (auto simp: preserves_def simp del: of_nat_unat)
  then show ?thesis by simp
qed

lemma span_offset: "x \<in> span a n \<Longrightarrow> n < 4294967296 \<Longrightarrow> x - a < of_nat n"
  by (auto simp: span_def word_less_nat_alt)

lemma offset_span: "x - a < of_nat n \<Longrightarrow> n < 4294967296 \<Longrightarrow> x \<in> span a n"
  unfolding span_def by (rule image_eqI [where x = "unat (x - a)"]) (auto simp: word_less_nat_alt)

lemma fresh_disjoint:
  assumes rep: "heap_rep m h f e cs" and fr: "fresh_block bs cs n b"
    and prot: "\<forall>x \<in> span p n. protected h e bs (unat x)"
  shows "disjoint p (of_nat n) (of_nat (start b + 8)) (of_nat n)"
  unfolding disjoint_def
proof (intro allI impI notI)
  note r = fresh_block_range [OF rep fr]
  fix i j :: u32
  assume i: "i < of_nat n" and j: "j < of_nat n" and eq: "p + i = of_nat (start b + 8) + j"
  have "p + i \<in> span p n" using i r(4) by (intro offset_span) simp_all
  moreover have "start b + 8 \<le> unat (p + i)" "unat (p + i) < start b + 8 + n"
    using offset_range [of "of_nat (start b + 8)" "of_nat n" "p + i"] j r by (simp_all add: eq)
  ultimately show False using prot fresh_not_protected [OF rep fr] by blast
qed

lemma strdup_ok:
  assumes rep: "heap_rep (memory s) h f e bs" and k: "hKernelHeap s = of_nat h" and str: "cstr (memory s) s1 xs"
    and len: "length xs < 4294967280" and prot: "\<forall>x \<in> span s1 (Suc (length xs)). protected h e bs (unat x)"
    and room: "\<exists>b \<in> set bs. \<not> used b \<and> request (Suc (length xs)) \<le> bsize b"
  shows "\<exists>b cs m'. strdup s1 s = Some (Inr (of_nat (start b + 8), s\<lparr>memory := m'\<rparr>)) \<and> heap_rep m' h f e cs \<and>
    preserves h e bs (memory s) m' \<and> fresh_block bs cs (Suc (length xs)) b \<and>
    cstr m' (of_nat (start b + 8)) xs \<and> cstr m' s1 xs"
proof -
  let ?n = "Suc (length xs)"
  have n: "0 < ?n" "?n \<le> 4294967280" using len by simp_all
  from malloc_ok [OF rep k n room] obtain m1 cs b where
    al: "malloc (of_nat ?n) s = Some (Inr (of_nat (start b + 8), s\<lparr>memory := m1\<rparr>))"
    and rep1: "heap_rep m1 h f e cs" and pre1: "preserves h e bs (memory s) m1" and fr: "fresh_block bs cs ?n b" by blast
  let ?p = "of_nat (start b + 8) :: addr"
  define m2 where "m2 = snd (memcpy ?p s1 (of_nat ?n) m1)"
  have dis: "disjoint s1 (of_nat ?n) ?p (of_nat ?n)" by (rule fresh_disjoint [OF rep1 fr prot])
  have same: "m2 x = m1 x" if "of_nat ?n \<le> x - ?p" for x
    unfolding m2_def by (rule memcpy_other [OF dis that])
  note fill = fill_fresh [OF rep1 fr same]
  have "preserves h e bs (memory s) m2" using pre1 fill(2) by (rule preserves_trans)
  moreover have str1: "cstr m1 s1 xs"
    using str preserves_span [OF pre1 prot] by (subst cstr_cong [of _ _ _ "memory s"]) auto
  moreover have "cstr m2 s1 xs"
    using str1 preserves_span [OF fill(2) prot] by (subst cstr_cong [of _ _ _ m1]) auto
  moreover have "cstr m2 ?p xs"
    using memcpy_bytes [OF dis, of m1] str1 fresh_block_range(6) [OF rep1 fr] unfolding cstr_bytes m2_def by simp
  moreover have "strdup s1 s = Some (Inr (?p, s\<lparr>memory := m2\<rparr>))"
    using al by (simp add: strdup_def strlen_eq [OF str] m2_def add.commute)
  ultimately show ?thesis using fill(1) fr by blast
qed

lemma calloc_ok:
  assumes rep: "heap_rep (memory s) h f e bs" and k: "hKernelHeap s = of_nat h"
    and n: "0 < cnt * sz" "cnt * sz \<le> 4294967280"
    and room: "\<exists>b \<in> set bs. \<not> used b \<and> request (cnt * sz) \<le> bsize b"
  shows "\<exists>b cs m'. calloc (of_nat cnt) (of_nat sz) s = Some (Inr (of_nat (start b + 8), s\<lparr>memory := m'\<rparr>)) \<and>
    heap_rep m' h f e cs \<and> preserves h e bs (memory s) m' \<and> fresh_block bs cs (cnt * sz) b \<and>
    bytes m' (of_nat (start b + 8)) (cnt * sz) = replicate (cnt * sz) 0"
proof -
  let ?n = "cnt * sz"
  from malloc_ok [OF rep k n room] obtain m1 cs b where
    al: "malloc (of_nat ?n) s = Some (Inr (of_nat (start b + 8), s\<lparr>memory := m1\<rparr>))"
    and rep1: "heap_rep m1 h f e cs" and pre1: "preserves h e bs (memory s) m1" and fr: "fresh_block bs cs ?n b" by blast
  let ?p = "of_nat (start b + 8) :: addr"
  define m2 where "m2 = snd (memset ?p 0 (of_nat ?n) m1)"
  have same: "m2 x = m1 x" if "of_nat ?n \<le> x - ?p" for x
    unfolding m2_def by (rule memset_other [OF that])
  note fill = fill_fresh [OF rep1 fr same]
  have "bytes m2 ?p ?n = replicate ?n 0"
    using memset_bytes [of ?p 0 "of_nat ?n" m1] fresh_block_range(6) [OF rep1 fr] unfolding m2_def by simp
  moreover have "calloc (of_nat cnt) (of_nat sz) s = Some (Inr (?p, s\<lparr>memory := m2\<rparr>))"
    using al by (simp add: calloc_def m2_def)
  ultimately show ?thesis using fill fr preserves_trans [OF pre1] by blast
qed

text \<open>The copy of \<open>realloc\<close> reads past the old block when it grows, but the old block's own bytes arrive.\<close>

lemma copy_old_block:
  assumes rep: "heap_rep m h f e cs" and fr: "fresh_block bs cs sz b" and old: "a \<in> set bs" "used a"
    and i: "i < sz" "i < bsize a - 8"
  defines "p \<equiv> of_nat (start b + 8)" and "q \<equiv> of_nat (start a + 8)"
  shows "snd (memcpy p q (of_nat sz) m) (p + of_nat i) = m (q + of_nat i)"
proof -
  note r = fresh_block_range [OF rep fr]
  have b: "b \<in> set cs" "sz + 8 \<le> bsize b" and a: "a \<in> set cs"
      "start a + bsize a \<le> start b \<or> start b + bsize b \<le> start a"
    using fr old by (auto simp: fresh_block_def)
  have ae: "start a + bsize a \<le> e" "start b + bsize b \<le> e"
    using heap_block [OF rep a(1)] heap_block [OF rep b(1)] by auto
  have "q + of_nat i \<noteq> p + j" if "j < of_nat i" for j :: u32
  proof
    assume eq: "q + of_nat i = p + j"
    have j: "unat j < i" using that i r(4) by (simp add: word_less_nat_alt)
    have "q + of_nat i = of_nat (start a + 8 + i)" "p + j = of_nat (start b + 8 + unat j)" by (simp_all add: p_def q_def)
    with eq have "start a + 8 + i = start b + 8 + unat j"
      using of_nat32_eq_iff [of "start a + 8 + i" "start b + 8 + unat j"] j ae r(3) i b(2) by simp
    with a(2) j i b(2) show False by auto
  qed
  then show ?thesis
    unfolding memcpy_def snd_conv using i r(4) by (intro memcpy_loop_ahead) (simp_all add: word_less_nat_alt)
qed

lemma realloc_ok:
  assumes rep: "heap_rep (memory s) h f e bs" and k: "hKernelHeap s = of_nat h" and n: "0 < sz" "sz \<le> 4294967280"
    and room: "\<exists>b \<in> set bs. \<not> used b \<and> request sz \<le> bsize b" and old: "a \<in> set bs" "used a"
  shows "\<exists>b cs m'. realloc (of_nat (start a + 8)) (of_nat sz) s = Some (Inr (of_nat (start b + 8), s\<lparr>memory := m'\<rparr>)) \<and>
    fresh_block bs cs sz b \<and> heap_rep m' h f e (free_spec (start a + 8) cs) \<and>
    (\<forall>i < sz. i < bsize a - 8 \<longrightarrow> m' (of_nat (start b + 8) + of_nat i) = memory s (of_nat (start a + 8) + of_nat i)) \<and>
    (\<forall>c \<in> set bs. used c \<and> c \<noteq> a \<longrightarrow> (\<forall>x. start c + 8 \<le> x \<and> x < start c + bsize c \<longrightarrow> m' (of_nat x) = memory s (of_nat x)))"
proof -
  from malloc_ok [OF rep k n room] obtain m1 cs b where
    al: "malloc (of_nat sz) s = Some (Inr (of_nat (start b + 8), s\<lparr>memory := m1\<rparr>))"
    and rep1: "heap_rep m1 h f e cs" and pre1: "preserves h e bs (memory s) m1" and fr: "fresh_block bs cs sz b" by blast
  let ?p = "of_nat (start b + 8) :: addr" and ?q = "of_nat (start a + 8) :: addr"
  define m2 where "m2 = snd (memcpy ?p ?q (of_nat sz) m1)"
  note r = fresh_block_range [OF rep1 fr]
  have b: "b \<in> set cs" "used b" "sz + 8 \<le> bsize b" and a: "a \<in> set cs"
      "start a + bsize a \<le> start b \<or> start b + bsize b \<le> start a"
    using fr old by (auto simp: fresh_block_def)
  have ae: "start a + bsize a \<le> e" "16 \<le> bsize a" "start b + bsize b \<le> e"
    using heap_block [OF rep1 a(1)] heap_block [OF rep1 b(1)] by auto
  have same: "m2 x = m1 x" if "of_nat sz \<le> x - ?p" for x
    unfolding m2_def memcpy_def using that by (simp add: memcpy_loop_outside)
  note fill = fill_fresh [OF rep1 fr same]
  have pre2: "preserves h e bs (memory s) m2" using pre1 fill(2) by (rule preserves_trans)
  have copied: "m2 (?p + of_nat i) = memory s (?q + of_nat i)" if "i < sz" "i < bsize a - 8" for i
    using copy_old_block [OF rep1 fr old that] preserves_payload [OF pre1 old, of "start a + 8 + i"] ae r(3) that
    unfolding m2_def by simp
  have "heap_rep (memory (s\<lparr>memory := m2\<rparr>)) h f e cs" using fill(1) by simp
  from HeapFree_refines_aux [OF this a(1) old(2)] obtain m3 where
    m3: "HeapFree ?q (s\<lparr>memory := m2\<rparr>) = Some (Inr (s\<lparr>memory := m3\<rparr>))" "heap_rep m3 h f e (free_spec (start a + 8) cs)"
      "preserves h e (filter (\<lambda>c. c \<noteq> a) cs) m2 m3" by auto
  have "a \<noteq> b" using a(2) ae b(3) by auto
  have keep: "m3 (of_nat x) = m2 (of_nat x)" if "c \<in> set cs" "used c" "c \<noteq> a" "start c + 8 \<le> x" "x < start c + bsize c" for c x
    using preserves_payload [OF m3(3), of c x] that heap_block [OF rep1 that(1)] by auto
  have "m3 (?p + of_nat i) = memory s (?q + of_nat i)" if "i < sz" "i < bsize a - 8" for i
    using keep [of b "start b + 8 + i"] b \<open>a \<noteq> b\<close> copied [OF that] that by simp
  moreover have "m3 (of_nat x) = memory s (of_nat x)"
    if "c \<in> set bs" "used c" "c \<noteq> a" "start c + 8 \<le> x" "x < start c + bsize c" for c x
    using keep [of c x] preserves_payload [OF pre2 that(1,2)] heap_block [OF rep that(1)] fr that
    by (auto simp: fresh_block_def)
  moreover have "?q \<noteq> 0"
    using of_nat32_eq_iff [of "start a + 8" 0] ae r(3) by simp
  then have "realloc ?q (of_nat sz) s = Some (Inr (?p, s\<lparr>memory := m3\<rparr>))"
    using al m3(1) by (simp add: realloc_def free_def m2_def)
  ultimately show ?thesis using m3(2) fr by blast
qed

section \<open>Properties\<close>

text \<open>A concrete state: a 4 KiB kernel heap at \<open>0x10000\<close> and the text \<open>hi\<close> at address 100.\<close>

definition demo_text :: kheap where
  "demo_text = \<lparr>memory = snd (HeapInitialize 4096 65536 (text_at 100 ''hi'' (\<lambda>_. 0))), hKernelHeap = 65536\<rparr>"

lemma demo_text_rep:
  "heap_rep (memory demo_text) 65536 65544 69632 [blk 65544 4088 False]"
  "preserves 65536 69632 [] (text_at 100 ''hi'' (\<lambda>_. 0)) (memory demo_text)"
  using HeapInitialize_linked(2,4) [of 65536 4096 "text_at 100 ''hi'' (\<lambda>_. 0)"]
  by (simp_all add: demo_text_def demo_magic demo_first_block)

lemma demo_text_str: "cstr (memory demo_text) 100 (ascii ''hi'')"
proof -
  have "memory demo_text x = text_at 100 ''hi'' (\<lambda>_. 0) x" if "x \<in> {100, 101, 102}" for x
    by (rule preserves_span [OF demo_text_rep(2) _ that]) (auto simp: protected_def)
  then show ?thesis by simp
qed

text \<open>
  \<open>strdup\<close> makes an independent copy. For a string that the heap does not own as free space, if a free
  block is large enough, the call returns a fresh block that holds exactly the string with its NUL, in
  a well-formed heap in which the original and every other block in use are unchanged.
\<close>

theorem strdup_fresh_copy:
  assumes "heap_rep (memory s) h f e bs" and "hKernelHeap s = of_nat h" and "cstr (memory s) s1 xs"
    and "length xs < 4294967280" and "\<forall>x \<in> span s1 (Suc (length xs)). protected h e bs (unat x)"
    and "\<exists>b \<in> set bs. \<not> used b \<and> request (Suc (length xs)) \<le> bsize b"
  shows "\<exists>b cs m'. strdup s1 s = Some (Inr (of_nat (start b + 8), s\<lparr>memory := m'\<rparr>)) \<and> heap_rep m' h f e cs \<and>
    preserves h e bs (memory s) m' \<and> fresh_block bs cs (Suc (length xs)) b \<and>
    cstr m' (of_nat (start b + 8)) xs \<and> cstr m' s1 xs"
  using assms by (rule strdup_ok)

theorem strdup_fresh_copy_witness:
  "\<exists>p m'. strdup 100 demo_text = Some (Inr (p, demo_text\<lparr>memory := m'\<rparr>)) \<and> cstr m' p (ascii ''hi'')"
proof -
  have "\<forall>x \<in> span 100 (Suc (length (ascii ''hi''))). protected 65536 69632 [blk 65544 4088 False] (unat x)"
    by (simp add: span_Suc protected_def)
  with strdup_fresh_copy [OF demo_text_rep(1) _ demo_text_str] show ?thesis
    by (auto simp: demo_text_def request_def)
qed

text \<open>
  \<open>calloc\<close> returns zeroed memory: when \<open>count * size\<close> does not overflow and a free block is large enough,
  the call returns a fresh block whose first \<open>count * size\<close> bytes are 0, and nothing in use changes.
\<close>

theorem calloc_zeroed:
  assumes "heap_rep (memory s) h f e bs" and "hKernelHeap s = of_nat h"
    and "0 < cnt * sz" and "cnt * sz \<le> 4294967280" and "\<exists>b \<in> set bs. \<not> used b \<and> request (cnt * sz) \<le> bsize b"
  shows "\<exists>b cs m'. calloc (of_nat cnt) (of_nat sz) s = Some (Inr (of_nat (start b + 8), s\<lparr>memory := m'\<rparr>)) \<and>
    heap_rep m' h f e cs \<and> preserves h e bs (memory s) m' \<and> fresh_block bs cs (cnt * sz) b \<and>
    bytes m' (of_nat (start b + 8)) (cnt * sz) = replicate (cnt * sz) 0"
  using assms by (rule calloc_ok)

theorem calloc_zeroed_witness:
  "\<exists>p m'. calloc 3 4 demo_heap = Some (Inr (p, demo_heap\<lparr>memory := m'\<rparr>)) \<and> bytes m' p 12 = replicate 12 0"
  using calloc_zeroed [OF demo_rep, of 3 4] by (auto simp: demo_handle request_def)

text \<open>
  \<open>calloc\<close> does not check its multiplication: \<open>calloc(65536, 65536)\<close> asks the heap for 0 bytes and returns
  a node of 8 bytes, all of them header, where the caller expects 4 GiB of zeroes.
\<close>

theorem calloc_overflow:
  "case calloc 65536 65536 demo_heap of Some (Inr (p, s)) \<Rightarrow> p \<noteq> 0 \<and> node_size (memory s) (p - 8) = 8 | _ \<Rightarrow> False"
  by (simp add: calloc_def malloc_def heap_eval memset_def memset_loop.simps)

text \<open>
  \<open>realloc\<close> moves a block. For a block in use and a free block large enough for the new size, the call
  returns a fresh block that holds the bytes of the old one up to the smaller of the two sizes, the old
  block is released, the heap stays well-formed, and every other block in use keeps its contents. (The
  code copies \<open>size\<close> bytes even when the old block is shorter; the bytes past its end are unspecified.)
\<close>

theorem realloc_keeps_data:
  assumes "heap_rep (memory s) h f e bs" and "hKernelHeap s = of_nat h" and "0 < sz" and "sz \<le> 4294967280"
    and "\<exists>b \<in> set bs. \<not> used b \<and> request sz \<le> bsize b" and "a \<in> set bs" and "used a"
  shows "\<exists>b cs m'. realloc (of_nat (start a + 8)) (of_nat sz) s = Some (Inr (of_nat (start b + 8), s\<lparr>memory := m'\<rparr>)) \<and>
    fresh_block bs cs sz b \<and> heap_rep m' h f e (free_spec (start a + 8) cs) \<and>
    (\<forall>i < sz. i < bsize a - 8 \<longrightarrow> m' (of_nat (start b + 8) + of_nat i) = memory s (of_nat (start a + 8) + of_nat i)) \<and>
    (\<forall>c \<in> set bs. used c \<and> c \<noteq> a \<longrightarrow> (\<forall>x. start c + 8 \<le> x \<and> x < start c + bsize c \<longrightarrow> m' (of_nat x) = memory s (of_nat x)))"
  using assms by (rule realloc_ok)

theorem realloc_keeps_data_witness:
  "\<exists>s p s'. HeapAlloc 0 100 demo_heap = Some (Inr (65552, s)) \<and> realloc 65552 200 s = Some (Inr (p, s')) \<and>
     memory s' p = memory s 65552"
proof -
  from HeapAlloc_refines_aux [OF demo_rep, of 100 0] obtain m where
    al: "HeapAlloc 0 100 demo_heap = Some (Inr (65552, demo_heap\<lparr>memory := m\<rparr>))"
    and m: "heap_rep (memory (demo_heap\<lparr>memory := m\<rparr>)) 65536 65544 69632 [blk 65544 112 True, blk 65656 3976 False]"
    by (auto simp: demo_handle request_def carve_def)
  from realloc_keeps_data [OF m, of 200 "blk 65544 112 True"] obtain b cs m' where
    r: "realloc 65552 200 (demo_heap\<lparr>memory := m\<rparr>) = Some (Inr (of_nat (start b + 8), demo_heap\<lparr>memory := m'\<rparr>)) \<and>
        fresh_block [blk 65544 112 True, blk 65656 3976 False] cs 200 b \<and> heap_rep m' 65536 65544 69632 (free_spec 65552 cs) \<and>
        (\<forall>i < 200. i < 104 \<longrightarrow> m' (of_nat (start b + 8) + of_nat i) = m (65552 + of_nat i))"
    by (simp add: demo_handle request_def) metis
  then have "m' (of_nat (start b + 8)) = m 65552" by (auto dest: spec [of _ 0])
  with al r show ?thesis by fastforce
qed

end
