(* ===== verification/Stdio.thy ===== *)
theory Stdio
  imports PrintfSpec Stdlib
begin

text \<open>
  The callers of \<open>vsnprintf\<close> in the kernel: \<open>asprintf\<close> (\<^verbatim>\<open>src/printf.c\<close>), which prints into a fresh heap
  block, and \<open>puts\<close>, \<open>printf\<close>, \<open>fprintf\<close>, \<open>vfprintf\<close> (\<^verbatim>\<open>src/stdio.c\<close>) with \<open>fputs\<close>, \<open>fputc\<close>, \<open>putchar\<close>
  (\<^verbatim>\<open>src/stdio_cpp.cpp\<close>), which print to an output device.

  A device is an object with a virtual \<open>write\<close>; the record \<open>console\<close> stands for the objects that exist:
  which pointers are output devices (the \<open>dynamic_cast\<close>), what \<open>write\<close> does to the device state, and the
  pointers \<open>stdout\<close> and \<open>stderr\<close>. The local \<open>char buffer[128]\<close> of \<open>vfprintf\<close> is at the address \<open>buffer\<close>.
\<close>

section \<open>The code\<close>

definition asprintf :: "addr \<Rightarrow> addr \<Rightarrow> addr \<Rightarrow> kheap \<Rightarrow> (u32 \<times> kheap) outcome option" where
  "asprintf bufp format ap s =
     Option.bind (vsnprintf 0 0 format ap (memory s)) (\<lambda>(rv, m).
       let nbytes = rv + 1
       in and_then (malloc nbytes (s\<lparr>memory := m\<rparr>)) (\<lambda>(p, s).
            let s = s\<lparr>memory := st32 (memory s) bufp p\<rparr>
            in if p = 0 then Some (Inr (- 1, s))
               else Option.bind (vsnprintf p nbytes format ap (memory s)) (\<lambda>(rv, m).
                      Some (Inr (rv, s\<lparr>memory := m\<rparr>)))))"

record 'w console =
  is_output :: "addr \<Rightarrow> bool"
  dev_write :: "addr \<Rightarrow> u8 list \<Rightarrow> 'w \<Rightarrow> int \<times> 'w"
  stdout :: addr
  stderr :: addr

text \<open>
  \<open>fputs\<close> on the bytes of the string. On an object that is no output device it reports to \<open>stderr\<close> with
  \<open>fprintf\<close>, that is with \<open>fputs\<close> again, so it does not return if \<open>stderr\<close> is no output device either;
  \<open>typeid(object)\<close> is the type of the pointer \<open>Object *\<close>.
\<close>

definition fputs_message :: "u8 list" where
  "fputs_message = ascii ''fputs: expected OutputDevice, got P6Object'' @ [10]"

definition fputc_message :: "u8 list" where
  "fputc_message = ascii ''fputc: expected OutputDevice, got P6Object'' @ [10]"

partial_function (option) fputs_bytes :: "'w console \<Rightarrow> u8 list \<Rightarrow> addr \<Rightarrow> 'w \<Rightarrow> (int \<times> 'w) option" where
  "fputs_bytes con xs device w =
     (if is_output con device then Some (dev_write con device xs w)
      else Option.bind (fputs_bytes con fputs_message (stderr con) w) (\<lambda>(r, w). Some (- 1, w)))"

definition fputs :: "'w console \<Rightarrow> mem \<Rightarrow> addr \<Rightarrow> addr \<Rightarrow> 'w \<Rightarrow> (int \<times> 'w) option" where
  "fputs con m s device w = Option.bind (strlen m s) (\<lambda>sz. fputs_bytes con (bytes m s (unat sz)) device w)"

definition fputc :: "'w console \<Rightarrow> u32 \<Rightarrow> addr \<Rightarrow> 'w \<Rightarrow> (int \<times> 'w) option" where
  "fputc con c device w =
     (if is_output con device then Some (dev_write con device [ucast c] w)
      else Option.bind (fputs_bytes con fputc_message (stderr con) w) (\<lambda>(r, w). Some (- 1, w)))"

definition putchar :: "'w console \<Rightarrow> u32 \<Rightarrow> 'w \<Rightarrow> (int \<times> 'w) option" where
  "putchar con c w = fputc con c (stdout con) w"

definition puts :: "'w console \<Rightarrow> mem \<Rightarrow> addr \<Rightarrow> 'w \<Rightarrow> (int \<times> 'w) option" where
  "puts con m str w =
     Option.bind (fputs con m str (stdout con) w) (\<lambda>(ret, w).
       if ret \<ge> 0 then Option.bind (putchar con 10 w) (\<lambda>(r, w). Some (ret + 1, w)) else Some (ret, w))"

definition vfprintf :: "'w console \<Rightarrow> addr \<Rightarrow> addr \<Rightarrow> addr \<Rightarrow> addr \<Rightarrow> mem \<Rightarrow> 'w \<Rightarrow> (int \<times> mem \<times> 'w) option" where
  "vfprintf con buffer device format ap m w =
     Option.bind (vsnprintf buffer 128 format ap m) (\<lambda>(rv, m).
       if sint rv < 0 then Some (sint rv, m, w)
       else Option.bind (fputs con m buffer device w) (\<lambda>(rv, w). Some (rv, m, w)))"

definition printf :: "'w console \<Rightarrow> addr \<Rightarrow> addr \<Rightarrow> addr \<Rightarrow> mem \<Rightarrow> 'w \<Rightarrow> (int \<times> mem \<times> 'w) option" where
  "printf con buffer format args m w = vfprintf con buffer (stdout con) format args m w"

definition fprintf :: "'w console \<Rightarrow> addr \<Rightarrow> addr \<Rightarrow> addr \<Rightarrow> addr \<Rightarrow> mem \<Rightarrow> 'w \<Rightarrow> (int \<times> mem \<times> 'w) option" where
  "fprintf con buffer device format args m w = vfprintf con buffer device format args m w"

section \<open>Formats and memory\<close>

text \<open>The text of a format depends on the memory outside \<open>B\<close> only, and a smaller \<open>B\<close> forbids less.\<close>

lemma int_conv_agree:
  assumes "\<And>x. x \<in> span (fap v) 8 \<Longrightarrow> m' x = m x"
  shows "int_conv m' ch v = int_conv m ch v"
proof -
  have "ld32 m' (fap v) = ld32 m (fap v)" "ld32 m' (fap v + 4) = ld32 m (fap v + 4)"
    using assms span8 [of "fap v"] by (auto intro!: ld32_same)
  then show ?thesis by (simp add: int_conv_def signed_arg_def unsigned_arg_def ld64_def Let_def)
qed

lemma conv_agree:
  assumes "conv m B ch c ts c'" and "span (fap c) 8 \<inter> B = {}" and same: "\<And>x. x \<notin> B \<Longrightarrow> m' x = m x" and "B' \<subseteq> B"
  shows "conv m' B' ch c ts c'"
proof -
  have arg: "\<And>x. x \<in> span (fap c) 8 \<Longrightarrow> m' x = m x" using assms(2) same by blast
  have ld: "ld32 m' (fap c) = ld32 m (fap c)" by (rule ld32_same) (use arg span8 in blast)
  note ic = int_conv_agree [of c m' m ch, OF arg]
  show ?thesis
    using assms(1)
  proof cases
    case (str a xs)
    have "cstr m' a xs" using str(4,6) same by (subst cstr_cong [of _ _ _ m]) auto
    moreover have "span a (Suc (length xs)) \<inter> B' = {}" using str(6) assms(4) by blast
    ultimately show ?thesis using str ld by (intro conv.str [of ch m' c a xs]) simp_all
  next
    case (integer val base neg)
    then show ?thesis using ic by (intro conv.integer [of m' ch c val base c' neg]) simp_all
  next
    case character
    then show ?thesis using ld by (intro conv.character) simp_all
  next
    case null
    then show ?thesis using ld by (intro conv.null) simp_all
  next
    case other
    then show ?thesis using ic by (simp add: conv.other)
  qed
qed

lemma steps_agree:
  assumes "ld32 m' (fap c) = ld32 m (fap c)"
  shows "width_step m' ch c = width_step m ch c" "prec_step m' ch c = prec_step m ch c"
  unfolding width_step_def prec_step_def assms by (rule refl)+

lemma fmt_agree:
  assumes "fmt m B c fs ts" and same: "\<And>x. x \<notin> B \<Longrightarrow> m' x = m x" and "B' \<subseteq> B"
  shows "fmt m' B' c fs ts"
  using assms(1)
proof (induction rule: fmt.induct)
  case (width c ch c' fs ts)
  have "ld32 m' (fap c) = ld32 m (fap c)" by (rule ld32_same) (use width(2) same in blast)
  then have "width_step m' ch c = Some c'" using width(3) steps_agree(1) by metis
  with width assms(3) show ?case by (intro fmt.width) auto
next
  case (prec c ch c' fs ts)
  have "ld32 m' (fap c) = ld32 m (fap c)" by (rule ld32_same) (use prec(2) same in blast)
  then have "prec_step m' ch c = Some c'" using prec(3) steps_agree(2) by metis
  with prec assms(3) show ?case by (intro fmt.prec) auto
next
  case (width_end c ch fs ts)
  then show ?case using width_prec_none(1) [of m ch c m' c] by (auto intro: fmt.width_end)
next
  case (prec_end c ch fs ts)
  then show ?case using width_prec_none(2) [of m ch c m' c] by (auto intro: fmt.prec_end)
next
  case (convert c ch t c' fs ts)
  have "conv m' B' ch (canonical c) t c'"
    by (rule conv_agree [OF convert(4) _ same assms(3)]) (use convert(3) in \<open>simp_all add: canonical_def\<close>)
  with convert assms(3) show ?case by (intro fmt.convert) auto
next
  case (percent c fs ts)
  from percent(1,3) show ?case by (rule fmt.percent)
qed (auto intro: fmt.intros)

section \<open>Printing into a fresh block\<close>

text \<open>The addresses that a format may not read if it is printed with \<open>asprintf\<close>: free heap space and \<open>*bufp\<close>.\<close>

definition off_limits :: "nat \<Rightarrow> nat \<Rightarrow> block list \<Rightarrow> addr \<Rightarrow> addr set" where
  "off_limits h e bs bufp = {x. \<not> protected h e bs (unat x)} \<union> span bufp 4"

lemma fresh_span:
  assumes rep: "heap_rep m h f e cs" and fr: "fresh_block bs cs n b" and x: "x \<in> span (of_nat (start b + 8)) n"
  shows "\<not> protected h e bs (unat x)" "start b + 8 \<le> unat x \<and> unat x < start b + 8 + n"
proof -
  note r = fresh_block_range [OF rep fr]
  have "x - of_nat (start b + 8) < of_nat n" by (rule span_offset [OF x r(4)])
  then show *: "start b + 8 \<le> unat x \<and> unat x < start b + 8 + n"
    using offset_range [of "of_nat (start b + 8)" "of_nat n" x] r by simp
  then show "\<not> protected h e bs (unat x)" using fresh_not_protected [OF rep fr] by blast
qed

lemma overlay_bytes: "length xs < 4294967296 \<Longrightarrow> bytes (overlay m b xs) b (length xs) = xs"
  by (rule nth_equalityI) (auto simp: overlay_def)

lemma asprintf_ok:
  assumes rep: "heap_rep (memory s) h f e bs" and k: "hKernelHeap s = of_nat h"
    and f: "fmt (memory s) (off_limits h e bs bufp) (initial ap) fs ts" and str: "cstr (memory s) format fs"
    and d: "span format (Suc (length fs)) \<inter> off_limits h e bs bufp = {}"
    and cell: "\<forall>x \<in> span bufp 4. protected h e bs (unat x)"
    and len: "length ts < 4294967280" and room: "\<exists>b \<in> set bs. \<not> used b \<and> request (Suc (length ts)) \<le> bsize b"
  shows "\<exists>b cs m'. asprintf bufp format ap s = Some (Inr (of_nat (length ts), s\<lparr>memory := m'\<rparr>)) \<and>
    heap_rep m' h f e cs \<and> fresh_block bs cs (Suc (length ts)) b \<and> ld32 m' bufp = of_nat (start b + 8) \<and>
    bytes m' (of_nat (start b + 8)) (Suc (length ts)) = ts @ [0]"
proof -
  let ?U = "off_limits h e bs bufp" and ?n = "Suc (length ts)"
  have n: "0 < ?n" "?n \<le> 4294967280" using len by simp_all
  have first: "vsnprintf 0 0 format ap (memory s) = Some (of_nat (length ts), memory s)"
    using vsnprintf_eq [OF fmt_agree [OF f, of "memory s"] str, of 0 0] len by simp
  from malloc_ok [OF rep k n room] obtain m1 cs b where
    al: "malloc (of_nat ?n) s = Some (Inr (of_nat (start b + 8), s\<lparr>memory := m1\<rparr>))"
    and rep1: "heap_rep m1 h f e cs" and pre1: "preserves h e bs (memory s) m1" and fr: "fresh_block bs cs ?n b" by blast
  let ?p = "of_nat (start b + 8) :: addr"
  define m2 where "m2 = st32 m1 bufp ?p"
  note r = fresh_block_range [OF rep1 fr]
  have "protected h e cs (unat x)" if "protected h e bs (unat x)" for x :: addr
    using that fr by (auto simp: protected_def fresh_block_def)
  then have rep2: "heap_rep m2 h f e cs"
    using cell unfolding m2_def by (intro heap_rep_protected [OF rep1] st32_outside) blast
  have agree: "m2 x = memory s x" if "x \<notin> ?U" for x
    using that preserves_span [OF pre1, of "{x}" x] by (auto simp: m2_def off_limits_def st32_outside)
  have B: "span ?p (unat (of_nat ?n :: u32)) \<subseteq> ?U"
    unfolding r(6) using fresh_span(1) [OF rep1 fr] by (auto simp: off_limits_def)
  have str2: "cstr m2 format fs" using str d agree by (subst cstr_cong [of _ _ _ "memory s"]) auto
  define m3 where "m3 = overlay m2 ?p (ts @ [0])"
  have nz: "?p \<noteq> 0" "(of_nat ?n :: u32) \<noteq> 0"
    using r of_nat32_eq_iff [of "start b + 8" 0] of_nat32_eq_iff [of ?n 0] by auto
  have "span format (Suc (length fs)) \<inter> span ?p (unat (of_nat ?n :: u32)) = {}" using d B by blast
  then have second: "vsnprintf ?p (of_nat ?n) format ap m2 = Some (of_nat (length ts), m3)"
    using vsnprintf_eq [OF fmt_agree [OF f agree B] str2] len nz(2) r(6) by (simp add: m3_def)
  have "asprintf bufp format ap s = Some (Inr (of_nat (length ts), s\<lparr>memory := m3\<rparr>))"
    unfolding asprintf_def first using al second nz(1) by (simp add: m2_def add.commute)
  moreover have "heap_rep m3 h f e cs"
  proof (rule fill_fresh(1) [OF rep2 fr])
    fix x :: addr
    assume "of_nat ?n \<le> x - ?p"
    then have "?n \<le> unat (x - ?p)" unfolding word_le_nat_alt r(6) .
    then show "m3 x = m2 x" by (simp only: m3_def overlay_def) simp
  qed
  moreover have "bytes m3 ?p ?n = ts @ [0]"
    using overlay_bytes [of "ts @ [0]" m2 ?p] len by (simp add: m3_def)
  moreover have "m3 x = m2 x" if "x \<in> span bufp 4" for x
  proof -
    have "x \<notin> span ?p ?n" using fresh_span(1) [OF rep1 fr, of x] cell that by blast
    then show ?thesis unfolding m3_def by (rule overlay_beyond [rotated]) simp
  qed
  then have "ld32 m3 bufp = ?p" using ld32_same [of bufp m3 m2] by (simp add: m2_def)
  ultimately show ?thesis using fr by blast
qed

section \<open>Printing to a device\<close>

lemma fputs_device:
  "cstr m s xs \<Longrightarrow> is_output con device \<Longrightarrow> fputs con m s device w = Some (dev_write con device xs w)"
  using cstr_length [of m s xs] cstr_append [of m s xs "[]"] by (simp add: fputs_def strlen_eq fputs_bytes.simps)

lemma vfprintf_device:
  assumes f: "fmt m (span buffer 128) (initial ap) fs ts" and str: "cstr m format fs"
    and d: "span format (Suc (length fs)) \<inter> span buffer 128 = {}" and len: "length ts < 2147483648"
    and nz: "0 \<notin> set ts" and dev: "is_output con device"
  shows "\<exists>m'. vfprintf con buffer device format ap m w =
      Some (fst (dev_write con device (take 127 ts) w), m', snd (dev_write con device (take 127 ts) w)) \<and>
    (\<forall>x. x \<notin> span buffer 128 \<longrightarrow> m' x = m x)"
proof -
  let ?m = "overlay m buffer (take 127 ts @ [0])"
  have u: "unat (128 :: u32) = 128" by simp
  have v: "vsnprintf buffer 128 format ap m = Some (of_nat (length ts), ?m)"
    using vsnprintf_eq [of m buffer 128 ap fs ts format] f str d len by simp
  have "cstr ?m buffer (take 127 ts)" using nz by (intro cstr_overlay) (auto dest: in_set_takeD)
  then have p: "fputs con ?m buffer device w = Some (dev_write con device (take 127 ts) w)" using dev by (rule fputs_device)
  have "vfprintf con buffer device format ap m w =
      Some (fst (dev_write con device (take 127 ts) w), ?m, snd (dev_write con device (take 127 ts) w))"
    unfolding vfprintf_def v using sint_of_nat32 [OF len] by (simp add: p case_prod_beta)
  moreover have "?m x = m x" if "x \<notin> span buffer 128" for x
    by (rule overlay_beyond [OF _ that]) simp
  ultimately show ?thesis by blast
qed

section \<open>Properties\<close>

text \<open>
  \<open>asprintf\<close> never truncates. If the format denotes the text \<open>ts\<close>, nothing it reads is free heap space or
  the result cell, and a free block is large enough, then the two passes agree: the call returns the
  length of the text, stores in \<open>*bufp\<close> the address of a fresh heap block that holds all of the text and
  its NUL, and the heap stays well-formed.
\<close>

theorem asprintf_complete:
  assumes "heap_rep (memory s) h f e bs" and "hKernelHeap s = of_nat h"
    and "fmt (memory s) (off_limits h e bs bufp) (initial ap) fs ts" and "cstr (memory s) format fs"
    and "span format (Suc (length fs)) \<inter> off_limits h e bs bufp = {}"
    and "\<forall>x \<in> span bufp 4. protected h e bs (unat x)"
    and "length ts < 4294967280" and "\<exists>b \<in> set bs. \<not> used b \<and> request (Suc (length ts)) \<le> bsize b"
  shows "\<exists>b cs m'. asprintf bufp format ap s = Some (Inr (of_nat (length ts), s\<lparr>memory := m'\<rparr>)) \<and>
    heap_rep m' h f e cs \<and> fresh_block bs cs (Suc (length ts)) b \<and> ld32 m' bufp = of_nat (start b + 8) \<and>
    bytes m' (of_nat (start b + 8)) (Suc (length ts)) = ts @ [0]"
  using assms by (rule asprintf_ok)

theorem asprintf_complete_witness:
  "\<exists>(b :: block) m'. asprintf 200 100 0 demo_text = Some (Inr (2, demo_text\<lparr>memory := m'\<rparr>)) \<and>
     ld32 m' 200 = of_nat (start b + 8) \<and> bytes m' (of_nat (start b + 8)) 3 = ascii ''hi'' @ [0]"
proof -
  let ?U = "off_limits 65536 69632 [blk 65544 4088 False] 200"
  have f: "fmt (memory demo_text) ?U (initial 0) (ascii ''hi'') (ascii ''hi'')"
    by (simp add: initial_def fmt.plain fmt.stop)
  have d: "span 100 (Suc (length (ascii ''hi''))) \<inter> ?U = {}"
    by (simp add: span_numeral span_Suc off_limits_def protected_def)
  have c: "\<forall>x \<in> span 200 4. protected 65536 69632 [blk 65544 4088 False] (unat x)"
    by (simp add: span_numeral span_Suc protected_def)
  have k: "hKernelHeap demo_text = of_nat 65536" by (simp add: demo_text_def)
  have room: "\<exists>b \<in> set [blk 65544 4088 False]. \<not> used b \<and> request (Suc (length (ascii ''hi''))) \<le> bsize b"
    by (simp add: request_def)
  have len: "length (ascii ''hi'') < 4294967280" by simp
  note r = asprintf_complete [OF demo_text_rep(1) k f demo_text_str d c len room]
  then show ?thesis by (auto simp: numeral_3_eq_3)
qed

text \<open>
  C38: \<open>vfprintf\<close> sends one line of at most 127 characters. If the format denotes a text without NUL, the
  device receives exactly the first 127 characters of it in one \<open>write\<close>, the result is that of \<open>write\<close>,
  and no memory but the local buffer changes. Longer messages are cut without an error.
\<close>

theorem vfprintf_cuts:
  assumes "fmt m (span buffer 128) (initial ap) fs ts" and "cstr m format fs"
    and "span format (Suc (length fs)) \<inter> span buffer 128 = {}" and "length ts < 2147483648"
    and "0 \<notin> set ts" and "is_output con device"
  shows "\<exists>m'. vfprintf con buffer device format ap m w =
      Some (fst (dev_write con device (take 127 ts) w), m', snd (dev_write con device (take 127 ts) w)) \<and>
    (\<forall>x. x \<notin> span buffer 128 \<longrightarrow> m' x = m x)"
  using assms by (rule vfprintf_device)

text \<open>A console whose only device is at address 1 and keeps what is written.\<close>

definition demo_console :: "u8 list console" where
  "demo_console = \<lparr>is_output = (\<lambda>d. d = 1), dev_write = (\<lambda>d xs w. (int (length xs), w @ xs)), stdout = 1, stderr = 1\<rparr>"

theorem vfprintf_cuts_witness:
  "\<exists>m'. vfprintf demo_console 1000 1 100 200 demo_print [] = Some (2, m', ascii ''42'')"
proof -
  have ap: "span 200 8 \<inter> span 1000 128 = {}" "span 100 (Suc (length (ascii ''%d''))) \<inter> span 1000 128 = {}"
    by (auto simp: span_def word_unat_eq_iff unat_word_ariths)
  have f: "fmt demo_print (span 1000 128) (initial 200) (ascii ''%d'') (ascii ''42'')"
    using fmt_decimal [OF ap(1) demo_print_facts(2)] by (simp add: decimal_def ndigs.simps lcdigits_def numeral_2_eq_2)
  from vfprintf_cuts [OF f demo_print_facts(1) ap(2), of demo_console 1 "[]"] show ?thesis
    by (auto simp: demo_console_def)
qed

end
