(* ===== verification/Keyboard.thy ===== *)
theory Keyboard
  imports Prelude
begin

text \<open>
  The keyboard driver (\<^verbatim>\<open>src/keyboard.c\<close>): the scan code tables and \<open>kbd_raw_getc\<close>, which reads one byte from the
  keyboard controller and keeps the modifier state in a static variable. The controller is a parameter: the
  values that its status port and its data port return.
\<close>

section \<open>The code\<close>

definition NO :: u8 where "NO = 0"
definition SHIFT :: u8 where "SHIFT = 1"
definition CTL :: u8 where "CTL = 2"
definition ALT :: u8 where "ALT = 4"
definition CAPSLOCK :: u8 where "CAPSLOCK = 8"
definition NUMLOCK :: u8 where "NUMLOCK = 16"
definition SCROLLLOCK :: u8 where "SCROLLLOCK = 32"
definition E0ESC :: u8 where "E0ESC = 64"

definition KEY_HOME :: u8 where "KEY_HOME = 0xE0"
definition KEY_END :: u8 where "KEY_END = 0xE1"
definition KEY_UP :: u8 where "KEY_UP = 0xE2"
definition KEY_DN :: u8 where "KEY_DN = 0xE3"
definition KEY_LF :: u8 where "KEY_LF = 0xE4"
definition KEY_RT :: u8 where "KEY_RT = 0xE5"
definition KEY_PGUP :: u8 where "KEY_PGUP = 0xE6"
definition KEY_PGDN :: u8 where "KEY_PGDN = 0xE7"
definition KEY_INS :: u8 where "KEY_INS = 0xE8"
definition KEY_DEL :: u8 where "KEY_DEL = 0xE9"

lemmas key_defs = NO_def SHIFT_def CTL_def ALT_def CAPSLOCK_def NUMLOCK_def SCROLLLOCK_def E0ESC_def
  KEY_HOME_def KEY_END_def KEY_UP_def KEY_DN_def KEY_LF_def KEY_RT_def KEY_PGUP_def KEY_PGDN_def KEY_INS_def KEY_DEL_def

text \<open>\<open>C('A') == Control-A\<close>\<close>

definition Ctl :: "char \<Rightarrow> u8" where
  "Ctl x = of_char x - of_char CHR ''@''"

text \<open>A table of 256 bytes: the leading entries, and the designated ones; every other entry is 0.\<close>

definition table :: "u8 list \<Rightarrow> (u8 \<times> u8) list \<Rightarrow> u8 \<Rightarrow> u8" where
  "table xs ds i = (case map_of (rev ds) i of Some c \<Rightarrow> c | None \<Rightarrow> if unat i < length xs then xs ! unat i else NO)"

definition shiftcode :: "u8 \<Rightarrow> u8" where
  "shiftcode = table [] [(0x1D, CTL), (0x2A, SHIFT), (0x36, SHIFT), (0x38, ALT), (0x9D, CTL), (0xB8, ALT)]"

definition togglecode :: "u8 \<Rightarrow> u8" where
  "togglecode = table [] [(0x3A, CAPSLOCK), (0x45, NUMLOCK), (0x46, SCROLLLOCK)]"

definition keypad :: "(u8 \<times> u8) list" where
  "keypad = [(0xC8, KEY_UP), (0xD0, KEY_DN), (0xC9, KEY_PGUP), (0xD1, KEY_PGDN), (0xCB, KEY_LF), (0xCD, KEY_RT),
    (0x97, KEY_HOME), (0xCF, KEY_END), (0xD2, KEY_INS), (0xD3, KEY_DEL)]"

definition normalmap :: "u8 \<Rightarrow> u8" where
  "normalmap = table
    (map of_char [CHR 0x00, CHR 0x1B] @ map of_char ''1234567890-='' @ [8, 9] @
     map of_char ''qwertyuiop[]'' @ [10, NO] @ map of_char ''asdfghjkl;'' @ [39, 96, NO, 92] @
     map of_char ''zxcvbnm,./'' @ [NO] @ map of_char ''*'' @ [NO] @ map of_char '' '' @ replicate 13 NO @
     map of_char ''789-456+1230.'' @ replicate 4 NO)
    ([(0x9C, 10), (0xB5, of_char CHR ''/'')] @ keypad)"

definition shiftmap :: "u8 \<Rightarrow> u8" where
  "shiftmap = table
    ([NO, 27] @ map of_char ''!@#$%^&*()_+'' @ [8, 9] @
     map of_char ''QWERTYUIOP{}'' @ [10, NO] @ map of_char ''ASDFGHJKL:'' @ [34, of_char CHR ''~'', NO, of_char CHR ''|''] @
     map of_char ''ZXCVBNM<>?'' @ [NO] @ map of_char ''*'' @ [NO] @ map of_char '' '' @ replicate 13 NO @
     map of_char ''789-456+1230.'' @ replicate 4 NO)
    ([(0x9C, 10), (0xB5, of_char CHR ''/'')] @ keypad)"

definition ctlmap :: "u8 \<Rightarrow> u8" where
  "ctlmap = table
    (replicate 16 NO @ map Ctl ''QWERTYUIOP'' @ [NO, NO, 13, NO] @ map Ctl ''ASDFGHJKL'' @ [NO, NO, NO, NO, 92 - 64] @
     map Ctl ''ZXCVBNM'' @ [NO, NO, Ctl CHR ''/'', NO, NO])
    ([(0x9C, 13), (0xB5, Ctl CHR ''/'')] @ keypad)"

definition charcode :: "u8 \<Rightarrow> u8 \<Rightarrow> u8" where
  "charcode i = (if i = 0 then normalmap else if i = 1 then shiftmap else ctlmap)"

text \<open>
  One call: \<open>st\<close> and \<open>data\<close> are what \<open>inb(KBSTATP)\<close> and \<open>inb(KBDATAP)\<close> return, \<open>shift\<close> is the static variable. The
  result is -1 when the controller has no data, 0 when the byte is no character, and the character otherwise.
\<close>

definition swap_case :: "u32 \<Rightarrow> u32" where
  "swap_case c =
     (if of_char CHR ''a'' \<le> c \<and> c \<le> of_char CHR ''z'' then c + (of_char CHR ''A'' - of_char CHR ''a'')
      else if of_char CHR ''A'' \<le> c \<and> c \<le> of_char CHR ''Z'' then c + (of_char CHR ''a'' - of_char CHR ''A'')
      else c)"

definition kbd_raw_getc :: "u8 \<Rightarrow> u8 \<Rightarrow> u32 \<Rightarrow> int \<times> u32" where
  "kbd_raw_getc st data shift =
     (if st AND 1 = 0 then (- 1, shift)
      else if data = 0xE0 then (0, shift OR ucast E0ESC)
      else if data AND 0x80 \<noteq> 0 then
        let data = (if shift AND ucast E0ESC \<noteq> 0 then data else data AND 0x7F)
        in (0, shift AND NOT (ucast (shiftcode data) OR ucast E0ESC))
      else
        let (data, shift) =
              (if shift AND ucast E0ESC \<noteq> 0 then (data OR 0x80, shift AND NOT (ucast E0ESC)) else (data, shift));
            shift = shift OR ucast (shiftcode data);
            shift = shift XOR ucast (togglecode data);
            c = ucast (charcode (ucast (shift AND (ucast CTL OR ucast SHIFT))) data);
            c = (if shift AND ucast CAPSLOCK \<noteq> 0 then swap_case c else c)
        in (sint c, shift))"

section \<open>Modifiers and letters\<close>

lemmas table_defs = shiftcode_def togglecode_def normalmap_def shiftmap_def ctlmap_def keypad_def table_def key_defs Ctl_def

text \<open>The scan codes of the letter keys.\<close>

definition letter_keys :: "(u8 \<times> char) list" where
  "letter_keys = zip (map of_nat [16..<26]) ''qwertyuiop'' @ zip (map of_nat [30..<39]) ''asdfghjkl'' @
     zip (map of_nat [44..<51]) ''zxcvbnm''"

text \<open>The two letters on a key, as the tables have them, and that such a key is neither a modifier nor a lock.\<close>

lemma letter_key:
  assumes "(k, l) \<in> set letter_keys"
  shows "normalmap k = of_char l" "shiftmap k = of_char l - 32" "shiftcode k = 0" "togglecode k = 0"
    and "k \<noteq> 0xE0" "k AND 0x80 = 0" "97 \<le> (of_char l :: u8)" "(of_char l :: u8) \<le> 122"
proof -
  have "list_all (\<lambda>(k, l). normalmap k = of_char l \<and> shiftmap k = of_char l - 32 \<and> shiftcode k = 0 \<and> togglecode k = 0 \<and>
      k \<noteq> 0xE0 \<and> k AND 0x80 = 0 \<and> 97 \<le> (of_char l :: u8) \<and> (of_char l :: u8) \<le> 122) letter_keys"
    by (simp add: letter_keys_def table_defs upt_rec)
  with assms show "normalmap k = of_char l" "shiftmap k = of_char l - 32" "shiftcode k = 0" "togglecode k = 0"
    "k \<noteq> 0xE0" "k AND 0x80 = 0" "97 \<le> (of_char l :: u8)" "(of_char l :: u8) \<le> 122"
    by (auto simp: list_all_iff)
qed

lemma and_3: "shift AND 2 = 0 \<Longrightarrow> shift AND 3 = of_bool (odd shift)" for shift :: u32
proof -
  have "(3 :: u32) = 2 OR 1" by simp
  moreover assume "shift AND 2 = 0"
  ultimately show ?thesis by (simp only: bit.conj_disj_distrib and_one_eq mod_2_eq_odd or.left_neutral)
qed

lemma swap_case_letter:
  fixes x :: u8
  assumes "97 \<le> x" and "x \<le> 122"
  shows "swap_case (ucast x) = ucast (x - 32)" and "swap_case (ucast (x - 32)) = ucast x"
proof -
  have n: "unat (x - 32) = unat x - 32" "97 \<le> unat x" "unat x \<le> 122"
    using assms by (simp_all add: unat_sub word_le_nat_alt)
  have "unat (ucast x - 32 :: u32) = unat x - 32" using n by (subst unat_sub) (simp_all add: word_le_nat_alt)
  with n have "(ucast x - 32 :: u32) = ucast (x - 32)" by (simp add: word_unat_eq_iff)
  then show "swap_case (ucast x) = ucast (x - 32)" using n by (simp add: swap_case_def word_le_nat_alt)
  have "unat (ucast (x - 32) + 32 :: u32) = unat x" using n by (subst unat_add32) simp_all
  then have "(ucast (x - 32) + 32 :: u32) = ucast x" by (simp add: word_unat_eq_iff)
  then show "swap_case (ucast (x - 32)) = ucast x" using n by (simp add: swap_case_def word_le_nat_alt) arith
qed

lemma kbd_letter:
  assumes "(k, l) \<in> set letter_keys" and "st AND 1 \<noteq> 0" and "shift AND 64 = 0" and "shift AND 2 = 0"
  shows "kbd_raw_getc st k shift =
    (uint (if odd shift = (shift AND 8 \<noteq> 0) then of_char l else of_char l - 32 :: u8), shift)"
proof -
  note k = letter_key [OF assms(1)]
  show ?thesis
    using assms(2,3) k(1-6) and_3 [OF assms(4)] swap_case_letter [OF k(7,8)]
    by (simp add: kbd_raw_getc_def key_defs charcode_def)
qed

lemma shiftcode_bits: "shiftcode d = 0 \<or> shiftcode d = 1 \<or> shiftcode d = 2 \<or> shiftcode d = 4"
  by (auto simp: shiftcode_def table_def key_defs)

lemma togglecode_bits: "togglecode d = 0 \<or> togglecode d = 8 \<or> togglecode d = 16 \<or> togglecode d = 32"
  by (auto simp: togglecode_def table_def key_defs)

lemma byte_high_bit:
  fixes d :: u8
  assumes "d AND 0x80 = 0"
  shows "(d OR 0x80) AND 0x80 \<noteq> 0" and "(d OR 0x80) AND 0x7F = d" and "d OR 0x80 = 0xE0 \<longleftrightarrow> d = 0x60"
proof -
  show "(d OR 0x80) AND 0x80 \<noteq> 0" by (simp add: bit.conj_disj_distrib2)
  have "(0x7F OR 0x80 :: u8) = - 1" by simp
  then have "d = d AND (0x7F OR 0x80)" by (simp only: and.right_neutral)
  also have "\<dots> = d AND 0x7F" using assms by (simp only: bit.conj_disj_distrib or.right_neutral)
  finally have "(d OR 0x80) AND 0x7F = d" by (simp add: bit.conj_disj_distrib2)
  then show "(d OR 0x80) AND 0x7F = d" .
  then show "d OR 0x80 = 0xE0 \<longleftrightarrow> d = 0x60" by auto
qed

text \<open>Pressing a key and releasing it again: locks are flipped once, and the key's modifier is not held any more.\<close>

lemma kbd_press_release:
  assumes "d AND 0x80 = 0" and "d \<noteq> 0x60" and "shift AND 64 = 0" and "st AND 1 \<noteq> 0"
  shows "kbd_raw_getc st (d OR 0x80) (snd (kbd_raw_getc st d shift)) =
    (0, (shift XOR ucast (togglecode d)) AND NOT (ucast (shiftcode d)))"
proof -
  note b = byte_high_bit [OF assms(1)]
  have d: "d \<noteq> 0xE0" using assms(1) by auto
  let ?s = "(shift OR ucast (shiftcode d)) XOR ucast (togglecode d) :: u32"
  have press: "snd (kbd_raw_getc st d shift) = ?s"
    using assms d by (simp add: kbd_raw_getc_def key_defs Let_def)
  have bits: "\<not> bit shift 6" "\<not> bit (ucast (shiftcode d) :: u32) 6" "\<not> bit (ucast (togglecode d) :: u32) 6"
    using assms(3) shiftcode_bits [of d] togglecode_bits [of d] by (auto simp: and_exp_eq_0_iff_not_bit [of _ 6, simplified])
  have "shiftcode d AND togglecode d = 0"
    using shiftcode_bits [of d] togglecode_bits [of d] by (elim disjE) simp_all
  then have disj: "\<not> (bit (shiftcode d) n \<and> bit (togglecode d) n)" for n
    using bit_and_iff [of "shiftcode d" "togglecode d" n] by simp
  have e0: "?s AND 64 = 0" using bits by (simp add: and_exp_eq_0_iff_not_bit [of _ 6, simplified] bit_simps)
  have "?s AND NOT (ucast (shiftcode d) OR 64) = (shift XOR ucast (togglecode d)) AND NOT (ucast (shiftcode d))"
    using bits disj by (intro bit_word_eqI) (auto simp: bit_simps bit_exp_iff [of 6, simplified])
  then show ?thesis
    unfolding press using assms b e0 by (simp add: kbd_raw_getc_def key_defs Let_def)
qed

section \<open>Property\<close>

text \<open>
  What a key does. A letter key (with Control not held) yields its letter, in upper case exactly when one of Shift
  and Caps Lock is active, and leaves the modifiers alone; and pressing and releasing any key (other than the
  one whose release code is the escape byte) flips its lock, if it has one, leaves its modifier released, and
  changes nothing else of the state.
\<close>

theorem kbd_key_semantics:
  assumes "st AND 1 \<noteq> 0" and "shift AND 64 = 0"
  shows "((k, l) \<in> set letter_keys \<and> shift AND 2 = 0 \<longrightarrow>
      kbd_raw_getc st k shift = (uint (if odd shift = (shift AND 8 \<noteq> 0) then of_char l else of_char l - 32 :: u8), shift)) \<and>
    (d AND 0x80 = 0 \<and> d \<noteq> 0x60 \<longrightarrow>
      kbd_raw_getc st (d OR 0x80) (snd (kbd_raw_getc st d shift)) =
        (0, (shift XOR ucast (togglecode d)) AND NOT (ucast (shiftcode d))))"
  using kbd_letter [of k l st shift] kbd_press_release [of d shift st] assms by blast

theorem kbd_key_semantics_witness:
  "kbd_raw_getc 1 0x1E 9 = (97, 9) \<and> kbd_raw_getc 1 0xBA (snd (kbd_raw_getc 1 0x3A 0)) = (0, 8)"
proof -
  have "(0x1E, CHR ''a'') \<in> set letter_keys" by (simp add: letter_keys_def upt_rec)
  then show ?thesis
    using kbd_key_semantics [where st = 1 and shift = 9 and k = "0x1E" and l = "CHR ''a''"] kbd_key_semantics [where st = 1 and shift = 0 and d = "0x3A"]
    by (simp add: togglecode_def shiftcode_def table_def key_defs)
qed

end
