(* ===== verification/PIC.thy ===== *)
theory PIC
  imports Prelude
begin

text \<open>
  The interrupt controller (\<^verbatim>\<open>src/8259.c\<close>), the interval timer setup (\<^verbatim>\<open>src/pit.cpp\<close>) and the local APIC switch
  (\<^verbatim>\<open>src/apic.c\<close>). The I/O ports are the machine's: \<open>ports p\<close> is what \<open>inb(p)\<close> returns, and the writes are
  collected in the order in which \<open>outb\<close> issues them.
\<close>

section \<open>The code\<close>

record io =
  ports :: "u16 \<Rightarrow> u8"
  outs :: "(u16 \<times> u8) list"

text \<open>
  A port that reads back what was written last: so do the mask registers behind the data ports of the 8259, the
  only ports this code reads.
\<close>

definition outb :: "u16 \<Rightarrow> u8 \<Rightarrow> io \<Rightarrow> io" where
  "outb port val s = s\<lparr>ports := (ports s)(port := val), outs := outs s @ [(port, val)]\<rparr>"

definition inb :: "u16 \<Rightarrow> io \<Rightarrow> u8" where
  "inb port s = ports s port"

definition io_wait :: "io \<Rightarrow> io" where
  "io_wait = outb 0x80 0"

definition PIC1_COMMAND :: u16 where "PIC1_COMMAND = 0x20"
definition PIC1_DATA :: u16 where "PIC1_DATA = 0x21"
definition PIC2_COMMAND :: u16 where "PIC2_COMMAND = 0xA0"
definition PIC2_DATA :: u16 where "PIC2_DATA = 0xA1"
definition PIC_EOI :: u8 where "PIC_EOI = 0x20"
definition ICW1_ICW4 :: u8 where "ICW1_ICW4 = 0x01"
definition ICW1_INIT :: u8 where "ICW1_INIT = 0x10"
definition ICW4_8086 :: u8 where "ICW4_8086 = 0x01"

lemmas pic_defs = PIC1_COMMAND_def PIC1_DATA_def PIC2_COMMAND_def PIC2_DATA_def PIC_EOI_def
  ICW1_ICW4_def ICW1_INIT_def ICW4_8086_def

definition PIC_remap :: "u32 \<Rightarrow> u32 \<Rightarrow> io \<Rightarrow> io" where
  "PIC_remap offset1 offset2 s =
     (let a1 = 0xFF; a2 = 0xFF;
          s = io_wait (outb PIC1_COMMAND (ICW1_INIT OR ICW1_ICW4) s);
          s = io_wait (outb PIC2_COMMAND (ICW1_INIT OR ICW1_ICW4) s);
          s = io_wait (outb PIC1_DATA (ucast offset1) s);
          s = io_wait (outb PIC2_DATA (ucast offset2) s);
          s = io_wait (outb PIC1_DATA 4 s);
          s = io_wait (outb PIC2_DATA 2 s);
          s = io_wait (outb PIC1_DATA ICW4_8086 s);
          s = io_wait (outb PIC2_DATA ICW4_8086 s)
      in outb PIC2_DATA a2 (outb PIC1_DATA a1 s))"

definition PIC_sendEOI :: "u8 \<Rightarrow> io \<Rightarrow> io" where
  "PIC_sendEOI irq s = outb PIC1_COMMAND PIC_EOI (if irq \<ge> 8 then outb PIC2_COMMAND PIC_EOI s else s)"

text \<open>The data port of the controller that has the line, and the number of the line there.\<close>

definition irq_port :: "u8 \<Rightarrow> u16 \<times> u8" where
  "irq_port IRQline = (if IRQline < 8 then (PIC1_DATA, IRQline) else (PIC2_DATA, IRQline - 8))"

definition IRQ_set_mask :: "u8 \<Rightarrow> io \<Rightarrow> io" where
  "IRQ_set_mask IRQline s =
     (let (port, IRQline) = irq_port IRQline
      in outb port (inb port s OR push_bit (unat IRQline) 1) s)"

definition IRQ_clear_mask :: "u8 \<Rightarrow> io \<Rightarrow> io" where
  "IRQ_clear_mask IRQline s =
     (let (port, IRQline) = irq_port IRQline
      in outb port (inb port s AND NOT (push_bit (unat IRQline) 1)) s)"

text \<open>The setup of the timer, after its interrupt gate is installed.\<close>

definition CLKCNTL :: u16 where "CLKCNTL = 0x43"
definition CLOCK0 :: u16 where "CLOCK0 = 0x40"

definition pit_init :: "io \<Rightarrow> io" where
  "pit_init s =
     (let s = outb CLKCNTL 0x34 s;
          intv = 1193 :: u32;
          s = outb CLOCK0 (ucast (0xff AND intv)) s;
          s = outb CLOCK0 (ucast (0xff AND drop_bit 8 intv)) s
      in IRQ_clear_mask 0 s)"

text \<open>\<open>edx\<close> is what \<open>cpuid(1)\<close> leaves there, \<open>msr\<close> the value of the model specific register; the new value, if it is written.\<close>

definition check_disable_apic :: "u32 \<Rightarrow> u64 \<Rightarrow> u64 option" where
  "check_disable_apic edx msr = (if edx AND push_bit 9 1 \<noteq> 0 then Some (msr AND NOT 0x800) else None)"

section \<open>Masks\<close>

text \<open>Line \<open>n\<close> is masked when its bit in the register of its controller is set.\<close>

definition masked :: "io \<Rightarrow> u8 \<Rightarrow> bool" where
  "masked s n = (let (port, k) = irq_port n in bit (inb port s) (unat k))"

lemma irq_port_inj:
  assumes "n < 16" and "k < 16" and "irq_port n = irq_port k"
  shows "n = k"
  using assms by (auto simp: irq_port_def pic_defs split: if_splits)

lemma irq_line_bound: "n < 16 \<Longrightarrow> unat (snd (irq_port n)) < 8"
proof -
  assume "n < 16"
  then have "unat n < 16" by (simp add: word_less_nat_alt)
  then show ?thesis
    by (auto simp: irq_port_def word_less_nat_alt unat_sub word_le_nat_alt not_less)
qed

lemma masked_set:
  assumes "n < 16" and "k < 16"
  shows "masked (IRQ_set_mask n s) k \<longleftrightarrow> k = n \<or> masked s k"
    and "masked (IRQ_clear_mask n s) k \<longleftrightarrow> k \<noteq> n \<and> masked s k"
proof -
  obtain p i where n: "irq_port n = (p, i)" by (cases "irq_port n")
  obtain q j where k: "irq_port k = (q, j)" by (cases "irq_port k")
  have ij: "unat i < 8" "unat j < 8" using irq_line_bound [OF assms(1)] irq_line_bound [OF assms(2)] n k by simp_all
  have eq: "k = n \<longleftrightarrow> p = q \<and> i = j" using irq_port_inj [OF assms] n k by auto
  show "masked (IRQ_set_mask n s) k \<longleftrightarrow> k = n \<or> masked s k"
    using ij by (auto simp: masked_def IRQ_set_mask_def n k eq inb_def outb_def bit_simps simp flip: word_unat_eq_iff)
  show "masked (IRQ_clear_mask n s) k \<longleftrightarrow> k \<noteq> n \<and> masked s k"
    using ij by (auto simp: masked_def IRQ_clear_mask_def n k eq inb_def outb_def bit_simps simp flip: word_unat_eq_iff)
qed

lemma masked_remap: "n < 16 \<Longrightarrow> masked (PIC_remap a b s) n"
proof -
  assume n: "n < 16"
  have "(0xFF :: u8) = - 1" by simp
  then have "bit (0xFF :: u8) (unat (snd (irq_port n)))"
    using irq_line_bound [OF n] by (simp only: bit_minus_1_iff) simp
  then show ?thesis
    by (auto simp: masked_def PIC_remap_def Let_def inb_def outb_def io_wait_def irq_port_def pic_defs)
qed

section \<open>Property\<close>

text \<open>
  After \<open>PIC_remap\<close> every interrupt line is masked and the vectors are moved to the given offsets, in the order of
  initialisation words the controllers require; \<open>IRQ_clear_mask\<close> and \<open>IRQ_set_mask\<close> then change exactly the line they
  name, on the controller that has it, and an end of interrupt is sent to the slave exactly for its own lines.
\<close>

theorem pic_masks:
  assumes "n < 16" and "k < 16"
  shows "masked (PIC_remap a b s) n \<and>
    filter (\<lambda>(p, _). p \<noteq> 0x80) (outs (PIC_remap a b (s\<lparr>outs := []\<rparr>))) =
      [(0x20, 0x11), (0xA0, 0x11), (0x21, ucast a), (0xA1, ucast b), (0x21, 4), (0xA1, 2), (0x21, 1), (0xA1, 1),
       (0x21, 0xFF), (0xA1, 0xFF)] \<and>
    (masked (IRQ_set_mask n s) k \<longleftrightarrow> k = n \<or> masked s k) \<and>
    (masked (IRQ_clear_mask n s) k \<longleftrightarrow> k \<noteq> n \<and> masked s k) \<and>
    ((0xA0, 0x20) \<in> set (outs (PIC_sendEOI n (s\<lparr>outs := []\<rparr>))) \<longleftrightarrow> 8 \<le> n)"
proof (intro conjI)
  show "masked (PIC_remap a b s) n" by (rule masked_remap [OF assms(1)])
qed (simp_all add: masked_set [OF assms] PIC_remap_def PIC_sendEOI_def Let_def outb_def io_wait_def pic_defs)

theorem pic_masks_witness:
  "masked (PIC_remap 0x20 0x28 \<lparr>ports = (\<lambda>_. 0), outs = []\<rparr>) 1 \<and> \<not> masked (IRQ_clear_mask 1 \<lparr>ports = (\<lambda>_. 0xFF), outs = []\<rparr>) 1"
  using pic_masks [of 1 1 "0x20" "0x28" "\<lparr>ports = (\<lambda>_. 0), outs = []\<rparr>"]
    pic_masks [where n = 1 and k = 1 and s = "\<lparr>ports = (\<lambda>_. 0xFF), outs = []\<rparr>"] by simp

end
