(* ===== verification/Console.thy ===== *)
theory Console
  imports Keyboard PIC
begin

text \<open>
  The text console: the keyboard interrupt handler and the VGA device (\<^verbatim>\<open>src/objects/VGATextIODevice.cpp\<close>), the line
  discipline above it (\<^verbatim>\<open>inc/objects/LineBufferedIOMixin.hpp\<close>) and the early output device it falls back to
  (\<^verbatim>\<open>inc/objects/EarlyStageOutputDevice.hpp\<close>). The BIOS teletype call that prints a character is a parameter of the
  hardware: the values of \<open>AX\<close> it is called with, the function number above the character, are collected in \<open>screen\<close>.
\<close>

section \<open>Ring buffers\<close>

text \<open>
  The code keeps its queues in arrays of \<open>2 ^ n\<close> bytes with a start and an end index that are always reduced modulo
  the size of the array, so the indices are words of \<open>n\<close> bits and \<open>(i + 1) % SIZE\<close> is \<open>i + 1\<close>.
\<close>

record (overloaded) 'n ring =
  arr :: "'n word \<Rightarrow> u8"
  start_ix :: "'n word"
  end_ix :: "'n word"

definition ring_empty :: "'n :: len ring \<Rightarrow> bool" where
  "ring_empty r \<longleftrightarrow> start_ix r = end_ix r"

definition ring_full :: "'n :: len ring \<Rightarrow> bool" where
  "ring_full r \<longleftrightarrow> end_ix r + 1 = start_ix r"

definition ring_push :: "u8 \<Rightarrow> 'n :: len ring \<Rightarrow> 'n ring" where
  "ring_push x r = r\<lparr>arr := (arr r)(end_ix r := x), end_ix := end_ix r + 1\<rparr>"

definition ring_pop :: "'n :: len ring \<Rightarrow> u8 \<times> 'n ring" where
  "ring_pop r = (arr r (start_ix r), r\<lparr>start_ix := start_ix r + 1\<rparr>)"

definition ring_drop_last :: "'n :: len ring \<Rightarrow> 'n ring" where
  "ring_drop_last r = r\<lparr>end_ix := end_ix r - 1\<rparr>"

text \<open>The queue that a ring holds.\<close>

definition queue :: "'n :: len ring \<Rightarrow> u8 list" where
  "queue r = map (\<lambda>i. arr r (start_ix r + of_nat i)) [0..<unat (end_ix r - start_ix r)]"

lemma length_queue [simp]: "length (queue r) = unat (end_ix r - start_ix r)"
  by (simp add: queue_def)

lemma ring_empty_queue: "ring_empty r \<longleftrightarrow> queue r = []"
  by (auto simp: ring_empty_def queue_def unat_eq_0)

lemma unat_diff_succ:
  fixes a b :: "'n :: len word"
  assumes "a + 1 \<noteq> b"
  shows "unat (a + 1 - b) = Suc (unat (a - b))"
proof -
  have "a - b + 1 \<noteq> 0" using assms by (metis add_diff_eq diff_add_eq eq_iff_diff_eq_0)
  then have "unat (a - b + 1) = Suc (unat (a - b))" by (simp add: unatSuc add.commute)
  then show ?thesis by (simp add: algebra_simps)
qed

lemma queue_push:
  assumes "\<not> ring_full r"
  shows "queue (ring_push x r) = queue r @ [x]"
proof -
  have n: "unat (end_ix r + 1 - start_ix r) = Suc (unat (end_ix r - start_ix r))"
    using assms by (intro unat_diff_succ) (simp add: ring_full_def)
  have "start_ix r + of_nat i \<noteq> end_ix r" if "i < unat (end_ix r - start_ix r)" for i
  proof
    assume "start_ix r + of_nat i = end_ix r"
    then have "end_ix r - start_ix r = of_nat i" by (metis add_diff_cancel_left')
    with that have "unat (of_nat i :: 'a word) > i" by simp
    then show False by (metis leD mod_less_eq_dividend unat_of_nat)
  qed
  then show ?thesis
    unfolding queue_def ring_push_def by (simp add: n)
qed

lemma queue_pop:
  assumes "\<not> ring_empty r"
  shows "queue r = fst (ring_pop r) # queue (snd (ring_pop r))"
proof -
  have "unat (end_ix r - start_ix r) = Suc (unat (end_ix r - (start_ix r + 1)))"
    using unat_diff_succ [of "end_ix r - start_ix r - 1" 0] assms by (simp add: ring_empty_def algebra_simps)
  then show ?thesis
    unfolding queue_def ring_pop_def
    by (simp add: upt_conv_Cons map_Suc_upt [symmetric] comp_def add.assoc del: upt_Suc)
qed

lemma queue_drop_last:
  assumes "\<not> ring_empty r"
  shows "queue (ring_drop_last r) = butlast (queue r)"
proof -
  have "unat (end_ix r - start_ix r) = Suc (unat (end_ix r - 1 - start_ix r))"
    using unat_diff_succ [of "end_ix r - 1" "start_ix r"] assms by (simp add: ring_empty_def)
  then show ?thesis unfolding queue_def ring_drop_last_def by (simp add: butlast_append)
qed

lemma ring_full_length: "ring_full r \<longleftrightarrow> length (queue r) = 2 ^ LENGTH('n) - 1" for r :: "'n :: len ring"
proof -
  have "ring_full r \<longleftrightarrow> end_ix r - start_ix r = - 1"
    by (auto simp: ring_full_def algebra_simps eq_neg_iff_add_eq_0)
  also have "\<dots> \<longleftrightarrow> unat (end_ix r - start_ix r) = unat (- 1 :: 'n word)" by (simp only: word_unat_eq_iff)
  finally show ?thesis by (simp add: unsigned_minus_1_eq_mask mask_eq_exp_minus_1)
qed

lemma ring_count_pop: "\<not> ring_empty r \<Longrightarrow> unat (end_ix r - (start_ix r + 1)) < unat (end_ix r - start_ix r)"
  using arg_cong [OF queue_pop, of r length] by (simp add: ring_pop_def)

section \<open>The code\<close>

definition EAGAIN :: int where "EAGAIN = 11"
definition EOF :: int where "EOF = - 1"

text \<open>
  The state of the console: the keyboard queue with the driver's modifier state, the two buffers of the line
  discipline with its end-of-file flag, the characters given to the BIOS, the busy flag of the v8086 task and
  the early device's text memory with its cursor (as an offset from \<open>VGA_TEXT_BASE\<close>).
\<close>

record console =
  kbd_buffer :: "6 ring"
  kbd_shift :: u32
  at_eof :: bool
  line_buf :: "8 ring"
  committed_buf :: "8 ring"
  screen :: "u32 list"
  v8086_busy :: bool
  text_memory :: "u8 list"
  text_cursor :: nat

text \<open>
  The interrupt handler, on the bytes that wait in the keyboard controller; the data-in-buffer flag of its status
  port is set as long as there is one.
\<close>

fun irq1_loop :: "u8 list \<Rightarrow> console \<Rightarrow> u8 list \<times> console" where
  "irq1_loop [] c = (let (ch, sh) = kbd_raw_getc 0 0 (kbd_shift c) in ([], c\<lparr>kbd_shift := sh\<rparr>))"
| "irq1_loop (d # ds) c =
     (let (ch, sh) = kbd_raw_getc 1 d (kbd_shift c);
          c = c\<lparr>kbd_shift := sh\<rparr>
      in if ch > 0 then
           irq1_loop ds (if \<not> ring_full (kbd_buffer c) then c\<lparr>kbd_buffer := ring_push (of_int ch) (kbd_buffer c)\<rparr> else c)
         else (ds, c))"

definition irq1_handler :: "u8 list \<Rightarrow> console \<Rightarrow> io \<Rightarrow> (u8 list \<times> console) \<times> io" where
  "irq1_handler ds c s = (irq1_loop ds c, PIC_sendEOI 1 s)"

text \<open>The early device: when the cursor is behind the screen the text is scrolled up by one line of 80 cells.\<close>

function early_scroll :: "u8 list \<Rightarrow> nat \<Rightarrow> u8 list \<times> nat" where
  "early_scroll vga cur =
     (if cur \<ge> 80 * 25 * 2 then early_scroll (take (80 * 24 * 2) (drop (2 * 80) vga) @ replicate (80 * 2) 0) (cur - 80 * 2)
      else (vga, cur))"
  by pat_completeness auto
termination by (relation "measure snd") auto

declare early_scroll.simps [simp del]

fun early_write :: "u8 list \<Rightarrow> u8 list \<Rightarrow> nat \<Rightarrow> u8 list \<times> nat" where
  "early_write [] vga cur = (vga, cur)"
| "early_write (ch # data) vga cur =
     (let (vga, cur) = early_scroll vga cur in early_write data (vga[cur := ch, cur + 1 := 0x04]) (cur + 2))"

text \<open>\<open>(0x0e << 8) + ch\<close>, where a \<open>char\<close> from 128 on is negative.\<close>

definition putc0 :: "u8 \<Rightarrow> console \<Rightarrow> console" where
  "putc0 ch c = c\<lparr>screen := screen c @ [push_bit 8 0x0e + scast ch]\<rparr>"

fun vga_put :: "u8 list \<Rightarrow> console \<Rightarrow> console" where
  "vga_put [] c = c"
| "vga_put (ch # data) c = vga_put data (putc0 ch (if ch = 10 then putc0 13 c else c))"

definition vga_write :: "u8 list \<Rightarrow> console \<Rightarrow> int \<times> console" where
  "vga_write data c =
     (int (length data),
      if v8086_busy c then
        let (vga, cur) = early_write data (text_memory c) (text_cursor c) in c\<lparr>text_memory := vga, text_cursor := cur\<rparr>
      else vga_put data c)"

definition vga_empty :: "console \<Rightarrow> bool" where
  "vga_empty c = ring_empty (kbd_buffer c)"

definition getc0 :: "console \<Rightarrow> int \<times> console" where
  "getc0 c =
     (if vga_empty c then (EOF, c)
      else let (ch, r) = ring_pop (kbd_buffer c);
               ch = (if ch = 13 then 10 else ch)
           in (uint ch, c\<lparr>kbd_buffer := r\<rparr>))"

definition vga_backspace :: "console \<Rightarrow> console" where
  "vga_backspace c = snd (vga_write [8, 32, 8] c)"

fun vga_read_loop :: "nat \<Rightarrow> console \<Rightarrow> u8 list \<times> console" where
  "vga_read_loop 0 c = ([], c)"
| "vga_read_loop (Suc n) c =
     (let (ch, c) = getc0 c
      in if ch \<noteq> EOF then let (xs, c) = vga_read_loop n c in (of_int ch # xs, c) else ([], c))"

text \<open>\<open>read\<close> returns the number of bytes, the bytes it stored, and the new state.\<close>

definition vga_read :: "nat \<Rightarrow> console \<Rightarrow> int \<times> u8 list \<times> console" where
  "vga_read n c =
     (if vga_empty c then (- EAGAIN, [], c)
      else let (xs, c) = vga_read_loop n c in (int (length xs), xs, c))"

text \<open>The line discipline. \<open>commit\<close> moves the line to the committed bytes, as far as there is room, and clears it.\<close>

function commit_loop :: "8 ring \<Rightarrow> 8 ring \<Rightarrow> 8 ring \<times> 8 ring" where
  "commit_loop l k =
     (if \<not> ring_empty l \<and> \<not> ring_full k then let (ch, l) = ring_pop l in commit_loop l (ring_push ch k) else (l, k))"
  by pat_completeness auto
termination
  by (relation "measure (\<lambda>(l, k). length (queue l))") (auto simp: ring_pop_def ring_count_pop)

declare commit_loop.simps [simp del]

definition commit :: "console \<Rightarrow> console" where
  "commit c =
     (let (l, k) = commit_loop (line_buf c) (committed_buf c)
      in c\<lparr>line_buf := l\<lparr>start_ix := 0, end_ix := 0\<rparr>, committed_buf := k\<rparr>)"

text \<open>
  The loop \<open>while (Base::read(&ch, 1) > 0)\<close>, where \<open>Base::read\<close> stores a byte unless the keyboard queue is empty. The
  first component says that the loop was left by the \<open>return 0\<close> of an end of file.
\<close>

function line_fill :: "nat \<Rightarrow> console \<Rightarrow> bool \<times> console" where
  "line_fill sz c =
     (let (ret, xs, c') = vga_read 1 c; ch = hd xs
      in if ret \<le> 0 then (False, c')
         else if ch \<ge> 128 then line_fill sz c'
         else if ch = 4 then
           if ring_empty (line_buf c') \<and> ring_empty (committed_buf c') then (True, c'\<lparr>at_eof := (sz = 0)\<rparr>)
           else (False, commit c')
         else if ch = 8 then
           line_fill sz (if \<not> ring_empty (line_buf c')
             then (vga_backspace c')\<lparr>line_buf := ring_drop_last (line_buf c')\<rparr> else c')
         else if \<not> ring_full (line_buf c') then
           let c1 = c'\<lparr>line_buf := ring_push ch (line_buf c')\<rparr>;
               c2 = (if ch = 10 then commit c1 else c1)
           in line_fill sz (snd (vga_write [ch] c2))
         else line_fill sz c')"
  by pat_completeness auto

lemma kbd_vga_put [simp]: "kbd_buffer (vga_put xs c) = kbd_buffer c"
  by (induction xs arbitrary: c) (simp_all add: putc0_def)

lemma kbd_vga_write [simp]: "kbd_buffer (snd (vga_write xs c)) = kbd_buffer c"
  by (simp add: vga_write_def split: prod.split)

lemma kbd_commit [simp]: "kbd_buffer (commit c) = kbd_buffer c"
  by (simp add: commit_def split: prod.split)

lemma vga_read_1:
  "vga_read 1 c = (if vga_empty c then (- EAGAIN, [], c)
     else let (ch, r) = ring_pop (kbd_buffer c) in (1, [if ch = 13 then 10 else ch], c\<lparr>kbd_buffer := r\<rparr>))"
  by (auto simp: vga_read_def getc0_def EOF_def ring_pop_def)

lemma vga_read_1_less:
  "(ret, xs, c') = vga_read (Suc 0) c \<Longrightarrow> \<not> ret \<le> 0 \<Longrightarrow>
    unat (end_ix (kbd_buffer c') - start_ix (kbd_buffer c')) < unat (end_ix (kbd_buffer c) - start_ix (kbd_buffer c))"
  using vga_read_1 [of c]
  by (simp add: EAGAIN_def ring_pop_def vga_empty_def ring_count_pop split: if_splits)

termination line_fill
  by (relation "measure (\<lambda>(sz, c). length (queue (kbd_buffer c)))") (auto simp: vga_backspace_def vga_read_1_less)

declare line_fill.simps [simp del]

fun line_take :: "nat \<Rightarrow> 8 ring \<Rightarrow> u8 list \<times> 8 ring" where
  "line_take 0 k = ([], k)"
| "line_take (Suc n) k =
     (if ring_empty k then ([], k) else let (ch, k) = ring_pop k; (xs, k) = line_take n k in (ch # xs, k))"

definition line_read :: "nat \<Rightarrow> console \<Rightarrow> int \<times> u8 list \<times> console" where
  "line_read sz c =
     (if at_eof c then (0, [], c\<lparr>at_eof := (sz = 0)\<rparr>)
      else let (at_end, c) = line_fill sz c
           in if at_end then (0, [], c)
              else if ring_empty (committed_buf c) then (- EAGAIN, [], c)
              else let (xs, k) = line_take sz (committed_buf c) in (int (length xs), xs, c\<lparr>committed_buf := k\<rparr>))"

section \<open>The line discipline on lists\<close>

text \<open>
  What the buffers promise: keys are appended to the line, backspace removes the last one, Enter and Control-D
  hand the line over, as far as the 255 bytes of the committed buffer have room, and Control-D on nothing is the
  end of file. Bytes from 128 on are ignored, and so is every key that finds the line full.
\<close>

definition line_max :: nat where
  "line_max = 255"

fun discipline :: "u8 list \<Rightarrow> u8 list \<Rightarrow> u8 list \<Rightarrow> bool \<times> u8 list \<times> u8 list \<times> u8 list" where
  "discipline [] l k = (False, [], l, k)"
| "discipline (x # xs) l k =
     (let ch = (if x = 13 then 10 else x)
      in if ch \<ge> 128 then discipline xs l k
         else if ch = 4 then
           if l = [] \<and> k = [] then (True, xs, l, k) else (False, xs, [], take line_max (k @ l))
         else if ch = 8 then discipline xs (butlast l) k
         else if length l < line_max then
           if ch = 10 then discipline xs [] (take line_max (k @ l @ [10])) else discipline xs (l @ [ch]) k
         else discipline xs l k)"

definition view :: "console \<Rightarrow> u8 list \<times> u8 list \<times> u8 list" where
  "view c = (queue (kbd_buffer c), queue (line_buf c), queue (committed_buf c))"

lemma line_max_pos [simp]: "line_max \<noteq> 0"
  by (simp add: line_max_def)

lemma length_queue_8: "length (queue r) \<le> line_max" for r :: "8 ring"
  using unsigned_less [of "end_ix r - start_ix r", where ?'a = nat] by (simp add: line_max_def)

lemma ring_full_8: "ring_full r \<longleftrightarrow> length (queue r) = line_max" for r :: "8 ring"
  using ring_full_length [of r] by (simp add: line_max_def)

lemma queue_cleared [simp]: "queue (r\<lparr>start_ix := a, end_ix := a\<rparr>) = []"
  by (simp add: queue_def)

lemma commit_loop_queue: "queue (snd (commit_loop l k)) = take line_max (queue k @ queue l)"
proof (induction l k rule: commit_loop.induct)
  case (1 l k)
  show ?case
  proof (cases "\<not> ring_empty l \<and> \<not> ring_full k")
    case True
    then have "queue l = fst (ring_pop l) # queue (snd (ring_pop l))" "queue (ring_push ch k) = queue k @ [ch]" for ch
      using queue_pop queue_push by blast+
    then show ?thesis
      using 1 [OF True refl, of "fst (ring_pop l)" "snd (ring_pop l)"] True
      by (subst commit_loop.simps) (simp add: case_prod_unfold Let_def)
  next
    case False
    then show ?thesis
      using length_queue_8 [of k] by (subst commit_loop.simps) (auto simp: ring_empty_queue ring_full_8)
  qed
qed

lemma view_commit: "view c = (q, l, k) \<Longrightarrow> view (commit c) = (q, [], take line_max (k @ l))"
  using commit_loop_queue [of "line_buf c" "committed_buf c"]
  by (simp add: view_def commit_def case_prod_unfold Let_def)

lemma vga_put_bufs [simp]:
  "line_buf (vga_put xs c) = line_buf c" "committed_buf (vga_put xs c) = committed_buf c" "at_eof (vga_put xs c) = at_eof c"
  by (induction xs arbitrary: c) (simp_all add: putc0_def)

lemma view_vga_write [simp]: "view (snd (vga_write xs c)) = view c"
  by (simp add: view_def vga_write_def split: prod.split)

lemma at_eof_simps [simp]: "at_eof (snd (vga_write xs c)) = at_eof c" "at_eof (commit c) = at_eof c"
  by (simp_all add: vga_write_def commit_def split: prod.split)

text \<open>One turn of the loop, on an empty and on a non-empty keyboard queue.\<close>

lemma line_fill_empty: "vga_empty c \<Longrightarrow> line_fill sz c = (False, c)"
  by (subst line_fill.simps) (simp add: vga_read_def EAGAIN_def)

lemma line_fill_key:
  assumes "\<not> vga_empty c"
  defines "x \<equiv> fst (ring_pop (kbd_buffer c))"
  defines "ch \<equiv> if x = 13 then 10 else x"
  defines "c' \<equiv> c\<lparr>kbd_buffer := snd (ring_pop (kbd_buffer c))\<rparr>"
  shows "vga_read 1 c = (1, [ch], c')" and "queue (kbd_buffer c) = x # queue (kbd_buffer c')"
  using assms queue_pop [of "kbd_buffer c"] vga_read_1 [of c]
  by (simp_all add: case_prod_unfold Let_def vga_empty_def)

lemma line_fill_view:
  "view c = (q, l, k) \<Longrightarrow> line_fill sz c = (b, c') \<Longrightarrow> discipline q l k = (b, view c') \<and> at_eof c' = (if b then sz = 0 else at_eof c)"
proof (induction sz c arbitrary: q l k b c' rule: line_fill.induct)
  case (1 sz c)
  show ?case
  proof (cases "vga_empty c")
    case True
    then show ?thesis
      using 1(5,6) by (simp add: line_fill_empty view_def vga_empty_def ring_empty_queue)
  next
    case False
    note key = line_fill_key [OF False]
    define x where "x = fst (ring_pop (kbd_buffer c))"
    define ch where "ch = (if x = 13 then 10 else x)"
    define d where "d = c\<lparr>kbd_buffer := snd (ring_pop (kbd_buffer c))\<rparr>"
    have rd: "(1, [ch], d) = vga_read 1 c" using key(1) by (simp add: x_def ch_def d_def)
    have q: "q = x # queue (kbd_buffer d)" and lk: "queue (line_buf d) = l" "queue (committed_buf d) = k" "at_eof d = at_eof c"
      using key(2) 1(5) by (auto simp: x_def d_def view_def)
    note IH = 1(1-4) [OF rd refl refl refl]
    have vd: "view d = (queue (kbd_buffer d), l, k)" using lk by (simp add: view_def)
    note unfold = line_fill.simps [of sz c, unfolded rd [symmetric] Let_def prod.case]
    consider "128 \<le> ch" | "\<not> 128 \<le> ch" "ch = 4" | "\<not> 128 \<le> ch" "ch \<noteq> 4" "ch = 8"
      | "\<not> 128 \<le> ch" "ch \<noteq> 4" "ch \<noteq> 8" "ring_full (line_buf d)"
      | "\<not> 128 \<le> ch" "ch \<noteq> 4" "ch \<noteq> 8" "\<not> ring_full (line_buf d)" by blast
    then show ?thesis
    proof cases
      case 1
      with IH(1) [OF _ _ vd] \<open>line_fill sz c = (b, c')\<close> show ?thesis by (simp add: unfold q ch_def lk Let_def)
    next
      case 2
      with \<open>line_fill sz c = (b, c')\<close> view_commit [OF vd] show ?thesis
        by (auto simp: unfold q ch_def lk Let_def ring_empty_queue view_def split: if_splits)
    next
      case 3
      have "view (vga_backspace d\<lparr>line_buf := ring_drop_last (line_buf d)\<rparr>) = (queue (kbd_buffer d), butlast l, k)" if "\<not> ring_empty (line_buf d)"
        using queue_drop_last [OF that] vd view_vga_write [of "[8, 32, 8]" d] by (simp add: view_def vga_backspace_def)
      then have "view (if \<not> ring_empty (line_buf d) then vga_backspace d\<lparr>line_buf := ring_drop_last (line_buf d)\<rparr> else d) =
          (queue (kbd_buffer d), butlast l, k)"
        using vd lk(1) by (simp add: ring_empty_queue)
      from IH(2) [OF _ _ _ _ this] 3 \<open>line_fill sz c = (b, c')\<close> show ?thesis
        by (simp add: unfold q ch_def lk Let_def vga_backspace_def split: if_splits)
    next
      case 4
      with IH(4) [OF _ _ _ _ _ vd] \<open>line_fill sz c = (b, c')\<close> show ?thesis
        by (simp add: unfold q ch_def lk Let_def ring_full_8)
    next
      case 5
      let ?d = "d\<lparr>line_buf := ring_push ch (line_buf d)\<rparr>"
      have v: "view ?d = (queue (kbd_buffer d), l @ [ch], k)" using queue_push [OF 5(4)] lk by (simp add: view_def)
      have "length l < line_max" using 5(4) length_queue_8 [of "line_buf d"] lk(1) by (simp add: ring_full_8 order.strict_iff_order)
      then show ?thesis
        using IH(3) [OF _ _ _ _ _ refl refl] 5 \<open>line_fill sz c = (b, c')\<close> v view_commit [OF v]
        by (simp add: unfold q ch_def lk Let_def split: if_splits)
    qed
  qed
qed

lemma line_take_queue: "fst (line_take n k) = take n (queue k) \<and> queue (snd (line_take n k)) = drop n (queue k)"
proof (induction n arbitrary: k)
  case (Suc n)
  then show ?case
    using queue_pop [of k] Suc [of "snd (ring_pop k)"]
    by (cases "ring_empty k") (simp_all add: case_prod_unfold Let_def ring_empty_queue)
qed simp

lemma line_read_spec:
  assumes "view c = (q, l, k)" and "\<not> at_eof c" and "discipline q l k = (b, q', l', k')"
  shows "\<exists>c'. line_read sz c =
      (if b then (0, [], c') else if k' = [] then (- EAGAIN, [], c') else (int (min sz (length k')), take sz k', c')) \<and>
    view c' = (q', l', drop sz k') \<and> at_eof c' = (b \<and> sz = 0) \<and> (b \<longrightarrow> k' = [])"
proof -
  obtain b1 d where d: "line_fill sz c = (b1, d)" by (cases "line_fill sz c")
  note v = line_fill_view [OF assms(1) d]
  have b1: "b1 = b" "view d = (q', l', k')" using v assms(3) by auto
  have "b \<longrightarrow> k' = []" using assms(3)
    by (induction q l k rule: discipline.induct) (auto simp: Let_def split: if_splits)
  then show ?thesis
    using v assms(2) b1 line_take_queue [of sz "committed_buf d"]
    by (auto simp: line_read_def d view_def ring_empty_queue case_prod_unfold Let_def min_def)
qed

lemma discipline_keeps: "discipline q l k = (b, q', l', k') \<Longrightarrow> k \<noteq> [] \<Longrightarrow> \<not> b \<and> k' \<noteq> []"
  by (induction q l k rule: discipline.induct) (simp_all add: Let_def split: if_splits, auto)

lemma discipline_none: "discipline q l k = (b, q', l', k') \<Longrightarrow> \<not> b \<Longrightarrow> k' = [] \<Longrightarrow> q' = []"
  by (induction q l k rule: discipline.induct) (simp_all add: Let_def split: if_splits)

text \<open>
  The contract of an input device, for the console: once a read of no bytes succeeds, so does the next read; and
  when a read finds no data, so does every further read until a key arrives.
\<close>

lemma line_read_ready:
  assumes "line_read 0 c = (r, xs, c')" and "r \<noteq> - EAGAIN"
  shows "fst (line_read n c') \<noteq> - EAGAIN"
proof (cases "at_eof c'")
  case True
  then show ?thesis by (simp add: line_read_def EAGAIN_def)
next
  case False
  obtain q l k where v: "view c = (q, l, k)" by (cases "view c")
  obtain b q' l' k' where d: "discipline q l k = (b, q', l', k')" by (cases "discipline q l k")
  have ne: "\<not> at_eof c" using False assms(1) by (auto simp: line_read_def)
  from line_read_spec [OF v ne d, of 0] assms False have v': "view c' = (q', l', k')" "k' \<noteq> []"
    by (auto split: if_splits)
  obtain b2 q2 l2 k2 where d2: "discipline q' l' k' = (b2, q2, l2, k2)" by (cases "discipline q' l' k'")
  from line_read_spec [OF v'(1) False d2, of n] discipline_keeps [OF d2 v'(2)] show ?thesis
    by (auto simp: EAGAIN_def)
qed

lemma line_read_again:
  assumes "line_read n c = (- EAGAIN, xs, c')"
  shows "line_read m c' = (- EAGAIN, [], c')" and "xs = []"
proof -
  obtain q l k where v: "view c = (q, l, k)" by (cases "view c")
  obtain b q' l' k' where d: "discipline q l k = (b, q', l', k')" by (cases "discipline q l k")
  have ne: "\<not> at_eof c" using assms by (auto simp: line_read_def EAGAIN_def)
  from line_read_spec [OF v ne d, of n] assms have b: "\<not> b" "k' = []" "view c' = (q', l', [])" "\<not> at_eof c'" "xs = []"
    by (auto simp: EAGAIN_def split: if_splits)
  from discipline_none [OF d b(1,2)] b(3) have "vga_empty c'" "ring_empty (committed_buf c')"
    by (simp_all add: vga_empty_def ring_empty_queue view_def)
  with b(4,5) show "line_read m c' = (- EAGAIN, [], c')" "xs = []" by (simp_all add: line_read_def line_fill_empty)
qed

section \<open>Properties\<close>

definition boot_console :: console where
  "boot_console = \<lparr>kbd_buffer = \<lparr>arr = \<lambda>_. 0, start_ix = 0, end_ix = 0\<rparr>, kbd_shift = 0, at_eof = False,
     line_buf = \<lparr>arr = \<lambda>_. 0, start_ix = 0, end_ix = 0\<rparr>, committed_buf = \<lparr>arr = \<lambda>_. 0, start_ix = 0, end_ix = 0\<rparr>,
     screen = [], v8086_busy = False, text_memory = replicate 4000 0, text_cursor = 0\<rparr>"



end
