(* ===== verification/Devices.thy ===== *)
theory Devices
  imports Console CString
begin

text \<open>
  The input devices that processes can wait for: semaphores (\<^verbatim>\<open>src/objects/Semaphore.cpp\<close>), the sleep device
  (\<^verbatim>\<open>src/objects/SleepDevice.cpp\<close>), the device that waits for the exit of a process (\<^verbatim>\<open>src/objects/ProcessWait.cpp\<close>) and the
  console; and, as a locale, what \<^verbatim>\<open>inc/objects/InputDevice.hpp\<close> asks of each of them. A device reads for the
  process that is current when it is called, so its number is an argument of the operations, as is the tick count.
\<close>

section \<open>The code\<close>

definition EINVAL :: int where "EINVAL = 22"
definition MAX_PROCESS_NUM :: nat where "MAX_PROCESS_NUM = 32"

text \<open>The bytes that a read stores in the buffer of its caller.\<close>

fun store_bytes :: "addr \<Rightarrow> u8 list \<Rightarrow> mem \<Rightarrow> mem" where
  "store_bytes p [] m = m"
| "store_bytes p (x # xs) m = store_bytes (p + 1) xs (m(p := x))"

subsection \<open>Semaphores\<close>

definition Semaphore_read :: "u32 \<Rightarrow> u32 \<Rightarrow> int \<times> u32" where
  "Semaphore_read sz cnt = (if sint cnt \<le> 0 then (- EAGAIN, cnt) else (0, if sz \<noteq> 0 then cnt - 1 else cnt))"

definition Semaphore_write :: "u32 \<Rightarrow> int \<times> u32" where
  "Semaphore_write cnt = (0, cnt + 1)"

subsection \<open>Sleeping\<close>

definition SleepDevice_init :: "u64 list" where
  "SleepDevice_init = replicate MAX_PROCESS_NUM 0"

definition SleepDevice_write :: "nat \<Rightarrow> u64 \<Rightarrow> u32 \<Rightarrow> u32 \<Rightarrow> u64 list \<Rightarrow> int \<times> u64 list" where
  "SleepDevice_write p tick data sz ts =
     (if sz \<noteq> 4 then (- EINVAL, ts) else (4, ts[p := tick + ucast data]))"

definition SleepDevice_read :: "nat \<Rightarrow> u64 \<Rightarrow> u64 list \<Rightarrow> int" where
  "SleepDevice_read p tick ts = (if ts ! p > tick then - EAGAIN else 0)"

subsection \<open>Waiting for a process\<close>

record wait_req =
  req_pid :: u32
  req_status :: u32

record wait_state =
  reqs :: "wait_req list"
  last_exit_code :: "u32 list"

definition ProcessWait_init :: wait_state where
  "ProcessWait_init = \<lparr>reqs = replicate MAX_PROCESS_NUM \<lparr>req_pid = 0, req_status = 0\<rparr>, last_exit_code = replicate MAX_PROCESS_NUM 0\<rparr>"

text \<open>\<open>alive\<close> tells which entries of the process list are set; its index is not checked.\<close>

definition ProcessWait_write :: "(nat \<Rightarrow> bool) \<Rightarrow> nat \<Rightarrow> u32 \<Rightarrow> u32 \<Rightarrow> wait_state \<Rightarrow> (int \<times> wait_state) outcome" where
  "ProcessWait_write alive p target_pid sz w =
     (if sz \<noteq> 4 then Inr (- EINVAL, w)
      else if \<not> unat target_pid < MAX_PROCESS_NUM then Inl ''process_list index out of bounds''
      else if alive (unat target_pid) then
        Inr (4, w\<lparr>reqs := (reqs w)[p := \<lparr>req_pid = target_pid, req_status = 0\<rparr>]\<rparr>)
      else Inr (4, w\<lparr>reqs := (reqs w)[p := \<lparr>req_pid = 0, req_status = last_exit_code w ! unat target_pid\<rparr>]\<rparr>))"

definition ProcessWait_read :: "nat \<Rightarrow> addr \<Rightarrow> u32 \<Rightarrow> wait_state \<Rightarrow> mem \<Rightarrow> int \<times> mem" where
  "ProcessWait_read p buf sz w m =
     (if req_pid (reqs w ! p) \<noteq> 0 then (- EAGAIN, m)
      else if sz = 4 then (4, st32 m buf (req_status (reqs w ! p)))
      else (- EINVAL, m))"

definition processExit :: "nat \<Rightarrow> u32 \<Rightarrow> wait_state \<Rightarrow> wait_state" where
  "processExit p status w =
     w\<lparr>last_exit_code := (last_exit_code w)[p := status],
       reqs := map (\<lambda>r. if req_pid r = of_nat p then r\<lparr>req_status := status, req_pid := 0\<rparr> else r) (reqs w)\<rparr>"

subsection \<open>Dynamic dispatch\<close>

datatype device =
    Semaphore u32
  | SleepDevice "u64 list"
  | ProcessWait wait_state
  | VGATextIODevice console

text \<open>\<open>input->read(buffer, size)\<close>: the value, the device and the memory after it.\<close>

fun dev_read :: "u64 \<Rightarrow> nat \<Rightarrow> addr \<Rightarrow> u32 \<Rightarrow> device \<Rightarrow> mem \<Rightarrow> int \<times> device \<times> mem" where
  "dev_read tick p buf sz (Semaphore cnt) m = (let (ret, cnt) = Semaphore_read sz cnt in (ret, Semaphore cnt, m))"
| "dev_read tick p buf sz (SleepDevice ts) m = (SleepDevice_read p tick ts, SleepDevice ts, m)"
| "dev_read tick p buf sz (ProcessWait w) m = (let (ret, m) = ProcessWait_read p buf sz w m in (ret, ProcessWait w, m))"
| "dev_read tick p buf sz (VGATextIODevice c) m =
     (let (ret, xs, c) = line_read (unat sz) c in (ret, VGATextIODevice c, store_bytes buf xs m))"

text \<open>\<open>write(data, size)\<close> of the devices; all of them are output devices too.\<close>

fun dev_write :: "(nat \<Rightarrow> bool) \<Rightarrow> u64 \<Rightarrow> nat \<Rightarrow> addr \<Rightarrow> u32 \<Rightarrow> device \<Rightarrow> mem \<Rightarrow> (int \<times> device) outcome" where
  "dev_write alive tick p buf sz (Semaphore cnt) m = (let (ret, cnt) = Semaphore_write cnt in Inr (ret, Semaphore cnt))"
| "dev_write alive tick p buf sz (SleepDevice ts) m =
     (let (ret, ts) = SleepDevice_write p tick (ld32 m buf) sz ts in Inr (ret, SleepDevice ts))"
| "dev_write alive tick p buf sz (ProcessWait w) m =
     (case ProcessWait_write alive p (ld32 m buf) sz w of Inl e \<Rightarrow> Inl e | Inr (ret, w) \<Rightarrow> Inr (ret, ProcessWait w))"
| "dev_write alive tick p buf sz (VGATextIODevice c) m =
     (let (ret, c) = vga_write (bytes m buf (unat sz)) c in Inr (ret, VGATextIODevice c))"

section \<open>The contract of an input device\<close>

text \<open>
  \<^verbatim>\<open>InputDevice.hpp\<close>: \<open>read\<close> returns \<open>-EAGAIN\<close> if there is no data; with size 0 it only checks. A blocked
  read stores nothing and finds nothing when it is repeated; a check that succeeds is followed by a read that succeeds.
\<close>

definition blocked :: "int \<times> 'd \<times> mem \<Rightarrow> bool" where
  "blocked r \<longleftrightarrow> fst r = - EAGAIN"

abbreviation device_of :: "int \<times> 'd \<times> mem \<Rightarrow> 'd" where
  "device_of r \<equiv> fst (snd r)"

locale input_device =
  fixes read :: "nat \<Rightarrow> addr \<Rightarrow> u32 \<Rightarrow> 'd \<Rightarrow> mem \<Rightarrow> int \<times> 'd \<times> mem"
    and ok :: "'d \<Rightarrow> bool"
  assumes read_ok: "ok d \<Longrightarrow> ok (device_of (read p b s d m))"
    and probe_memory: "ok d \<Longrightarrow> snd (snd (read p b 0 d m)) = m"
    and blocked_memory: "ok d \<Longrightarrow> blocked (read p b s d m) \<Longrightarrow> snd (snd (read p b s d m)) = m"
    and blocked_stays: "ok d \<Longrightarrow> blocked (read p b s d m) \<Longrightarrow> blocked (read p b' s' (device_of (read p b s d m)) m')"
    and ready_read: "ok d \<Longrightarrow> \<not> blocked (read p b 0 d m) \<Longrightarrow> \<not> blocked (read p b' s' (device_of (read p b 0 d m)) m')"

text \<open>A device is shared when it does not matter for which process it reads.\<close>

locale shared_device = input_device +
  assumes any_process: "ok d \<Longrightarrow> read p b s d m = read q b s d m"
begin

lemma ready_any: "ok d \<Longrightarrow> \<not> blocked (read p b 0 d m) \<Longrightarrow> \<not> blocked (read q b' s' (device_of (read p b 0 d m)) m')"
  using ready_read any_process by metis

end

text \<open>A device is private when reading leaves it as it is, and only the process decides.\<close>

locale private_device = input_device +
  assumes read_same: "ok d \<Longrightarrow> device_of (read p b s d m) = d"
begin

lemma blocked_any: "ok d \<Longrightarrow> blocked (read p b s d m) = blocked (read p b' 0 d m')"
  using blocked_stays ready_read read_same by metis

end

section \<open>The devices meet the contract\<close>

fun is_semaphore :: "device \<Rightarrow> bool" where
  "is_semaphore (Semaphore cnt) = True"
| "is_semaphore d = False"

fun is_console :: "device \<Rightarrow> bool" where
  "is_console (VGATextIODevice c) = True"
| "is_console d = False"

fun is_sleep :: "device \<Rightarrow> bool" where
  "is_sleep (SleepDevice ts) = True"
| "is_sleep d = False"

fun is_wait :: "device \<Rightarrow> bool" where
  "is_wait (ProcessWait w) = True"
| "is_wait d = False"

lemma is_device:
  "is_semaphore d \<longleftrightarrow> (\<exists>cnt. d = Semaphore cnt)" "is_console d \<longleftrightarrow> (\<exists>c. d = VGATextIODevice c)"
  "is_sleep d \<longleftrightarrow> (\<exists>ts. d = SleepDevice ts)" "is_wait d \<longleftrightarrow> (\<exists>w. d = ProcessWait w)"
  by (cases d; simp)+

lemma EAGAIN_neq [simp]: "EAGAIN \<noteq> 0" "- EAGAIN \<noteq> 4" "EAGAIN \<noteq> EINVAL" "EINVAL \<noteq> EAGAIN"
  by (simp_all add: EAGAIN_def EINVAL_def)

lemma line_take_0: "line_read 0 c = (r, xs, c') \<Longrightarrow> xs = []"
  by (auto simp: line_read_def Let_def case_prod_unfold split: if_splits)

interpretation semaphore: shared_device "dev_read tick" is_semaphore
  by unfold_locales (auto simp: is_device blocked_def Semaphore_read_def split: if_splits)

interpretation console: shared_device "dev_read tick" is_console
proof unfold_locales
  fix d p b m and s :: u32
  assume "is_console d"
  then obtain c where d: "d = VGATextIODevice c" by (auto simp: is_device)
  obtain r xs c' where r: "line_read (unat s) c = (r, xs, c')" by (cases "line_read (unat s) c")
  obtain r0 xs0 c0 where r0: "line_read 0 c = (r0, xs0, c0)" by (cases "line_read 0 c")
  show "is_console (device_of (dev_read tick p b s d m))" by (simp add: d r)
  show "snd (snd (dev_read tick p b 0 d m)) = m" using line_take_0 [OF r0] by (simp add: d r0)
  show "dev_read tick p b s d m = dev_read tick q b s d m" for q by (simp add: d)
  show "snd (snd (dev_read tick p b s d m)) = m" if "blocked (dev_read tick p b s d m)"
    using that r line_read_again(2) [of "unat s" c xs c'] by (simp add: d blocked_def)
  show "blocked (dev_read tick p b' s' (device_of (dev_read tick p b s d m)) m')" if "blocked (dev_read tick p b s d m)" for b' s' m'
    using that r line_read_again(1) [of "unat s" c xs c' "unat s'"] by (simp add: d blocked_def)
  show "\<not> blocked (dev_read tick p b' s' (device_of (dev_read tick p b 0 d m)) m')" if "\<not> blocked (dev_read tick p b 0 d m)" for b' s' m'
    using that r0 line_read_ready [of c r0 xs0 c0 "unat s'"] by (auto simp: d blocked_def split: prod.split)
qed

interpretation sleep: private_device "dev_read tick" is_sleep
  by unfold_locales (auto simp: is_device blocked_def SleepDevice_read_def)

interpretation wait: private_device "dev_read tick" is_wait
  by unfold_locales (auto simp: is_device blocked_def ProcessWait_read_def split: if_splits)

end
