(* ===== verification/Fat16.thy ===== *)
theory Fat16
  imports CString
begin

text \<open>
  The read-only FAT16 file system: disks (\<^verbatim>\<open>src/objects/Disk.cpp\<close>), files (\<^verbatim>\<open>src/objects/File.cpp\<close>), directories
  (\<^verbatim>\<open>src/objects/Directory.cpp\<close>) and path lookup (\<^verbatim>\<open>src/objects/FileSystem.cpp\<close>). The BIOS call that reads a sector is
  a parameter: the 512 bytes it leaves in the real mode buffer and its return value. Every file keeps the sector it
  read last, so reading is stateful; following a cluster chain ends only if the chain does, so the functions
  that do it may have the value \<open>None\<close>.
\<close>

section \<open>Disks\<close>

type_synonym bios = "u32 \<Rightarrow> u8 list \<times> u32"
type_synonym disk = "u32 \<Rightarrow> u8 list"

text \<open>The bytes of a packed structure, little-endian.\<close>

definition le16 :: "u8 list \<Rightarrow> nat \<Rightarrow> u16" where
  "le16 xs i = ucast (xs ! i) OR push_bit 8 (ucast (xs ! (i + 1)))"

definition le32 :: "u8 list \<Rightarrow> nat \<Rightarrow> u32" where
  "le32 xs i = ucast (xs ! i) OR push_bit 8 (ucast (xs ! (i + 1))) OR push_bit 16 (ucast (xs ! (i + 2)))
     OR push_bit 24 (ucast (xs ! (i + 3)))"

text \<open>\<open>return (ret >> 8) & 0xff == 0\<close>, where \<open>==\<close> binds stronger than \<open>&\<close>.\<close>

definition physical_readSector :: "bios \<Rightarrow> u32 \<Rightarrow> u8 list \<times> u32" where
  "physical_readSector bios lba = (let (bs, ret) = bios lba in (bs, drop_bit 8 ret AND of_bool ((0xff :: u32) = 0)))"

definition logical_readSector :: "bios \<Rightarrow> u32 \<Rightarrow> u32 \<Rightarrow> u8 list \<times> u32" where
  "logical_readSector bios begin_lba lba = physical_readSector bios (lba + begin_lba)"

text \<open>
  The boot disk, from the four bytes the boot loader gives: drive, partition, sub-partition. The partition table
  starts at byte 446 of the boot record, with 16 bytes per entry and the first sector at byte 8 of an entry.
\<close>

definition getBootDisk :: "bios \<Rightarrow> u8 list \<Rightarrow> disk outcome" where
  "getBootDisk bios sq =
     (if sq ! 2 \<noteq> 0xFF then Inl ''Assertion failed: \"Only support top level partition\" && seq[2] == 0xFF''
      else let (mbr, _) = physical_readSector bios 0
           in if sq ! 1 \<noteq> 0xFF then
                if unat (sq ! 1) < 4 then
                  Inr (\<lambda>lba. fst (logical_readSector bios (le32 mbr (446 + 16 * unat (sq ! 1) + 8)) lba))
                else Inl ''parts index out of bounds''
              else Inr (\<lambda>lba. fst (physical_readSector bios lba)))"

section \<open>Files\<close>

definition EOF_int :: int where "EOF_int = - 1"

record seqfile =
  sq_cursor :: u32
  sq_begin :: u32
  sq_end :: u32
  sq_size :: u32
  sq_pos :: int
  sq_buf :: "u8 list"

definition SequentialFile :: "u32 \<Rightarrow> u32 \<Rightarrow> seqfile" where
  "SequentialFile b e = \<lparr>sq_cursor = 0, sq_begin = b, sq_end = e, sq_size = (e - b) * 512, sq_pos = - 1, sq_buf = replicate 512 0\<rparr>"

definition seq_ensure :: "disk \<Rightarrow> seqfile \<Rightarrow> seqfile" where
  "seq_ensure dk f =
     (let cursor_sector = sq_cursor f div 512
      in if uint cursor_sector \<noteq> sq_pos f
         then f\<lparr>sq_buf := dk (cursor_sector + sq_begin f), sq_pos := uint cursor_sector\<rparr> else f)"

definition seq_getc :: "disk \<Rightarrow> seqfile \<Rightarrow> int \<times> seqfile" where
  "seq_getc dk f =
     (if sq_cursor f \<ge> sq_size f then (EOF_int, f)
      else let f = seq_ensure dk f
           in (uint (sq_buf f ! unat (sq_cursor f mod 512)), f\<lparr>sq_cursor := sq_cursor f + 1\<rparr>))"

text \<open>\<open>read\<close> returns the bytes it stores; their number is the value of the call.\<close>

fun seq_read :: "disk \<Rightarrow> nat \<Rightarrow> seqfile \<Rightarrow> u8 list \<times> seqfile" where
  "seq_read dk 0 f = ([], f)"
| "seq_read dk (Suc n) f =
     (let (ch, f) = seq_getc dk f
      in if ch \<noteq> EOF_int then let (xs, f) = seq_read dk n f in (of_int ch # xs, f) else ([], f))"

datatype whence = SEEK_SET | SEEK_CUR | SEEK_END

definition seek_to :: "u32 \<Rightarrow> u32 \<Rightarrow> u64 \<Rightarrow> whence \<Rightarrow> u32" where
  "seek_to cur sz pos wh = (case wh of SEEK_CUR \<Rightarrow> cur + ucast pos | SEEK_SET \<Rightarrow> ucast pos | SEEK_END \<Rightarrow> sz + ucast pos)"

definition seq_seek :: "u64 \<Rightarrow> whence \<Rightarrow> seqfile \<Rightarrow> seqfile" where
  "seq_seek pos wh f = f\<lparr>sq_cursor := seek_to (sq_cursor f) (sq_size f) pos wh\<rparr>"

section \<open>The file system's parameters\<close>

record fsinfo =
  bytes_per_sector :: u16
  sectors_per_cluster :: u8
  fat_num :: u8
  root_directory_entry_num :: u16
  sectors_per_fat :: u16
  hidden_sectors :: u32
  total_sectors :: u32
  fat_size :: u32
  root_dir_sectors :: u32
  first_data_sector :: u32
  first_fat_sector :: u32
  data_sectors :: u32
  total_clusters :: u32

record fatfs =
  fs_info :: fsinfo
  fat_file :: seqfile

text \<open>The constructor: the boot sector's fields, the derived numbers, and the assertions, in the order of the code.\<close>

definition Fat16FileSystem :: "disk \<Rightarrow> fatfs outcome" where
  "Fat16FileSystem dk =
     (let b = dk 0;
          bps = le16 b 11; spc = b ! 13; nfat = b ! 16; nroot = le16 b 17; total16 = le16 b 19; spf = le16 b 22;
          hidden = le32 b 28; large = le32 b 32; sig = b ! 38
      in if bps \<noteq> 512 then Inl ''Assertion failed: info.pbr.bytes_per_sector == 512''
         else if \<not> (sig = 0x28 \<or> sig = 0x29) then
           Inl ''Assertion failed: info.feb.boot_signature == 0x28 || info.feb.boot_signature == 0x29''
         else if spf = 0 then Inl ''Assertion failed: info.pbr.sectors_per_fat''
         else let total = (if total16 = 0 then large else ucast total16);
                  fsize = ucast spf;
                  rds = (ucast nroot * 32 + (ucast bps - 1)) div ucast bps;
                  fds = hidden + ucast nfat * fsize + rds;
                  ds = total - (hidden + ucast spf * fsize + rds)
              in if spc = 0 then Inl ''division by zero''
                 else let tc = ds div ucast spc
                      in if \<not> (tc \<ge> 4085 \<and> tc < 65525) then
                           Inl ''Assertion failed: info.total_clusters >= 4085 && info.total_clusters < 65525''
                         else Inr \<lparr>fs_info = \<lparr>bytes_per_sector = bps, sectors_per_cluster = spc, fat_num = nfat,
                                root_directory_entry_num = nroot, sectors_per_fat = spf, hidden_sectors = hidden,
                                total_sectors = total, fat_size = fsize, root_dir_sectors = rds,
                                first_data_sector = fds, first_fat_sector = hidden, data_sectors = ds, total_clusters = tc\<rparr>,
                              fat_file = SequentialFile hidden (hidden + fsize)\<rparr>)"

section \<open>Files made of clusters\<close>

definition F_REG :: u32 where "F_REG = 0"
definition F_DIR :: u32 where "F_DIR = 1"
definition CLUSTER_END :: u16 where "CLUSTER_END = 0xFFF8"

record clusterfile =
  cf_start :: u32
  cf_cursor :: u32
  cf_num :: u32
  cf_size :: u32
  cf_mode :: u32
  cf_clusters :: "u16 list"
  cf_pos :: int
  cf_buf :: "u8 list"

text \<open>\<open>fat_file->seek(now_cluster * sizeof(uint16_t), SEEK_SET); fat_file->read(&now_cluster, sizeof(now_cluster))\<close>\<close>

definition fat_next :: "disk \<Rightarrow> u16 \<Rightarrow> seqfile \<Rightarrow> u16 \<times> seqfile" where
  "fat_next dk now f =
     (let (xs, f) = seq_read dk 2 (seq_seek (ucast now * 2) SEEK_SET f)
      in (case xs of [] \<Rightarrow> now
          | [a] \<Rightarrow> ucast a OR (now AND 0xFF00)
          | a # b # _ \<Rightarrow> ucast a OR push_bit 8 (ucast b), f))"

text \<open>The first pass over the chain counts the clusters, and adds up the size of a directory.\<close>

partial_function (option) chain_count ::
  "disk \<Rightarrow> u8 \<Rightarrow> u32 \<Rightarrow> u16 \<Rightarrow> u32 \<Rightarrow> u32 \<Rightarrow> seqfile \<Rightarrow> (u32 \<times> u32 \<times> seqfile) option" where
  "chain_count dk spc mode now count sz f =
     (if now < CLUSTER_END then
        let sz = (if mode = F_DIR then sz + ucast spc * 512 else sz);
            (now, f) = fat_next dk now f
        in chain_count dk spc mode now (count + 1) sz f
      else Some (count, sz, f))"

text \<open>The second pass stores them.\<close>

partial_function (option) chain_store ::
  "disk \<Rightarrow> u8 \<Rightarrow> u32 \<Rightarrow> u32 \<Rightarrow> u16 \<Rightarrow> u32 \<Rightarrow> seqfile \<Rightarrow> (u16 list \<times> seqfile) outcome option" where
  "chain_store dk spc num sz now count f =
     (if now < CLUSTER_END \<and> uint count * uint spc * 512 < uint sz then
        if \<not> count < num then Some (Inl ''Assertion failed: count < cluster_num'')
        else let (now', f) = fat_next dk now f
             in and_then (chain_store dk spc num sz now' (count + 1) f) (\<lambda>(cs, f). Some (Inr (now # cs, f)))
      else Some (Inr ([], f)))"

definition ClusterFile :: "disk \<Rightarrow> u32 \<Rightarrow> u32 \<Rightarrow> u32 \<Rightarrow> fatfs \<Rightarrow> (clusterfile \<times> fatfs) outcome option" where
  "ClusterFile dk start sz mode fs =
     (let spc = sectors_per_cluster (fs_info fs);
          sz = (if mode = F_DIR then 0 else sz)
      in Option.bind (chain_count dk spc mode (ucast start) 0 sz (fat_file fs)) (\<lambda>(num, sz, f).
           let sz = (if num * ucast spc * 512 > sz then num * ucast spc * 512 else sz)
           in and_then (chain_store dk spc num sz (ucast start) 0 f) (\<lambda>(cs, f).
                Some (Inr (\<lparr>cf_start = start, cf_cursor = 0, cf_num = num, cf_size = sz, cf_mode = mode, cf_clusters = cs,
                            cf_pos = - 1, cf_buf = replicate 512 0\<rparr>, fs\<lparr>fat_file := f\<rparr>)))))"

text \<open>An index behind the stored clusters reads outside the array.\<close>

definition cluster_ensure :: "disk \<Rightarrow> fsinfo \<Rightarrow> clusterfile \<Rightarrow> clusterfile outcome" where
  "cluster_ensure dk fi f =
     (let cursor_sector = cf_cursor f div 512;
          ind = cursor_sector div ucast (sectors_per_cluster fi);
          cursor_sector = cursor_sector mod ucast (sectors_per_cluster fi)
      in if \<not> unat ind < length (cf_clusters f) then Inl ''clusters index out of bounds''
         else let cl = ucast (cf_clusters f ! unat ind);
                  sector = cursor_sector + ((cl - 2) * ucast (sectors_per_cluster fi) + first_data_sector fi)
              in Inr (if uint sector \<noteq> cf_pos f then f\<lparr>cf_buf := dk sector, cf_pos := uint sector\<rparr> else f))"

definition cluster_getc :: "disk \<Rightarrow> fsinfo \<Rightarrow> clusterfile \<Rightarrow> (int \<times> clusterfile) outcome" where
  "cluster_getc dk fi f =
     (if cf_cursor f \<ge> cf_size f then Inr (EOF_int, f)
      else case cluster_ensure dk fi f of Inl e \<Rightarrow> Inl e
           | Inr f \<Rightarrow> Inr (uint (cf_buf f ! unat (cf_cursor f mod 512)), f\<lparr>cf_cursor := cf_cursor f + 1\<rparr>))"

fun cluster_read :: "disk \<Rightarrow> fsinfo \<Rightarrow> nat \<Rightarrow> clusterfile \<Rightarrow> (u8 list \<times> clusterfile) outcome" where
  "cluster_read dk fi 0 f = Inr ([], f)"
| "cluster_read dk fi (Suc n) f =
     (case cluster_getc dk fi f of Inl e \<Rightarrow> Inl e
      | Inr (ch, f) \<Rightarrow>
          if ch \<noteq> EOF_int then
            (case cluster_read dk fi n f of Inl e \<Rightarrow> Inl e | Inr (xs, f) \<Rightarrow> Inr (of_int ch # xs, f))
          else Inr ([], f))"

definition cluster_seek :: "u64 \<Rightarrow> whence \<Rightarrow> clusterfile \<Rightarrow> clusterfile" where
  "cluster_seek pos wh f = f\<lparr>cf_cursor := seek_to (cf_cursor f) (cf_size f) pos wh\<rparr>"

section \<open>The two kinds of file\<close>

datatype kfile = Sequential seqfile | Cluster clusterfile

fun file_read :: "disk \<Rightarrow> fsinfo \<Rightarrow> nat \<Rightarrow> kfile \<Rightarrow> (u8 list \<times> kfile) outcome" where
  "file_read dk fi n (Sequential f) = (let (xs, f) = seq_read dk n f in Inr (xs, Sequential f))"
| "file_read dk fi n (Cluster f) = (case cluster_read dk fi n f of Inl e \<Rightarrow> Inl e | Inr (xs, f) \<Rightarrow> Inr (xs, Cluster f))"

fun file_seek :: "u64 \<Rightarrow> whence \<Rightarrow> kfile \<Rightarrow> kfile" where
  "file_seek pos wh (Sequential f) = Sequential (seq_seek pos wh f)"
| "file_seek pos wh (Cluster f) = Cluster (cluster_seek pos wh f)"

fun file_tell :: "kfile \<Rightarrow> u64" where
  "file_tell (Sequential f) = ucast (sq_cursor f)"
| "file_tell (Cluster f) = ucast (cf_cursor f)"

text \<open>\<open>stat()\<close>: the size and the mode; a sequential file is a directory.\<close>

fun file_stat :: "kfile \<Rightarrow> u32 \<times> u32" where
  "file_stat (Sequential f) = (sq_size f, F_DIR)"
| "file_stat (Cluster f) = (cf_size f, cf_mode f)"

section \<open>Directories\<close>

record fileinfo =
  filename :: "u8 list"
  directory :: bool
  filesize :: u32
  cluster :: u32

record dir =
  dir_file :: kfile
  infos :: "fileinfo list"

text \<open>Entries that are listed: no volume label, not hidden, not deleted.\<close>

definition entry_listed :: "u8 list \<Rightarrow> bool" where
  "entry_listed e \<longleftrightarrow> \<not> ((e ! 11) AND 0x08 \<noteq> 0 \<or> (e ! 11) AND 0x02 \<noteq> 0 \<or> e ! 0 = 0xe5)"

definition name_part :: "u8 list \<Rightarrow> u8 list" where
  "name_part xs = takeWhile (\<lambda>x. x \<noteq> 0 \<and> x \<noteq> 32) xs"

definition entry_info :: "u8 list \<Rightarrow> fileinfo" where
  "entry_info e =
     (let base = take 8 e; ext = take 3 (drop 8 e)
      in \<lparr>filename = name_part base @ (if ext ! 0 \<noteq> 0 \<and> ext ! 0 \<noteq> 32 then of_char CHR ''.'' # name_part ext else []),
          directory = ((e ! 11) AND 0x10 \<noteq> 0), filesize = le32 e 28,
          cluster = push_bit 16 (ucast (le16 e 20)) + ucast (le16 e 26)\<rparr>)"

text \<open>
  The loop \<open>while (file->read(&entry, sizeof(entry)) == sizeof(entry))\<close>, which ends at an entry whose first byte
  is 0; the entries that are listed. With a bound it is the second pass, which asserts \<open>count < file_num\<close>.
\<close>

partial_function (option) dir_pass ::
  "disk \<Rightarrow> fsinfo \<Rightarrow> nat option \<Rightarrow> nat \<Rightarrow> kfile \<Rightarrow> (u8 list list \<times> kfile) outcome option" where
  "dir_pass dk fi bound count f =
     (case file_read dk fi 32 f of Inl e \<Rightarrow> Some (Inl e)
      | Inr (e, f) \<Rightarrow>
          if length e \<noteq> 32 \<or> e ! 0 = 0 then Some (Inr ([], f))
          else if entry_listed e then
            if (case bound of Some n \<Rightarrow> \<not> count < n | None \<Rightarrow> False) then Some (Inl ''Assertion failed: count < file_num'')
            else and_then (dir_pass dk fi bound (count + 1) f) (\<lambda>(es, f). Some (Inr (e # es, f)))
          else dir_pass dk fi bound count f)"

definition dir_init :: "disk \<Rightarrow> fsinfo \<Rightarrow> kfile \<Rightarrow> dir outcome option" where
  "dir_init dk fi f =
     and_then (dir_pass dk fi None 0 (file_seek 0 SEEK_SET f)) (\<lambda>(es, f).
       let file_num = length es
       in and_then (dir_pass dk fi (Some file_num) 0 (file_seek 0 SEEK_SET f)) (\<lambda>(es, f).
            Some (Inr \<lparr>dir_file = f, infos = map entry_info es\<rparr>)))"

definition getRootDirectory :: "disk \<Rightarrow> fatfs \<Rightarrow> dir outcome option" where
  "getRootDirectory dk fs =
     (let fi = fs_info fs
      in dir_init dk fi (Sequential (SequentialFile (first_data_sector fi - root_dir_sectors fi) (first_data_sector fi))))"

text \<open>A file that is no directory makes the constructor throw, which \<open>fromFile\<close> turns into a null pointer.\<close>

definition Directory_fromFile :: "disk \<Rightarrow> fatfs \<Rightarrow> kfile \<Rightarrow> dir option outcome option" where
  "Directory_fromFile dk fs f =
     (if snd (file_stat f) \<noteq> F_DIR then Some (Inr None)
      else and_then (dir_init dk (fs_info fs) f) (\<lambda>d. Some (Inr (Some d))))"

text \<open>\<open>strcasecmp(infos[i].filename, name) == 0\<close>, on the bytes of the two strings.\<close>

definition Directory_find :: "u8 list \<Rightarrow> fileinfo list \<Rightarrow> fileinfo option" where
  "Directory_find name is = List.find (\<lambda>i. folded (filename i) = folded name) is"

definition Directory_openFile :: "disk \<Rightarrow> u8 list \<Rightarrow> dir \<Rightarrow> fatfs \<Rightarrow> (kfile option \<times> fatfs) outcome option" where
  "Directory_openFile dk name d fs =
     (case Directory_find name (infos d) of
        None \<Rightarrow> Some (Inr (None, fs))
      | Some i \<Rightarrow> and_then (ClusterFile dk (cluster i) (filesize i) (if directory i then F_DIR else F_REG) fs)
                   (\<lambda>(f, fs). Some (Inr (Some (Cluster f), fs))))"

section \<open>Paths\<close>

definition MAX_FILENAME_LENGTH :: nat where "MAX_FILENAME_LENGTH = 15"

abbreviation slash :: u8 where
  "slash \<equiv> of_char CHR ''/''"

lemma path_rest_less:
  assumes "dropWhile (\<lambda>x. x \<noteq> a) path \<noteq> []"
  shows "length (dropWhile (\<lambda>x. x = a) (dropWhile (\<lambda>x. x \<noteq> a) path)) < length path"
proof -
  obtain y ys where y: "dropWhile (\<lambda>x. x \<noteq> a) path = y # ys" using assms by (meson neq_Nil_conv)
  then have "\<not> y \<noteq> a" using hd_dropWhile [OF assms] by simp
  then show ?thesis
    using y length_dropWhile_le [of "\<lambda>x. x = a" ys] length_dropWhile_le [of "\<lambda>x. x \<noteq> a" path] by simp
qed

text \<open>
  The loop over the components of the path. The component is copied to a buffer of 16 bytes without a check, so a
  longer one overwrites the stack.
\<close>

function path_loop :: "disk \<Rightarrow> u8 list \<Rightarrow> kfile \<Rightarrow> dir \<Rightarrow> fatfs \<Rightarrow> (kfile option \<times> fatfs) outcome option" where
  "path_loop dk path f scwd fs =
     (if path = [] then Some (Inr (Some f, fs))
      else let name = takeWhile (\<lambda>x. x \<noteq> slash) path; rest = dropWhile (\<lambda>x. x \<noteq> slash) path
           in if length name > MAX_FILENAME_LENGTH then Some (Inl ''filename buffer overflow'')
              else and_then (Directory_openFile dk name scwd fs) (\<lambda>(fo, fs).
                     case fo of None \<Rightarrow> Some (Inr (None, fs))
                     | Some f \<Rightarrow>
                         if rest = [] then Some (Inr (Some f, fs))
                         else and_then (Directory_fromFile dk fs f) (\<lambda>dopt.
                                case dopt of None \<Rightarrow> Some (Inr (None, fs))
                                | Some d \<Rightarrow> path_loop dk (dropWhile (\<lambda>x. x = slash) rest) f d fs)))"
  by pat_completeness auto
termination
  by (relation "measure (\<lambda>(dk, path, f, scwd, fs). length path)") (simp_all add: path_rest_less)

declare path_loop.simps [simp del]

definition openFile :: "disk \<Rightarrow> dir option \<Rightarrow> u8 list \<Rightarrow> fatfs \<Rightarrow> (kfile option \<times> fatfs) outcome option" where
  "openFile dk cwd path fs =
     and_then (case cwd of None \<Rightarrow> getRootDirectory dk fs
               | Some d \<Rightarrow> if path \<noteq> [] \<and> hd path = slash then getRootDirectory dk fs else Some (Inr d)) (\<lambda>scwd.
       path_loop dk (dropWhile (\<lambda>x. x = slash) path) (dir_file scwd) scwd fs)"

section \<open>Byte streams\<close>

text \<open>
  The interface between \<open>read\<close> and \<open>getc\<close> of a file: a cursor, a size, the contents that the cursor runs through, and
  that \<open>getc\<close> returns the byte at the cursor and moves on, or EOF at the end. Both kinds of file read with the same
  loop, so what a read returns is proved once.
\<close>

fun read_loop :: "('f \<Rightarrow> (int \<times> 'f) outcome) \<Rightarrow> nat \<Rightarrow> 'f \<Rightarrow> (u8 list \<times> 'f) outcome" where
  "read_loop getc 0 f = Inr ([], f)"
| "read_loop getc (Suc n) f =
     (case getc f of Inl e \<Rightarrow> Inl e
      | Inr (ch, f) \<Rightarrow>
          if ch \<noteq> EOF_int then
            (case read_loop getc n f of Inl e \<Rightarrow> Inl e | Inr (xs, f) \<Rightarrow> Inr (of_int ch # xs, f))
          else Inr ([], f))"

lemma drop_nth_Cons: "i < length xs \<Longrightarrow> drop i xs = xs ! i # drop (Suc i) xs"
  by (rule Cons_nth_drop_Suc [symmetric])

locale byte_stream =
  fixes getc :: "'f \<Rightarrow> (int \<times> 'f) outcome"
    and cur :: "'f \<Rightarrow> u32"
    and size_of :: "'f \<Rightarrow> u32"
    and contents :: "'f \<Rightarrow> u8 list"
    and ok :: "'f \<Rightarrow> bool"
    and same :: "'f \<Rightarrow> 'f \<Rightarrow> bool"
  assumes length_contents: "length (contents f) = unat (size_of f)"
    and getc_byte: "ok f \<Longrightarrow> unat (cur f) < unat (size_of f) \<Longrightarrow>
      \<exists>f'. getc f = Inr (uint (contents f ! unat (cur f)), f') \<and> ok f' \<and> cur f' = cur f + 1 \<and>
        contents f' = contents f \<and> size_of f' = size_of f \<and> same f f'"
    and getc_end: "\<not> unat (cur f) < unat (size_of f) \<Longrightarrow> getc f = Inr (EOF_int, f)"
    and same_refl: "same f f"
    and same_trans: "same f g \<Longrightarrow> same g h \<Longrightarrow> same f h"
begin

lemma read_contents:
  assumes "ok f"
  shows "\<exists>f'. read_loop getc n f = Inr (take n (drop (unat (cur f)) (contents f)), f') \<and> ok f' \<and>
    unat (cur f') = max (unat (cur f)) (min (unat (cur f) + n) (unat (size_of f))) \<and> same f f'"
  using assms
proof (induction n arbitrary: f)
  case 0
  then show ?case by (auto simp: max_def same_refl)
next
  case (Suc n)
  show ?case
  proof (cases "unat (cur f) < unat (size_of f)")
    case True
    from getc_byte [OF Suc.prems True] obtain f1 where f1:
      "getc f = Inr (uint (contents f ! unat (cur f)), f1)" "ok f1" "cur f1 = cur f + 1"
      "contents f1 = contents f" "size_of f1 = size_of f" "same f f1" by blast
    have c: "unat (cur f1) = Suc (unat (cur f))"
      using True f1(3) unat_succ [of "cur f" "size_of f"] by (simp add: word_less_nat_alt)
    from Suc.IH [OF f1(2)] obtain f2 where f2:
      "read_loop getc n f1 = Inr (take n (drop (unat (cur f1)) (contents f1)), f2)" "ok f2"
      "unat (cur f2) = max (unat (cur f1)) (min (unat (cur f1) + n) (unat (size_of f1)))" "same f1 f2" by blast
    have "drop (unat (cur f)) (contents f) = contents f ! unat (cur f) # drop (Suc (unat (cur f))) (contents f)"
      using True length_contents [of f] by (intro drop_nth_Cons) simp
    with f1 f2 c True same_trans [OF f1(6) f2(4)] show ?thesis by (auto simp: EOF_int_def)
  next
    case False
    with Suc.prems length_contents [of f] same_refl [of f] getc_end [OF False] show ?thesis by auto
  qed
qed

end

section \<open>Reading through the sector cache\<close>

text \<open>The byte at offset \<open>i\<close> of a sequence of sectors, the bytes of a file, and when the cached sector is what is on the disk.\<close>

definition seq_contents :: "disk \<Rightarrow> seqfile \<Rightarrow> u8 list" where
  "seq_contents dk f = map (\<lambda>i. dk (of_nat (i div 512) + sq_begin f) ! (i mod 512)) [0..<unat (sq_size f)]"

definition seq_coherent :: "disk \<Rightarrow> seqfile \<Rightarrow> bool" where
  "seq_coherent dk f \<longleftrightarrow> sq_pos f = - 1 \<or> (\<exists>s. sq_pos f = uint s \<and> sq_buf f = dk (s + sq_begin f))"

lemma of_nat_div_512: "(of_nat (unat c div 512) :: u32) = c div 512"
  by (simp add: word_arith_nat_div)

lemma unat_mod_512: "unat (c mod 512 :: u32) = unat c mod 512"
  by (simp add: unat_mod)

lemma seq_getc_step:
  assumes "seq_coherent dk f" and "unat (sq_cursor f) < unat (sq_size f)"
  shows "\<exists>f'. seq_getc dk f = (uint (seq_contents dk f ! unat (sq_cursor f)), f') \<and> seq_coherent dk f' \<and>
    sq_cursor f' = sq_cursor f + 1 \<and> sq_begin f' = sq_begin f \<and> sq_size f' = sq_size f \<and> sq_end f' = sq_end f"
proof -
  let ?f = "seq_ensure dk f"
  have buf: "sq_buf ?f = dk (sq_cursor f div 512 + sq_begin f)" "seq_coherent dk ?f"
    using assms(1) by (auto simp: seq_ensure_def Let_def seq_coherent_def)
  have "sq_cursor ?f = sq_cursor f" "sq_begin ?f = sq_begin f" "sq_size ?f = sq_size f" "sq_end ?f = sq_end f"
    by (simp_all add: seq_ensure_def Let_def)
  with buf assms(2) show ?thesis
    by (auto simp: seq_getc_def Let_def not_le word_less_nat_alt seq_contents_def of_nat_div_512 unat_mod_512 seq_coherent_def)
qed

lemma seq_read_loop: "read_loop (\<lambda>f. Inr (seq_getc dk f)) n f = Inr (seq_read dk n f)"
  by (induction n arbitrary: f) (simp_all add: Let_def split: prod.split)

interpretation seq_stream: byte_stream "\<lambda>f. Inr (seq_getc dk f)" sq_cursor sq_size "seq_contents dk"
  "\<lambda>f. seq_coherent dk f" "\<lambda>f f'. sq_begin f' = sq_begin f \<and> sq_size f' = sq_size f \<and> sq_end f' = sq_end f"
proof (unfold_locales, goal_cases)
  case (2 f)
  from seq_getc_step [OF this] show ?case by (force simp: seq_contents_def)
next
  case (3 f)
  then show ?case by (simp add: seq_getc_def word_le_nat_alt)
qed (simp_all add: seq_contents_def)

lemma seq_read_contents:
  assumes "seq_coherent dk f"
  shows "\<exists>f'. seq_read dk n f = (take n (drop (unat (sq_cursor f)) (seq_contents dk f)), f') \<and> seq_coherent dk f' \<and>
    unat (sq_cursor f') = max (unat (sq_cursor f)) (min (unat (sq_cursor f) + n) (unat (sq_size f))) \<and>
    sq_begin f' = sq_begin f \<and> sq_size f' = sq_size f \<and> sq_end f' = sq_end f"
  using seq_stream.read_contents [OF assms, of n] by (auto simp: seq_read_loop)

text \<open>The same for a file of clusters: which sector of which cluster holds an offset.\<close>

definition cluster_sector :: "fsinfo \<Rightarrow> u16 list \<Rightarrow> nat \<Rightarrow> u32" where
  "cluster_sector fi cs i =
     (let spc = unat (sectors_per_cluster fi)
      in of_nat (i div 512 mod spc) + ((ucast (cs ! (i div 512 div spc)) - 2) * of_nat spc + first_data_sector fi))"

definition cluster_contents :: "disk \<Rightarrow> fsinfo \<Rightarrow> clusterfile \<Rightarrow> u8 list" where
  "cluster_contents dk fi f = map (\<lambda>i. dk (cluster_sector fi (cf_clusters f) i) ! (i mod 512)) [0..<unat (cf_size f)]"

definition cluster_coherent :: "disk \<Rightarrow> clusterfile \<Rightarrow> bool" where
  "cluster_coherent dk f \<longleftrightarrow> cf_pos f = - 1 \<or> (\<exists>s. cf_pos f = uint s \<and> cf_buf f = dk s)"

definition covered :: "fsinfo \<Rightarrow> clusterfile \<Rightarrow> bool" where
  "covered fi f \<longleftrightarrow> unat (cf_size f) \<le> length (cf_clusters f) * (unat (sectors_per_cluster fi) * 512)"

lemma covered_index:
  assumes "covered fi f" and "i < unat (cf_size f)"
  shows "i div 512 div unat (sectors_per_cluster fi) < length (cf_clusters f)"
proof -
  have "i < length (cf_clusters f) * (512 * unat (sectors_per_cluster fi))"
    using assms by (simp add: covered_def mult_ac)
  then show ?thesis by (simp add: div_mult2_eq [symmetric] less_mult_imp_div_less)
qed

lemma cluster_ensure_eq:
  assumes "covered fi f" and "unat (cf_cursor f) < unat (cf_size f)"
  shows "cluster_ensure dk fi f =
    (let s = cluster_sector fi (cf_clusters f) (unat (cf_cursor f))
     in Inr (if uint s \<noteq> cf_pos f then f\<lparr>cf_buf := dk s, cf_pos := uint s\<rparr> else f))"
proof -
  let ?spc = "ucast (sectors_per_cluster fi) :: u32"
  have spc: "(of_nat (unat (sectors_per_cluster fi)) :: u32) = ?spc" by simp
  have i: "unat (cf_cursor f div 512 div ?spc) = unat (cf_cursor f) div 512 div unat (sectors_per_cluster fi)"
    and m: "of_nat (unat (cf_cursor f) div 512 mod unat (sectors_per_cluster fi)) = cf_cursor f div 512 mod ?spc"
    by (simp_all add: unat_div word_arith_nat_mod)
  show ?thesis
    using covered_index [OF assms] by (simp add: cluster_ensure_def Let_def i cluster_sector_def m spc)
qed

lemma cluster_getc_step:
  assumes "cluster_coherent dk f" and "covered fi f" and "unat (cf_cursor f) < unat (cf_size f)"
  shows "\<exists>f'. cluster_getc dk fi f = Inr (uint (cluster_contents dk fi f ! unat (cf_cursor f)), f') \<and> cluster_coherent dk f' \<and>
    cf_cursor f' = cf_cursor f + 1 \<and> cf_clusters f' = cf_clusters f \<and> cf_size f' = cf_size f \<and> cf_mode f' = cf_mode f"
  using assms
  by (auto simp: cluster_getc_def cluster_ensure_eq Let_def not_le word_less_nat_alt cluster_contents_def unat_mod_512
      cluster_coherent_def)

lemma cluster_read_loop: "read_loop (cluster_getc dk fi) n f = cluster_read dk fi n f"
  by (induction n arbitrary: f) (simp_all split: sum.split prod.split)

interpretation cluster_stream: byte_stream "cluster_getc dk fi" cf_cursor cf_size "cluster_contents dk fi"
  "\<lambda>f. cluster_coherent dk f \<and> covered fi f" "\<lambda>f f'. cf_clusters f' = cf_clusters f \<and> cf_size f' = cf_size f \<and> cf_mode f' = cf_mode f"
proof (unfold_locales, goal_cases)
  case (2 f)
  from cluster_getc_step [of dk f fi] this show ?case by (force simp: cluster_contents_def covered_def)
next
  case (3 f)
  then show ?case by (simp add: cluster_getc_def word_le_nat_alt)
qed (simp_all add: cluster_contents_def)

lemma cluster_read_contents:
  assumes "cluster_coherent dk f" and "covered fi f"
  shows "\<exists>f'. cluster_read dk fi n f = Inr (take n (drop (unat (cf_cursor f)) (cluster_contents dk fi f)), f') \<and>
    cluster_coherent dk f' \<and> unat (cf_cursor f') = max (unat (cf_cursor f)) (min (unat (cf_cursor f) + n) (unat (cf_size f))) \<and>
    cf_clusters f' = cf_clusters f \<and> cf_size f' = cf_size f \<and> cf_mode f' = cf_mode f"
  using cluster_stream.read_contents [of dk f fi n] assms by (auto simp: cluster_read_loop)

section \<open>Cluster chains\<close>

text \<open>The entry of a cluster in the allocation table, and the chain that starts at a cluster.\<close>

definition fat_entry :: "disk \<Rightarrow> seqfile \<Rightarrow> u16 \<Rightarrow> u16" where
  "fat_entry dk f c = le16 (seq_contents dk f) (2 * unat c)"

fun is_chain :: "(u16 \<Rightarrow> u16) \<Rightarrow> u16 \<Rightarrow> u16 list \<Rightarrow> bool" where
  "is_chain nxt c [] \<longleftrightarrow> \<not> c < CLUSTER_END"
| "is_chain nxt c (d # ds) \<longleftrightarrow> d = c \<and> c < CLUSTER_END \<and> is_chain nxt (nxt c) ds"

definition in_table :: "seqfile \<Rightarrow> u16 list \<Rightarrow> bool" where
  "in_table f cs \<longleftrightarrow> (\<forall>c \<in> set cs. 2 * unat c + 2 \<le> unat (sq_size f))"

definition same_table :: "disk \<Rightarrow> seqfile \<Rightarrow> seqfile \<Rightarrow> bool" where
  "same_table dk f f' \<longleftrightarrow> seq_coherent dk f' \<and> sq_begin f' = sq_begin f \<and> sq_size f' = sq_size f \<and> sq_end f' = sq_end f"

lemma same_table_entry: "same_table dk f f' \<Longrightarrow> fat_entry dk f' = fat_entry dk f" "same_table dk f f' \<Longrightarrow> in_table f' cs = in_table f cs"
  by (simp_all add: same_table_def fat_entry_def in_table_def seq_contents_def fun_eq_iff)

lemma same_table_trans: "same_table dk f g \<Longrightarrow> same_table dk g h \<Longrightarrow> same_table dk f h"
  by (simp add: same_table_def)

lemma unat_lt16: "unat (c :: u16) < 65536"
  using unsigned_less [of c, where ?'a = nat] by simp

lemma fat_cursor: "unat (ucast (ucast (c :: u16) * 2 :: u64) :: u32) = 2 * unat c"
proof -
  have c: "unat c < 65536" by (rule unat_lt16)
  have "unat (ucast c :: u64) = unat c" using c by (simp add: unsigned_ucast_eq take_bit_nat_eq_self)
  then have "unat (ucast c * 2 :: u64) = 2 * unat c" using c by (simp add: unat_word_ariths)
  then show ?thesis using c by (simp add: unsigned_ucast_eq take_bit_nat_eq_self)
qed

lemma take_2_drop: "i + 2 \<le> length xs \<Longrightarrow> take 2 (drop i xs) = [xs ! i, xs ! (i + 1)]"
  using drop_nth_Cons [of i xs] drop_nth_Cons [of "Suc i" xs] by (simp add: numeral_2_eq_2)

lemma fat_next_eq:
  assumes "seq_coherent dk f" and "2 * unat c + 2 \<le> unat (sq_size f)"
  shows "\<exists>f'. fat_next dk c f = (fat_entry dk f c, f') \<and> same_table dk f f'"
proof -
  let ?f = "seq_seek (ucast c * 2) SEEK_SET f"
  have f: "seq_coherent dk ?f" "unat (sq_cursor ?f) = 2 * unat c" "seq_contents dk ?f = seq_contents dk f"
    "sq_begin ?f = sq_begin f" "sq_size ?f = sq_size f" "sq_end ?f = sq_end f"
    using assms(1) fat_cursor [of c] by (simp_all add: seq_seek_def seek_to_def seq_coherent_def seq_contents_def)
  have "take 2 (drop (2 * unat c) (seq_contents dk f)) = [seq_contents dk f ! (2 * unat c), seq_contents dk f ! (2 * unat c + 1)]"
    using assms(2) by (intro take_2_drop) (simp add: seq_contents_def)
  with seq_read_contents [OF f(1), of 2] f show ?thesis
    by (auto simp: fat_next_def fat_entry_def le16_def same_table_def)
qed

lemma chain_count_eq:
  assumes "seq_coherent dk f" and "is_chain (fat_entry dk f) now cs" and "in_table f cs"
  shows "\<exists>f'. chain_count dk spc mode now count sz f =
      Some (count + of_nat (length cs), if mode = F_DIR then sz + of_nat (length cs) * (ucast spc * 512) else sz, f') \<and>
    same_table dk f f'"
  using assms
proof (induction cs arbitrary: now count sz f)
  case Nil
  then show ?case by (subst chain_count.simps) (simp add: same_table_def)
next
  case (Cons c cs)
  then have c: "c = now" "now < CLUSTER_END" "is_chain (fat_entry dk f) (fat_entry dk f now) cs"
    "2 * unat now + 2 \<le> unat (sq_size f)" "in_table f cs"
    by (auto simp: in_table_def)
  from fat_next_eq [OF Cons.prems(1) c(4)] obtain f1 where f1: "fat_next dk now f = (fat_entry dk f now, f1)" "same_table dk f f1"
    by blast
  have "seq_coherent dk f1" using f1(2) by (simp add: same_table_def)
  from Cons.IH [OF this, of "fat_entry dk f now" "count + 1" "if mode = F_DIR then sz + ucast spc * 512 else sz"] c f1
  show ?case
    by (subst chain_count.simps) (auto simp: same_table_entry algebra_simps intro: same_table_trans)
qed

lemma chain_store_eq:
  assumes "seq_coherent dk f" and "is_chain (fat_entry dk f) now cs" and "in_table f cs"
    and "uint num = uint count + int (length cs)" and "uint num * uint spc * 512 \<le> uint sz" and "spc \<noteq> 0"
  shows "\<exists>f'. chain_store dk spc num sz now count f = Some (Inr (cs, f')) \<and> same_table dk f f'"
  using assms
proof (induction cs arbitrary: now count f)
  case Nil
  then show ?case by (subst chain_store.simps) (simp add: same_table_def)
next
  case (Cons c cs)
  then have c: "c = now" "now < CLUSTER_END" "is_chain (fat_entry dk f) (fat_entry dk f now) cs"
    "2 * unat now + 2 \<le> unat (sq_size f)" "in_table f cs"
    by (auto simp: in_table_def)
  from fat_next_eq [OF Cons.prems(1) c(4)] obtain f1 where f1: "fat_next dk now f = (fat_entry dk f now, f1)" "same_table dk f f1"
    by blast
  have lt: "count < num" using Cons.prems(4) by (simp add: word_less_def)
  have n1: "uint (count + 1) = uint count + 1"
    using unat_succ [OF lt] by (metis of_nat_Suc uint_nat add.commute)
  have "0 < uint spc" using Cons.prems(6) by (simp add: less_le uint_0_iff)
  then have "uint count * uint spc * 512 < uint num * uint spc * 512" using Cons.prems(4) by simp
  then have go: "uint count * uint spc * 512 < uint sz" using Cons.prems(5) by linarith
  have "seq_coherent dk f1" using f1(2) by (simp add: same_table_def)
  from Cons.IH [OF this, of "fat_entry dk f now" "count + 1"] Cons.prems c f1 n1 lt go show ?case
    by (subst chain_store.simps) (auto simp: same_table_entry intro: same_table_trans)
qed

text \<open>The constructor on a finite chain: it terminates and stores the chain.\<close>

lemma ClusterFile_chain:
  assumes coh: "seq_coherent dk (fat_file fs)" and chain: "is_chain (fat_entry dk (fat_file fs)) (ucast start) cs"
    and tab: "in_table (fat_file fs) cs" and spc: "sectors_per_cluster (fs_info fs) \<noteq> 0"
    and L: "L = length cs * (unat (sectors_per_cluster (fs_info fs)) * 512)" "L < 4294967296"
  shows "\<exists>fs'. ClusterFile dk start sz mode fs = Some (Inr (\<lparr>cf_start = start, cf_cursor = 0, cf_num = of_nat (length cs),
      cf_size = (if mode = F_DIR then of_nat L else max sz (of_nat L)), cf_mode = mode, cf_clusters = cs, cf_pos = - 1,
      cf_buf = replicate 512 0\<rparr>, fs')) \<and> fs_info fs' = fs_info fs \<and> same_table dk (fat_file fs) (fat_file fs')"
proof -
  let ?spc = "sectors_per_cluster (fs_info fs)" and ?num = "of_nat (length cs) :: u32"
  let ?sz = "if mode = F_DIR then 0 else sz"
  have Lw: "?num * ucast ?spc * 512 = of_nat L"
    using L(1) by (simp add: mult.assoc)
  have "length cs * 1 \<le> L" unfolding L(1) using spc by (intro mult_le_mono2) (simp add: Suc_le_eq unat_gt_0)
  with L(2) have len: "length cs < 4294967296" by simp
  have "int L = int (length cs) * uint ?spc * 512" unfolding L(1) by (simp add: mult.assoc)
  then have uL: "uint (of_nat L :: u32) = uint ?num * uint ?spc * 512"
    using L(2) len by (simp add: uint_of_nat32)
  from chain_count_eq [OF coh chain tab, of ?spc mode 0 ?sz] obtain f1 where
    count: "chain_count dk ?spc mode (ucast start) 0 ?sz (fat_file fs) =
      Some (?num, if mode = F_DIR then of_nat L else sz, f1)" "same_table dk (fat_file fs) f1"
    using Lw by (auto simp: mult.assoc split: if_splits)
  define sz' where "sz' = (if mode = F_DIR then of_nat L else max sz (of_nat L))"
  have le: "of_nat L \<le> sz'" by (simp add: sz'_def)
  then have "uint ?num * uint ?spc * 512 \<le> uint sz'" by (simp add: uL [symmetric] word_le_def)
  moreover have "seq_coherent dk f1" using count(2) by (simp add: same_table_def)
  ultimately obtain f2 where
    store: "chain_store dk ?spc ?num sz' (ucast start) 0 f1 = Some (Inr (cs, f2))" "same_table dk f1 f2"
    using chain_store_eq [of dk f1 "ucast start" cs ?num 0 ?spc sz'] chain tab spc count(2) len
    by (auto simp: same_table_entry uint_of_nat32)
  have bump: "(if ?num * ucast ?spc * 512 > (if mode = F_DIR then of_nat L else sz) then ?num * ucast ?spc * 512
      else (if mode = F_DIR then of_nat L else sz)) = sz'"
    unfolding Lw sz'_def by (auto simp: max_def)
  show ?thesis
    unfolding ClusterFile_def Let_def count(1)
    using store bump same_table_trans [OF count(2) store(2)] by (simp add: sz'_def)
qed

section \<open>Directory listings\<close>

text \<open>The bytes of a file of either kind, and its cursor.\<close>

fun file_contents :: "disk \<Rightarrow> fsinfo \<Rightarrow> kfile \<Rightarrow> u8 list" where
  "file_contents dk fi (Sequential f) = seq_contents dk f"
| "file_contents dk fi (Cluster f) = cluster_contents dk fi f"

fun file_ok :: "disk \<Rightarrow> fsinfo \<Rightarrow> kfile \<Rightarrow> bool" where
  "file_ok dk fi (Sequential f) = seq_coherent dk f"
| "file_ok dk fi (Cluster f) = (cluster_coherent dk f \<and> covered fi f)"

fun file_cursor :: "kfile \<Rightarrow> nat" where
  "file_cursor (Sequential f) = unat (sq_cursor f)"
| "file_cursor (Cluster f) = unat (cf_cursor f)"

lemma file_read_contents:
  assumes "file_ok dk fi f"
  shows "\<exists>f'. file_read dk fi n f = Inr (take n (drop (file_cursor f) (file_contents dk fi f)), f') \<and> file_ok dk fi f' \<and>
    file_contents dk fi f' = file_contents dk fi f \<and> file_stat f' = file_stat f \<and>
    file_cursor f' = max (file_cursor f) (min (file_cursor f + n) (length (file_contents dk fi f)))"
proof (cases f)
  case (Sequential g)
  with assms seq_read_contents [of dk g n] show ?thesis by (auto simp: seq_contents_def)
next
  case (Cluster g)
  with assms cluster_read_contents [of dk g fi n] show ?thesis by (auto simp: cluster_contents_def covered_def)
qed

lemma file_rewind:
  "file_ok dk fi f \<Longrightarrow> file_ok dk fi (file_seek 0 SEEK_SET f)" "file_cursor (file_seek 0 SEEK_SET f) = 0"
  "file_contents dk fi (file_seek 0 SEEK_SET f) = file_contents dk fi f" "file_stat (file_seek 0 SEEK_SET f) = file_stat f"
  by (cases f; simp add: seq_seek_def cluster_seek_def seek_to_def seq_coherent_def cluster_coherent_def covered_def
      seq_contents_def cluster_contents_def)+

text \<open>The 32-byte records up to the first one that starts with 0.\<close>

function dir_records :: "u8 list \<Rightarrow> u8 list list" where
  "dir_records xs = (if length xs < 32 \<or> xs ! 0 = 0 then [] else take 32 xs # dir_records (drop 32 xs))"
  by pat_completeness auto
termination by (relation "measure length") auto

declare dir_records.simps [simp del]

definition listed :: "u8 list \<Rightarrow> u8 list list" where
  "listed xs = filter entry_listed (dir_records xs)"

lemma dir_pass_listed:
  assumes "file_ok dk fi f" and "xs = drop (file_cursor f) (file_contents dk fi f)"
    and "\<forall>n. bound = Some n \<longrightarrow> count + length (listed xs) \<le> n"
  shows "\<exists>f'. dir_pass dk fi bound count f = Some (Inr (listed xs, f')) \<and> file_ok dk fi f' \<and>
    file_contents dk fi f' = file_contents dk fi f \<and> file_stat f' = file_stat f"
  using assms
proof (induction xs arbitrary: f count rule: dir_records.induct)
  case (1 xs)
  from file_read_contents [OF "1.prems"(1), of 32] "1.prems"(2) obtain g where
    g: "file_read dk fi 32 f = Inr (take 32 xs, g)" "file_ok dk fi g" "file_contents dk fi g = file_contents dk fi f"
    "file_stat g = file_stat f"
    "file_cursor g = max (file_cursor f) (min (file_cursor f + 32) (length (file_contents dk fi f)))" by blast
  show ?case
  proof (cases "length xs < 32 \<or> xs ! 0 = 0")
    case True
    then have "listed xs = []" by (simp add: listed_def dir_records.simps)
    with True g show ?thesis by (subst dir_pass.simps) auto
  next
    case False
    let ?e = "take 32 xs"
    have "file_cursor f + 32 \<le> length (file_contents dk fi f)" using False "1.prems"(2) by (simp, arith)
    then have "file_cursor g = file_cursor f + 32" using g(5) by simp
    then have rest: "drop 32 xs = drop (file_cursor g) (file_contents dk fi g)"
      using "1.prems"(2) g(3) by (simp add: add.commute)
    have ls: "listed xs = (if entry_listed ?e then ?e # listed (drop 32 xs) else listed (drop 32 xs))"
      using False by (simp add: listed_def dir_records.simps [of xs])
    have le: "\<forall>n. bound = Some n \<longrightarrow> (if entry_listed ?e then count + 1 else count) + length (listed (drop 32 xs)) \<le> n"
      using "1.prems"(3) ls by auto
    from "1.IH" [OF False g(2) rest le] g ls le False show ?thesis
      by (subst dir_pass.simps) (auto split: option.splits)
  qed
qed

lemma dir_init_listed:
  assumes "file_ok dk fi f"
  shows "\<exists>f'. dir_init dk fi f = Some (Inr \<lparr>dir_file = f', infos = map entry_info (listed (file_contents dk fi f))\<rparr>) \<and>
    file_ok dk fi f' \<and> file_contents dk fi f' = file_contents dk fi f \<and> file_stat f' = file_stat f"
proof -
  from dir_pass_listed [OF file_rewind(1) [OF assms] refl, of None 0] obtain g where
    g: "dir_pass dk fi None 0 (file_seek 0 SEEK_SET f) = Some (Inr (listed (file_contents dk fi f), g))" "file_ok dk fi g"
    "file_contents dk fi g = file_contents dk fi f" "file_stat g = file_stat f" by (auto simp: file_rewind)
  from dir_pass_listed [OF file_rewind(1) [OF g(2)] refl, of "Some (length (listed (file_contents dk fi f)))" 0] g(3,4)
  obtain h where "dir_pass dk fi (Some (length (listed (file_contents dk fi f)))) 0 (file_seek 0 SEEK_SET g) =
      Some (Inr (listed (file_contents dk fi f), h))" "file_ok dk fi h"
    "file_contents dk fi h = file_contents dk fi f" "file_stat h = file_stat f" by (auto simp: file_rewind)
  with g show ?thesis by (auto simp: dir_init_def)
qed

lemma getRootDirectory_listed:
  "\<exists>f'. getRootDirectory dk fs = Some (Inr \<lparr>dir_file = f', infos = map entry_info (listed (file_contents dk (fs_info fs)
      (Sequential (SequentialFile (first_data_sector (fs_info fs) - root_dir_sectors (fs_info fs)) (first_data_sector (fs_info fs))))))\<rparr>)"
  using dir_init_listed [of dk "fs_info fs" "Sequential (SequentialFile (first_data_sector (fs_info fs) - root_dir_sectors (fs_info fs))
      (first_data_sector (fs_info fs)))"]
  by (auto simp: getRootDirectory_def Let_def seq_coherent_def SequentialFile_def)

text \<open>A path of one component is looked up in the root directory.\<close>

lemma openFile_component:
  assumes "name \<noteq> []" and "slash \<notin> set name" and "length name \<le> MAX_FILENAME_LENGTH"
    and root: "getRootDirectory dk fs = Some (Inr d)"
  shows "openFile dk None (slash # name) fs = Directory_openFile dk name d fs"
proof -
  have n: "takeWhile (\<lambda>x. x \<noteq> slash) name = name" "dropWhile (\<lambda>x. x \<noteq> slash) name = []"
    using assms(2) by (auto simp: takeWhile_eq_all_conv)
  have h: "dropWhile (\<lambda>x. x = slash) (slash # name) = name"
    using assms(1,2) by (cases name) auto
  have ret: "(\<lambda>(fo, fs). case fo of None \<Rightarrow> Some (Inr (None, fs)) | Some f \<Rightarrow> Some (Inr (Some f, fs))) =
      (\<lambda>r. Some (Inr r) :: (kfile option \<times> fatfs) outcome option)"
    by (auto simp: fun_eq_iff split: option.split)
  have len: "\<not> MAX_FILENAME_LENGTH < length name" using assms(3) by simp
  have "path_loop dk name f d fs = Directory_openFile dk name d fs" for f
    by (subst path_loop.simps) (simp only: assms(1) n len refl ret Let_def if_False if_True and_then_return)
  then show ?thesis unfolding openFile_def option.case root and_then.simps h .
qed

section \<open>Properties\<close>

text \<open>
  A file is the bytes of its cluster chain. When the chain of allocation table entries from its first cluster is finite and lies in
  the table, opening the file terminates, with a size of at least the size of all clusters; and if the size in the
  directory entry fits the chain, reading \<open>n\<close> bytes returns the first \<open>n\<close> of the chain's bytes, sector by sector,
  whatever sector the cache held before.
\<close>

theorem fat_file_contents:
  assumes "seq_coherent dk (fat_file fs)" and "is_chain (fat_entry dk (fat_file fs)) (ucast start) cs"
    and "in_table (fat_file fs) cs" and "sectors_per_cluster (fs_info fs) \<noteq> 0"
    and "L = length cs * (unat (sectors_per_cluster (fs_info fs)) * 512)" and "L < 4294967296" and "unat sz \<le> L"
  shows "\<exists>f fs' f'. ClusterFile dk start sz mode fs = Some (Inr (f, fs')) \<and> same_table dk (fat_file fs) (fat_file fs') \<and>
    unat (cf_size f) = L \<and>
    cluster_read dk (fs_info fs) n f =
      Inr (take n (map (\<lambda>i. dk (cluster_sector (fs_info fs) cs i) ! (i mod 512)) [0..<L]), f')"
proof -
  from ClusterFile_chain [OF assms(1-6), of sz mode] obtain f fs' where f:
    "ClusterFile dk start sz mode fs = Some (Inr (f, fs'))" "same_table dk (fat_file fs) (fat_file fs')"
    "cf_size f = (if mode = F_DIR then of_nat L else max sz (of_nat L))" "cf_clusters f = cs" "cf_cursor f = 0" "cf_pos f = - 1"
    by auto
  have "sz \<le> of_nat L" using assms(6,7) by (simp add: word_le_nat_alt)
  then have sz: "unat (cf_size f) = L" using f(3) assms(6) by (simp add: max_absorb2)
  then have "cluster_coherent dk f" "covered (fs_info fs) f" using f(4,6) assms(5) by (simp_all add: cluster_coherent_def covered_def)
  from cluster_read_contents [OF this, of n] obtain f' where
    "cluster_read dk (fs_info fs) n f = Inr (take n (cluster_contents dk (fs_info fs) f), f')" using f(5) by auto
  with f sz show ?thesis by (auto simp: cluster_contents_def)
qed

text \<open>A small disk: the table is sector 1, the root directory sector 2, clusters start at sector 3 and have one sector each.\<close>

definition demo_disk :: disk where
  "demo_disk s =
     (if s = 1 then [0, 0, 0, 0, 3, 0, 0xFF, 0xFF] @ replicate 504 0
      else if s = 2 then map of_char ''SH      ELF'' @ [0x20] @ [0, 0, 0, 0, 0, 0, 0, 0, 0, 0, 0, 0, 0, 0, 2, 0, 0x58, 2, 0, 0] @ replicate 480 0
      else replicate 512 (ucast s))"

definition demo_fs :: fatfs where
  "demo_fs = \<lparr>fs_info = \<lparr>bytes_per_sector = 512, sectors_per_cluster = 1, fat_num = 1, root_directory_entry_num = 16,
       sectors_per_fat = 1, hidden_sectors = 1, total_sectors = 5000, fat_size = 1, root_dir_sectors = 1,
       first_data_sector = 3, first_fat_sector = 1, data_sectors = 4997, total_clusters = 4997\<rparr>,
     fat_file = SequentialFile 1 2\<rparr>"

lemma demo_entry: "fat_entry demo_disk (fat_file demo_fs) 2 = 3" "fat_entry demo_disk (fat_file demo_fs) 3 = 0xFFFF"
  by (simp_all add: demo_fs_def SequentialFile_def fat_entry_def seq_contents_def demo_disk_def le16_def nth_append)

lemma demo_chain: "is_chain (fat_entry demo_disk (fat_file demo_fs)) 2 [2, 3]" "in_table (fat_file demo_fs) [2, 3]"
  "seq_coherent demo_disk (fat_file demo_fs)" "sectors_per_cluster (fs_info demo_fs) = 1"
  by (simp add: demo_entry CLUSTER_END_def) (simp_all add: demo_fs_def SequentialFile_def in_table_def seq_coherent_def)

theorem fat_file_contents_witness:
  "\<exists>f fs' f' xs. ClusterFile demo_disk 2 600 F_REG demo_fs = Some (Inr (f, fs')) \<and> unat (cf_size f) = 1024 \<and>
     cluster_read demo_disk (fs_info demo_fs) 600 f = Inr (xs, f') \<and> length xs = 600 \<and> xs ! 0 = 3 \<and> xs ! 599 = 4"
proof -
  have "is_chain (fat_entry demo_disk (fat_file demo_fs)) (ucast (2 :: u32)) [2, 3]"
    by (simp add: demo_entry CLUSTER_END_def)
  from fat_file_contents [OF demo_chain(3) this demo_chain(2), of 1024 600 F_REG 600] obtain f fs' f' where
    "ClusterFile demo_disk 2 600 F_REG demo_fs = Some (Inr (f, fs'))" "unat (cf_size f) = 1024"
    "cluster_read demo_disk (fs_info demo_fs) 600 f = Inr (take 600 (map (\<lambda>i. demo_disk
      (cluster_sector (fs_info demo_fs) [2, 3] i) ! (i mod 512)) [0..<1024]), f')"
    by (auto simp: demo_chain(4))
  moreover have "take 600 (map (\<lambda>i. demo_disk (cluster_sector (fs_info demo_fs) [2, 3] i) ! (i mod 512)) [0..<1024]) ! k =
      demo_disk (cluster_sector (fs_info demo_fs) [2, 3] k) ! (k mod 512)" if "k < 600" for k using that by simp
  then have "take 600 (map (\<lambda>i. demo_disk (cluster_sector (fs_info demo_fs) [2, 3] i) ! (i mod 512)) [0..<1024]) ! 0 = 3"
    "take 600 (map (\<lambda>i. demo_disk (cluster_sector (fs_info demo_fs) [2, 3] i) ! (i mod 512)) [0..<1024]) ! 599 = 4"
    by (simp_all add: cluster_sector_def demo_fs_def demo_disk_def)
  ultimately show ?thesis by (auto intro!: exI)
qed

text \<open>
  A file of the root directory is found by its name, in either case. A path \<open>/name\<close> with a name of at most 15
  characters opens the first listed entry of the root directory (no volume label, not hidden, not deleted, before
  the end mark) whose 8.3 name is equal to it up to upper and lower case, and opening returns no file when
  there is none.
\<close>

theorem fat_root_lookup:
  fixes fs dk
  defines "root \<equiv> seq_contents dk (SequentialFile (first_data_sector (fs_info fs) - root_dir_sectors (fs_info fs))
      (first_data_sector (fs_info fs)))"
  assumes "name \<noteq> []" and "slash \<notin> set name" and "length name \<le> MAX_FILENAME_LENGTH"
  shows "openFile dk None (slash # name) fs =
    (case List.find (\<lambda>i. folded (filename i) = folded name) (map entry_info (listed root)) of
       None \<Rightarrow> Some (Inr (None, fs))
     | Some i \<Rightarrow> and_then (ClusterFile dk (cluster i) (filesize i) (if directory i then F_DIR else F_REG) fs)
                  (\<lambda>(f, fs). Some (Inr (Some (Cluster f), fs))))"
proof -
  from getRootDirectory_listed [of dk fs] obtain f' where
    d: "getRootDirectory dk fs = Some (Inr \<lparr>dir_file = f', infos = map entry_info (listed root)\<rparr>)"
    by (auto simp: root_def)
  from openFile_component [OF assms(2-4) d] show ?thesis
    by (simp add: Directory_openFile_def Directory_find_def)
qed

lemma demo_root: "map entry_info (listed (seq_contents demo_disk (SequentialFile 2 3))) =
    [\<lparr>filename = map of_char ''SH.ELF'', directory = False, filesize = 600, cluster = 2\<rparr>]"
proof -
  let ?c = "seq_contents demo_disk (SequentialFile 2 3)"
  have c: "?c = demo_disk 2"
    by (rule nth_equalityI) (simp_all add: seq_contents_def SequentialFile_def demo_disk_def)
  have r: "dir_records ?c = [take 32 (demo_disk 2)]"
    unfolding c by (subst dir_records.simps, subst dir_records.simps) (simp add: demo_disk_def)
  show ?thesis
    unfolding listed_def r by (simp add: demo_disk_def entry_listed_def entry_info_def name_part_def le16_def le32_def Let_def)
qed

theorem fat_root_lookup_witness:
  "openFile demo_disk None (slash # map of_char ''sh.elf'') demo_fs =
     and_then (ClusterFile demo_disk 2 600 F_REG demo_fs) (\<lambda>(f, fs). Some (Inr (Some (Cluster f), fs)))"
proof -
  have "seq_contents demo_disk (SequentialFile (first_data_sector (fs_info demo_fs) - root_dir_sectors (fs_info demo_fs))
      (first_data_sector (fs_info demo_fs))) = seq_contents demo_disk (SequentialFile 2 3)"
    by (simp add: demo_fs_def)
  then show ?thesis
    using fat_root_lookup [of "map of_char ''sh.elf''" demo_disk demo_fs]
    by (simp add: demo_root MAX_FILENAME_LENGTH_def tolower_def isupper_def uint_word_of_int)
qed

end
