(* ===== verification/Kernel.thy ===== *)
theory Kernel
  imports Devices Fat16
begin

text \<open>
  The kernel's processes and the objects they own: \<^verbatim>\<open>src/objects/Process.cpp\<close>, \<^verbatim>\<open>src/objects/BlockInputDevice.cpp\<close>,
  \<^verbatim>\<open>src/objects/SpecialPathManager.cpp\<close>, \<^verbatim>\<open>src/resche.cpp\<close>. All state is one record. A \<open>shared_ptr\<close> to an object is the
  number under which the object store has it, and an object leaves the store when the last pointer to it goes; a
  \<open>Process *\<close> is the number of the process, its index in the process list.
\<close>

section \<open>State\<close>

text \<open>\<open>tss_entry_struct_t\<close> of \<^verbatim>\<open>inc/protected_mode.hpp\<close>: the registers of a task.\<close>

record tss =
  t_prev_tss :: u32
  t_esp0 :: u32
  t_ss0 :: u32
  t_esp1 :: u32
  t_ss1 :: u32
  t_esp2 :: u32
  t_ss2 :: u32
  t_cr3 :: u32
  t_eip :: u32
  t_eflags :: u32
  t_eax :: u32
  t_ecx :: u32
  t_edx :: u32
  t_ebx :: u32
  t_esp :: u32
  t_ebp :: u32
  t_esi :: u32
  t_edi :: u32
  t_es :: u32
  t_cs :: u32
  t_ss :: u32
  t_ds :: u32
  t_fs :: u32
  t_gs :: u32
  t_ldt :: u32
  t_trap :: u16
  t_iomap_base :: u16
  t_redirect :: "u8 list"

datatype proc_state = PROCESS_STATE_RUNNABLE | PROCESS_STATE_SLEEPING
datatype sche_type = PROCESS_SCHE_NORMAL | PROCESS_SCHE_IDLE

definition PROCESS_MAX_OBJECTS :: nat where "PROCESS_MAX_OBJECTS = 128"
definition PROCESS_NORMAL_OBJECT_BEGIN :: nat where "PROCESS_NORMAL_OBJECT_BEGIN = 3"
definition PROCESS_SEGMENT_BEGIN :: nat where "PROCESS_SEGMENT_BEGIN = 112"
definition PROCESS_STACK_BACKUP_SIZE :: nat where "PROCESS_STACK_BACKUP_SIZE = 128"
definition PROCESS_STACK_SIZE :: u32 where "PROCESS_STACK_SIZE = 8192"
definition PROCESS_USER_IMAGE_SPACE :: u32 where "PROCESS_USER_IMAGE_SPACE = 640 * 1024"
definition MAX_BLOCK_INPUT_DEVICE_NUM :: nat where "MAX_BLOCK_INPUT_DEVICE_NUM = 64"
definition PROCESS_TICKS :: u32 where "PROCESS_TICKS = 30"

record process =
  proc_pid :: nat
  ppid :: int
  process_state :: proc_state
  process_sche_type :: sche_type
  stack_top_backup :: u32
  stack_backup :: "u8 list option"
  usermode_state :: tss
  objects :: "nat option list"

text \<open>A read that waits for data, \<open>PendingRead\<close>, and the objects that a process can own.\<close>

record pending_read =
  pr_proc :: nat
  pr_buffer :: addr
  pr_size :: u32

datatype kobject =
    Blocking device "pending_read list"
  | FileObject kfile
  | SegmentObject u32 u32

record kernel =
  kmem :: mem
  process_list :: "process option list"
  current_process :: nat
  user_tss :: tss
  objs :: "nat \<Rightarrow> kobject option"
  next_obj :: nat
  devices :: "nat option list"
  special_paths :: "(u8 list \<times> nat option) list"
  static_refs :: "nat list"
  wait_instance :: nat
  pit_ticks :: u64
  resche_counter :: u32
  rootfs :: fatfs
  rootdisk :: disk
  user_stack_pos :: addr
  kernel_stack_pos :: addr
  user_space_start :: addr

text \<open>What the C++ code throws; the exceptions that no handler catches stop the machine.\<close>

datatype exn = ProcessLimitExceeded | ObjectLimitExceeded | InvalidObject | InvalidSection | BlockInputDeviceLimitExceeded

section \<open>Processes\<close>

definition getProcess :: "nat \<Rightarrow> kernel \<Rightarrow> process option" where
  "getProcess p k = process_list k ! p"

definition alive :: "kernel \<Rightarrow> nat \<Rightarrow> bool" where
  "alive k p \<longleftrightarrow> p < MAX_PROCESS_NUM \<and> getProcess p k \<noteq> None"

definition upd_proc :: "nat \<Rightarrow> (process \<Rightarrow> process) \<Rightarrow> kernel \<Rightarrow> kernel" where
  "upd_proc p f k = k\<lparr>process_list := (process_list k)[p := map_option f (process_list k ! p)]\<rparr>"

definition setProcessState :: "nat \<Rightarrow> proc_state \<Rightarrow> kernel \<Rightarrow> kernel" where
  "setProcessState p st = upd_proc p (process_state_update (\<lambda>_. st))"

definition setProcessScheType :: "nat \<Rightarrow> sche_type \<Rightarrow> kernel \<Rightarrow> kernel" where
  "setProcessScheType p st = upd_proc p (process_sche_type_update (\<lambda>_. st))"

definition syscall_set_retval :: "nat \<Rightarrow> u64 \<Rightarrow> kernel \<Rightarrow> kernel" where
  "syscall_set_retval p ret = upd_proc p (\<lambda>pr. pr\<lparr>usermode_state := (usermode_state pr)\<lparr>t_eax := ucast ret, t_edx := ucast (drop_bit 32 ret)\<rparr>\<rparr>)"

definition enterKernelMode :: "kernel \<Rightarrow> kernel" where
  "enterKernelMode k = upd_proc (current_process k) (\<lambda>pr. pr\<lparr>usermode_state := user_tss k\<rparr>) k"

definition leaveKernelMode :: "kernel \<Rightarrow> kernel" where
  "leaveKernelMode k =
     (case getProcess (current_process k) k of None \<Rightarrow> k | Some pr \<Rightarrow> k\<lparr>user_tss := usermode_state pr\<rparr>)"

section \<open>Blocking reads\<close>

text \<open>
  \<open>BlockInputDeviceWrapper\<close>, for the read operation of any device: the device and the requests that wait for it. The
  array of requests has 32 elements and is not checked for overflow.
\<close>

type_synonym 'd reader = "nat \<Rightarrow> addr \<Rightarrow> u32 \<Rightarrow> 'd \<Rightarrow> mem \<Rightarrow> int \<times> 'd \<times> mem"
type_synonym 'd wrapper = "'d \<times> pending_read list"

definition do_read :: "'d reader \<Rightarrow> nat \<Rightarrow> addr \<Rightarrow> u32 \<Rightarrow> 'd wrapper \<Rightarrow> kernel \<Rightarrow> (int \<times> 'd wrapper \<times> kernel) outcome" where
  "do_read inp p buf sz w k =
     (let (d, pend) = w;
          (ret, d, m) = inp (current_process k) buf sz d (kmem k);
          k = k\<lparr>kmem := m\<rparr>
      in if ret = - EAGAIN then
           if \<not> length pend < MAX_PROCESS_NUM then Inl ''pending_request index out of bounds''
           else Inr (ret, (d, pend @ [\<lparr>pr_proc = p, pr_buffer = buf, pr_size = sz\<rparr>]), setProcessState p PROCESS_STATE_SLEEPING k)
         else Inr (ret, (d, pend), k))"

text \<open>The loop of \<open>check\<close>: it ends because a request can be queued again only while the array has room.\<close>

function check_loop :: "'d reader \<Rightarrow> nat \<Rightarrow> 'd wrapper \<Rightarrow> kernel \<Rightarrow> (nat \<times> 'd wrapper \<times> kernel) outcome" where
  "check_loop inp ind w k =
     (let (d, pend) = w
      in if ind < length pend then
           let (ret, d, m) = inp (current_process k) 0 0 d (kmem k);
               k = k\<lparr>kmem := m\<rparr>
           in if ret \<noteq> - EAGAIN then
                let now = pend ! ind; p = pr_proc now
                in if \<not> alive k p then Inl ''use of a deleted process''
                   else let k = setProcessState p PROCESS_STATE_RUNNABLE (k\<lparr>current_process := p\<rparr>)
                        in case do_read inp p (pr_buffer now) (pr_size now) (d, pend) k of
                             Inl e \<Rightarrow> Inl e
                           | Inr (ret, w, k) \<Rightarrow> check_loop inp (ind + 1) w (syscall_set_retval p (of_int ret) k)
              else Inr (ind, (d, pend), k)
         else Inr (ind, w, k))"
  by pat_completeness auto
termination
  by (relation "measure (\<lambda>(inp, ind, w, k). max MAX_PROCESS_NUM (length (snd w)) - ind)")
    (auto simp: do_read_def Let_def split: prod.splits if_splits)

declare check_loop.simps [simp del]

definition check :: "'d reader \<Rightarrow> 'd wrapper \<Rightarrow> kernel \<Rightarrow> ('d wrapper \<times> kernel) outcome" where
  "check inp w k =
     (case check_loop inp 0 w k of
        Inl e \<Rightarrow> Inl e
      | Inr (ind, (d, pend), k') \<Rightarrow> Inr ((d, drop ind pend), k'\<lparr>current_process := current_process k\<rparr>))"

definition onRemovedByOwner :: "nat \<Rightarrow> pending_read list \<Rightarrow> pending_read list" where
  "onRemovedByOwner owner pend =
     takeWhile (\<lambda>r. pr_proc r \<noteq> owner) pend @ tl (dropWhile (\<lambda>r. pr_proc r \<noteq> owner) pend)"

text \<open>\<open>checkAll\<close>: every registered device, in the order of the table.\<close>

definition check_device :: "nat \<Rightarrow> kernel \<Rightarrow> kernel outcome" where
  "check_device r k =
     (case objs k r of
        Some (Blocking d pend) \<Rightarrow>
          (case check (dev_read (pit_ticks k)) (d, pend) k of
             Inl e \<Rightarrow> Inl e
           | Inr ((d, pend), k) \<Rightarrow> Inr (k\<lparr>objs := (objs k)(r \<mapsto> Blocking d pend)\<rparr>))
      | _ \<Rightarrow> Inl ''use of a deleted device'')"

fun check_devices :: "nat option list \<Rightarrow> kernel \<Rightarrow> kernel outcome" where
  "check_devices [] k = Inr k"
| "check_devices (None # rs) k = check_devices rs k"
| "check_devices (Some r # rs) k = (case check_device r k of Inl e \<Rightarrow> Inl e | Inr k \<Rightarrow> check_devices rs k)"

definition checkAll :: "kernel \<Rightarrow> kernel outcome" where
  "checkAll k = check_devices (devices k) k"

section \<open>Ownership of objects\<close>

text \<open>
  Who holds a \<open>shared_ptr\<close>: the processes, the table of special paths, the static variables of the code, and \<open>held\<close>, the
  local variables of the function that runs. The object is destroyed when nobody does; the destructor of a
  blocking device takes it out of the table of devices.
\<close>

definition owns :: "process \<Rightarrow> nat \<Rightarrow> bool" where
  "owns pr r \<longleftrightarrow> Some r \<in> set (objects pr)"

definition referenced :: "nat list \<Rightarrow> nat \<Rightarrow> kernel \<Rightarrow> bool" where
  "referenced held r k \<longleftrightarrow>
     r \<in> set held \<or> r \<in> set (static_refs k) \<or> Some r \<in> set (map snd (special_paths k)) \<or>
     list_ex (\<lambda>po. case po of None \<Rightarrow> False | Some pr \<Rightarrow> owns pr r) (process_list k)"

definition collect :: "nat list \<Rightarrow> nat \<Rightarrow> kernel \<Rightarrow> kernel" where
  "collect held r k =
     (if referenced held r k then k
      else k\<lparr>objs := (objs k)(r := None), devices := map (\<lambda>d. if d = Some r then None else d) (devices k)\<rparr>)"

definition new_object :: "kobject \<Rightarrow> kernel \<Rightarrow> nat \<times> kernel" where
  "new_object ob k = (next_obj k, k\<lparr>objs := (objs k)(next_obj k \<mapsto> ob), next_obj := next_obj k + 1\<rparr>)"

text \<open>The constructor of a blocking device enters it into the first free place of the table.\<close>

definition new_device :: "device \<Rightarrow> kernel \<Rightarrow> exn + nat \<times> kernel" where
  "new_device d k =
     (case List.find (\<lambda>i. devices k ! i = None) [0..<MAX_BLOCK_INPUT_DEVICE_NUM] of
        None \<Rightarrow> Inl BlockInputDeviceLimitExceeded
      | Some i \<Rightarrow> let (r, k) = new_object (Blocking d []) k in Inr (r, k\<lparr>devices := (devices k)[i := Some r]\<rparr>))"

definition notify_removed :: "nat \<Rightarrow> nat \<Rightarrow> kernel \<Rightarrow> kernel" where
  "notify_removed p r k =
     (case objs k r of
        Some (Blocking d pend) \<Rightarrow> k\<lparr>objs := (objs k)(r \<mapsto> Blocking d (onRemovedByOwner p pend))\<rparr>
      | _ \<Rightarrow> k)"

definition set_slot :: "nat \<Rightarrow> nat \<Rightarrow> nat option \<Rightarrow> kernel \<Rightarrow> kernel" where
  "set_slot p pos ro = upd_proc p (\<lambda>pr. pr\<lparr>objects := (objects pr)[pos := ro]\<rparr>)"

definition removeObject :: "nat list \<Rightarrow> nat \<Rightarrow> nat \<Rightarrow> kernel \<Rightarrow> kernel" where
  "removeObject held p pos k =
     (case getProcess p k of
        None \<Rightarrow> k
      | Some pr \<Rightarrow>
          if pos < PROCESS_MAX_OBJECTS then
            (case objects pr ! pos of
               None \<Rightarrow> k
             | Some r \<Rightarrow> collect held r (set_slot p pos None (notify_removed p r k)))
          else k)"

fun is_segment :: "kobject option \<Rightarrow> bool" where
  "is_segment (Some (SegmentObject b s)) = True"
| "is_segment ob = False"

text \<open>The hook of a segment returns the segment itself, so every object is attached as it is.\<close>

definition addObject :: "nat \<Rightarrow> nat \<Rightarrow> kernel \<Rightarrow> exn + nat \<times> kernel" where
  "addObject p r k =
     (case getProcess p k of
        None \<Rightarrow> Inl InvalidObject
      | Some pr \<Rightarrow>
          (case List.find (\<lambda>i. objects pr ! i = None)
                 [if is_segment (objs k r) then PROCESS_SEGMENT_BEGIN else PROCESS_NORMAL_OBJECT_BEGIN..<PROCESS_MAX_OBJECTS] of
             None \<Rightarrow> Inl ObjectLimitExceeded
           | Some i \<Rightarrow> Inr (i, set_slot p i (Some r) k)))"

definition setObject :: "nat \<Rightarrow> nat \<Rightarrow> nat \<Rightarrow> kernel \<Rightarrow> int \<times> kernel" where
  "setObject p pos r k =
     (if \<not> pos < PROCESS_MAX_OBJECTS then (- 1, k)
      else (int pos, set_slot p pos (Some r) (removeObject [r] p pos k)))"

text \<open>\<open>getObject\<close> does not check its index.\<close>

definition getObject :: "nat \<Rightarrow> nat \<Rightarrow> kernel \<Rightarrow> nat option outcome" where
  "getObject p pos k =
     (if \<not> pos < PROCESS_MAX_OBJECTS then Inl ''objects index out of bounds''
      else case getProcess p k of None \<Rightarrow> Inl ''use of a deleted process'' | Some pr \<Rightarrow> Inr (objects pr ! pos))"

section \<open>Life of a process\<close>

definition zero_tss :: tss where
  "zero_tss = \<lparr>t_prev_tss = 0, t_esp0 = 0, t_ss0 = 0, t_esp1 = 0, t_ss1 = 0, t_esp2 = 0, t_ss2 = 0, t_cr3 = 0, t_eip = 0,
     t_eflags = 0, t_eax = 0, t_ecx = 0, t_edx = 0, t_ebx = 0, t_esp = 0, t_ebp = 0, t_esi = 0, t_edi = 0, t_es = 0, t_cs = 0,
     t_ss = 0, t_ds = 0, t_fs = 0, t_gs = 0, t_ldt = 0, t_trap = 0, t_iomap_base = 0, t_redirect = replicate 32 0\<rparr>"

text \<open>The constructor. The registers are set by \<open>clone\<close> or \<open>exec\<close> before anything reads them.\<close>

definition new_Process :: "int \<Rightarrow> kernel \<Rightarrow> exn + nat \<times> kernel" where
  "new_Process parent k =
     (case List.find (\<lambda>i. process_list k ! i = None) [0..<MAX_PROCESS_NUM] of
        None \<Rightarrow> Inl ProcessLimitExceeded
      | Some i \<Rightarrow>
          Inr (i, k\<lparr>process_list := (process_list k)[i := Some \<lparr>proc_pid = i, ppid = parent,
            process_state = PROCESS_STATE_RUNNABLE, process_sche_type = PROCESS_SCHE_NORMAL, stack_top_backup = 0,
            stack_backup = None, usermode_state = zero_tss, objects = replicate PROCESS_MAX_OBJECTS None\<rparr>]\<rparr>))"

definition restoreStack :: "nat \<Rightarrow> kernel \<Rightarrow> kernel" where
  "restoreStack p k =
     (case getProcess p k of
        None \<Rightarrow> k
      | Some pr \<Rightarrow>
          (case stack_backup pr of
             None \<Rightarrow> k
           | Some bs \<Rightarrow>
               upd_proc p (\<lambda>pr. pr\<lparr>stack_top_backup := 0, stack_backup := None, process_state := PROCESS_STATE_RUNNABLE\<rparr>)
                 (k\<lparr>kmem := store_bytes (stack_top_backup pr) bs (kmem k)\<rparr>)))"

definition restore_parent :: "int \<Rightarrow> kernel \<Rightarrow> kernel" where
  "restore_parent pp k = (if pp \<ge> 0 then restoreStack (nat pp) k else k)"

text \<open>
  Dropping the list's pointer to a process runs its destructor: it gives up all objects and restores the stack of its
  parent. Then the exit code is recorded for those who wait. (The destructor runs when the list entry is already
  null; giving up objects does not look at the list.)
\<close>

definition removeObjects :: "nat \<Rightarrow> nat list \<Rightarrow> kernel \<Rightarrow> kernel" where
  "removeObjects p = fold (removeObject [] p)"

definition record_exit :: "nat \<Rightarrow> u32 \<Rightarrow> kernel \<Rightarrow> kernel" where
  "record_exit p code k =
     (case objs k (wait_instance k) of
        Some (Blocking (ProcessWait w) pend) \<Rightarrow>
          k\<lparr>objs := (objs k)(wait_instance k \<mapsto> Blocking (ProcessWait (processExit p code w)) pend)\<rparr>
      | _ \<Rightarrow> k)"

definition deleteProcess :: "nat \<Rightarrow> u32 \<Rightarrow> kernel \<Rightarrow> kernel" where
  "deleteProcess p code k =
     (case getProcess p k of
        None \<Rightarrow> record_exit p code k
      | Some pr \<Rightarrow>
          let k = removeObjects p [0..<PROCESS_MAX_OBJECTS] k;
              k = k\<lparr>process_list := (process_list k)[p := None]\<rparr>;
              k = restore_parent (ppid pr) k
          in record_exit p code k)"

text \<open>The child gets the objects of its parent, one by one.\<close>

fun copy_objects :: "nat \<Rightarrow> nat \<Rightarrow> nat option list \<Rightarrow> kernel \<Rightarrow> kernel" where
  "copy_objects c i [] k = k"
| "copy_objects c i (None # os) k = copy_objects c (i + 1) os k"
| "copy_objects c i (Some r # os) k = copy_objects c (i + 1) os (snd (setObject c i r k))"

datatype clone_mode = PROCESS_CLONE_KEEP_STACK | PROCESS_CLONE_NEW_THREAD u32 u32

definition stack_end :: "addr \<Rightarrow> nat \<Rightarrow> addr" where
  "stack_end base p = base + of_nat p * PROCESS_STACK_SIZE + PROCESS_STACK_SIZE"

definition clone_registers :: "nat \<Rightarrow> nat \<Rightarrow> clone_mode \<Rightarrow> kernel \<Rightarrow> kernel" where
  "clone_registers p c mode k =
     (case getProcess p k of None \<Rightarrow> k | Some pr \<Rightarrow>
        let ts = usermode_state pr;
            k = upd_proc c (\<lambda>cr. cr\<lparr>usermode_state := ts, process_state := PROCESS_STATE_RUNNABLE\<rparr>) k
        in case mode of
             PROCESS_CLONE_KEEP_STACK \<Rightarrow>
               let k = upd_proc p (\<lambda>pr. pr\<lparr>stack_backup := Some (bytes (kmem k) (t_esp ts) PROCESS_STACK_BACKUP_SIZE),
                                           stack_top_backup := t_esp ts\<rparr>) k;
                   k = syscall_set_retval c 0 k
               in setProcessState p PROCESS_STATE_SLEEPING k
           | PROCESS_CLONE_NEW_THREAD code data \<Rightarrow>
               let esp = stack_end (user_stack_pos k) c - 16;
                   m = st32 (kmem k) esp data;
                   esp = esp - 4;
                   m = st32 m esp 0
               in upd_proc c (\<lambda>cr. cr\<lparr>usermode_state := ts\<lparr>t_esp := esp, t_esp0 := stack_end (kernel_stack_pos k) c, t_eip := code\<rparr>\<rparr>)
                    (k\<lparr>kmem := m\<rparr>))"

definition clone :: "nat \<Rightarrow> clone_mode \<Rightarrow> kernel \<Rightarrow> (exn + nat \<times> kernel) outcome" where
  "clone p mode k =
     (case getProcess p k of None \<Rightarrow> Inl ''use of a deleted process'' | Some pr \<Rightarrow>
        if stack_backup pr \<noteq> None then
          Inl ''Assertion failed: \"Fork with dirty stack, it shouldn't happen\" && !stack_backup''
        else case new_Process (int p) k of
               Inl e \<Rightarrow> Inr (Inl e)
             | Inr (c, k) \<Rightarrow>
                 let k = clone_registers p c mode k;
                     k = copy_objects c 0 (objects pr) k
                 in Inr (Inr (c, k\<lparr>current_process := c\<rparr>)))"

definition run :: "nat \<Rightarrow> kernel \<Rightarrow> kernel" where
  "run p k = (setProcessState p PROCESS_STATE_RUNNABLE k)\<lparr>current_process := p\<rparr>"

section \<open>Scheduling\<close>

text \<open>The list of processes from the one behind the current process around to the current process itself.\<close>

definition turn :: "nat \<Rightarrow> nat list" where
  "turn cur = map (\<lambda>i. (cur + i) mod MAX_PROCESS_NUM) [1..<MAX_PROCESS_NUM + 1]"

definition next_process :: "(process \<Rightarrow> bool) \<Rightarrow> kernel \<Rightarrow> nat option" where
  "next_process sel k =
     List.find (\<lambda>p. case getProcess p k of None \<Rightarrow> False | Some pr \<Rightarrow> process_state pr = PROCESS_STATE_RUNNABLE \<and> sel pr)
       (turn (current_process k))"

definition switch_to :: "nat \<Rightarrow> kernel \<Rightarrow> kernel" where
  "switch_to p k =
     (case getProcess p k of None \<Rightarrow> k | Some pr \<Rightarrow> k\<lparr>current_process := proc_pid pr, resche_counter := PROCESS_TICKS\<rparr>)"

text \<open>\<open>None\<close>: no process can run, and control goes back to the initial task.\<close>

definition resche :: "kernel \<Rightarrow> kernel option" where
  "resche k =
     (case next_process (\<lambda>pr. process_sche_type pr \<noteq> PROCESS_SCHE_IDLE) k of
        Some p \<Rightarrow> Some (switch_to p k)
      | None \<Rightarrow>
          (case next_process (\<lambda>pr. True) k of
             Some p \<Rightarrow> Some (switch_to p k)
           | None \<Rightarrow> None))"

text \<open>
  The timer interrupt: the flags and the privilege level of the code it interrupted say whether the kernel was
  running. The first component says that the handler issues the \<open>sched_yield\<close> system call.
\<close>

definition resche_tick :: "u32 \<Rightarrow> nat \<Rightarrow> kernel \<Rightarrow> bool \<times> kernel" where
  "resche_tick eflags dpl k =
     (let k = (if sint (resche_counter k) > 0 then k\<lparr>resche_counter := resche_counter k - 1\<rparr> else k);
          kernel_mode = (if eflags AND push_bit 17 1 \<noteq> 0 then True else if dpl \<noteq> 0 then False else True)
      in (resche_counter k = 0 \<and> \<not> kernel_mode, k))"

definition timer_handler :: "u32 \<Rightarrow> nat \<Rightarrow> kernel \<Rightarrow> bool \<times> kernel" where
  "timer_handler eflags dpl k = resche_tick eflags dpl (k\<lparr>pit_ticks := pit_ticks k + 1\<rparr>)"

definition resche_leave_kernel_mode_hook :: "kernel \<Rightarrow> kernel option" where
  "resche_leave_kernel_mode_hook k = (if resche_counter k = 0 then resche k else Some k)"

section \<open>Special paths\<close>

definition ENOENT :: int where "ENOENT = 2"
definition ENOSPC :: int where "ENOSPC = 28"
definition MAX_SPECIAL_PATH_NUM :: nat where "MAX_SPECIAL_PATH_NUM = 16"

definition SpecialPathManager_init :: "(u8 list \<times> nat option) list" where
  "SpecialPathManager_init = replicate MAX_SPECIAL_PATH_NUM ([], None)"

definition find_path :: "u8 list \<Rightarrow> kernel \<Rightarrow> nat option" where
  "find_path path k = List.find (\<lambda>i. folded (fst (special_paths k ! i)) = folded path) [0..<MAX_SPECIAL_PATH_NUM]"

definition SpecialPathManager_remove :: "nat list \<Rightarrow> u8 list \<Rightarrow> kernel \<Rightarrow> int \<times> kernel" where
  "SpecialPathManager_remove held path k =
     (case find_path path k of
        None \<Rightarrow> (ENOENT, k)
      | Some i \<Rightarrow>
          (0, let ro = snd (special_paths k ! i);
                  k = k\<lparr>special_paths := (special_paths k)[i := ([], None)]\<rparr>
              in case ro of None \<Rightarrow> k | Some r \<Rightarrow> collect held r k))"

definition registerObject :: "u8 list \<Rightarrow> nat \<Rightarrow> kernel \<Rightarrow> int \<times> kernel" where
  "registerObject path r k =
     (let k = snd (SpecialPathManager_remove [r] path k)
      in case List.find (\<lambda>i. fst (special_paths k ! i) = []) [0..<MAX_SPECIAL_PATH_NUM] of
           None \<Rightarrow> (ENOSPC, k)
         | Some i \<Rightarrow> (0, k\<lparr>special_paths := (special_paths k)[i := (take 15 path, Some r)]\<rparr>))"

definition SpecialPathManager_get :: "u8 list \<Rightarrow> kernel \<Rightarrow> nat option" where
  "SpecialPathManager_get path k = (case find_path path k of None \<Rightarrow> None | Some i \<Rightarrow> snd (special_paths k ! i))"

end
