(* ===== verification/Exec.thy ===== *)
theory Exec
  imports Kernel
begin

text \<open>
  Program loading: the ELF parser (\<^verbatim>\<open>src/elf/elf-loader.cpp\<close>), \<open>Process::exec\<close> (\<^verbatim>\<open>src/objects/Process.cpp\<close>) and \<open>execv\<close>
  (\<^verbatim>\<open>src/exec.cpp\<close>). The image of the file is a list of bytes in a heap buffer of the kernel; reading behind its end is
  an error of the model.
\<close>

section \<open>The ELF parser\<close>

record section_t =
  sec_base :: u32
  sec_limit :: u32
  sec_offset :: u32

definition PT_LOAD :: u32 where "PT_LOAD = 1"

definition bad_elf :: "u8 list \<Rightarrow> bool" where
  "bad_elf buf \<longleftrightarrow> take 4 buf \<noteq> [0x7f, of_char CHR ''E'', of_char CHR ''L'', of_char CHR ''F''] \<or> buf ! 4 \<noteq> 1 \<or> buf ! 5 \<noteq> 1"

definition e_entry :: "u8 list \<Rightarrow> u32" where "e_entry buf = le32 buf 24"
definition e_phoff :: "u8 list \<Rightarrow> u32" where "e_phoff buf = le32 buf 28"

text \<open>
  The loop \<open>for (int i = 0; i < hdr->e_phoff; i++)\<close> over the program headers of 32 bytes; \<open>sections[i]\<close> is written, not
  \<open>sections[num]\<close>.
\<close>

function phdr_loop :: "u8 list \<Rightarrow> nat \<Rightarrow> nat \<Rightarrow> nat \<Rightarrow> section_t option list \<Rightarrow> (nat \<times> section_t option list) outcome" where
  "phdr_loop buf n i num secs =
     (if i < unat (e_phoff buf) then
        let at = unat (e_phoff buf) + 32 * i
        in if \<not> at + 32 \<le> length buf then Inl ''read behind the end of the ELF buffer''
           else if le32 buf at = PT_LOAD then
             if num < n then
               if i < length secs then
                 phdr_loop buf n (i + 1) (num + 1)
                   (secs[i := Some \<lparr>sec_base = le32 buf (at + 12), sec_limit = le32 buf (at + 20), sec_offset = le32 buf (at + 4)\<rparr>])
               else Inl ''sections index out of bounds''
             else phdr_loop buf n (i + 1) (num + 1) secs
           else phdr_loop buf n (i + 1) num secs
      else Inr (num, secs))"
  by pat_completeness auto
termination
  by (relation "measure (\<lambda>(buf, n, i, num, secs). unat (e_phoff buf) - i)") auto

declare phdr_loop.simps [simp del]

text \<open>\<open>None\<close> is an \<open>InvalidElfException\<close>.\<close>

definition parseElfSections :: "u8 list \<Rightarrow> nat \<Rightarrow> (nat \<times> section_t option list) option outcome" where
  "parseElfSections buf n =
     (if length buf < 52 then Inl ''read behind the end of the ELF buffer''
      else if bad_elf buf then Inr None
      else case phdr_loop buf n 0 0 (replicate n None) of Inl e \<Rightarrow> Inl e | Inr r \<Rightarrow> Inr (Some r))"

section \<open>The new image\<close>

definition PROCESS_MAX_ARGUMENTS :: nat where "PROCESS_MAX_ARGUMENTS = 16"
definition ARGS_BUFFER_SIZE :: nat where "ARGS_BUFFER_SIZE = 512 - 16 - 4"
definition RUNTIME_INFO_SIZE :: u32 where "RUNTIME_INFO_SIZE = 4 + 32 + 492"

text \<open>The arguments are copied first, each cut to 19 characters by \<open>strlcpy(sargs[i], args[i], 20)\<close>.\<close>

fun read_args :: "mem \<Rightarrow> addr \<Rightarrow> nat \<Rightarrow> u8 list list option" where
  "read_args m args 0 = Some []"
| "read_args m args (Suc n) =
     (if ld32 m args = 0 then Some []
      else Option.bind (strlen m (ld32 m args)) (\<lambda>len.
             map_option (\<lambda>rest. take 19 (bytes m (ld32 m args) (unat len)) # rest) (read_args m (args + 4) n)))"

text \<open>
  Then they are laid out on the new stack: a table of 16-bit offsets at \<open>info + 4\<close>, the strings at \<open>info + 36\<close>, as long as
  they fit.
\<close>

definition st16 :: "mem \<Rightarrow> addr \<Rightarrow> u16 \<Rightarrow> mem" where
  "st16 m p v = m(p := ucast v, p + 1 := ucast (drop_bit 8 v))"

fun write_args :: "addr \<Rightarrow> nat \<Rightarrow> nat \<Rightarrow> u8 list list \<Rightarrow> mem \<Rightarrow> mem" where
  "write_args info i used [] m = m"
| "write_args info i used (xs # rest) m =
     (if used + length xs + 1 \<le> ARGS_BUFFER_SIZE then
        let m = store_bytes (info + 36 + of_nat used) (xs @ [0]) m;
            m = st16 m (info + 4 + 2 * of_nat i) (of_nat used)
        in write_args info (i + 1) (used + length xs + 1) rest m
      else m)"

text \<open>
  Which objects survive: \<open>bitmap & (1 << i)\<close>, where the shift of an \<open>int\<close> counts modulo 32 on this machine and the
  result is sign-extended to 64 bits.
\<close>

definition keeps :: "u32 \<Rightarrow> u32 \<Rightarrow> nat \<Rightarrow> bool" where
  "keeps low high i \<longleftrightarrow>
     (push_bit 32 (ucast high) + ucast low :: u64) AND scast (push_bit (i mod 32) (1 :: u32)) \<noteq> 0"

definition SEGMENT_SELECTOR :: "u32 \<Rightarrow> u32 \<Rightarrow> u32 \<Rightarrow> u32" where
  "SEGMENT_SELECTOR seg local rpl = push_bit 3 seg + push_bit 2 local + rpl"

definition SEG_KERNEL_DATA :: u32 where "SEG_KERNEL_DATA = 2"
definition SEG_USER_CODE :: u32 where "SEG_USER_CODE = 3"
definition SEG_USER_DATA :: u32 where "SEG_USER_DATA = 4"

definition image_base :: "nat \<Rightarrow> kernel \<Rightarrow> addr" where
  "image_base p k = user_space_start k + PROCESS_USER_IMAGE_SPACE * of_nat p"

definition exec_registers :: "nat \<Rightarrow> u32 \<Rightarrow> kernel \<Rightarrow> tss" where
  "exec_registers p entry k =
     (let data = SEGMENT_SELECTOR SEG_USER_DATA 0 3
      in zero_tss\<lparr>t_cs := SEGMENT_SELECTOR SEG_USER_CODE 0 3, t_ss0 := SEGMENT_SELECTOR SEG_KERNEL_DATA 0 0,
           t_ds := data, t_es := data, t_fs := data, t_gs := data, t_ss := data,
           t_eip := entry + image_base p k, t_eflags := push_bit 9 1, t_iomap_base := 136,
           t_esp := stack_end (user_stack_pos k) p - RUNTIME_INFO_SIZE - 4, t_esp0 := stack_end (kernel_stack_pos k) p\<rparr>)"

definition exec_stack :: "nat \<Rightarrow> u8 list list \<Rightarrow> kernel \<Rightarrow> mem" where
  "exec_stack p sargs k =
     (let info = stack_end (user_stack_pos k) p - RUNTIME_INFO_SIZE;
          m = snd (memset (info + 4) 0xFF 32 (kmem k));
          m = write_args info 0 0 sargs m;
          m = st32 m info info
      in st32 m (info - 4) 0)"

text \<open>The sections are copied into the image and become segments that the process owns.\<close>

fun load_sections :: "nat \<Rightarrow> u8 list \<Rightarrow> section_t option list \<Rightarrow> kernel \<Rightarrow> (exn + kernel) outcome" where
  "load_sections p buf [] k = Inr (Inr k)"
| "load_sections p buf (None # secs) k = Inl ''use of an uninitialised section''"
| "load_sections p buf (Some s # secs) k =
     (let base = sec_base s + image_base p k
      in if \<not> unat (sec_offset s) + unat (sec_limit s) \<le> length buf then Inl ''read behind the end of the ELF buffer''
         else let (r, k) = new_object (SegmentObject base (sec_limit s)) k;
                  k = k\<lparr>kmem := store_bytes base (take (unat (sec_limit s)) (drop (unat (sec_offset s)) buf)) (kmem k)\<rparr>
              in case addObject p r k of
                   Inl e \<Rightarrow> Inr (Inl e)
                 | Inr (_, k) \<Rightarrow> load_sections p buf secs k)"

fun invalid_section :: "section_t option list \<Rightarrow> bool outcome" where
  "invalid_section [] = Inr False"
| "invalid_section (None # secs) = Inl ''use of an uninitialised section''"
| "invalid_section (Some s # secs) =
     (if sec_base s + sec_limit s \<ge> PROCESS_USER_IMAGE_SPACE then Inr True else invalid_section secs)"

definition Process_exec ::
  "nat \<Rightarrow> addr \<Rightarrow> u8 list \<Rightarrow> section_t option list \<Rightarrow> u32 \<Rightarrow> u32 \<Rightarrow> u32 \<Rightarrow> kernel \<Rightarrow> (exn + kernel) outcome option" where
  "Process_exec p args buf secs entry keep_low keep_high k =
     and_then (Some (invalid_section secs)) (\<lambda>bad.
       if bad then Some (Inr (Inl InvalidSection))
       else Option.bind (read_args (kmem k) args PROCESS_MAX_ARGUMENTS) (\<lambda>sargs.
         let k = removeObjects p (filter (\<lambda>i. \<not> keeps keep_low keep_high i) [0..<PROCESS_MAX_OBJECTS]) k;
             k = upd_proc p (\<lambda>pr. pr\<lparr>usermode_state := exec_registers p entry k\<rparr>) k;
             k = k\<lparr>kmem := exec_stack p sargs k\<rparr>
         in and_then (Some (load_sections p buf secs k)) (\<lambda>r.
              case r of Inl e \<Rightarrow> Some (Inr (Inl e))
              | Inr k \<Rightarrow>
                  (case getProcess p k of None \<Rightarrow> Some (Inl ''use of a deleted process'')
                   | Some pr \<Rightarrow> Some (Inr (Inr (restore_parent (ppid pr) k)))))))"

definition ENOEXEC :: int where "ENOEXEC = 8"

fun exn_what :: "exn \<Rightarrow> string" where
  "exn_what ProcessLimitExceeded = ''too many processes''"
| "exn_what ObjectLimitExceeded = ''too many objects''"
| "exn_what InvalidObject = ''invalid objects''"
| "exn_what InvalidSection = ''invalid section''"
| "exn_what BlockInputDeviceLimitExceeded = ''block input device limit exceeded''"

definition execv :: "nat \<Rightarrow> u8 list \<Rightarrow> addr \<Rightarrow> u32 \<Rightarrow> u32 \<Rightarrow> kernel \<Rightarrow> (int \<times> kernel) outcome option" where
  "execv p path args keep_low keep_high k =
     and_then (openFile (rootdisk k) None path (rootfs k)) (\<lambda>(fo, fs).
       let k = k\<lparr>rootfs := fs\<rparr>
       in case fo of
            None \<Rightarrow> Some (Inr (- ENOENT, k))
          | Some f \<Rightarrow>
              let f = file_seek 0 SEEK_END f;
                  siz = unat (file_tell f);
                  f = file_seek 0 SEEK_SET f
              in and_then (Some (file_read (rootdisk k) (fs_info fs) siz f)) (\<lambda>(buf, f).
                   and_then (Some (parseElfSections buf 0)) (\<lambda>r1.
                     case r1 of
                       None \<Rightarrow> Some (Inr (- ENOEXEC, k))
                     | Some (section_num, _) \<Rightarrow>
                         and_then (Some (parseElfSections buf section_num)) (\<lambda>r2.
                           case r2 of
                             None \<Rightarrow> Some (Inl ''uncaught InvalidElfException'')
                           | Some (_, secs) \<Rightarrow>
                               and_then (Process_exec p args buf secs (e_entry buf) keep_low keep_high k) (\<lambda>r.
                                 case r of
                                   Inl InvalidSection \<Rightarrow> Some (Inr (- ENOEXEC, k))
                                 | Inl e \<Rightarrow> Some (Inl (exn_what e))
                                 | Inr k \<Rightarrow> Some (Inr (0, k)))))))"

end
