(* ===== verification/Syscall.thy ===== *)
theory Syscall
  imports Exec
begin

text \<open>
  The system calls (\<^verbatim>\<open>src/syscall/\<close>): one definition per handler, the dispatch through the table of wrappers, and the
  entry \<open>real_syscall_handler\<close>. A call has its number in \<open>eax\<close> and its arguments in \<open>ebx\<close>, \<open>ecx\<close>, \<open>edx\<close> and
  \<open>esi\<close>. A handler returns the 64-bit value and the new state; a result of \<open>None\<close> is a call that never
  returns (a cyclic cluster chain, a string without end), \<open>Inl\<close> is a panic or a memory error.
\<close>

section \<open>Handlers\<close>

type_synonym call = "(u64 \<times> kernel) outcome option"

abbreviation done_call :: "int \<Rightarrow> kernel \<Rightarrow> call" where
  "done_call ret k \<equiv> Some (Inr (of_int ret, k))"

definition close_handler :: "u32 \<Rightarrow> kernel \<Rightarrow> call" where
  "close_handler fd k = done_call 0 (removeObject [] (current_process k) (unat fd) k)"

definition dup2_handler :: "u32 \<Rightarrow> u32 \<Rightarrow> kernel \<Rightarrow> call" where
  "dup2_handler oldfd newfd k =
     (if oldfd = newfd then done_call 0 k
      else and_then (Some (getObject (current_process k) (unat oldfd) k)) (\<lambda>sobj.
        case sobj of
          None \<Rightarrow> done_call (- 1) k
        | Some r \<Rightarrow> done_call 0 (snd (setObject (current_process k) (unat newfd) r k))))"

definition exec_handler :: "u32 \<Rightarrow> u32 \<Rightarrow> u32 \<Rightarrow> u32 \<Rightarrow> kernel \<Rightarrow> call" where
  "exec_handler iexec iargs keep_low keep_high k =
     Option.bind (strlen (kmem k) iexec) (\<lambda>n.
       and_then (execv (current_process k) (bytes (kmem k) iexec (unat n)) iargs keep_low keep_high k) (\<lambda>(ret, k). done_call ret k))"

definition exit_handler :: "u32 \<Rightarrow> kernel \<Rightarrow> call" where
  "exit_handler code k = done_call 0 (deleteProcess (current_process k) code k)"

definition clone_call :: "clone_mode \<Rightarrow> kernel \<Rightarrow> call" where
  "clone_call mode k =
     and_then (Some (clone (current_process k) mode k)) (\<lambda>r.
       case r of Inl e \<Rightarrow> Some (Inl (exn_what e)) | Inr (c, k) \<Rightarrow> done_call (int c) k)"

definition fork_handler :: "kernel \<Rightarrow> call" where
  "fork_handler = clone_call PROCESS_CLONE_KEEP_STACK"

definition thread_handler :: "u32 \<Rightarrow> u32 \<Rightarrow> kernel \<Rightarrow> call" where
  "thread_handler func data = clone_call (PROCESS_CLONE_NEW_THREAD func data)"

text \<open>Process 0 halts the processor until the next interrupt, which is a state of its own for nobody.\<close>

definition hlt_handler :: "kernel \<Rightarrow> call" where
  "hlt_handler k = done_call 0 k"

definition sched_yield_handler :: "kernel \<Rightarrow> call" where
  "sched_yield_handler k =
     (case resche k of None \<Rightarrow> Some (Inl ''no process left'') | Some k \<Rightarrow> done_call 0 k)"

definition sem_create_handler :: "u32 \<Rightarrow> kernel \<Rightarrow> call" where
  "sem_create_handler cnt k =
     (case new_device (Semaphore cnt) k of
        Inl e \<Rightarrow> Some (Inl (exn_what e))
      | Inr (r, k) \<Rightarrow>
          (case addObject (current_process k) r k of
             Inl BlockInputDeviceLimitExceeded \<Rightarrow> done_call (- ENOENT) k
           | Inl e \<Rightarrow> Some (Inl (exn_what e))
           | Inr (i, k) \<Rightarrow> done_call (int i) k))"

definition attach_call :: "nat \<Rightarrow> kernel \<Rightarrow> call" where
  "attach_call r k =
     (case addObject (current_process k) r k of
        Inl ObjectLimitExceeded \<Rightarrow> done_call ENOSPC (collect [] r k)
      | Inl e \<Rightarrow> Some (Inl (exn_what e))
      | Inr (i, k) \<Rightarrow> done_call (int i) k)"

definition open_handler :: "u32 \<Rightarrow> kernel \<Rightarrow> call" where
  "open_handler pfilename k =
     Option.bind (strlen (kmem k) pfilename) (\<lambda>n.
       let path = bytes (kmem k) pfilename (unat n)
       in case SpecialPathManager_get path k of
            Some r \<Rightarrow> attach_call r k
          | None \<Rightarrow>
              and_then (openFile (rootdisk k) None path (rootfs k)) (\<lambda>(fo, fs).
                let k = k\<lparr>rootfs := fs\<rparr>
                in case fo of
                     None \<Rightarrow> done_call (- ENOENT) k
                   | Some f \<Rightarrow> let (r, k) = new_object (FileObject f) k in attach_call r k))"

definition read_handler :: "u32 \<Rightarrow> u32 \<Rightarrow> u32 \<Rightarrow> kernel \<Rightarrow> call" where
  "read_handler fd buf siz k =
     and_then (Some (getObject (current_process k) (unat fd) k)) (\<lambda>sobj.
       case sobj of
         None \<Rightarrow> done_call (- 1) k
       | Some r \<Rightarrow>
           (case objs k r of
              Some (Blocking d pend) \<Rightarrow>
                and_then (Some (do_read (dev_read (pit_ticks k)) (current_process k) buf siz (d, pend) k)) (\<lambda>(ret, (d, pend), k).
                  done_call ret (k\<lparr>objs := (objs k)(r \<mapsto> Blocking d pend)\<rparr>))
            | Some (FileObject f) \<Rightarrow>
                and_then (Some (file_read (rootdisk k) (fs_info (rootfs k)) (unat siz) f)) (\<lambda>(xs, f).
                  done_call (int (length xs)) (k\<lparr>objs := (objs k)(r \<mapsto> FileObject f), kmem := store_bytes buf xs (kmem k)\<rparr>))
            | Some (SegmentObject b s) \<Rightarrow> done_call (- 1) k
            | None \<Rightarrow> Some (Inl ''use of a deleted object'')))"

definition write_handler :: "u32 \<Rightarrow> u32 \<Rightarrow> u32 \<Rightarrow> kernel \<Rightarrow> call" where
  "write_handler fd buf siz k =
     and_then (Some (getObject (current_process k) (unat fd) k)) (\<lambda>sobj.
       case sobj of
         None \<Rightarrow> done_call (- 1) k
       | Some r \<Rightarrow>
           (case objs k r of
              Some (Blocking d pend) \<Rightarrow>
                and_then (Some (dev_write (alive k) (pit_ticks k) (current_process k) buf siz d (kmem k))) (\<lambda>(ret, d).
                  done_call ret (k\<lparr>objs := (objs k)(r \<mapsto> Blocking d pend)\<rparr>))
            | Some ob \<Rightarrow> done_call (- 1) k
            | None \<Rightarrow> Some (Inl ''use of a deleted object'')))"

text \<open>The entries are written one after the other, and the count is read again from memory each time.\<close>

fun readdir_loop :: "addr \<Rightarrow> addr \<Rightarrow> nat \<Rightarrow> fileinfo list \<Rightarrow> mem \<Rightarrow> nat \<times> mem" where
  "readdir_loop info n_addr i [] m = (i, m)"
| "readdir_loop info n_addr i (f # fs) m =
     (if int i < sint (ld32 m n_addr) then
        let at = info + 24 * of_nat i;
            m = store_bytes at (take 15 (filename f) @ [0]) m;
            m = st32 m (at + 16) (filesize f);
            m = st32 m (at + 20) (if directory f then 1 else 0)
        in readdir_loop info n_addr (i + 1) fs m
      else (i, m))"

definition readdir_handler :: "u32 \<Rightarrow> u32 \<Rightarrow> u32 \<Rightarrow> kernel \<Rightarrow> call" where
  "readdir_handler fd info n_addr k =
     and_then (Some (getObject (current_process k) (unat fd) k)) (\<lambda>sobj.
       case sobj of
         None \<Rightarrow> done_call (- ENOENT) k
       | Some r \<Rightarrow>
           (case objs k r of
              Some (FileObject f) \<Rightarrow>
                and_then (Directory_fromFile (rootdisk k) (rootfs k) f) (\<lambda>d.
                  case d of
                    None \<Rightarrow> done_call (- ENOENT) k
                  | Some d \<Rightarrow>
                      let (i, m) = readdir_loop info n_addr 0 (infos d) (kmem k)
                      in done_call (int i) (k\<lparr>objs := (objs k)(r \<mapsto> FileObject (dir_file d)),
                           kmem := st32 m n_addr (of_nat (length (infos d)))\<rparr>))
            | Some ob \<Rightarrow> done_call (- ENOENT) k
            | None \<Rightarrow> Some (Inl ''use of a deleted object'')))"

section \<open>Dispatch\<close>

definition SYSCALL_EXIT :: u32 where "SYSCALL_EXIT = 1"
definition SYSCALL_FORK :: u32 where "SYSCALL_FORK = 2"
definition SYSCALL_READ :: u32 where "SYSCALL_READ = 3"
definition SYSCALL_WRITE :: u32 where "SYSCALL_WRITE = 4"
definition SYSCALL_OPEN :: u32 where "SYSCALL_OPEN = 5"
definition SYSCALL_CLOSE :: u32 where "SYSCALL_CLOSE = 6"
definition SYSCALL_EXEC :: u32 where "SYSCALL_EXEC = 11"
definition SYSCALL_DUP2 :: u32 where "SYSCALL_DUP2 = 63"
definition SYSCALL_SCHED_YIELD :: u32 where "SYSCALL_SCHED_YIELD = 158"
definition SYSCALL_SEM_CREATE :: u32 where "SYSCALL_SEM_CREATE = 200"
definition SYSCALL_READDIR :: u32 where "SYSCALL_READDIR = 201"
definition SYSCALL_THREAD :: u32 where "SYSCALL_THREAD = 202"
definition SYSCALL_HIDDEN_HLT :: u32 where "SYSCALL_HIDDEN_HLT = 254"
definition SYSCALL_END :: u32 where "SYSCALL_END = 255"

lemmas syscall_numbers = SYSCALL_EXIT_def SYSCALL_FORK_def SYSCALL_READ_def SYSCALL_WRITE_def SYSCALL_OPEN_def
  SYSCALL_CLOSE_def SYSCALL_EXEC_def SYSCALL_DUP2_def SYSCALL_SCHED_YIELD_def SYSCALL_SEM_CREATE_def SYSCALL_READDIR_def
  SYSCALL_THREAD_def SYSCALL_HIDDEN_HLT_def SYSCALL_END_def

text \<open>The table that the \<open>register_syscall\<close> constructors fill, and the arguments that a wrapper takes from the registers.\<close>

definition syscall_wrappers :: "u32 \<Rightarrow> (tss \<Rightarrow> kernel \<Rightarrow> call) option" where
  "syscall_wrappers n =
     (if n = SYSCALL_EXIT then Some (\<lambda>t. exit_handler (t_ebx t))
      else if n = SYSCALL_FORK then Some (\<lambda>t. fork_handler)
      else if n = SYSCALL_READ then Some (\<lambda>t. read_handler (t_ebx t) (t_ecx t) (t_edx t))
      else if n = SYSCALL_WRITE then Some (\<lambda>t. write_handler (t_ebx t) (t_ecx t) (t_edx t))
      else if n = SYSCALL_OPEN then Some (\<lambda>t. open_handler (t_ebx t))
      else if n = SYSCALL_CLOSE then Some (\<lambda>t. close_handler (t_ebx t))
      else if n = SYSCALL_EXEC then Some (\<lambda>t. exec_handler (t_ebx t) (t_ecx t) (t_edx t) (t_esi t))
      else if n = SYSCALL_DUP2 then Some (\<lambda>t. dup2_handler (t_ebx t) (t_ecx t))
      else if n = SYSCALL_SCHED_YIELD then Some (\<lambda>t. sched_yield_handler)
      else if n = SYSCALL_SEM_CREATE then Some (\<lambda>t. sem_create_handler (t_ebx t))
      else if n = SYSCALL_READDIR then Some (\<lambda>t. readdir_handler (t_ebx t) (t_ecx t) (t_edx t))
      else if n = SYSCALL_THREAD then Some (\<lambda>t. thread_handler (t_ebx t) (t_ecx t))
      else if n = SYSCALL_HIDDEN_HLT then Some (\<lambda>t. hlt_handler)
      else None)"

definition resche_outcome :: "kernel option \<Rightarrow> kernel outcome option" where
  "resche_outcome ko = (case ko of None \<Rightarrow> Some (Inl ''no process left'') | Some k \<Rightarrow> Some (Inr k))"

text \<open>What happens after the handler: the waiting requests are looked at, the caller gets its value, and sleeps or not.\<close>

definition after_call :: "nat \<Rightarrow> u64 \<Rightarrow> kernel \<Rightarrow> kernel outcome option" where
  "after_call p ret k =
     and_then (Some (checkAll k)) (\<lambda>k.
       case getProcess p k of
         None \<Rightarrow> resche_outcome (resche k)
       | Some _ \<Rightarrow>
           let k = syscall_set_retval p ret k
           in case getProcess p k of
                Some pr \<Rightarrow> if process_state pr \<noteq> PROCESS_STATE_RUNNABLE then resche_outcome (resche k) else Some (Inr k)
              | None \<Rightarrow> Some (Inr k))"

definition real_syscall_handler :: "kernel \<Rightarrow> kernel outcome option" where
  "real_syscall_handler k =
     (let k = enterKernelMode k; p = current_process k
      in case getProcess p k of
           None \<Rightarrow> Some (Inl ''null pointer dereference'')
         | Some pr \<Rightarrow>
             let n = t_eax (usermode_state pr)
             in if \<not> n < SYSCALL_END then Some (Inl ''syscall_wrappers index out of bounds'')
                else and_then
                  (case syscall_wrappers n of
                     None \<Rightarrow> Some (Inr k)
                   | Some h \<Rightarrow> and_then (h (usermode_state pr) k) (\<lambda>(ret, k). after_call p ret k))
                  (\<lambda>k. and_then (resche_outcome (resche_leave_kernel_mode_hook k)) (\<lambda>k. Some (Inr (leaveKernelMode k)))))"

end
