(* ===== verification/KernelInv.thy ===== *)
theory KernelInv
  imports Syscall
begin

text \<open>
  The invariant of the kernel and its preservation by every operation on processes and objects. It says that the process
  list, the objects and the device table fit together, and that exactly the right processes sleep: a process sleeps if
  and only if it waits for a fork child that uses its stack, or has one request queued at one device that it owns.
\<close>

section \<open>The invariant\<close>

definition has :: "kernel \<Rightarrow> nat \<Rightarrow> (process \<Rightarrow> bool) \<Rightarrow> bool" where
  "has k p P \<longleftrightarrow> p < MAX_PROCESS_NUM \<and> (\<exists>pr. getProcess p k = Some pr \<and> P pr)"

definition sleeping :: "process \<Rightarrow> bool" where
  "sleeping pr \<longleftrightarrow> process_state pr = PROCESS_STATE_SLEEPING"

definition backed :: "process \<Rightarrow> bool" where
  "backed pr \<longleftrightarrow> stack_backup pr \<noteq> None"

text \<open>The processes whose requests are queued at an object.\<close>

fun queued :: "kobject option \<Rightarrow> nat list" where
  "queued (Some (Blocking d pend)) = map pr_proc pend"
| "queued ob = []"

fun is_blocking :: "kobject option \<Rightarrow> bool" where
  "is_blocking (Some (Blocking d pend)) = True"
| "is_blocking ob = False"

fun wait_sized :: "kobject option \<Rightarrow> bool" where
  "wait_sized (Some (Blocking (ProcessWait w) pend)) \<longleftrightarrow>
     length (reqs w) = MAX_PROCESS_NUM \<and> length (last_exit_code w) = MAX_PROCESS_NUM"
| "wait_sized ob = False"

definition waits :: "kernel \<Rightarrow> nat \<Rightarrow> nat \<Rightarrow> bool" where
  "waits k p r \<longleftrightarrow> p \<in> set (queued (objs k r))"

definition procs_ok :: "kernel \<Rightarrow> bool" where
  "procs_ok k \<longleftrightarrow> length (process_list k) = MAX_PROCESS_NUM \<and>
     (\<forall>p pr. p < MAX_PROCESS_NUM \<longrightarrow> getProcess p k = Some pr \<longrightarrow> proc_pid pr = p \<and> length (objects pr) = PROCESS_MAX_OBJECTS)"

definition refs_ok :: "kernel \<Rightarrow> bool" where
  "refs_ok k \<longleftrightarrow> (\<forall>p r. has k p (\<lambda>pr. owns pr r) \<longrightarrow> objs k r \<noteq> None) \<and> (\<forall>r \<in> set (static_refs k). objs k r \<noteq> None) \<and>
     (\<forall>r. Some r \<in> set (map snd (special_paths k)) \<longrightarrow> objs k r \<noteq> None) \<and> (\<forall>r. objs k r \<noteq> None \<longrightarrow> r < next_obj k)"

definition devs_ok :: "kernel \<Rightarrow> bool" where
  "devs_ok k \<longleftrightarrow> length (devices k) = MAX_BLOCK_INPUT_DEVICE_NUM \<and> length (special_paths k) = MAX_SPECIAL_PATH_NUM \<and>
     (\<forall>r. Some r \<in> set (devices k) \<longleftrightarrow> is_blocking (objs k r)) \<and>
     wait_instance k \<in> set (static_refs k) \<and> wait_sized (objs k (wait_instance k))"

definition waits_ok :: "kernel \<Rightarrow> bool" where
  "waits_ok k \<longleftrightarrow> (\<forall>r. distinct (queued (objs k r))) \<and> (\<forall>p r r'. waits k p r \<longrightarrow> waits k p r' \<longrightarrow> r = r') \<and>
     (\<forall>p r. waits k p r \<longrightarrow> has k p (\<lambda>pr. sleeping pr \<and> owns pr r \<and> \<not> backed pr))"

definition sleep_ok :: "kernel \<Rightarrow> bool" where
  "sleep_ok k \<longleftrightarrow> (\<forall>p. has k p sleeping \<longrightarrow> has k p backed \<or> (\<exists>r. waits k p r)) \<and>
     (\<forall>p. has k p backed \<longrightarrow> has k p sleeping \<and> (\<exists>c. has k c (\<lambda>pr. ppid pr = int p)))"

definition kernel_ok :: "kernel \<Rightarrow> bool" where
  "kernel_ok k \<longleftrightarrow> procs_ok k \<and> refs_ok k \<and> devs_ok k \<and> waits_ok k \<and> sleep_ok k"

named_theorems ok_defs \<open>the parts of the kernel invariant\<close>

lemmas [ok_defs] = kernel_ok_def procs_ok_def refs_ok_def devs_ok_def waits_ok_def sleep_ok_def

text \<open>The process that runs: it is there, and not asleep.\<close>

definition running :: "kernel \<Rightarrow> nat \<Rightarrow> bool" where
  "running k p \<longleftrightarrow> has k p (\<lambda>pr. \<not> sleeping pr)"

section \<open>Changes that do not matter\<close>

lemma getProcess_fields [simp]:
  "getProcess p (k\<lparr>kmem := m\<rparr>) = getProcess p k" "getProcess p (k\<lparr>current_process := c\<rparr>) = getProcess p k"
  "getProcess p (k\<lparr>user_tss := t\<rparr>) = getProcess p k" "getProcess p (k\<lparr>resche_counter := n\<rparr>) = getProcess p k"
  "getProcess p (k\<lparr>pit_ticks := u\<rparr>) = getProcess p k" "getProcess p (k\<lparr>rootfs := fs\<rparr>) = getProcess p k"
  "getProcess p (k\<lparr>objs := ob\<rparr>) = getProcess p k" "getProcess p (k\<lparr>devices := ds\<rparr>) = getProcess p k"
  "getProcess p (k\<lparr>next_obj := r\<rparr>) = getProcess p k" "getProcess p (k\<lparr>special_paths := sp\<rparr>) = getProcess p k"
  by (simp_all add: getProcess_def)

lemma has_fields [simp]:
  "has (k\<lparr>kmem := m\<rparr>) p P = has k p P" "has (k\<lparr>current_process := c\<rparr>) p P = has k p P" "has (k\<lparr>user_tss := t\<rparr>) p P = has k p P"
  "has (k\<lparr>resche_counter := n\<rparr>) p P = has k p P" "has (k\<lparr>pit_ticks := u\<rparr>) p P = has k p P" "has (k\<lparr>rootfs := fs\<rparr>) p P = has k p P"
  "has (k\<lparr>objs := ob\<rparr>) p P = has k p P" "has (k\<lparr>devices := ds\<rparr>) p P = has k p P" "has (k\<lparr>next_obj := r\<rparr>) p P = has k p P"
  "has (k\<lparr>special_paths := sp\<rparr>) p P = has k p P"
  by (simp_all add: has_def)

lemma kernel_ok_fields [simp]:
  "kernel_ok (k\<lparr>kmem := m\<rparr>) = kernel_ok k" "kernel_ok (k\<lparr>current_process := c\<rparr>) = kernel_ok k"
  "kernel_ok (k\<lparr>user_tss := t\<rparr>) = kernel_ok k" "kernel_ok (k\<lparr>resche_counter := n\<rparr>) = kernel_ok k"
  "kernel_ok (k\<lparr>pit_ticks := u\<rparr>) = kernel_ok k" "kernel_ok (k\<lparr>rootfs := fs\<rparr>) = kernel_ok k"
  by (simp_all add: ok_defs waits_def)

lemma running_fields [simp]:
  "running (k\<lparr>kmem := m\<rparr>) p = running k p" "running (k\<lparr>current_process := c\<rparr>) p = running k p"
  "running (k\<lparr>user_tss := t\<rparr>) p = running k p" "running (k\<lparr>resche_counter := n\<rparr>) p = running k p"
  "running (k\<lparr>pit_ticks := u\<rparr>) p = running k p" "running (k\<lparr>rootfs := fs\<rparr>) p = running k p"
  "running (k\<lparr>objs := ob\<rparr>) p = running k p" "running (k\<lparr>devices := ds\<rparr>) p = running k p"
  "running (k\<lparr>next_obj := r\<rparr>) p = running k p" "running (k\<lparr>special_paths := sp\<rparr>) p = running k p"
  by (simp_all add: running_def)

lemma upd_proc_fields [simp]:
  "objs (upd_proc p f k) = objs k" "devices (upd_proc p f k) = devices k" "special_paths (upd_proc p f k) = special_paths k"
  "static_refs (upd_proc p f k) = static_refs k" "next_obj (upd_proc p f k) = next_obj k" "wait_instance (upd_proc p f k) = wait_instance k"
  "kmem (upd_proc p f k) = kmem k" "current_process (upd_proc p f k) = current_process k" "pit_ticks (upd_proc p f k) = pit_ticks k"
  "length (process_list (upd_proc p f k)) = length (process_list k)"
  by (simp_all add: upd_proc_def)

lemma getProcess_upd:
  "length (process_list k) = MAX_PROCESS_NUM \<Longrightarrow> p < MAX_PROCESS_NUM \<Longrightarrow>
    getProcess q (upd_proc p f k) = (if q = p then map_option f (getProcess p k) else getProcess q k)"
  by (simp add: getProcess_def upd_proc_def)

lemma upd_proc_out: "length (process_list k) = MAX_PROCESS_NUM \<Longrightarrow> \<not> p < MAX_PROCESS_NUM \<Longrightarrow> upd_proc p f k = k"
  by (simp add: upd_proc_def list_update_beyond)

lemma has_upd:
  "length (process_list k) = MAX_PROCESS_NUM \<Longrightarrow> has (upd_proc p f k) q P = (if q = p then has k p (\<lambda>pr. P (f pr)) else has k q P)"
  by (cases "p < MAX_PROCESS_NUM") (auto simp: has_def getProcess_upd upd_proc_out)

lemma waits_upd [simp]: "waits (upd_proc p f k) = waits k"
  by (simp add: waits_def fun_eq_iff)

text \<open>An update of the registers, of the scheduling type and of everything else that the invariant does not mention.\<close>

definition neutral :: "(process \<Rightarrow> process) \<Rightarrow> bool" where
  "neutral f \<longleftrightarrow> (\<forall>pr. proc_pid (f pr) = proc_pid pr \<and> objects (f pr) = objects pr \<and> process_state (f pr) = process_state pr \<and>
     stack_backup (f pr) = stack_backup pr \<and> ppid (f pr) = ppid pr)"

lemma has_neutral:
  assumes "length (process_list k) = MAX_PROCESS_NUM" "neutral f"
  shows "has (upd_proc p f k) q sleeping = has k q sleeping" "has (upd_proc p f k) q backed = has k q backed"
    "has (upd_proc p f k) q (\<lambda>pr. owns pr r) = has k q (\<lambda>pr. owns pr r)"
    "has (upd_proc p f k) q (\<lambda>pr. ppid pr = i) = has k q (\<lambda>pr. ppid pr = i)"
    "has (upd_proc p f k) q (\<lambda>pr. sleeping pr \<and> owns pr r \<and> \<not> backed pr) = has k q (\<lambda>pr. sleeping pr \<and> owns pr r \<and> \<not> backed pr)"
    "has (upd_proc p f k) q (\<lambda>pr. \<not> sleeping pr) = has k q (\<lambda>pr. \<not> sleeping pr)"
  using assms by (simp_all add: has_upd neutral_def sleeping_def [abs_def] backed_def [abs_def] owns_def)

lemma procs_ok_upd:
  "procs_ok k \<Longrightarrow> (\<And>pr. getProcess p k = Some pr \<Longrightarrow> proc_pid (f pr) = proc_pid pr \<and> length (objects (f pr)) = length (objects pr)) \<Longrightarrow>
    procs_ok (upd_proc p f k)"
  by (cases "p < MAX_PROCESS_NUM") (auto simp: procs_ok_def getProcess_upd upd_proc_out split: if_splits)

lemma kernel_ok_neutral:
  assumes "kernel_ok k" and "neutral f"
  shows "kernel_ok (upd_proc p f k)"
proof -
  have l: "length (process_list k) = MAX_PROCESS_NUM" using assms(1) by (simp add: kernel_ok_def procs_ok_def)
  have "procs_ok (upd_proc p f k)" using assms by (intro procs_ok_upd) (simp_all add: kernel_ok_def neutral_def)
  then show ?thesis
    using assms(1) unfolding kernel_ok_def refs_ok_def devs_ok_def waits_ok_def sleep_ok_def
    by (simp add: has_neutral [OF l assms(2)])
qed

lemma running_neutral: "length (process_list k) = MAX_PROCESS_NUM \<Longrightarrow> neutral f \<Longrightarrow> running (upd_proc p f k) q = running k q"
  by (simp add: running_def has_neutral)

lemma neutral_regs [simp]: "neutral (\<lambda>pr. pr\<lparr>usermode_state := g pr\<rparr>)" "neutral (process_sche_type_update h)"
  by (simp_all add: neutral_def)

lemma kernel_ok_len: "kernel_ok k \<Longrightarrow> length (process_list k) = MAX_PROCESS_NUM"
  by (simp add: kernel_ok_def procs_ok_def)

lemma waits_has: "kernel_ok k \<Longrightarrow> waits k p r \<Longrightarrow> has k p (\<lambda>pr. sleeping pr \<and> owns pr r \<and> \<not> backed pr)"
  unfolding kernel_ok_def waits_ok_def by blast

lemma waits_unique: "kernel_ok k \<Longrightarrow> waits k p r \<Longrightarrow> waits k p s \<Longrightarrow> s = r"
  unfolding kernel_ok_def waits_ok_def by blast

lemma running_awake: "kernel_ok k \<Longrightarrow> running k p \<Longrightarrow> \<not> waits k p r \<and> \<not> has k p backed \<and> \<not> has k p sleeping"
  by (fastforce simp: kernel_ok_def waits_ok_def sleep_ok_def running_def has_def)

lemma alive_has: "alive k p \<longleftrightarrow> has k p (\<lambda>_. True)"
  by (auto simp: alive_def has_def)

lemma has_mono: "has k p P \<Longrightarrow> (\<And>pr. P pr \<Longrightarrow> Q pr) \<Longrightarrow> has k p Q"
  by (auto simp: has_def)

section \<open>Queues\<close>

definition put :: "nat \<Rightarrow> device \<Rightarrow> pending_read list \<Rightarrow> kernel \<Rightarrow> kernel" where
  "put r d pend k = k\<lparr>objs := (objs k)(r \<mapsto> Blocking d pend)\<rparr>"

fun dev_sized :: "device \<Rightarrow> bool" where
  "dev_sized (ProcessWait w) \<longleftrightarrow> length (reqs w) = MAX_PROCESS_NUM \<and> length (last_exit_code w) = MAX_PROCESS_NUM"
| "dev_sized d = False"

lemma wait_sized_dev: "wait_sized (Some (Blocking d pend)) = dev_sized d"
  by (cases d) simp_all

lemma put_fields [simp]:
  "process_list (put r d pend k) = process_list k" "has (put r d pend k) p P = has k p P" "getProcess p (put r d pend k) = getProcess p k"
  "objs (put r d pend k) r' = (if r' = r then Some (Blocking d pend) else objs k r')" "devices (put r d pend k) = devices k"
  "special_paths (put r d pend k) = special_paths k" "static_refs (put r d pend k) = static_refs k"
  "next_obj (put r d pend k) = next_obj k" "wait_instance (put r d pend k) = wait_instance k" "kmem (put r d pend k) = kmem k"
  "current_process (put r d pend k) = current_process k" "pit_ticks (put r d pend k) = pit_ticks k"
  by (simp_all add: put_def)

lemma put_commute [simp]:
  "put r d pend (k\<lparr>kmem := m\<rparr>) = (put r d pend k)\<lparr>kmem := m\<rparr>" "put r d pend (k\<lparr>current_process := c\<rparr>) = (put r d pend k)\<lparr>current_process := c\<rparr>"
  "put r d pend (upd_proc p f k) = upd_proc p f (put r d pend k)" "put r d pend (put r d' pend' k) = put r d pend k"
  "put r d pend (setProcessState p st k) = setProcessState p st (put r d pend k)"
  "put r d pend (syscall_set_retval p v k) = syscall_set_retval p v (put r d pend k)"
  by (simp_all add: put_def upd_proc_def setProcessState_def syscall_set_retval_def)

lemma running_put [simp]: "running (put r d pend k) p = running k p"
  by (simp add: running_def)

lemma waits_put: "waits (put r d pend k) p r' = (if r' = r then p \<in> pr_proc ` set pend else waits k p r')"
  by (simp add: waits_def)

lemma put_same [simp]: "objs k r = Some (Blocking d pend) \<Longrightarrow> put r d pend k = k"
  by (simp add: put_def fun_upd_idem)

lemma parts_put:
  assumes "kernel_ok k" and "objs k r = Some (Blocking d0 pend0)" and "dev_sized d0 \<longrightarrow> dev_sized d"
  shows "procs_ok (put r d pend k)" "refs_ok (put r d pend k)" "devs_ok (put r d pend k)"
proof -
  show "procs_ok (put r d pend k)" using assms(1) by (simp add: ok_defs)
  show "refs_ok (put r d pend k)" using assms(1,2) by (auto simp: ok_defs)
  show "devs_ok (put r d pend k)" using assms by (auto simp: ok_defs wait_sized_dev simp del: wait_sized.simps)
qed

lemma queue_distinct: "kernel_ok k \<Longrightarrow> objs k r = Some (Blocking d pend) \<Longrightarrow> distinct (map pr_proc pend)"
  using queued.simps(1) [of d pend] unfolding kernel_ok_def waits_ok_def by metis

text \<open>A device may change as long as its queue stays.\<close>

lemma kernel_ok_put:
  assumes "kernel_ok k" and "objs k r = Some (Blocking d0 pend)" and "dev_sized d0 \<longrightarrow> dev_sized d"
  shows "kernel_ok (put r d pend k)"
proof -
  have w: "waits (put r d pend k) = waits k" using assms(2) by (auto simp: waits_def fun_eq_iff)
  have "waits_ok (put r d pend k)"
    using assms(1) queue_distinct [OF assms(1,2)] by (simp add: kernel_ok_def waits_ok_def w)
  moreover have "sleep_ok (put r d pend k)" using assms(1) by (simp add: kernel_ok_def sleep_ok_def w)
  ultimately show ?thesis using parts_put [OF assms] by (simp add: kernel_ok_def)
qed

lemma has_setState:
  assumes "length (process_list k) = MAX_PROCESS_NUM"
  shows "has (setProcessState p st k) q sleeping = (if q = p then has k p (\<lambda>_. True) \<and> st = PROCESS_STATE_SLEEPING else has k q sleeping)"
    "has (setProcessState p st k) q backed = has k q backed"
    "has (setProcessState p st k) q (\<lambda>pr. owns pr r) = has k q (\<lambda>pr. owns pr r)"
    "has (setProcessState p st k) q (\<lambda>pr. ppid pr = i) = has k q (\<lambda>pr. ppid pr = i)"
    "has (setProcessState p st k) q (\<lambda>pr. sleeping pr \<and> owns pr r \<and> \<not> backed pr) =
       (if q = p then has k p (\<lambda>pr. owns pr r \<and> \<not> backed pr) \<and> st = PROCESS_STATE_SLEEPING
        else has k q (\<lambda>pr. sleeping pr \<and> owns pr r \<and> \<not> backed pr))"
    "has (setProcessState p st k) q (\<lambda>_. True) = has k q (\<lambda>_. True)"
  unfolding setProcessState_def has_upd [OF assms] by (auto simp: sleeping_def backed_def owns_def has_def)

lemma waits_setState [simp]: "waits (setProcessState p st k) = waits k"
  by (simp add: setProcessState_def)

lemma setState_fields [simp]:
  "objs (setProcessState p st k) = objs k" "kmem (setProcessState p st k) = kmem k" "current_process (setProcessState p st k) = current_process k"
  "pit_ticks (setProcessState p st k) = pit_ticks k" "length (process_list (setProcessState p st k)) = length (process_list k)"
  "devices (setProcessState p st k) = devices k"
  by (simp_all add: setProcessState_def)

lemma parts_setState:
  assumes "procs_ok k" "refs_ok k" "devs_ok k"
  shows "procs_ok (setProcessState p st k)" "refs_ok (setProcessState p st k)" "devs_ok (setProcessState p st k)"
proof -
  have l: "length (process_list k) = MAX_PROCESS_NUM" using assms(1) by (simp add: procs_ok_def)
  show "procs_ok (setProcessState p st k)" unfolding setProcessState_def by (rule procs_ok_upd [OF assms(1)]) simp
  show "refs_ok (setProcessState p st k)" using assms(2) unfolding refs_ok_def has_setState [OF l] by (simp add: setProcessState_def)
  show "devs_ok (setProcessState p st k)" using assms(3) by (simp add: devs_ok_def setProcessState_def)
qed

text \<open>The first request is taken out of the queue and its process woken.\<close>

lemma kernel_ok_wake:
  assumes "kernel_ok k" and "objs k r = Some (Blocking d0 (x # pend))" and "dev_sized d0 \<longrightarrow> dev_sized d"
  shows "kernel_ok (setProcessState (pr_proc x) PROCESS_STATE_RUNNABLE (put r d pend k))"
proof -
  let ?p = "pr_proc x"
  have l: "length (process_list (put r d pend k)) = MAX_PROCESS_NUM" using assms(1) by (simp add: kernel_ok_len)
  have wx: "waits k ?p r" using assms(2) by (simp add: waits_def)
  have w: "waits (put r d pend k) q s \<longleftrightarrow> waits k q s \<and> \<not> q = ?p" for q s
  proof (cases "q = ?p")
    case True
    then show ?thesis
      using waits_unique [OF assms(1) wx, of s] queue_distinct [OF assms(1,2)] by (cases "s = r") (auto simp: waits_put)
  next
    case False
    with assms(2) show ?thesis by (auto simp: waits_put waits_def)
  qed
  have nb: "\<not> has k ?p backed" using waits_has [OF assms(1) wx] by (auto simp: has_def)
  have "distinct (queued (objs (put r d pend k) s))" for s
    using assms(1) queue_distinct [OF assms(1,2)] unfolding kernel_ok_def waits_ok_def by (cases "s = r") simp_all
  then have "waits_ok (setProcessState ?p PROCESS_STATE_RUNNABLE (put r d pend k))"
    using assms(1) unfolding kernel_ok_def waits_ok_def waits_setState has_setState [OF l] w by simp blast
  moreover have "sleep_ok (setProcessState ?p PROCESS_STATE_RUNNABLE (put r d pend k))"
    using assms(1) nb unfolding kernel_ok_def sleep_ok_def waits_setState has_setState [OF l] w by simp
  ultimately show ?thesis
    using parts_setState [OF parts_put [OF assms]] by (simp add: kernel_ok_def)
qed

text \<open>A process that runs and owns the device queues a request and falls asleep.\<close>

lemma kernel_ok_block:
  assumes "kernel_ok k" and "objs k r = Some (Blocking d0 pend)" and "dev_sized d0 \<longrightarrow> dev_sized d"
    and "running k p" and "has k p (\<lambda>pr. owns pr r)" and "pr_proc x = p"
  shows "kernel_ok (setProcessState p PROCESS_STATE_SLEEPING (put r d (pend @ [x]) k))"
proof -
  let ?k = "put r d (pend @ [x]) k"
  have l: "length (process_list ?k) = MAX_PROCESS_NUM" using assms(1) by (simp add: kernel_ok_len)
  note aw = running_awake [OF assms(1,4)]
  have w: "waits ?k q s \<longleftrightarrow> waits k q s \<or> q = p \<and> s = r" for q s
    using assms(2,6) by (auto simp: waits_put waits_def)
  have ow: "has k p (\<lambda>pr. owns pr r \<and> \<not> backed pr)" using assms(5) aw by (auto simp: has_def)
  have "distinct (queued (objs ?k s))" for s
    using assms(1,2,6) aw [of r] queue_distinct [OF assms(1,2)] unfolding kernel_ok_def waits_ok_def by (cases "s = r") (auto simp: waits_def)
  then have "waits_ok (setProcessState p PROCESS_STATE_SLEEPING ?k)"
    using assms(1) ow aw unfolding kernel_ok_def waits_ok_def waits_setState has_setState [OF l] w by simp
  moreover have "sleep_ok (setProcessState p PROCESS_STATE_SLEEPING ?k)"
    using assms(1) aw unfolding kernel_ok_def sleep_ok_def waits_setState has_setState [OF l] w by simp
  ultimately show ?thesis
    using parts_setState [OF parts_put [OF assms(1-3)]] by (simp add: kernel_ok_def)
qed

section \<open>Serving requests\<close>

definition shared :: "device \<Rightarrow> bool" where
  "shared d \<longleftrightarrow> is_semaphore d \<or> is_console d"

lemma device_kinds: "is_semaphore d \<or> is_console d \<or> is_sleep d \<or> is_wait d"
  by (cases d) simp_all

lemma shared_read: "shared d \<Longrightarrow> shared (device_of (dev_read t p b s d m))"
  using semaphore.read_ok console.read_ok unfolding shared_def by blast

lemma sized_read: "dev_sized d \<Longrightarrow> dev_sized (device_of (dev_read t p b s d m))"
  by (cases d) (auto split: prod.split)

lemma shared_ready: "shared d \<Longrightarrow> \<not> blocked (dev_read t p b 0 d m) \<Longrightarrow> \<not> blocked (dev_read t q b' s' (device_of (dev_read t p b 0 d m)) m')"
  using semaphore.ready_any console.ready_any unfolding shared_def by blast

lemma blocked_repeats: "blocked (dev_read t p b s d m) \<Longrightarrow> blocked (dev_read t p b' s' (device_of (dev_read t p b s d m)) m')"
  using device_kinds [of d]
  by (elim disjE) (simp_all add: semaphore.blocked_stays console.blocked_stays sleep.blocked_stays wait.blocked_stays)

text \<open>
  The array of requests has room for one more, unless no request can be queued again: the device is shared, or the
  first check fails.
\<close>

definition room :: "u64 \<Rightarrow> nat \<Rightarrow> device \<Rightarrow> nat \<Rightarrow> bool" where
  "room t p d n \<longleftrightarrow> shared d \<or> n < MAX_PROCESS_NUM \<or> (\<forall>m. blocked (dev_read t p 0 0 d m))"

lemma blocked_any_memory: "blocked (dev_read t p b s d m) = blocked (dev_read t p b' s d m')"
  by (cases d) (auto simp: blocked_def ProcessWait_read_def split: prod.split)

lemma set_retval_fields [simp]:
  "objs (syscall_set_retval p v k) = objs k" "kmem (syscall_set_retval p v k) = kmem k"
  "current_process (syscall_set_retval p v k) = current_process k" "pit_ticks (syscall_set_retval p v k) = pit_ticks k"
  "length (process_list (syscall_set_retval p v k)) = length (process_list k)" "devices (syscall_set_retval p v k) = devices k"
  by (simp_all add: syscall_set_retval_def)

lemma kernel_ok_retval [simp]: "kernel_ok k \<Longrightarrow> kernel_ok (syscall_set_retval p v k)"
  by (simp add: syscall_set_retval_def kernel_ok_neutral)

lemma has_retval:
  "length (process_list k) = MAX_PROCESS_NUM \<Longrightarrow> has (syscall_set_retval p v k) q (\<lambda>_. True) = has k q (\<lambda>_. True)"
  "length (process_list k) = MAX_PROCESS_NUM \<Longrightarrow> running (syscall_set_retval p v k) q = running k q"
  by (auto simp: syscall_set_retval_def has_upd running_neutral)

lemma running_setState:
  assumes "length (process_list k) = MAX_PROCESS_NUM"
  shows "running (setProcessState p st k) q = (if q = p then has k p (\<lambda>_. True) \<and> st = PROCESS_STATE_RUNNABLE else running k q)"
  unfolding running_def setProcessState_def has_upd [OF assms] by (cases st) (auto simp: sleeping_def has_def)

text \<open>What serving requests leaves as it was.\<close>

definition served :: "kernel \<Rightarrow> kernel \<Rightarrow> bool" where
  "served k k' \<longleftrightarrow> objs k' = objs k \<and> devices k' = devices k \<and> pit_ticks k' = pit_ticks k \<and>
     length (process_list k') = length (process_list k) \<and>
     (\<forall>q. has k' q (\<lambda>_. True) = has k q (\<lambda>_. True)) \<and> (\<forall>q. running k q \<longrightarrow> running k' q)"

lemma served_refl [simp]: "served k k"
  by (simp add: served_def)

lemma served_trans: "served k k' \<Longrightarrow> served k' k'' \<Longrightarrow> served k k''"
  by (simp add: served_def)

lemma served_fields [simp]: "served k (k'\<lparr>kmem := m\<rparr>) = served k k'" "served k (k'\<lparr>current_process := c\<rparr>) = served k k'"
  "served (k\<lparr>kmem := m\<rparr>) k' = served k k'" "served (k\<lparr>current_process := c\<rparr>) k' = served k k'"
  by (simp_all add: served_def)

lemma served_request:
  assumes "length (process_list k) = MAX_PROCESS_NUM" and "\<not> running k p"
  shows "served k (setProcessState p st k)" "served k (syscall_set_retval p v (setProcessState p st k))"
  using assms by (auto simp: served_def has_setState running_setState has_retval)

lemma setState_twice: "setProcessState p st (setProcessState p st' k) = setProcessState p st k"
  by (cases "p < length (process_list k)")
    (simp_all add: setProcessState_def upd_proc_def list_update_beyond option.map_comp comp_def)

lemma setState_commute:
  "setProcessState p st (k\<lparr>kmem := m\<rparr>) = (setProcessState p st k)\<lparr>kmem := m\<rparr>"
  "setProcessState p st (k\<lparr>current_process := c\<rparr>) = (setProcessState p st k)\<lparr>current_process := c\<rparr>"
  "syscall_set_retval p v (k\<lparr>kmem := m\<rparr>) = (syscall_set_retval p v k)\<lparr>kmem := m\<rparr>"
  "syscall_set_retval p v (k\<lparr>current_process := c\<rparr>) = (syscall_set_retval p v k)\<lparr>current_process := c\<rparr>"
  by (simp_all add: setProcessState_def syscall_set_retval_def upd_proc_def)

text \<open>One turn of the loop serves the first request: it is answered, or queued again behind the others.\<close>

lemma serve_request:
  assumes ok: "kernel_ok (put r d (drop ind pend) k)" and le: "length pend \<le> MAX_PROCESS_NUM" and i: "ind < length pend"
    and rm: "room t (current_process k) d (length pend)" and ready: "\<not> blocked (dev_read t (current_process k) 0 0 d (kmem k))"
  shows "\<exists>d' pend' k'. check_loop (dev_read t) ind (d, pend) k = check_loop (dev_read t) (Suc ind) (d', pend') k' \<and>
    kernel_ok (put r d' (drop (Suc ind) pend') k') \<and> length pend' \<le> MAX_PROCESS_NUM \<and>
    room t (current_process k') d' (length pend') \<and> (dev_sized d \<longrightarrow> dev_sized d') \<and> served k k' \<and>
    pr_proc ` set pend' = pr_proc ` set pend"
proof -
  obtain ret d1 m1 where probe: "dev_read t (current_process k) 0 0 d (kmem k) = (ret, d1, m1)"
    by (cases "dev_read t (current_process k) 0 0 d (kmem k)")
  have sz1: "dev_sized d \<longrightarrow> dev_sized d1" using sized_read [of d t "current_process k" 0 0 "kmem k"] probe by auto
  let ?x = "pend ! ind" let ?p = "pr_proc (pend ! ind)"
  have ob: "objs (put r d (drop ind pend) k) r = Some (Blocking d (?x # drop (Suc ind) pend))" using i by (simp add: Cons_nth_drop_Suc)
  have w: "waits (put r d (drop ind pend) k) ?p r" unfolding waits_def ob by simp
  then have h: "alive k ?p" "\<not> running k ?p" "has k ?p (\<lambda>pr. owns pr r)"
    using waits_has [OF ok w] by (auto simp: alive_def has_def running_def)
  have l: "length (process_list k) = MAX_PROCESS_NUM" using kernel_ok_len [OF ok] by simp
  define k1 where "k1 = setProcessState ?p PROCESS_STATE_RUNNABLE (k\<lparr>kmem := m1, current_process := ?p\<rparr>)"
  have ok1: "kernel_ok (put r d1 (drop (Suc ind) pend) k1)"
    using kernel_ok_wake [OF ok ob sz1] by (simp add: k1_def setState_commute)
  have run1: "running k1 ?p" "has k1 ?p (\<lambda>pr. owns pr r)"
    using l h by (simp_all add: k1_def running_setState has_setState setState_commute alive_has)
  obtain ret2 d2 m2 where rd2: "dev_read t ?p (pr_buffer ?x) (pr_size ?x) d1 m1 = (ret2, d2, m2)"
    by (cases "dev_read t ?p (pr_buffer ?x) (pr_size ?x) d1 m1")
  have sz2: "dev_sized d1 \<longrightarrow> dev_sized d2" using sized_read [of d1 t ?p "pr_buffer ?x" "pr_size ?x" m1] rd2 by auto
  have ob1: "objs (put r d1 (drop (Suc ind) pend) k1) r = Some (Blocking d1 (drop (Suc ind) pend))" by simp
  have rm: "shared d \<or> length pend < MAX_PROCESS_NUM" using rm ready unfolding room_def by blast
  have step: "check_loop (dev_read t) ind (d, pend) k =
    (case do_read (dev_read t) ?p (pr_buffer ?x) (pr_size ?x) (d1, pend) k1 of Inl e \<Rightarrow> Inl e
     | Inr (ret, w, k) \<Rightarrow> check_loop (dev_read t) (ind + 1) w (syscall_set_retval ?p (of_int ret) k))"
    using i probe ready h(1) by (subst check_loop.simps) (simp add: Let_def k1_def alive_has blocked_def)
  have sv: "served k (syscall_set_retval ?p v (setProcessState ?p st k))" for v st by (rule served_request [OF l h(2)])
  show ?thesis
  proof (cases "ret2 = - EAGAIN")
    case True
    have lt: "length pend < MAX_PROCESS_NUM"
      using rm shared_ready [OF _ ready, of ?p "pr_buffer ?x" "pr_size ?x" m1] probe rd2 True by (auto simp: blocked_def)
    let ?y = "\<lparr>pr_proc = ?p, pr_buffer = pr_buffer ?x, pr_size = pr_size ?x\<rparr>"
    define k2 where "k2 = syscall_set_retval ?p (of_int ret2) (setProcessState ?p PROCESS_STATE_SLEEPING (k1\<lparr>kmem := m2\<rparr>))"
    have "kernel_ok (setProcessState ?p PROCESS_STATE_SLEEPING (put r d2 (drop (Suc ind) pend @ [?y]) (put r d1 (drop (Suc ind) pend) k1)))"
      by (rule kernel_ok_block [OF ok1 ob1 sz2]) (use run1 in simp_all)
    then have "kernel_ok (put r d2 (drop (Suc ind) (pend @ [?y])) k2)" using i by (simp add: k2_def setState_commute)
    moreover have "room t (current_process k2) d2 (length (pend @ [?y]))"
      using blocked_repeats [of t ?p "pr_buffer ?x" "pr_size ?x" d1 m1 0 0] rd2 True
      by (simp add: room_def k2_def k1_def setState_commute blocked_def)
    moreover have "check_loop (dev_read t) ind (d, pend) k = check_loop (dev_read t) (Suc ind) (d2, pend @ [?y]) k2"
      unfolding step using lt True rd2 by (simp add: do_read_def Let_def k1_def k2_def)
    moreover have "served k k2" using sv by (simp add: k2_def k1_def setState_commute setState_twice)
    moreover have "pr_proc ` set (pend @ [?y]) = pr_proc ` set pend" using i by (auto simp: image_iff intro: nth_mem)
    ultimately show ?thesis using lt sz1 sz2 by (intro exI [of _ d2] exI [of _ "pend @ [?y]"] exI [of _ k2]) simp
  next
    case False
    define k2 where "k2 = syscall_set_retval ?p (of_int ret2) (k1\<lparr>kmem := m2\<rparr>)"
    have "kernel_ok (put r d2 (drop (Suc ind) pend) k2)" using kernel_ok_put [OF ok1 ob1 sz2] by (simp add: k2_def)
    moreover have "room t (current_process k2) d2 (length pend)"
      using rm shared_read [of d t "current_process k" 0 0 "kmem k"] shared_read [of d1 t ?p "pr_buffer ?x" "pr_size ?x" m1] probe rd2
      by (auto simp: room_def)
    moreover have "check_loop (dev_read t) ind (d, pend) k = check_loop (dev_read t) (Suc ind) (d2, pend) k2"
      unfolding step using False rd2 by (simp add: do_read_def Let_def k1_def k2_def)
    moreover have "served k k2" using sv by (simp add: k2_def k1_def setState_commute)
    ultimately show ?thesis using le sz1 sz2 by (intro exI [of _ d2] exI [of _ pend] exI [of _ k2]) simp
  qed
qed

lemma check_loop_ok:
  assumes "kernel_ok (put r d (drop ind pend) k)" and "length pend \<le> MAX_PROCESS_NUM" and "room t (current_process k) d (length pend)"
  shows "\<exists>ind' d' pend' k'. check_loop (dev_read t) ind (d, pend) k = Inr (ind', (d', pend'), k') \<and>
    kernel_ok (put r d' (drop ind' pend') k') \<and> (dev_sized d \<longrightarrow> dev_sized d') \<and> served k k' \<and> pr_proc ` set pend' = pr_proc ` set pend"
  using assms
proof (induction "MAX_PROCESS_NUM - ind" arbitrary: ind d pend k rule: less_induct)
  case less
  obtain ret d1 m1 where probe: "dev_read t (current_process k) 0 0 d (kmem k) = (ret, d1, m1)"
    by (cases "dev_read t (current_process k) 0 0 d (kmem k)")
  consider "\<not> ind < length pend" | "ind < length pend" "ret = - EAGAIN" | "ind < length pend" "ret \<noteq> - EAGAIN" by blast
  then show ?case
  proof cases
    case 1
    then show ?thesis using less.prems(1) by (subst check_loop.simps) (simp add: Let_def)
  next
    case 2
    have sz: "dev_sized d \<longrightarrow> dev_sized d1" using sized_read [of d t "current_process k" 0 0 "kmem k"] probe by auto
    then have "kernel_ok (put r d1 (drop ind pend) (put r d (drop ind pend) k))" by (intro kernel_ok_put [OF less.prems(1)]) simp_all
    with 2 probe sz show ?thesis by (subst check_loop.simps) (simp add: Let_def)
  next
    case 3
    from serve_request [OF less.prems(1,2) 3(1) less.prems(3)] probe 3(2) obtain d' pend' k' where s:
      "check_loop (dev_read t) ind (d, pend) k = check_loop (dev_read t) (Suc ind) (d', pend') k'"
      "kernel_ok (put r d' (drop (Suc ind) pend') k')" "length pend' \<le> MAX_PROCESS_NUM"
      "room t (current_process k') d' (length pend')" "dev_sized d \<longrightarrow> dev_sized d'" "served k k'"
      "pr_proc ` set pend' = pr_proc ` set pend" by (auto simp: blocked_def)
    have "MAX_PROCESS_NUM - Suc ind < MAX_PROCESS_NUM - ind" using 3(1) less.prems(2) by simp
    from less.hyps [OF this s(2-4)] obtain ind' d2 pend2 k2 where
      "check_loop (dev_read t) (Suc ind) (d', pend') k' = Inr (ind', (d2, pend2), k2)" "kernel_ok (put r d2 (drop ind' pend2) k2)"
      "dev_sized d' \<longrightarrow> dev_sized d2" "served k' k2" "pr_proc ` set pend2 = pr_proc ` set pend'" by blast
    with s(1,5,7) served_trans [OF s(6)] show ?thesis by (intro exI [of _ ind'] exI [of _ d2] exI [of _ pend2] exI [of _ k2]) simp
  qed
qed

text \<open>
  The current process may be in a queue only if it has just been put there: its request cannot be answered yet.
\<close>

definition settled :: "kernel \<Rightarrow> bool" where
  "settled k \<longleftrightarrow> (\<forall>r d pend m. objs k r = Some (Blocking d pend) \<longrightarrow> waits k (current_process k) r \<longrightarrow>
     blocked (dev_read (pit_ticks k) (current_process k) 0 0 d m))"

lemma queue_bound:
  assumes "kernel_ok k" and "objs k r = Some (Blocking d pend)"
  shows "length pend \<le> MAX_PROCESS_NUM" "length pend = MAX_PROCESS_NUM \<Longrightarrow> p < MAX_PROCESS_NUM \<Longrightarrow> waits k p r"
proof -
  have sub: "set (map pr_proc pend) \<subseteq> {..<MAX_PROCESS_NUM}"
    using waits_has [OF assms(1), of _ r] assms(2) by (auto simp: waits_def has_def)
  have d: "distinct (map pr_proc pend)" by (rule queue_distinct [OF assms])
  show "length pend \<le> MAX_PROCESS_NUM" using card_mono [OF _ sub] distinct_card [OF d] by simp
  show "waits k p r" if "length pend = MAX_PROCESS_NUM" "p < MAX_PROCESS_NUM"
    using card_subset_eq [OF _ sub] distinct_card [OF d] that assms(2) by (auto simp: waits_def)
qed

text \<open>What looking at all devices leaves as it was.\<close>

definition looked :: "kernel \<Rightarrow> kernel \<Rightarrow> bool" where
  "looked k k' \<longleftrightarrow> current_process k' = current_process k \<and> devices k' = devices k \<and> pit_ticks k' = pit_ticks k \<and>
     (\<forall>r. is_blocking (objs k' r) = is_blocking (objs k r)) \<and>
     (\<forall>q. has k' q (\<lambda>_. True) = has k q (\<lambda>_. True)) \<and> (\<forall>q. running k q \<longrightarrow> running k' q)"

lemma check_device_ok:
  assumes ok: "kernel_ok k" and st: "settled k" and c: "current_process k < MAX_PROCESS_NUM" and r: "objs k r = Some (Blocking d pend)"
  shows "\<exists>k'. check_device r k = Inr k' \<and> kernel_ok k' \<and> settled k' \<and> looked k k'"
proof -
  let ?t = "pit_ticks k" let ?c = "current_process k"
  have "room ?t ?c d (length pend)"
    using queue_bound [OF ok r] c st r unfolding room_def settled_def by (metis le_neq_implies_less)
  then obtain ind' d' pend' k1 where l: "check_loop (dev_read ?t) 0 (d, pend) k = Inr (ind', (d', pend'), k1)"
    "kernel_ok (put r d' (drop ind' pend') k1)" "served k k1" "pr_proc ` set pend' = pr_proc ` set pend"
    using check_loop_ok [of r d 0 pend k ?t] ok r queue_bound(1) [OF ok r] by auto
  let ?k = "(put r d' (drop ind' pend') k1)\<lparr>current_process := ?c\<rparr>"
  have eq: "check_device r k = Inr ?k" using r l(1) by (simp add: check_device_def check_def put_def)
  have "blocked (dev_read ?t ?c 0 0 d' m)" if "waits ?k ?c r" for m
  proof -
    have "?c \<in> pr_proc ` set pend" using that l(4) image_mono [OF set_drop_subset, of pr_proc ind' pend'] by (auto simp: waits_def)
    then have b: "blocked (dev_read ?t ?c 0 0 d (kmem k))" using st r by (auto simp: settled_def waits_def)
    obtain d1 m1 where p: "dev_read ?t ?c 0 0 d (kmem k) = (- EAGAIN, d1, m1)"
      using b unfolding blocked_def by (cases "dev_read ?t ?c 0 0 d (kmem k)") auto
    have "pend \<noteq> []" using \<open>?c \<in> pr_proc ` set pend\<close> by auto
    then have "d' = d1" using l(1) p by (subst (asm) check_loop.simps) (simp add: Let_def)
    then show ?thesis using blocked_repeats [OF b] p by simp
  qed
  then have "settled ?k" using st l(3) unfolding settled_def by (auto simp: served_def waits_def split: if_splits)
  moreover have "looked k ?k" using l(3) r by (auto simp: looked_def served_def)
  ultimately show ?thesis using eq l(2) by auto
qed

lemma check_devices_ok:
  assumes "kernel_ok k" and "settled k" and "current_process k < MAX_PROCESS_NUM" and "\<And>r. Some r \<in> set rs \<Longrightarrow> is_blocking (objs k r)"
  shows "\<exists>k'. check_devices rs k = Inr k' \<and> kernel_ok k' \<and> looked k k'"
  using assms
proof (induction rs k rule: check_devices.induct)
  case (3 r rs k)
  obtain d pend where "objs k r = Some (Blocking d pend)" using 3(5) [of r] by (cases "objs k r" rule: is_blocking.cases) auto
  from check_device_ok [OF 3(2-4) this] obtain k1 where k1: "check_device r k = Inr k1" "kernel_ok k1" "settled k1" "looked k k1" by blast
  with 3(4,5) have "\<exists>k'. check_devices rs k1 = Inr k' \<and> kernel_ok k' \<and> looked k1 k'"
    by (intro 3(1)) (auto simp: looked_def)
  with k1 show ?case by (auto simp: looked_def)
qed (auto simp: looked_def)

lemma checkAll_ok:
  assumes "kernel_ok k" and "settled k" and "current_process k < MAX_PROCESS_NUM"
  shows "\<exists>k'. checkAll k = Inr k' \<and> kernel_ok k' \<and> looked k k'"
  unfolding checkAll_def by (rule check_devices_ok [OF assms]) (use assms(1) in \<open>simp add: kernel_ok_def devs_ok_def\<close>)

lemma settled_running: "kernel_ok k \<Longrightarrow> running k (current_process k) \<Longrightarrow> settled k"
  using running_awake by (auto simp: settled_def)

section \<open>Owning objects\<close>

text \<open>What an operation on the objects of process \<open>p\<close> leaves as it was: the other processes, and of \<open>p\<close> all but its objects.\<close>

abbreviation core :: "process \<Rightarrow> process" where
  "core pr \<equiv> pr\<lparr>objects := []\<rparr>"

definition only :: "nat \<Rightarrow> kernel \<Rightarrow> kernel \<Rightarrow> bool" where
  "only p k k' \<longleftrightarrow> current_process k' = current_process k \<and> kmem k' = kmem k \<and> length (process_list k') = length (process_list k) \<and>
     (\<forall>q. q \<noteq> p \<longrightarrow> getProcess q k' = getProcess q k) \<and> map_option core (getProcess p k') = map_option core (getProcess p k)"

lemma only_refl [simp]: "only p k k"
  by (simp add: only_def)

lemma only_trans: "only p k k' \<Longrightarrow> only p k' k'' \<Longrightarrow> only p k k''"
  by (simp add: only_def)

lemma core_eq: "core a = core b \<Longrightarrow> process_state a = process_state b \<and> stack_backup a = stack_backup b \<and> ppid a = ppid b \<and> proc_pid a = proc_pid b"
  by (cases a; cases b) simp

lemma only_has:
  assumes "only p k k'" and "\<And>a b. core a = core b \<Longrightarrow> P a = P b"
  shows "has k' q P = has k q P"
proof (cases "q = p")
  case True
  have e: "map_option core (getProcess p k') = map_option core (getProcess p k)" using assms(1) by (simp add: only_def)
  show ?thesis
  proof (cases "getProcess p k")
    case None
    with True e show ?thesis by (simp add: has_def)
  next
    case (Some a)
    with e obtain b where "getProcess p k' = Some b" "core b = core a" by auto
    with True Some assms(2) [of b a] show ?thesis by (simp add: has_def)
  qed
qed (use assms(1) in \<open>simp add: only_def has_def\<close>)

lemma only_running: "only p k k' \<Longrightarrow> running k' q = running k q"
  unfolding running_def by (erule only_has) (drule core_eq, simp add: sleeping_def)

lemma only_ppid: "only p k k' \<Longrightarrow> has k' q (\<lambda>pr. ppid pr = i) = has k q (\<lambda>pr. ppid pr = i)"
  by (erule only_has) (drule core_eq, simp)

definition idle :: "kernel \<Rightarrow> nat \<Rightarrow> bool" where
  "idle k p \<longleftrightarrow> (\<forall>r. \<not> waits k p r)"

lemma running_idle: "kernel_ok k \<Longrightarrow> running k p \<Longrightarrow> idle k p"
  using running_awake by (auto simp: idle_def)

lemma only_set_slot: "length (process_list k) = MAX_PROCESS_NUM \<Longrightarrow> only p k (set_slot p pos ro k)"
  by (cases "p < MAX_PROCESS_NUM")
    (auto simp: only_def set_slot_def getProcess_upd upd_proc_out option.map_comp comp_def)

lemma kernel_ok_slot:
  assumes ok: "kernel_ok k" and idle: "idle k p" and r: "\<And>r. ro = Some r \<Longrightarrow> objs k r \<noteq> None"
  shows "kernel_ok (set_slot p pos ro k)"
proof -
  have l: "length (process_list k) = MAX_PROCESS_NUM" by (rule kernel_ok_len [OF ok])
  note on = only_set_slot [OF l, of p pos ro]
  have eqs: "has (set_slot p pos ro k) q sleeping = has k q sleeping" "has (set_slot p pos ro k) q backed = has k q backed" for q
    by (rule only_has [OF on], drule core_eq, simp add: sleeping_def backed_def)+
  have other: "q \<noteq> p \<Longrightarrow> has (set_slot p pos ro k) q P = has k q P" for q P using l by (simp add: set_slot_def has_upd)
  have own: "has (set_slot p pos ro k) q (\<lambda>pr. owns pr s) \<Longrightarrow> has k q (\<lambda>pr. owns pr s) \<or> ro = Some s" for q s
    using subsetD [OF set_update_subset_insert, of "Some s" _ pos ro]
    unfolding set_slot_def has_upd [OF l] by (auto simp: owns_def has_def split: if_splits)
  have w: "waits (set_slot p pos ro k) = waits k" by (simp add: set_slot_def)
  have "procs_ok (set_slot p pos ro k)"
    unfolding set_slot_def by (rule procs_ok_upd) (use ok in \<open>simp_all add: kernel_ok_def\<close>)
  moreover have "refs_ok (set_slot p pos ro k)"
    using ok own r unfolding kernel_ok_def refs_ok_def by (simp add: set_slot_def) blast
  moreover have "devs_ok (set_slot p pos ro k)" using ok by (simp add: kernel_ok_def devs_ok_def set_slot_def)
  moreover have "has (set_slot p pos ro k) q (\<lambda>pr. sleeping pr \<and> owns pr s \<and> \<not> backed pr)" if "waits k q s" for q s
    using waits_has [OF ok that] that idle by (subst other) (auto simp: idle_def)
  then have "waits_ok (set_slot p pos ro k)"
    using ok unfolding kernel_ok_def waits_ok_def w by (simp add: set_slot_def)
  moreover have "sleep_ok (set_slot p pos ro k)"
    using ok unfolding kernel_ok_def sleep_ok_def w eqs only_ppid [OF on] by blast
  ultimately show ?thesis by (simp add: kernel_ok_def)
qed

lemma notify_idle: "idle k p \<Longrightarrow> notify_removed p r k = k"
proof -
  assume i: "idle k p"
  have "onRemovedByOwner p pend = pend" if "objs k r = Some (Blocking d pend)" for d pend
  proof -
    have "\<forall>x \<in> set pend. pr_proc x \<noteq> p" using i that by (auto simp: idle_def waits_def dest: spec [of _ r])
    then have t: "takeWhile (\<lambda>x. pr_proc x \<noteq> p) pend = pend" "dropWhile (\<lambda>x. pr_proc x \<noteq> p) pend = []"
      by (simp_all add: takeWhile_eq_all_conv dropWhile_eq_Nil_conv)
    show ?thesis unfolding onRemovedByOwner_def t by simp
  qed
  then show ?thesis
    by (auto simp: notify_removed_def fun_upd_idem split: option.split kobject.split)
qed

lemma owner_referenced:
  assumes "length (process_list k) = MAX_PROCESS_NUM" and "has k q (\<lambda>pr. owns pr r)"
  shows "referenced held r k"
proof -
  obtain pr where pr: "process_list k ! q = Some pr" "owns pr r" "q < length (process_list k)"
    using assms by (auto simp: has_def getProcess_def)
  from nth_mem [OF pr(3)] pr(1,2) have "\<exists>po \<in> set (process_list k). case po of None \<Rightarrow> False | Some pr \<Rightarrow> owns pr r"
    by (intro bexI [of _ "Some pr"]) simp_all
  then show ?thesis by (simp add: referenced_def list_ex_iff)
qed

lemma collect_fields [simp]:
  "process_list (collect held r k) = process_list k" "getProcess q (collect held r k) = getProcess q k" "has (collect held r k) q P = has k q P"
  "current_process (collect held r k) = current_process k" "kmem (collect held r k) = kmem k"
  "static_refs (collect held r k) = static_refs k" "special_paths (collect held r k) = special_paths k" "next_obj (collect held r k) = next_obj k"
  "wait_instance (collect held r k) = wait_instance k" "pit_ticks (collect held r k) = pit_ticks k"
  "objs (collect held r k) s = (if s = r \<and> \<not> referenced held r k then None else objs k s)"
  by (auto simp: collect_def)

lemma kernel_ok_collect:
  assumes "kernel_ok k"
  shows "kernel_ok (collect held r k)" and "waits (collect held r k) = waits k"
proof -
  have l: "length (process_list k) = MAX_PROCESS_NUM" by (rule kernel_ok_len [OF assms])
  have nw: "\<not> waits k q r" if "\<not> referenced held r k" for q
    using waits_has [OF assms, of q r] owner_referenced [OF l, of q r held] that by (auto intro: has_mono)
  then show w: "waits (collect held r k) = waits k" by (auto simp: waits_def fun_eq_iff)
  have d: "Some s \<in> set (devices (collect held r k)) \<longleftrightarrow> Some s \<in> set (devices k) \<and> \<not> (s = r \<and> \<not> referenced held r k)" for s
    by (auto simp: collect_def image_iff)
  have "refs_ok (collect held r k)"
    using assms owner_referenced [OF l] by (auto simp: kernel_ok_def refs_ok_def referenced_def)
  moreover have "devs_ok (collect held r k)"
    using assms d by (auto simp: kernel_ok_def devs_ok_def referenced_def) (auto simp: collect_def)
  moreover have "waits_ok (collect held r k)" using assms by (auto simp: kernel_ok_def waits_ok_def w)
  ultimately show "kernel_ok (collect held r k)" using assms by (simp add: kernel_ok_def procs_ok_def sleep_ok_def w)
qed

lemma removeObject_ok:
  assumes ok: "kernel_ok k" and idle: "idle k p"
  shows "kernel_ok (removeObject held p pos k)" and "waits (removeObject held p pos k) = waits k" and "only p k (removeObject held p pos k)"
    and "s \<in> set held \<Longrightarrow> objs (removeObject held p pos k) s = objs k s"
proof -
  have l: "length (process_list k) = MAX_PROCESS_NUM" by (rule kernel_ok_len [OF ok])
  have "removeObject held p pos k = k \<or> (\<exists>r. removeObject held p pos k = collect held r (set_slot p pos None k))"
    by (auto simp: removeObject_def notify_idle [OF idle] split: option.split)
  moreover have "kernel_ok (set_slot p pos None k)" by (rule kernel_ok_slot [OF ok idle]) simp
  note c = kernel_ok_collect [OF this]
  have "waits (set_slot p pos None k) = waits k" by (simp add: set_slot_def)
  moreover have "only p k (collect held r (set_slot p pos None k))" for r using only_set_slot [OF l, of p pos None] by (simp add: only_def)
  moreover have "s \<in> set held \<Longrightarrow> objs (collect held r (set_slot p pos None k)) s = objs k s" for r
    by (auto simp: referenced_def set_slot_def)
  ultimately show "kernel_ok (removeObject held p pos k)" "waits (removeObject held p pos k) = waits k"
    "only p k (removeObject held p pos k)" "s \<in> set held \<Longrightarrow> objs (removeObject held p pos k) s = objs k s"
    using ok c by auto
qed

lemma idle_cong: "waits k' = waits k \<Longrightarrow> idle k' p = idle k p"
  by (simp add: idle_def)

lemma removeObjects_ok:
  assumes "kernel_ok k" and "idle k p"
  shows "kernel_ok (removeObjects p ps k) \<and> waits (removeObjects p ps k) = waits k \<and> only p k (removeObjects p ps k)"
  using assms unfolding removeObjects_def
proof (induction ps arbitrary: k)
  case (Cons i ps)
  note r = removeObject_ok [OF Cons.prems, where held = "[]" and pos = i]
  from Cons.IH [OF r(1)] r(2,3) Cons.prems(2) idle_cong [OF r(2), of p] show ?case by (auto intro: only_trans)
qed simp

lemma setObject_ok:
  assumes ok: "kernel_ok k" and idle: "idle k p" and r: "objs k r \<noteq> None"
  shows "kernel_ok (snd (setObject p pos r k))" "waits (snd (setObject p pos r k)) = waits k" "only p k (snd (setObject p pos r k))"
proof -
  note rm = removeObject_ok [OF ok idle, where held = "[r]" and pos = pos]
  have "kernel_ok (set_slot p pos (Some r) (removeObject [r] p pos k))"
    by (rule kernel_ok_slot [OF rm(1)]) (use idle_cong [OF rm(2)] idle rm(4) r in simp_all)
  then show "kernel_ok (snd (setObject p pos r k))" using ok by (simp add: setObject_def)
  show "waits (snd (setObject p pos r k)) = waits k" using rm(2) by (simp add: setObject_def set_slot_def)
  show "only p k (snd (setObject p pos r k))"
    using only_trans [OF rm(3) only_set_slot [OF kernel_ok_len [OF rm(1)]]] by (simp add: setObject_def)
qed

lemma addObject_ok:
  assumes ok: "kernel_ok k" and idle: "idle k p" and r: "objs k r \<noteq> None" and a: "addObject p r k = Inr (i, k')"
  shows "kernel_ok k'" "waits k' = waits k" "only p k k'"
proof -
  have k': "k' = set_slot p i (Some r) k" using a by (auto simp: addObject_def split: option.splits)
  show "kernel_ok k'" unfolding k' using ok idle r by (intro kernel_ok_slot) auto
  show "waits k' = waits k" unfolding k' by (simp add: set_slot_def)
  show "only p k k'" unfolding k' by (rule only_set_slot [OF kernel_ok_len [OF ok]])
qed

end
