(* ===== verification/KernelLife.thy ===== *)
theory KernelLife
  imports KernelInv
begin

text \<open>The kernel invariant through the life of a process: creation, \<open>fork\<close>, \<open>exec\<close> and exit.\<close>

section \<open>New objects and processes\<close>

lemma upd_proc_commute:
  "upd_proc p f (k\<lparr>kmem := m\<rparr>) = (upd_proc p f k)\<lparr>kmem := m\<rparr>" "upd_proc p f (k\<lparr>current_process := c\<rparr>) = (upd_proc p f k)\<lparr>current_process := c\<rparr>"
  "p \<noteq> q \<Longrightarrow> upd_proc p f (upd_proc q g k) = upd_proc q g (upd_proc p f k)"
  by (simp_all add: upd_proc_def list_update_swap)

lemma upd_proc_twice: "upd_proc p f (upd_proc p g k) = upd_proc p (\<lambda>pr. f (g pr)) k"
  by (cases "p < length (process_list k)") (simp_all add: upd_proc_def option.map_comp comp_def list_update_beyond)

lemma new_object_ok:
  assumes ok: "kernel_ok k" and nb: "\<not> is_blocking (Some ob)"
  shows "kernel_ok (snd (new_object ob k))" "waits (snd (new_object ob k)) = waits k" "only p k (snd (new_object ob k))"
    "objs (snd (new_object ob k)) (fst (new_object ob k)) = Some ob"
proof -
  let ?k = "snd (new_object ob k)"
  have f: "objs k (next_obj k) = None" using ok by (auto simp: kernel_ok_def refs_ok_def)
  have q: "queued (Some ob) = []" using nb by (cases "Some ob" rule: queued.cases) auto
  show w: "waits ?k = waits k" using f q by (auto simp: waits_def new_object_def fun_eq_iff)
  have h: "has ?k p P = has k p P" for p P by (simp add: new_object_def)
  have "wait_instance k \<noteq> next_obj k" using ok f by (auto simp: kernel_ok_def devs_ok_def)
  then have "devs_ok ?k" using ok nb f unfolding kernel_ok_def devs_ok_def by (auto simp: new_object_def)
  moreover have "refs_ok ?k" using ok unfolding kernel_ok_def refs_ok_def h by (auto simp: new_object_def less_SucI)
  moreover have "waits_ok ?k" using ok q unfolding kernel_ok_def waits_ok_def w h by (simp add: new_object_def)
  moreover have "sleep_ok ?k" using ok unfolding kernel_ok_def sleep_ok_def w h by simp
  moreover have "procs_ok ?k" using ok unfolding kernel_ok_def procs_ok_def by (simp add: new_object_def)
  ultimately show "kernel_ok ?k" by (simp add: kernel_ok_def)
  show "only p k ?k" "objs ?k (fst (new_object ob k)) = Some ob" by (simp_all add: new_object_def only_def)
qed

lemma find_first: "List.find P xs = Some x \<Longrightarrow> P x \<and> x \<in> set xs"
  by (auto simp: find_Some_iff)

lemma new_device_ok:
  assumes ok: "kernel_ok k" and n: "new_device d k = Inr (r, k')"
  shows "kernel_ok k'" "waits k' = waits k" "only p k k'" "objs k' r = Some (Blocking d [])"
proof -
  obtain i where i: "devices k ! i = None" "i < MAX_BLOCK_INPUT_DEVICE_NUM" and r: "r = next_obj k"
    and k': "k' = k\<lparr>objs := (objs k)(next_obj k \<mapsto> Blocking d []), next_obj := next_obj k + 1, devices := (devices k)[i := Some r]\<rparr>"
    using n by (auto simp: new_device_def new_object_def dest!: find_first split: option.splits)
  have f: "objs k (next_obj k) = None" using ok by (auto simp: kernel_ok_def refs_ok_def)
  show w: "waits k' = waits k" using f by (auto simp: waits_def k' fun_eq_iff)
  have h: "has k' p P = has k p P" for p P by (simp add: k')
  have len: "i < length (devices k)" using ok i(2) by (simp add: kernel_ok_def devs_ok_def)
  have "Some s \<in> set ((devices k)[i := Some r]) \<longleftrightarrow> s = r \<or> Some s \<in> set (devices k)" for s
    using i(1) len by (auto simp: in_set_conv_nth nth_list_update) (metis option.distinct(1))+
  then have "devs_ok k'" using ok f unfolding kernel_ok_def devs_ok_def by (auto simp: k' r)
  moreover have "refs_ok k'" using ok unfolding kernel_ok_def refs_ok_def h by (auto simp: k' less_SucI)
  moreover have "waits_ok k'" using ok unfolding kernel_ok_def waits_ok_def w h by (simp add: k')
  moreover have "sleep_ok k'" using ok unfolding kernel_ok_def sleep_ok_def w h by simp
  moreover have "procs_ok k'" using ok unfolding kernel_ok_def procs_ok_def by (simp add: k')
  ultimately show "kernel_ok k'" by (simp add: kernel_ok_def)
  show "only p k k'" "objs k' r = Some (Blocking d [])" by (simp_all add: k' r only_def)
qed

text \<open>A new process is in a free place, awake, without objects and without a stack to restore.\<close>

lemma has_list_update:
  "length (process_list k) = MAX_PROCESS_NUM \<Longrightarrow> p < MAX_PROCESS_NUM \<Longrightarrow>
    has (k\<lparr>process_list := (process_list k)[p := po]\<rparr>) q P = (if q = p then (\<exists>pr. po = Some pr \<and> P pr) else has k q P)"
  by (auto simp: has_def getProcess_def)

lemma waits_process_list [simp]: "waits (k\<lparr>process_list := pl\<rparr>) = waits k"
  by (simp add: waits_def fun_eq_iff)

lemma new_Process_ok:
  assumes ok: "kernel_ok k" and n: "new_Process parent k = Inr (c, k')"
  shows "kernel_ok k'" "waits k' = waits k" "c < MAX_PROCESS_NUM" "\<not> has k c (\<lambda>_. True)" "\<And>q. q \<noteq> c \<Longrightarrow> getProcess q k' = getProcess q k"
    "running k' c" "has k' c (\<lambda>pr. ppid pr = parent)" "idle k' c" "objs k' = objs k" "current_process k' = current_process k"
proof -
  have l: "length (process_list k) = MAX_PROCESS_NUM" by (rule kernel_ok_len [OF ok])
  obtain pr where c: "getProcess c k = None" "c < MAX_PROCESS_NUM" and k': "k' = k\<lparr>process_list := (process_list k)[c := Some pr]\<rparr>"
    and pr: "proc_pid pr = c" "ppid pr = parent" "\<not> sleeping pr" "\<not> backed pr" "length (objects pr) = PROCESS_MAX_OBJECTS" "\<And>r. \<not> owns pr r"
    using n by (auto simp: new_Process_def getProcess_def sleeping_def backed_def owns_def dest!: find_first split: option.splits)
  have h: "has k' q P = (if q = c then P pr else has k q P)" for q P using l c by (simp add: k' has_list_update)
  show w: "waits k' = waits k" by (simp add: k')
  show nc: "\<not> has k c (\<lambda>_. True)" using c by (simp add: has_def)
  have nw: "\<not> waits k c r" for r using waits_has [OF ok, of c r] nc by (auto intro: has_mono)
  have g: "getProcess q k' = (if q = c then Some pr else getProcess q k)" for q using l c by (simp add: k' getProcess_def)
  have "procs_ok k'" using ok pr g unfolding kernel_ok_def procs_ok_def by (auto simp: k' split: if_splits)
  moreover have "refs_ok k'" using ok pr unfolding kernel_ok_def refs_ok_def h by (auto simp: k' split: if_splits)
  moreover have "devs_ok k'" using ok unfolding kernel_ok_def devs_ok_def by (simp add: k')
  moreover have "waits_ok k'" using ok nw unfolding kernel_ok_def waits_ok_def w h by (auto simp: k')
  moreover have "sleep_ok k'"
  proof -
    have keep: "has k q P \<Longrightarrow> has k' q P" for q P using nc by (auto simp: h intro: has_mono)
    have new: "has k' q sleeping \<Longrightarrow> has k q sleeping" "has k' q backed \<Longrightarrow> has k q backed" for q
      using pr by (auto simp: h split: if_splits)
    show ?thesis using ok keep new unfolding kernel_ok_def sleep_ok_def w by blast
  qed
  ultimately show "kernel_ok k'" by (simp add: kernel_ok_def)
  show "c < MAX_PROCESS_NUM" by (rule c)
  show "getProcess q k' = getProcess q k" if "q \<noteq> c" for q using that g by simp
  show "running k' c" "has k' c (\<lambda>pr. ppid pr = parent)" using pr by (simp_all add: running_def h)
  show "idle k' c" using nw by (simp add: idle_def w)
  show "objs k' = objs k" "current_process k' = current_process k" by (simp_all add: k')
qed

section \<open>Restoring the stack of the parent, and exit\<close>

text \<open>The part of the invariant on sleeping processes, without the promise that the fork child of \<open>q\<close> lives.\<close>

definition sleep_ok_but :: "nat \<Rightarrow> kernel \<Rightarrow> bool" where
  "sleep_ok_but q k \<longleftrightarrow> (\<forall>p. has k p sleeping \<longrightarrow> has k p backed \<or> (\<exists>r. waits k p r)) \<and>
     (\<forall>p. has k p backed \<longrightarrow> has k p sleeping \<and> (p = q \<or> (\<exists>c. has k c (\<lambda>pr. ppid pr = int p))))"

lemma sleep_ok_but_weak: "sleep_ok k \<Longrightarrow> sleep_ok_but q k"
  unfolding sleep_ok_def sleep_ok_but_def by blast

lemma restoreStack_ok:
  assumes pr: "procs_ok k" and re: "refs_ok k" and de: "devs_ok k" and wa: "waits_ok k" and sl: "sleep_ok_but q k"
  shows "kernel_ok (restoreStack q k)" "waits (restoreStack q k) = waits k" "\<And>p. running k p \<Longrightarrow> running (restoreStack q k) p"
    "\<And>p. has (restoreStack q k) p (\<lambda>_. True) = has k p (\<lambda>_. True)"
proof -
  have l: "length (process_list k) = MAX_PROCESS_NUM" using pr by (simp add: procs_ok_def)
  let ?F = "\<lambda>pr. pr\<lparr>stack_top_backup := 0, stack_backup := None, process_state := PROCESS_STATE_RUNNABLE\<rparr>"
  have cases: "\<not> has k q backed \<and> (\<exists>m. restoreStack q k = k\<lparr>kmem := m\<rparr>) \<or>
      has k q backed \<and> (\<exists>m. restoreStack q k = upd_proc q ?F (k\<lparr>kmem := m\<rparr>))"
  proof (cases "q < MAX_PROCESS_NUM")
    case True
    have "\<exists>m. k = k\<lparr>kmem := m\<rparr>" by (rule exI [of _ "kmem k"]) simp
    with True show ?thesis by (auto simp: restoreStack_def has_def backed_def split: option.splits)
  next
    case False
    then have "restoreStack q k = k \<or> (\<exists>m. restoreStack q k = k\<lparr>kmem := m\<rparr>)"
      using l by (auto simp: restoreStack_def upd_proc_out split: option.splits)
    moreover have "k = k\<lparr>kmem := kmem k\<rparr>" by simp
    ultimately show ?thesis using False by (metis has_def)
  qed
  have h: "has (upd_proc q ?F k) p P = (if p = q then has k q (\<lambda>pr. P (?F pr)) else has k p P)" for p P using l by (rule has_upd)
  have F: "sleeping (?F pr) = False" "backed (?F pr) = False" "owns (?F pr) r = owns pr r" "ppid (?F pr) = ppid pr" for pr r
    by (simp_all add: sleeping_def backed_def owns_def)
  have up: "kernel_ok (upd_proc q ?F k)" if b: "has k q backed"
  proof -
    have nw: "\<not> waits k q r" for r
    proof
      assume "waits k q r"
      with wa have "has k q (\<lambda>pr. sleeping pr \<and> owns pr r \<and> \<not> backed pr)" unfolding waits_ok_def by blast
      with b show False by (auto simp: has_def)
    qed
    have "procs_ok (upd_proc q ?F k)" by (rule procs_ok_upd [OF pr]) simp
    moreover have "refs_ok (upd_proc q ?F k)" using re unfolding refs_ok_def h F by simp
    moreover have "devs_ok (upd_proc q ?F k)" using de by (simp add: devs_ok_def)
    moreover have "waits_ok (upd_proc q ?F k)" using wa nw unfolding waits_ok_def waits_upd h by simp
    moreover have "sleep_ok (upd_proc q ?F k)"
    proof -
      have "has (upd_proc q ?F k) p sleeping = (p \<noteq> q \<and> has k p sleeping)" "has (upd_proc q ?F k) p backed = (p \<noteq> q \<and> has k p backed)"
        "has (upd_proc q ?F k) c (\<lambda>pr. ppid pr = i) = has k c (\<lambda>pr. ppid pr = i)" for p c i
        by (auto simp: h F) (auto simp: has_def)
      then show ?thesis using sl unfolding sleep_ok_def sleep_ok_but_def waits_upd by auto
    qed
    ultimately show ?thesis by (simp add: kernel_ok_def)
  qed
  have stay: "kernel_ok k" if "\<not> has k q backed"
    using assms that unfolding kernel_ok_def sleep_ok_def sleep_ok_but_def by blast
  from cases up stay show "kernel_ok (restoreStack q k)" by (auto simp: upd_proc_commute)
  from cases show "waits (restoreStack q k) = waits k" by (auto simp: waits_def fun_eq_iff)
  show "running (restoreStack q k) p" if "running k p" for p
    using cases that l by (auto simp: running_def has_upd F) (auto simp: has_def)
  show "has (restoreStack q k) p (\<lambda>_. True) = has k p (\<lambda>_. True)" for p
    using cases l by (auto simp: has_upd upd_proc_commute split: if_splits)
qed

lemma restoreStack_current [simp]: "current_process (restoreStack q k) = current_process k"
  by (simp add: restoreStack_def split: option.split)

lemma restore_parent_ok:
  assumes "kernel_ok k"
  shows "kernel_ok (restore_parent i k)" "waits (restore_parent i k) = waits k" "\<And>p. running k p \<Longrightarrow> running (restore_parent i k) p"
    "current_process (restore_parent i k) = current_process k"
  using restoreStack_ok [of k "nat i"] assms sleep_ok_but_weak [of k "nat i"] by (simp_all add: restore_parent_def kernel_ok_def)

lemma drop_process_ok:
  assumes ok: "kernel_ok k" and idle: "idle k p" and p: "has k p (\<lambda>pr. ppid pr = i)"
  defines "k1 \<equiv> k\<lparr>process_list := (process_list k)[p := None]\<rparr>"
  shows "kernel_ok (restore_parent i k1)" "waits (restore_parent i k1) = waits k" "current_process (restore_parent i k1) = current_process k"
    "\<not> has (restore_parent i k1) p (\<lambda>_. True)" "\<And>q. q \<noteq> p \<Longrightarrow> running k q \<Longrightarrow> running (restore_parent i k1) q"
proof -
  have l: "length (process_list k) = MAX_PROCESS_NUM" and p32: "p < MAX_PROCESS_NUM" using kernel_ok_len [OF ok] p by (auto simp: has_def)
  have h: "has k1 q P = (q \<noteq> p \<and> has k q P)" for q P using l p32 by (simp add: k1_def has_list_update)
  have w: "waits k1 = waits k" by (simp add: k1_def)
  have pr: "procs_ok k1" using ok l p32 unfolding kernel_ok_def procs_ok_def by (auto simp: k1_def getProcess_def nth_list_update)
  have re: "refs_ok k1" using ok unfolding kernel_ok_def refs_ok_def h by (simp add: k1_def) blast
  have de: "devs_ok k1" using ok by (simp add: kernel_ok_def devs_ok_def k1_def)
  have wa: "waits_ok k1" using ok idle unfolding kernel_ok_def waits_ok_def idle_def w h by (auto simp: k1_def)
  have child: "has k c (\<lambda>pr. ppid pr = int q) \<Longrightarrow> c \<noteq> p \<or> i = int q" for c q using p by (auto simp: has_def)
  then have sl: "sleep_ok_but (nat i) k1" using ok unfolding kernel_ok_def sleep_ok_def sleep_ok_but_def w h by (metis nat_int)
  have neg: "sleep_ok k1" if "i < 0" using ok child that unfolding kernel_ok_def sleep_ok_def w h by (metis of_nat_0_le_iff linorder_not_less)
  note rs = restoreStack_ok [OF pr re de wa sl]
  have run: "q \<noteq> p \<Longrightarrow> running k q \<Longrightarrow> running k1 q" for q by (simp add: running_def h)
  have dead: "\<not> has k1 p (\<lambda>_. True)" by (simp add: h)
  show "kernel_ok (restore_parent i k1)" using rs(1) pr re de wa neg by (simp add: restore_parent_def kernel_ok_def)
  show "waits (restore_parent i k1) = waits k" using rs(2) w by (simp add: restore_parent_def)
  show "current_process (restore_parent i k1) = current_process k" by (simp add: restore_parent_def k1_def)
  show "\<not> has (restore_parent i k1) p (\<lambda>_. True)" using rs(4) dead by (simp add: restore_parent_def)
  show "running (restore_parent i k1) q" if "q \<noteq> p" "running k q" for q using rs(3) run [OF that] by (simp add: restore_parent_def)
qed

lemma sized_exit: "dev_sized (ProcessWait w) \<Longrightarrow> dev_sized (ProcessWait (processExit p code w))"
  by (simp add: processExit_def)

lemma record_exit_ok:
  assumes ok: "kernel_ok k"
  shows "kernel_ok (record_exit p code k)" "waits (record_exit p code k) = waits k" "has (record_exit p code k) q P = has k q P"
    "current_process (record_exit p code k) = current_process k"
proof -
  obtain w pend where o: "objs k (wait_instance k) = Some (Blocking (ProcessWait w) pend)"
    using ok by (cases "objs k (wait_instance k)" rule: wait_sized.cases) (auto simp: kernel_ok_def devs_ok_def)
  then have eq: "record_exit p code k = put (wait_instance k) (ProcessWait (processExit p code w)) pend k"
    by (simp add: record_exit_def put_def)
  show "kernel_ok (record_exit p code k)" unfolding eq by (rule kernel_ok_put [OF ok o]) (use sized_exit in blast)
  show "waits (record_exit p code k) = waits k" unfolding eq using o by (auto simp: waits_def fun_eq_iff)
  show "has (record_exit p code k) q P = has k q P" "current_process (record_exit p code k) = current_process k" unfolding eq by simp_all
qed

lemma deleteProcess_ok:
  assumes ok: "kernel_ok k" and run: "running k p"
  shows "kernel_ok (deleteProcess p code k)" "\<not> has (deleteProcess p code k) p (\<lambda>_. True)"
    "waits (deleteProcess p code k) = waits k" "current_process (deleteProcess p code k) = current_process k"
    "\<And>q. q \<noteq> p \<Longrightarrow> running k q \<Longrightarrow> running (deleteProcess p code k) q"
proof -
  let ?k = "removeObjects p [0..<PROCESS_MAX_OBJECTS] k"
  note r = removeObjects_ok [OF ok running_idle [OF ok run], of "[0..<PROCESS_MAX_OBJECTS]"]
  obtain pr where pr: "getProcess p k = Some pr" "p < MAX_PROCESS_NUM" using run by (auto simp: running_def has_def)
  then have pp: "has ?k p (\<lambda>x. ppid x = ppid pr)" using only_ppid [of p k ?k p "ppid pr"] r by (simp add: has_def)
  have id: "idle ?k p" using r running_idle [OF ok run] by (simp add: idle_def)
  have ok': "kernel_ok ?k" using r by blast
  note d = drop_process_ok [OF ok' id pp]
  have eq: "deleteProcess p code k = record_exit p code (restore_parent (ppid pr) (?k\<lparr>process_list := (process_list ?k)[p := None]\<rparr>))"
    using pr by (simp add: deleteProcess_def Let_def)
  note e = record_exit_ok [OF d(1), of p code]
  show "kernel_ok (deleteProcess p code k)" unfolding eq by (rule e(1))
  show "\<not> has (deleteProcess p code k) p (\<lambda>_. True)" unfolding eq e(3) by (rule d(4))
  show "waits (deleteProcess p code k) = waits k" unfolding eq e(2) d(2) using r by blast
  show "current_process (deleteProcess p code k) = current_process k" unfolding eq e(4) d(3) using r by (simp add: only_def)
  show "running (deleteProcess p code k) q" if "q \<noteq> p" "running k q" for q
    using d(5) [OF that(1)] that(2) only_running [of p k ?k q] r unfolding eq running_def e(3) by simp
qed

section \<open>Fork and threads\<close>

lemma awake_state: "running k p \<Longrightarrow> \<exists>pr. getProcess p k = Some pr \<and> process_state pr = PROCESS_STATE_RUNNABLE \<and> p < MAX_PROCESS_NUM"
  by (auto simp: running_def has_def sleeping_def) (metis proc_state.exhaust)

text \<open>New registers for a process that is awake.\<close>

lemma awake_regs:
  fixes t :: tss
  assumes ok: "kernel_ok k" and run: "running k c"
  defines "k' \<equiv> upd_proc c (\<lambda>cr. cr\<lparr>usermode_state := t, process_state := PROCESS_STATE_RUNNABLE\<rparr>) k"
  shows "kernel_ok k'" "\<And>q. running k' q = running k q"
proof -
  obtain pr where pr: "getProcess c k = Some pr" "process_state pr = PROCESS_STATE_RUNNABLE" using awake_state [OF run] by blast
  have "pr\<lparr>usermode_state := t, process_state := PROCESS_STATE_RUNNABLE\<rparr> = pr\<lparr>usermode_state := t\<rparr>" using pr(2) by (cases pr) simp
  then have "k' = upd_proc c (\<lambda>cr. cr\<lparr>usermode_state := t\<rparr>) k"
    using pr(1) by (simp add: k'_def upd_proc_def getProcess_def)
  then show "kernel_ok k'" "running k' q = running k q" for q
    using kernel_ok_neutral [OF ok] running_neutral [OF kernel_ok_len [OF ok]] by simp_all
qed

lemma fork_sleep_ok:
  fixes bs :: "u8 list" and e :: u32
  assumes ok: "kernel_ok k" and run: "running k p" and c: "has k c (\<lambda>pr. ppid pr = int p)" and "c \<noteq> p"
  defines "k' \<equiv> upd_proc p (\<lambda>pr. pr\<lparr>stack_backup := Some bs, stack_top_backup := e, process_state := PROCESS_STATE_SLEEPING\<rparr>) k"
  shows "kernel_ok k'" "\<And>q. q \<noteq> p \<Longrightarrow> running k' q = running k q"
proof -
  let ?F = "\<lambda>pr. pr\<lparr>stack_backup := Some bs, stack_top_backup := e, process_state := PROCESS_STATE_SLEEPING\<rparr>"
  have l: "length (process_list k) = MAX_PROCESS_NUM" by (rule kernel_ok_len [OF ok])
  have h: "has k' q P = (if q = p then has k p (\<lambda>pr. P (?F pr)) else has k q P)" for q P unfolding k'_def using l by (rule has_upd)
  have F: "sleeping (?F pr)" "backed (?F pr)" "owns (?F pr) r = owns pr r" "ppid (?F pr) = ppid pr" for pr r
    by (simp_all add: sleeping_def backed_def owns_def)
  have alive: "has k p (\<lambda>_. True)" using run by (auto simp: running_def intro: has_mono)
  note nw = running_awake [OF ok run]
  have hs: "has k' q sleeping = (q = p \<or> has k q sleeping)" "has k' q backed = (q = p \<or> has k q backed)"
    "has k' d (\<lambda>pr. ppid pr = i) = has k d (\<lambda>pr. ppid pr = i)" for q d i
    using alive by (auto simp: h F)
  have w: "waits k' = waits k" by (simp add: k'_def)
  have "procs_ok k'" unfolding k'_def using ok by (intro procs_ok_upd) (simp_all add: kernel_ok_def)
  moreover have "refs_ok k'" using ok unfolding kernel_ok_def refs_ok_def h F by (simp add: k'_def)
  moreover have "devs_ok k'" using ok by (simp add: kernel_ok_def devs_ok_def k'_def)
  moreover have "waits_ok k'" using ok nw unfolding kernel_ok_def waits_ok_def w h by (simp add: k'_def)
  moreover have "sleep_ok k'" using ok c unfolding kernel_ok_def sleep_ok_def w hs by blast
  ultimately show "kernel_ok k'" by (simp add: kernel_ok_def)
  show "running k' q = running k q" if "q \<noteq> p" for q using that by (simp add: running_def h)
qed

lemma only_other: "only p k k' \<Longrightarrow> q \<noteq> p \<Longrightarrow> has k' q P = has k q P"
  by (simp add: only_def has_def)

lemma waits_fields [simp]: "waits (k\<lparr>kmem := m\<rparr>) = waits k" "waits (k\<lparr>current_process := c\<rparr>) = waits k" "waits (k\<lparr>rootfs := fs\<rparr>) = waits k"
  by (simp_all add: waits_def fun_eq_iff)

lemma copy_objects_ok:
  assumes "kernel_ok k" and "idle k c" and "p \<noteq> c" and "\<And>r. Some r \<in> set os \<Longrightarrow> has k p (\<lambda>pr. owns pr r)"
  shows "kernel_ok (copy_objects c i os k) \<and> waits (copy_objects c i os k) = waits k \<and> only c k (copy_objects c i os k)"
  using assms
proof (induction c i os k rule: copy_objects.induct)
  case (3 c i r os k)
  let ?k = "snd (setObject c i r k)"
  have "objs k r \<noteq> None" using 3(2) 3(5) [of r] unfolding kernel_ok_def refs_ok_def by auto
  note s = setObject_ok [OF 3(2,3) this, of i]
  have "\<And>s. Some s \<in> set os \<Longrightarrow> has ?k p (\<lambda>pr. owns pr s)"
    using only_other [OF s(3) 3(4)] 3(5) by simp
  from 3(1) [OF s(1) _ 3(4) this] s(2,3) 3(3) show ?case by (auto simp: idle_def intro: only_trans)
qed simp_all

lemma clone_registers_ok:
  assumes ok: "kernel_ok k" and rp: "running k p" and rc: "running k c" and c: "has k c (\<lambda>pr. ppid pr = int p)" and ne: "c \<noteq> p"
  shows "kernel_ok (clone_registers p c mode k) \<and> running (clone_registers p c mode k) c \<and> waits (clone_registers p c mode k) = waits k \<and>
    has (clone_registers p c mode k) p (\<lambda>pr. owns pr r) = has k p (\<lambda>pr. owns pr r)"
proof -
  have l: "length (process_list k) = MAX_PROCESS_NUM" by (rule kernel_ok_len [OF ok])
  obtain pr where pr: "getProcess p k = Some pr" using awake_state [OF rp] by blast
  define ts where "ts = usermode_state pr"
  define k1 where "k1 = upd_proc c (\<lambda>cr. cr\<lparr>usermode_state := ts, process_state := PROCESS_STATE_RUNNABLE\<rparr>) k"
  have l1: "length (process_list k1) = MAX_PROCESS_NUM" using l by (simp add: k1_def)
  have ok1: "kernel_ok k1" and r1: "\<And>q. running k1 q = running k q" unfolding k1_def using awake_regs [OF ok rc] by blast+
  have c1: "has k1 c (\<lambda>pr. ppid pr = int p)" "has k1 p (\<lambda>pr. owns pr r) = has k p (\<lambda>pr. owns pr r)"
    using c ne l by (auto simp: k1_def has_upd owns_def)
  have w1: "waits k1 = waits k" by (simp add: k1_def)
  show ?thesis
  proof (cases mode)
    case PROCESS_CLONE_KEEP_STACK
    let ?bs = "bytes (kmem k1) (t_esp ts) PROCESS_STACK_BACKUP_SIZE"
    let ?k = "upd_proc p (\<lambda>pr. pr\<lparr>stack_backup := Some ?bs, stack_top_backup := t_esp ts, process_state := PROCESS_STATE_SLEEPING\<rparr>) k1"
    have "clone_registers p c mode k = syscall_set_retval c 0 ?k"
      using PROCESS_CLONE_KEEP_STACK pr ne
      by (simp add: clone_registers_def Let_def k1_def ts_def setProcessState_def syscall_set_retval_def upd_proc_commute(3) upd_proc_twice)
    moreover note fork_sleep_ok [OF ok1 _ c1(1) ne, where bs = ?bs and e = "t_esp ts"]
    moreover have "has ?k p (\<lambda>pr. owns pr r) = has k p (\<lambda>pr. owns pr r)" using l1 c1(2) by (simp add: has_upd owns_def)
    ultimately show ?thesis
      using rp rc r1 ne l1 w1 has_neutral(3) [of ?k "\<lambda>pr. pr\<lparr>usermode_state := usermode_state pr\<lparr>t_eax := 0, t_edx := 0\<rparr>\<rparr>"]
      by (simp add: has_retval syscall_set_retval_def running_neutral kernel_ok_neutral has_neutral)
  next
    case (PROCESS_CLONE_NEW_THREAD code data)
    then obtain m t where "clone_registers p c mode k = upd_proc c (\<lambda>cr. cr\<lparr>usermode_state := t\<rparr>) (k1\<lparr>kmem := m\<rparr>)"
      using pr by (auto simp: clone_registers_def Let_def k1_def ts_def)
    then show ?thesis
      using ok1 rc r1 l1 w1 c1(2) by (simp add: upd_proc_commute(1) running_neutral kernel_ok_neutral has_neutral)
  qed
qed

lemma clone_ok:
  assumes ok: "kernel_ok k" and run: "running k p" and cl: "clone p mode k = Inr (Inr (c, k'))"
  shows "kernel_ok k'" "running k' c" "current_process k' = c" "waits k' = waits k" "c < MAX_PROCESS_NUM"
proof -
  obtain pr where pr: "getProcess p k = Some pr" "p < MAX_PROCESS_NUM" using awake_state [OF run] by blast
  obtain k1 where n: "new_Process (int p) k = Inr (c, k1)"
    and k': "k' = (copy_objects c 0 (objects pr) (clone_registers p c mode k1))\<lparr>current_process := c\<rparr>"
    using cl pr by (auto simp: clone_def Let_def split: if_splits sum.splits)
  note np = new_Process_ok [OF ok n]
  have ne: "c \<noteq> p" using np(4) pr by (auto simp: has_def)
  have rp: "running k1 p" using run np(5) [of p] ne by (simp add: running_def has_def)
  let ?k = "clone_registers p c mode k1"
  note cr = clone_registers_ok [OF np(1) rp np(6,7) ne, of mode]
  have id: "idle ?k c" using np(8) cr by (simp add: idle_def)
  have "has ?k p (\<lambda>pr. owns pr r)" if "Some r \<in> set (objects pr)" for r
    using that cr [of r] np(5) [of p] ne pr by (simp add: has_def owns_def)
  from copy_objects_ok [OF conjunct1 [OF cr] id ne [symmetric] this] have co:
    "kernel_ok (copy_objects c 0 (objects pr) ?k)" "waits (copy_objects c 0 (objects pr) ?k) = waits ?k" "only c ?k (copy_objects c 0 (objects pr) ?k)"
    by blast+
  show "kernel_ok k'" "running k' c" "current_process k' = c" "waits k' = waits k" "c < MAX_PROCESS_NUM"
    using co cr np(2,3) only_running [OF co(3)] by (simp_all add: k')
qed

section \<open>Loading a program\<close>

text \<open>What loading keeps: the queues, who is current, and who is awake.\<close>

definition calm :: "kernel \<Rightarrow> kernel \<Rightarrow> bool" where
  "calm k k' \<longleftrightarrow> waits k' = waits k \<and> current_process k' = current_process k \<and> (\<forall>q. running k q \<longrightarrow> running k' q)"

lemma calm_refl [simp]: "calm k k"
  by (simp add: calm_def)

lemma calm_trans: "calm k k' \<Longrightarrow> calm k' k'' \<Longrightarrow> calm k k''"
  by (simp add: calm_def)

lemma calm_only: "only p k k' \<Longrightarrow> waits k' = waits k \<Longrightarrow> calm k k'"
  by (simp add: calm_def only_running) (simp add: only_def)

lemma calm_idle: "calm k k' \<Longrightarrow> idle k p \<Longrightarrow> idle k' p"
  by (simp add: calm_def idle_def)

lemma calm_fields [simp]: "calm k (k'\<lparr>kmem := m\<rparr>) = calm k k'" "calm k (k'\<lparr>rootfs := fs\<rparr>) = calm k k'"
  by (simp_all add: calm_def)

lemma calm_neutral: "length (process_list k) = MAX_PROCESS_NUM \<Longrightarrow> neutral f \<Longrightarrow> calm k (upd_proc p f k)"
  by (simp add: calm_def running_neutral)

text \<open>
  Judgements on kernel code: every result satisfies \<open>Q\<close>, every failure is one of \<open>E\<close>. They compose along \<open>and_then\<close>.
\<close>

definition ensures :: "('a \<Rightarrow> bool) \<Rightarrow> (string \<Rightarrow> bool) \<Rightarrow> 'a outcome option \<Rightarrow> bool" where
  "ensures Q E x \<longleftrightarrow> (\<forall>a. x = Some (Inr a) \<longrightarrow> Q a) \<and> (\<forall>e. x = Some (Inl e) \<longrightarrow> E e)"

lemma ensures_simps [simp]: "ensures Q E None" "ensures Q E (Some (Inr a)) = Q a" "ensures Q E (Some (Inl e)) = E e"
  by (simp_all add: ensures_def)

lemma ensures_and_then: "ensures Q E x \<Longrightarrow> (\<And>a. Q a \<Longrightarrow> x = Some (Inr a) \<Longrightarrow> ensures R E (f a)) \<Longrightarrow> ensures R E (and_then x f)"
  by (cases "(x, f)" rule: and_then.cases) auto

lemma ensures_bind: "(\<And>a. x = Some a \<Longrightarrow> ensures R E (f a)) \<Longrightarrow> ensures R E (Option.bind x f)"
  by (cases x) auto

lemma ensures_fail: "(\<And>e. x = Some (Inl e) \<Longrightarrow> E e) \<Longrightarrow> ensures (\<lambda>_. True) E x"
  by (auto simp: ensures_def)

lemma ensures_mono: "ensures Q E x \<Longrightarrow> (\<And>a. Q a \<Longrightarrow> R a) \<Longrightarrow> ensures R E x"
  by (auto simp: ensures_def)

text \<open>
  How kernel code can fail: at a limit of its tables, at an index that it does not check, on a malformed program, or
  because the file system fails.
\<close>

definition fs_failure :: "kernel \<Rightarrow> string \<Rightarrow> bool" where
  "fs_failure k e \<longleftrightarrow> (\<exists>path fs. openFile (rootdisk k) None path fs = Some (Inl e)) \<or>
     (\<exists>fi n f. file_read (rootdisk k) fi n f = Inl e) \<or> (\<exists>fs f. Directory_fromFile (rootdisk k) fs f = Some (Inl e))"

definition limits :: "string set" where
  "limits = {''too many processes'', ''too many objects'', ''block input device limit exceeded'', ''no process left''}"

definition bad_index :: "string set" where
  "bad_index = {''objects index out of bounds'', ''process_list index out of bounds'', ''syscall_wrappers index out of bounds''}"

definition bad_image :: "string set" where
  "bad_image = {''read behind the end of the ELF buffer'', ''sections index out of bounds'', ''use of an uninitialised section''}"

definition known_failure :: "kernel \<Rightarrow> string \<Rightarrow> bool" where
  "known_failure k e \<longleftrightarrow> e \<in> limits \<or> e \<in> bad_index \<or> e \<in> bad_image \<or> fs_failure k e"

lemma known_failures [simp]:
  "known_failure k ''too many processes''" "known_failure k ''too many objects''" "known_failure k ''block input device limit exceeded''"
  "known_failure k ''no process left''" "known_failure k ''objects index out of bounds''" "known_failure k ''process_list index out of bounds''"
  "known_failure k ''syscall_wrappers index out of bounds''" "known_failure k ''read behind the end of the ELF buffer''"
  "known_failure k ''sections index out of bounds''" "known_failure k ''use of an uninitialised section''"
  by (simp_all add: known_failure_def limits_def bad_index_def bad_image_def)

lemma known_failure_disk: "rootdisk k' = rootdisk k \<Longrightarrow> known_failure k' = known_failure k"
  by (rule ext) (simp add: known_failure_def fs_failure_def)

lemma addObject_fails: "running k p \<Longrightarrow> addObject p r k = Inl e \<Longrightarrow> e = ObjectLimitExceeded"
  by (auto simp: addObject_def running_def has_def split: option.splits)

lemma invalid_section_fails: "invalid_section secs = Inl e \<Longrightarrow> e \<in> bad_image"
  by (induction secs rule: invalid_section.induct) (auto simp: bad_image_def split: if_splits)

lemma phdr_loop_fails: "phdr_loop buf n i num secs = Inl e \<Longrightarrow> e \<in> bad_image"
proof (induction buf n i num secs rule: phdr_loop.induct)
  case (1 buf n i num secs)
  then show ?case
    by (subst (asm) phdr_loop.simps) (auto simp: Let_def bad_image_def split: if_splits)
qed

lemma parse_fails: "parseElfSections buf n = Inl e \<Longrightarrow> e \<in> bad_image"
  by (auto simp: parseElfSections_def bad_image_def dest: phdr_loop_fails split: if_splits sum.splits)

definition load_post :: "kernel \<Rightarrow> exn + kernel \<Rightarrow> bool" where
  "load_post k r = (case r of Inl e \<Rightarrow> e = ObjectLimitExceeded | Inr k' \<Rightarrow> kernel_ok k' \<and> calm k k')"

lemma load_sections_ok:
  assumes "kernel_ok k" and "running k p"
  shows "ensures (load_post k) (\<lambda>e. e \<in> bad_image) (Some (load_sections p buf secs k))"
  using assms
proof (induction secs arbitrary: k)
  case (Cons so secs)
  show ?case
  proof (cases so)
    case (Some s)
    let ?base = "sec_base s + image_base p k" let ?ob = "SegmentObject ?base (sec_limit s)"
    let ?k1 = "snd (new_object ?ob k)" and ?r = "fst (new_object ?ob k)"
    define m where "m = store_bytes ?base (take (unat (sec_limit s)) (drop (unat (sec_offset s)) buf)) (kmem ?k1)"
    have no: "kernel_ok (?k1\<lparr>kmem := m\<rparr>)" "objs (?k1\<lparr>kmem := m\<rparr>) ?r \<noteq> None" "calm k (?k1\<lparr>kmem := m\<rparr>)"
      using new_object_ok [OF Cons.prems(1), of ?ob] calm_only by simp_all
    then have run: "running (?k1\<lparr>kmem := m\<rparr>) p" using Cons.prems(2) by (simp add: calm_def)
    have eq: "load_sections p buf (so # secs) k = (if \<not> unat (sec_offset s) + unat (sec_limit s) \<le> length buf
        then Inl ''read behind the end of the ELF buffer''
        else case addObject p ?r (?k1\<lparr>kmem := m\<rparr>) of Inl e \<Rightarrow> Inr (Inl e) | Inr (_, k) \<Rightarrow> load_sections p buf secs k)"
      by (simp add: Some Let_def m_def case_prod_unfold)
    have "ensures (load_post k) (\<lambda>e. e \<in> bad_image) (Some (load_sections p buf secs k2))" if "addObject p ?r (?k1\<lparr>kmem := m\<rparr>) = Inr (i, k2)" for i k2
    proof -
      note ad = addObject_ok [OF no(1) running_idle [OF no(1) run] no(2) that]
      have c: "calm k k2" using calm_trans [OF no(3) calm_only [OF ad(3,2)]] .
      then have "running k2 p" using Cons.prems(2) by (simp add: calm_def)
      from Cons.IH [OF ad(1) this] show ?thesis
        by (rule ensures_mono) (use calm_trans [OF c] in \<open>auto simp: load_post_def split: sum.splits\<close>)
    qed
    with addObject_fails [OF run] show ?thesis unfolding eq
      by (auto simp: load_post_def [of k "Inl _"] bad_image_def split: sum.split)
  qed (simp add: bad_image_def)
qed (simp add: load_post_def)

lemma Process_exec_ok:
  assumes ok: "kernel_ok k" and run: "running k p"
  shows "ensures (\<lambda>r. case r of Inl e \<Rightarrow> e \<in> {InvalidSection, ObjectLimitExceeded} | Inr k' \<Rightarrow> kernel_ok k' \<and> calm k k') (known_failure k')
    (Process_exec p args buf secs entry lo hi k)"
proof -
  define k1 where "k1 = removeObjects p (filter (\<lambda>i. \<not> keeps lo hi i) [0..<PROCESS_MAX_OBJECTS]) k"
  have r: "kernel_ok k1" "calm k k1"
    using removeObjects_ok [OF ok running_idle [OF ok run]] calm_only unfolding k1_def by blast+
  define k2 where "k2 = upd_proc p (\<lambda>pr. pr\<lparr>usermode_state := exec_registers p entry k1\<rparr>) k1"
  have r2: "kernel_ok k2" "calm k1 k2"
    using kernel_ok_neutral [OF r(1)] calm_neutral [OF kernel_ok_len [OF r(1)]] by (simp_all add: k2_def)
  have c2: "calm k k2" using calm_trans r r2 by blast
  have load: "ensures (\<lambda>r. case r of Inl e \<Rightarrow> e = ObjectLimitExceeded | Inr k3 \<Rightarrow> kernel_ok k3 \<and> calm k k3) (known_failure k')
      (Some (load_sections p buf secs (k2\<lparr>kmem := m\<rparr>)))" for m
  proof -
    let ?k = "k2\<lparr>kmem := m\<rparr>"
    have k: "kernel_ok ?k" "running ?k p" "idle ?k p" "calm k ?k"
      using r2(1) c2 run running_idle [OF ok run] calm_idle [OF c2] by (simp_all add: calm_def idle_def)
    from load_sections_ok [OF k(1,2), of buf secs] calm_trans [OF k(4)]
    show ?thesis by (auto simp: ensures_def known_failure_def load_post_def split: sum.splits)
  qed
  show ?thesis
    unfolding Process_exec_def Let_def k1_def [symmetric] k2_def [symmetric]
  proof (rule ensures_and_then [where Q = "\<lambda>_. True"], goal_cases)
    case 1
    then show ?case using invalid_section_fails by (auto simp: ensures_def known_failure_def)
  next
    case (2 bad)
    have "ensures (\<lambda>r. case r of Inl e \<Rightarrow> e \<in> {InvalidSection, ObjectLimitExceeded} | Inr k' \<Rightarrow> kernel_ok k' \<and> calm k k') (known_failure k')
      (and_then (Some (load_sections p buf secs (k2\<lparr>kmem := m\<rparr>))) (\<lambda>r.
        case r of Inl e \<Rightarrow> Some (Inr (Inl e))
        | Inr k \<Rightarrow> (case getProcess p k of None \<Rightarrow> Some (Inl ''use of a deleted process'')
           | Some pr \<Rightarrow> Some (Inr (Inr (restore_parent (ppid pr) k))))))" for m
    proof (rule ensures_and_then [OF load], goal_cases)
      case (1 r)
      then show ?case
      proof (cases r)
        case (Inr k3)
        with 1 have k3: "kernel_ok k3" "calm k k3" by simp_all
        then obtain pr where "getProcess p k3 = Some pr" using run awake_state [of k3 p] by (auto simp: calm_def)
        with Inr restore_parent_ok [OF k3(1), where i = "ppid pr"] k3(2) show ?thesis by (simp add: calm_def)
      qed simp
    qed
    then show ?case by (auto intro!: ensures_bind)
  qed
qed

lemma bad_elf_twice: "parseElfSections buf n = Inr (Some r) \<Longrightarrow> parseElfSections buf m \<noteq> Inr None"
  by (auto simp: parseElfSections_def split: if_splits sum.splits)

lemma execv_ok:
  assumes ok: "kernel_ok k" and run: "running k p"
  shows "ensures (\<lambda>(ret, k'). kernel_ok k' \<and> calm k k') (known_failure k) (execv p path args lo hi k)"
  unfolding execv_def Let_def
proof (rule ensures_and_then [where Q = "\<lambda>_. True"], goal_cases)
  case 1
  then show ?case by (rule ensures_fail) (auto simp: known_failure_def fs_failure_def)
next
  case (2 a)
  obtain fo fs where a: "a = (fo, fs)" by (cases a)
  let ?k = "k\<lparr>rootfs := fs\<rparr>"
  have k: "kernel_ok ?k" "running ?k p" "calm k ?k" using ok run by simp_all
  show ?case
  proof (cases fo)
    case None
    then show ?thesis using k by (simp add: a)
  next
    case (Some f)
    have read: "ensures (\<lambda>_. True) (known_failure k) (Some (file_read (rootdisk k) fi n g))" for fi n g
      by (rule ensures_fail) (auto simp: known_failure_def fs_failure_def)
    have parse: "ensures (\<lambda>_. True) (known_failure k) (Some (parseElfSections buf n))" for buf n
      by (rule ensures_fail) (auto simp: known_failure_def dest: parse_fails)
    have exec: "ensures (\<lambda>r. case r of Inl e \<Rightarrow> e \<in> {InvalidSection, ObjectLimitExceeded} | Inr k' \<Rightarrow> kernel_ok k' \<and> calm k k') (known_failure k)
        (Process_exec p args buf secs entry lo hi ?k)" for buf secs entry
      using Process_exec_ok [OF k(1,2)] by (rule ensures_mono) (auto simp: calm_def split: sum.splits)
    show ?thesis unfolding a Some
      by (auto intro!: ensures_and_then [OF read] ensures_and_then [OF parse] ensures_and_then [OF exec]
          split: option.split prod.split sum.split exn.split simp: ok bad_elf_twice)
  qed
qed

section \<open>Choosing the next process\<close>

lemma next_process_spec:
  assumes "next_process sel k = Some p"
  shows "has k p (\<lambda>pr. process_state pr = PROCESS_STATE_RUNNABLE \<and> sel pr)"
proof -
  have "p \<in> set (turn (current_process k))" "case getProcess p k of None \<Rightarrow> False | Some pr \<Rightarrow> process_state pr = PROCESS_STATE_RUNNABLE \<and> sel pr"
    using find_first [OF assms [unfolded next_process_def]] by simp_all
  then show ?thesis by (auto simp: has_def turn_def MAX_PROCESS_NUM_def split: option.splits)
qed

lemma resche_ok:
  assumes ok: "kernel_ok k" and r: "resche k = Some k'"
  shows "kernel_ok k'" "running k' (current_process k')" "waits k' = waits k"
proof -
  obtain p sel where p: "next_process sel k = Some p" "k' = switch_to p k" using r by (auto simp: resche_def split: option.splits)
  from next_process_spec [OF p(1)] obtain pr where pr: "getProcess p k = Some pr" "process_state pr = PROCESS_STATE_RUNNABLE" "p < MAX_PROCESS_NUM"
    by (auto simp: has_def)
  have "proc_pid pr = p" using ok pr by (simp add: kernel_ok_def procs_ok_def)
  then have k': "k' = k\<lparr>current_process := p, resche_counter := PROCESS_TICKS\<rparr>" using p(2) pr(1) by (simp add: switch_to_def)
  show "kernel_ok k'" "waits k' = waits k" using ok by (simp_all add: k' waits_def fun_eq_iff)
  show "running k' (current_process k')" using pr by (simp add: k' running_def has_def sleeping_def)
qed

end
