(* ===== verification/KernelSafety.thy ===== *)
theory KernelSafety
  imports KernelLife
begin

text \<open>
  Every system call keeps the kernel invariant and fails only in known ways; the states that a running system can
  reach, as an inductive step relation, and the properties of the kernel as a whole.
\<close>

section \<open>The handlers\<close>

text \<open>
  What holds after the handler of a call by \<open>p\<close>: the current process is \<open>p\<close>, or another one that is awake, and if it is queued
  somewhere it has just been put there.
\<close>

definition call_post :: "nat \<Rightarrow> kernel \<Rightarrow> bool" where
  "call_post p k \<longleftrightarrow> kernel_ok k \<and> settled k \<and> current_process k < MAX_PROCESS_NUM \<and>
     (current_process k = p \<or> running k (current_process k))"

abbreviation handled :: "nat \<Rightarrow> 'a \<times> kernel \<Rightarrow> bool" where
  "handled p x \<equiv> call_post p (snd x)"

lemma call_post_running: "kernel_ok k \<Longrightarrow> running k (current_process k) \<Longrightarrow> call_post p k"
  using settled_running [of k] by (auto simp: call_post_def running_def has_def)

lemma call_post_calm: "kernel_ok k' \<Longrightarrow> calm k k' \<Longrightarrow> running k (current_process k) \<Longrightarrow> call_post p k'"
  by (rule call_post_running) (simp_all add: calm_def)

lemma getObject_ensures:
  assumes ok: "kernel_ok k" and run: "running k p"
  shows "ensures (\<lambda>ro. \<forall>r. ro = Some r \<longrightarrow> has k p (\<lambda>pr. owns pr r) \<and> objs k r \<noteq> None) (known_failure k') (Some (getObject p pos k))"
proof (cases "pos < PROCESS_MAX_OBJECTS")
  case True
  obtain pr where pr: "getProcess p k = Some pr" "p < MAX_PROCESS_NUM" using awake_state [OF run] by blast
  then have "pos < length (objects pr)" using ok True by (auto simp: kernel_ok_def procs_ok_def)
  then have "owns pr r" if "objects pr ! pos = Some r" for r using that nth_mem [of pos "objects pr"] by (simp add: owns_def)
  then have own: "has k p (\<lambda>pr. owns pr r)" if "objects pr ! pos = Some r" for r using pr that by (simp add: has_def)
  moreover have "objs k r \<noteq> None" if "has k p (\<lambda>pr. owns pr r)" for r using ok that unfolding kernel_ok_def refs_ok_def by blast
  ultimately show ?thesis using pr(1) True by (simp add: getObject_def)
qed (simp add: getObject_def)

lemma close_ok:
  assumes "kernel_ok k" and "running k (current_process k)"
  shows "ensures (handled (current_process k)) E (close_handler fd k)"
proof -
  note r = removeObject_ok [OF assms(1) running_idle [OF assms], where held = "[]" and pos = "unat fd"]
  show ?thesis unfolding close_handler_def
    using call_post_calm [OF r(1) calm_only [OF r(3,2)] assms(2)] by simp
qed

lemma dup2_ok:
  assumes "kernel_ok k" and "running k (current_process k)"
  shows "ensures (handled (current_process k)) (known_failure k) (dup2_handler oldfd newfd k)"
proof -
  have stay: "call_post (current_process k) k" by (rule call_post_running [OF assms])
  have "call_post (current_process k) (snd (setObject (current_process k) pos r k))" if "objs k r \<noteq> None" for pos r
    using setObject_ok [OF assms(1) running_idle [OF assms] that, of pos] call_post_calm [OF _ calm_only _] assms(2) by blast
  with stay show ?thesis unfolding dup2_handler_def
    by (auto intro!: ensures_and_then [OF getObject_ensures [OF assms]] split: option.split)
qed

lemma exec_ok:
  assumes "kernel_ok k" and "running k (current_process k)"
  shows "ensures (handled (current_process k)) (known_failure k) (exec_handler iexec iargs lo hi k)"
  unfolding exec_handler_def
  by (rule ensures_bind, rule ensures_and_then [OF execv_ok [OF assms]]) (use call_post_calm assms(2) in auto)

lemma exit_ok:
  assumes "kernel_ok k" and "running k (current_process k)"
  shows "ensures (handled (current_process k)) E (exit_handler code k)"
proof -
  note d = deleteProcess_ok [OF assms, where code = code]
  let ?k = "deleteProcess (current_process k) code k"
  have "\<not> waits ?k (current_process k) r" for r using waits_has [OF d(1), of "current_process k" r] d(2) by (auto intro: has_mono)
  then have "settled ?k" by (simp add: settled_def d(4))
  with d assms(2) show ?thesis by (auto simp: exit_handler_def call_post_def running_def has_def)
qed

lemma clone_call_ok:
  assumes "kernel_ok k" and "running k (current_process k)"
  shows "ensures (handled (current_process k)) (known_failure k) (clone_call mode k)"
proof -
  let ?p = "current_process k"
  obtain pr where pr: "getProcess ?p k = Some pr" "?p < MAX_PROCESS_NUM" using awake_state [OF assms(2)] by blast
  then have nb: "stack_backup pr = None" using running_awake [OF assms] by (auto simp: has_def backed_def)
  have e: "e = ProcessLimitExceeded" if "clone ?p mode k = Inr (Inl e)" for e
    using that pr nb by (auto simp: clone_def new_Process_def Let_def split: sum.splits option.splits if_splits)
  have ni: "clone ?p mode k \<noteq> Inl msg" for msg using pr nb by (auto simp: clone_def Let_def split: sum.splits)
  have ok: "call_post ?p k'" if "clone ?p mode k = Inr (Inr (c, k'))" for c k'
    using clone_ok [OF assms that] by (intro call_post_running) simp_all
  show ?thesis
  proof (cases "clone ?p mode k")
    case (Inl msg)
    with ni show ?thesis by blast
  next
    case (Inr x)
    with e ok show ?thesis by (cases x) (auto simp: clone_call_def)
  qed
qed

lemma yield_ok:
  assumes "kernel_ok k"
  shows "ensures (handled p) (known_failure k) (sched_yield_handler k)"
  using resche_ok [OF assms] call_post_running by (auto simp: sched_yield_handler_def split: option.split)

lemma sem_create_ok:
  assumes "kernel_ok k" and "running k (current_process k)"
  shows "ensures (handled (current_process k)) (known_failure k) (sem_create_handler cnt k)"
proof (cases "new_device (Semaphore cnt) k")
  case (Inl e)
  then have "e = BlockInputDeviceLimitExceeded" by (auto simp: new_device_def new_object_def split: option.splits)
  with Inl show ?thesis by (simp add: sem_create_handler_def)
next
  case (Inr x)
  obtain r k1 where x: "new_device (Semaphore cnt) k = Inr (r, k1)" using Inr by (cases x) auto
  have n: "kernel_ok k1" "waits k1 = waits k" "only 0 k k1" "objs k1 r = Some (Blocking (Semaphore cnt) [])"
    using new_device_ok [OF assms(1) x] by blast+
  have cu: "current_process k1 = current_process k" and r1: "running k1 (current_process k)"
    using n(3) only_running [OF n(3)] assms(2) by (simp_all add: only_def)
  have "call_post (current_process k) k2" if "addObject (current_process k) r k1 = Inr (i, k2)" for i k2
    using addObject_ok [OF n(1) running_idle [OF n(1) r1] _ that] n(4) call_post_calm [of k2 k1] calm_only [of "current_process k" k1 k2] r1 cu by auto
  with addObject_fails [OF r1] show ?thesis by (auto simp: sem_create_handler_def x cu split: sum.split exn.split)
qed

lemma attach_ok:
  assumes "kernel_ok k" and "running k (current_process k)" and "objs k r \<noteq> None"
  shows "ensures (handled (current_process k)) (known_failure k') (attach_call r k)"
proof -
  have "call_post (current_process k) k2" if "addObject (current_process k) r k = Inr (i, k2)" for i k2
    using addObject_ok [OF assms(1) running_idle [OF assms(1,2)] assms(3) that] call_post_calm [of k2 k] calm_only assms(2) by blast
  moreover have "call_post (current_process k) (collect [] r k)"
    using kernel_ok_collect [OF assms(1)] assms(2) by (intro call_post_running) (simp_all add: running_def)
  ultimately show ?thesis
    using addObject_fails [OF assms(2)] by (cases "addObject (current_process k) r k") (force simp: attach_call_def)+
qed

lemma open_ok:
  assumes "kernel_ok k" and "running k (current_process k)"
  shows "ensures (handled (current_process k)) (known_failure k) (open_handler pfilename k)"
proof -
  have sp: "objs k r \<noteq> None" if get: "SpecialPathManager_get path k = Some r" for path r
  proof -
    have "length (special_paths k) = MAX_SPECIAL_PATH_NUM" using assms(1) by (simp add: kernel_ok_def devs_ok_def)
    then obtain i where i: "i < length (special_paths k)" "snd (special_paths k ! i) = Some r"
      using get by (auto simp: SpecialPathManager_get_def find_path_def dest!: find_first split: option.splits)
    then have "Some r \<in> set (map snd (special_paths k))" using nth_mem [of i "map snd (special_paths k)"] by simp
    then show ?thesis using assms(1) unfolding kernel_ok_def refs_ok_def by blast
  qed
  have fs: "kernel_ok (k\<lparr>rootfs := fs\<rparr>)" "running (k\<lparr>rootfs := fs\<rparr>) (current_process (k\<lparr>rootfs := fs\<rparr>))" for fs using assms by simp_all
  have fo: "ensures (handled (current_process k)) (known_failure k) (let (r, k) = new_object (FileObject f) (k\<lparr>rootfs := fs\<rparr>) in attach_call r k)" for f fs
  proof -
    let ?k = "snd (new_object (FileObject f) (k\<lparr>rootfs := fs\<rparr>))"
    have n: "kernel_ok ?k" "only 0 (k\<lparr>rootfs := fs\<rparr>) ?k" "objs ?k (fst (new_object (FileObject f) (k\<lparr>rootfs := fs\<rparr>))) \<noteq> None"
      using new_object_ok [OF fs(1), of "FileObject f"] by simp_all
    have "current_process ?k = current_process k" "running ?k (current_process ?k)"
      using n(2) only_running [OF n(2)] assms(2) by (simp_all add: only_def)
    then show ?thesis using attach_ok [OF n(1) _ n(3), of k] by (simp add: case_prod_unfold Let_def)
  qed
  have none: "call_post (current_process k) (k\<lparr>rootfs := fs\<rparr>)" for fs
    using call_post_running [OF fs(1) fs(2)] by simp
  have op: "ensures (\<lambda>_. True) (known_failure k) (openFile (rootdisk k) None path fs)" for path fs
    by (rule ensures_fail) (auto simp: known_failure_def fs_failure_def)
  show ?thesis unfolding open_handler_def Let_def [of "bytes _ _ _"]
    by (rule ensures_bind)
      (auto intro!: ensures_and_then [OF op] attach_ok [OF assms] sp fo [unfolded Let_def] none simp: Let_def split: option.split)
qed

lemma kernel_ok_plain:
  assumes ok: "kernel_ok k" and r: "objs k r \<noteq> None" "\<not> is_blocking (objs k r)" and ob: "\<not> is_blocking (Some ob)"
  shows "kernel_ok (k\<lparr>objs := (objs k)(r \<mapsto> ob)\<rparr>)"
proof -
  let ?k = "k\<lparr>objs := (objs k)(r \<mapsto> ob)\<rparr>"
  have plain: "queued x = []" if "\<not> is_blocking x" for x using that by (cases x rule: is_blocking.cases) simp_all
  note q = plain [OF ob] plain [OF r(2)]
  then have w: "waits ?k = waits k" by (auto simp: waits_def fun_eq_iff)
  have nw: "r \<noteq> wait_instance k" using ok r(2) by (cases "objs k r" rule: wait_sized.cases) (auto simp: kernel_ok_def devs_ok_def)
  have "devs_ok ?k" using ok ob r(2) nw unfolding kernel_ok_def devs_ok_def by auto
  moreover have "refs_ok ?k" using ok r(1) unfolding kernel_ok_def refs_ok_def by auto
  moreover have "waits_ok ?k" using ok q unfolding kernel_ok_def waits_ok_def w by simp
  ultimately show ?thesis using ok by (simp add: kernel_ok_def procs_ok_def sleep_ok_def w)
qed

text \<open>A read that blocks leaves the process asleep in the queue; the array of requests has room for it.\<close>

lemma blocked_read_ok:
  assumes ok: "kernel_ok k" and run: "running k (current_process k)" and r: "objs k r = Some (Blocking d pend)"
    and own: "has k (current_process k) (\<lambda>pr. owns pr r)"
  shows "ensures (\<lambda>(ret, (d', pend'), k'). call_post (current_process k) (put r d' pend' k')) E
    (Some (do_read (dev_read (pit_ticks k)) (current_process k) buf siz (d, pend) k))"
proof -
  let ?p = "current_process k" let ?t = "pit_ticks k"
  obtain ret d2 m2 where rd2: "dev_read ?t ?p buf siz d (kmem k) = (ret, d2, m2)" by (cases "dev_read ?t ?p buf siz d (kmem k)")
  have sz: "dev_sized d \<longrightarrow> dev_sized d2" using sized_read [of d ?t ?p buf siz "kmem k"] rd2 by auto
  have p32: "?p < MAX_PROCESS_NUM" using run by (simp add: running_def has_def)
  have lt: "length pend < MAX_PROCESS_NUM"
    using queue_bound [OF ok r] running_awake [OF ok run] p32 by (metis le_neq_implies_less)
  show ?thesis
  proof (cases "ret = - EAGAIN")
    case True
    let ?x = "\<lparr>pr_proc = ?p, pr_buffer = buf, pr_size = siz\<rparr>"
    let ?k = "setProcessState ?p PROCESS_STATE_SLEEPING (put r d2 (pend @ [?x]) k)"
    have okk: "kernel_ok ?k" by (rule kernel_ok_block [OF ok r sz run own]) simp
    have "waits ?k ?p s \<Longrightarrow> s = r" for s using running_awake [OF ok run] by (auto simp: waits_put split: if_splits)
    then have "settled ?k"
      using blocked_repeats [of ?t ?p buf siz d "kmem k" 0 0] rd2 True by (auto simp: settled_def blocked_def)
    then have "call_post ?p (?k\<lparr>kmem := m2\<rparr>)" using okk p32 by (simp add: call_post_def settled_def)
    with rd2 True lt show ?thesis by (simp add: do_read_def Let_def setState_commute)
  next
    case False
    have "call_post ?p (put r d2 pend (k\<lparr>kmem := m2\<rparr>))"
      using kernel_ok_put [OF ok r sz] run by (intro call_post_running) simp_all
    with rd2 False show ?thesis by (simp add: do_read_def Let_def)
  qed
qed

lemma file_read_ensures: "ensures (\<lambda>_. True) (known_failure k) (Some (file_read (rootdisk k) fi n f))"
  by (rule ensures_fail) (auto simp: known_failure_def fs_failure_def)

lemma read_ok:
  assumes ok: "kernel_ok k" and run: "running k (current_process k)"
  shows "ensures (handled (current_process k)) (known_failure k) (read_handler fd buf siz k)"
  unfolding read_handler_def
proof (rule ensures_and_then [OF getObject_ensures [OF assms]], goal_cases)
  case (1 ro)
  note stay = call_post_running [OF ok run]
  show ?case
  proof (cases ro)
    case (Some r)
    with 1 have own: "has k (current_process k) (\<lambda>pr. owns pr r)" and r: "objs k r \<noteq> None" by blast+
    then obtain ob where ob: "objs k r = Some ob" by blast
    show ?thesis
    proof (cases ob)
      case (Blocking d pend)
      show ?thesis unfolding Some ob Blocking option.case kobject.case
        by (rule ensures_and_then [OF blocked_read_ok [OF ok run _ own]])
          (use ob Blocking in \<open>auto simp: put_def\<close>)
    next
      case (FileObject f)
      have keep: "kernel_ok (k\<lparr>objs := (objs k)(r \<mapsto> FileObject g), kmem := m\<rparr>)" for g m
        using kernel_ok_plain [OF ok, of r "FileObject g"] ob FileObject by simp
      show ?thesis unfolding Some ob FileObject option.case kobject.case
        by (rule ensures_and_then [OF file_read_ensures]) (use keep run in \<open>auto intro!: call_post_running\<close>)
    next
      case (SegmentObject b s)
      then show ?thesis using stay by (simp add: Some ob)
    qed
  qed (use stay in simp)
qed

lemma write_ensures:
  "ensures (\<lambda>(ret, d'). dev_sized d \<longrightarrow> dev_sized d') (known_failure k) (Some (dev_write al t p buf siz d m))"
proof -
  have "dev_write al t p buf siz d m = Inr (ret, d') \<Longrightarrow> dev_sized d \<Longrightarrow> dev_sized d'" for ret d'
    by (cases d) (auto simp: ProcessWait_write_def split: sum.splits if_splits)
  moreover have "dev_write al t p buf siz d m = Inl e \<Longrightarrow> e = ''process_list index out of bounds''" for e
    by (cases d) (auto simp: ProcessWait_write_def split: sum.splits if_splits prod.splits)
  ultimately show ?thesis by (auto simp: ensures_def)
qed

lemma write_ok:
  assumes ok: "kernel_ok k" and run: "running k (current_process k)"
  shows "ensures (handled (current_process k)) (known_failure k) (write_handler fd buf siz k)"
  unfolding write_handler_def
proof (rule ensures_and_then [OF getObject_ensures [OF assms]], goal_cases)
  case (1 ro)
  note stay = call_post_running [OF ok run]
  show ?case
  proof (cases ro)
    case (Some r)
    with 1 obtain ob where ob: "objs k r = Some ob" by blast
    show ?thesis
    proof (cases ob)
      case (Blocking d pend)
      have "call_post (current_process k) (put r d' pend k)" if "dev_sized d \<longrightarrow> dev_sized d'" for d'
        using kernel_ok_put [OF ok _ that, of r pend] ob Blocking run by (intro call_post_running) simp_all
      then show ?thesis unfolding Some ob Blocking option.case kobject.case
        by (intro ensures_and_then [OF write_ensures]) (auto simp: put_def)
    qed (use stay in \<open>simp_all add: Some ob\<close>)
  qed (use stay in simp)
qed

lemma readdir_ok:
  assumes ok: "kernel_ok k" and run: "running k (current_process k)"
  shows "ensures (handled (current_process k)) (known_failure k) (readdir_handler fd info n_addr k)"
  unfolding readdir_handler_def
proof (rule ensures_and_then [OF getObject_ensures [OF assms]], goal_cases)
  case (1 ro)
  note stay = call_post_running [OF ok run]
  show ?case
  proof (cases ro)
    case (Some r)
    with 1 obtain ob where ob: "objs k r = Some ob" by blast
    show ?thesis
    proof (cases ob)
      case (FileObject f)
      have keep: "kernel_ok (k\<lparr>objs := (objs k)(r \<mapsto> FileObject g), kmem := m\<rparr>)" for g m
        using kernel_ok_plain [OF ok, of r "FileObject g"] ob FileObject by simp
      have op: "ensures (\<lambda>_. True) (known_failure k) (Directory_fromFile (rootdisk k) fs f)" for fs
        by (rule ensures_fail) (auto simp: known_failure_def fs_failure_def)
      show ?thesis unfolding Some ob FileObject option.case kobject.case
        by (rule ensures_and_then [OF op])
          (use keep run ok in \<open>auto simp: Let_def split: option.split prod.split intro!: call_post_running\<close>)
    qed (use stay in \<open>simp_all add: Some ob\<close>)
  qed (use stay in simp)
qed

section \<open>The system call\<close>

lemma handler_ok:
  assumes ok: "kernel_ok k" and run: "running k (current_process k)" and h: "syscall_wrappers n = Some h"
  shows "ensures (handled (current_process k)) (known_failure k) (h t k)"
proof -
  note oks = exit_ok clone_call_ok read_ok write_ok open_ok close_ok exec_ok dup2_ok sem_create_ok readdir_ok
  show ?thesis
    using h oks [OF ok run] yield_ok [OF ok] call_post_running [OF ok run]
    by (auto simp: syscall_wrappers_def fork_handler_def thread_handler_def hlt_handler_def split: if_splits)
qed

lemma resche_ensures:
  assumes "kernel_ok k"
  shows "ensures (\<lambda>k'. kernel_ok k' \<and> running k' (current_process k')) (known_failure k0) (resche_outcome (resche k))"
  using resche_ok [OF assms] by (auto simp: resche_outcome_def split: option.split)

lemma getProcess_retval:
  assumes "length (process_list k) = MAX_PROCESS_NUM" and "p < MAX_PROCESS_NUM" and "getProcess p k = Some pr"
  shows "\<exists>pr'. getProcess p (syscall_set_retval p v k) = Some pr' \<and> process_state pr' = process_state pr"
  using assms by (simp add: syscall_set_retval_def getProcess_upd)

lemma after_call_ok:
  assumes "call_post p k" and p: "p < MAX_PROCESS_NUM"
  shows "ensures (\<lambda>k'. kernel_ok k' \<and> running k' (current_process k')) (known_failure k0) (after_call p v k)"
proof -
  have k: "kernel_ok k" "settled k" "current_process k < MAX_PROCESS_NUM" "current_process k = p \<or> running k (current_process k)"
    using assms by (simp_all add: call_post_def)
  obtain k1 where k1: "checkAll k = Inr k1" "kernel_ok k1" "looked k k1" using checkAll_ok [OF k(1-3)] by blast
  show ?thesis
  proof (cases "getProcess p k1")
    case None
    then show ?thesis using k1 resche_ensures by (simp add: after_call_def)
  next
    case (Some pr)
    let ?k = "syscall_set_retval p v k1"
    have ok: "kernel_ok ?k" using k1(2) by simp
    obtain pr' where pr': "getProcess p ?k = Some pr'" "process_state pr' = process_state pr"
      using getProcess_retval [OF kernel_ok_len [OF k1(2)] p Some] by blast
    have "running ?k (current_process ?k)" if r: "process_state pr' = PROCESS_STATE_RUNNABLE"
    proof -
      have "running k1 p" using Some p r pr'(2) by (simp add: running_def has_def sleeping_def)
      then have "running k1 (current_process k1)" using k(4) k1(3) by (auto simp: looked_def)
      then show ?thesis using has_retval(2) [OF kernel_ok_len [OF k1(2)]] by simp
    qed
    then show ?thesis using Some pr'(1) k1(1) ok resche_ensures [OF ok] by (simp add: after_call_def Let_def)
  qed
qed

lemma enterKernelMode_ok:
  assumes "kernel_ok k" and "running k (current_process k)"
  shows "kernel_ok (enterKernelMode k)" "running (enterKernelMode k) (current_process (enterKernelMode k))"
    "rootdisk (enterKernelMode k) = rootdisk k"
  using kernel_ok_neutral [OF assms(1)] running_neutral [OF kernel_ok_len [OF assms(1)]] assms(2)
  by (simp_all add: enterKernelMode_def) (simp add: upd_proc_def)

lemma leave_ok:
  assumes "kernel_ok k" and "running k (current_process k)"
  shows "ensures (\<lambda>k'. kernel_ok k' \<and> running k' (current_process k')) (known_failure k0)
    (and_then (resche_outcome (resche_leave_kernel_mode_hook k)) (\<lambda>k. Some (Inr (leaveKernelMode k))))"
proof (rule ensures_and_then [where Q = "\<lambda>k'. kernel_ok k' \<and> running k' (current_process k')"])
  show "ensures (\<lambda>k'. kernel_ok k' \<and> running k' (current_process k')) (known_failure k0) (resche_outcome (resche_leave_kernel_mode_hook k))"
    using assms resche_ensures [OF assms(1)] by (simp add: resche_leave_kernel_mode_hook_def resche_outcome_def)
qed (auto simp: leaveKernelMode_def split: option.split)

lemma syscall_ok:
  assumes "kernel_ok k" and "running k (current_process k)"
  shows "ensures (\<lambda>k'. kernel_ok k' \<and> running k' (current_process k')) (known_failure k) (real_syscall_handler k)"
proof -
  define k1 where "k1 = enterKernelMode k"
  let ?p = "current_process k1"
  note k1 = enterKernelMode_ok [OF assms, folded k1_def]
  have kf: "known_failure k1 = known_failure k" by (rule known_failure_disk [OF k1(3)])
  obtain pr where pr: "getProcess ?p k1 = Some pr" and p: "?p < MAX_PROCESS_NUM" using awake_state [OF k1(2)] by blast
  have "ensures (\<lambda>k'. kernel_ok k' \<and> running k' (current_process k')) (known_failure k)
    (case syscall_wrappers n of None \<Rightarrow> Some (Inr k1) | Some h \<Rightarrow> and_then (h (usermode_state pr) k1) (\<lambda>(ret, k). after_call ?p ret k))" for n
  proof (cases "syscall_wrappers n")
    case (Some h)
    show ?thesis unfolding Some option.case
      by (rule ensures_and_then [OF handler_ok [OF k1(1,2) Some, unfolded kf]]) (use after_call_ok p in auto)
  qed (use k1 in simp)
  note call = this
  show ?thesis unfolding real_syscall_handler_def Let_def k1_def [symmetric] pr option.case
    by (cases "t_eax (usermode_state pr) < SYSCALL_END") (auto intro: ensures_and_then [OF call] leave_ok)
qed

end
