(* ===== verification/System.thy ===== *)
theory System
  imports KernelSafety
begin

text \<open>
  The running system: how \<^verbatim>\<open>src/main.cpp\<close> sets the kernel up and starts the first process, the steps that a running machine
  can take (system calls, user code, timer and keyboard interrupts), and the properties of every state that it reaches.
\<close>

section \<open>Starting\<close>

text \<open>The kernel before \<open>main\<close> has created an object.\<close>

definition blank :: "mem \<Rightarrow> fatfs \<Rightarrow> disk \<Rightarrow> addr \<Rightarrow> addr \<Rightarrow> addr \<Rightarrow> kernel" where
  "blank m fs dk ustack kstack uspace =
     \<lparr>kmem = m, process_list = replicate MAX_PROCESS_NUM None, current_process = 0, user_tss = zero_tss,
      objs = (\<lambda>_. None), next_obj = 0, devices = replicate MAX_BLOCK_INPUT_DEVICE_NUM None,
      special_paths = SpecialPathManager_init, static_refs = [], wait_instance = 0, pit_ticks = 0, resche_counter = PROCESS_TICKS,
      rootfs = fs, rootdisk = dk, user_stack_pos = ustack, kernel_stack_pos = kstack, user_space_start = uspace\<rparr>"

abbreviation path_of :: "string \<Rightarrow> u8 list" where
  "path_of s \<equiv> map of_char s"

text \<open>A device that a static variable of its class keeps alive, under its path.\<close>

definition register_instance :: "string \<Rightarrow> device \<Rightarrow> kernel \<Rightarrow> (nat \<times> kernel) outcome" where
  "register_instance path d k =
     (case new_device d k of
        Inl e \<Rightarrow> Inl (exn_what e)
      | Inr (r, k) \<Rightarrow> Inr (r, snd (registerObject (path_of path) r (k\<lparr>static_refs := static_refs k @ [r]\<rparr>))))"

text \<open>The default input, output and error device is the console, whose number is returned.\<close>

definition boot_devices :: "kernel \<Rightarrow> (nat \<times> kernel) outcome" where
  "boot_devices k =
     (case register_instance '':CON'' (VGATextIODevice boot_console) k of Inl e \<Rightarrow> Inl e
      | Inr (con, k) \<Rightarrow>
          (case register_instance '':WAITPID'' (ProcessWait ProcessWait_init) k of Inl e \<Rightarrow> Inl e
           | Inr (w, k) \<Rightarrow>
               (case register_instance '':SLEEP'' (SleepDevice SleepDevice_init) (k\<lparr>wait_instance := w\<rparr>) of Inl e \<Rightarrow> Inl e
                | Inr (_, k) \<Rightarrow> Inr (con, k))))"

definition enter_init :: "nat \<Rightarrow> addr \<Rightarrow> kernel \<Rightarrow> kernel outcome option" where
  "enter_init con args k =
     (case new_Process (- 1) k of
        Inl e \<Rightarrow> Some (Inl (exn_what e))
      | Inr (p, k) \<Rightarrow>
          let k = snd (setObject p 0 con k);
              k = snd (setObject p 1 con k);
              k = snd (setObject p 2 con k)
          in and_then (execv p (path_of ''/bin/hlt.elf'') args 7 0 k) (\<lambda>(ret, k).
               if ret \<noteq> 0 then Some (Inl ''Assertion failed: \"Init process start failed\"'')
               else Some (Inr (leaveKernelMode (run p (setProcessScheType p PROCESS_SCHE_IDLE k))))))"

section \<open>Steps\<close>

text \<open>
  One step of the machine, with the processor in user mode before and after it. User code changes the registers and the
  memory. A timer tick may end the time slice, and then issues the call \<open>sched_yield\<close> with whatever else is in
  the registers. A keyboard interrupt moves scan codes \<open>ds\<close> into the console.
\<close>

inductive kstep :: "kernel \<Rightarrow> kernel \<Rightarrow> bool" where
  user: "kstep k (k\<lparr>user_tss := t, kmem := m\<rparr>)"
| syscall: "real_syscall_handler k = Some (Inr k') \<Longrightarrow> kstep k k'"
| tick: "timer_handler eflags dpl k = (False, k') \<Longrightarrow> kstep k k'"
| tick_yield: "timer_handler eflags dpl k = (True, k1) \<Longrightarrow> t_eax t = SYSCALL_SCHED_YIELD \<Longrightarrow>
    real_syscall_handler (k1\<lparr>user_tss := t\<rparr>) = Some (Inr k') \<Longrightarrow> kstep k k'"
| key: "objs k r = Some (Blocking (VGATextIODevice c) pend) \<Longrightarrow> irq1_handler ds c s = ((ds', c'), s') \<Longrightarrow>
    kstep k (k\<lparr>objs := (objs k)(r \<mapsto> Blocking (VGATextIODevice c') pend)\<rparr>)"

definition good :: "kernel \<Rightarrow> bool" where
  "good k \<longleftrightarrow> kernel_ok k \<and> running k (current_process k)"

lemma timer_good: "timer_handler eflags dpl k = (y, k') \<Longrightarrow> good k \<Longrightarrow> good k' \<and> rootdisk k' = rootdisk k"
  by (auto simp: timer_handler_def resche_tick_def Let_def good_def split: if_splits)

lemma syscall_good: "good k \<Longrightarrow> real_syscall_handler k = Some (Inr k') \<Longrightarrow> good k'"
  using syscall_ok [of k] by (simp add: good_def)

lemma kstep_good:
  assumes "kstep k k'" and "good k"
  shows "good k'"
  using assms
proof cases
  case (tick_yield eflags dpl k1 t)
  have "good (k1\<lparr>user_tss := t\<rparr>)" using timer_good [OF tick_yield(1) assms(2)] by (simp add: good_def)
  then show ?thesis using tick_yield(3) by (rule syscall_good)
next
  case (key r c pend ds s ds' c' s')
  then have "kernel_ok (put r (VGATextIODevice c') pend k)" using assms(2) by (intro kernel_ok_put) (auto simp: good_def)
  then show ?thesis using assms(2) key(1) by (simp add: good_def put_def)
next
  case (tick eflags dpl)
  then show ?thesis using timer_good [OF tick assms(2)] by simp
next
  case syscall
  then show ?thesis by (rule syscall_good [OF assms(2)])
qed (use assms(2) in \<open>simp add: good_def\<close>)

lemma reachable_good: "kstep\<^sup>*\<^sup>* k0 k \<Longrightarrow> good k0 \<Longrightarrow> good k"
  by (induction rule: rtranclp_induct) (auto intro: kstep_good)

section \<open>The first state\<close>

lemma boot_devices_run:
  "boot_devices (blank m fs dk us ks up) = Inr (0, (blank m fs dk us ks up)\<lparr>
     objs := [0 \<mapsto> Blocking (VGATextIODevice boot_console) [], 1 \<mapsto> Blocking (ProcessWait ProcessWait_init) [],
       2 \<mapsto> Blocking (SleepDevice SleepDevice_init) []], next_obj := 3,
     devices := (replicate 64 None)[0 := Some 0, 1 := Some 1, 2 := Some 2],
     special_paths := SpecialPathManager_init[0 := (path_of '':CON'', Some 0), 1 := (path_of '':WAITPID'', Some 1), 2 := (path_of '':SLEEP'', Some 2)],
     static_refs := [0, 1, 2], wait_instance := 1\<rparr>)"
proof -
  have f: "i < n \<Longrightarrow> List.find P [i..<n] = (if P i then Some i else List.find P [Suc i..<n])" for P and i n :: nat
    by (simp add: upt_conv_Cons)
  show ?thesis
    by (simp add: boot_devices_def register_instance_def new_device_def new_object_def blank_def registerObject_def
        SpecialPathManager_remove_def SpecialPathManager_init_def find_path_def MAX_BLOCK_INPUT_DEVICE_NUM_def MAX_SPECIAL_PATH_NUM_def f Let_def numeral_2_eq_2)
qed

lemma three_updates: "(replicate (n + 3) x)[0 := a, 1 := b, 2 := c] = [a, b, c] @ replicate n x"
  by (simp add: numeral_3_eq_3 numeral_2_eq_2)

lemma boot_ok:
  assumes "boot_devices (blank m fs dk us ks up) = Inr (con, k)"
  shows "kernel_ok k" "objs k con \<noteq> None" "rootdisk k = dk" "\<And>p. p < MAX_PROCESS_NUM \<Longrightarrow> getProcess p k = None"
proof -
  have n: "devices k = [Some 0, Some 1, Some 2] @ replicate 61 None" "map snd (special_paths k) = [Some 0, Some 1, Some 2] @ replicate 13 None"
    "length (special_paths k) = 16"
    using assms three_updates [of 61 None "Some (0 :: nat)" "Some 1" "Some 2"]
      three_updates [of 13 "([], None)" "(path_of '':CON'', Some (0 :: nat))" "(path_of '':WAITPID'', Some 1)" "(path_of '':SLEEP'', Some 2)"]
    by (auto simp: boot_devices_run SpecialPathManager_init_def MAX_SPECIAL_PATH_NUM_def simp del: list_update.simps)
  have o: "objs k = [0 \<mapsto> Blocking (VGATextIODevice boot_console) [], 1 \<mapsto> Blocking (ProcessWait ProcessWait_init) [],
       2 \<mapsto> Blocking (SleepDevice SleepDevice_init) []]" "next_obj k = 3" "static_refs k = [0, 1, 2]" "wait_instance k = 1"
     "process_list k = replicate MAX_PROCESS_NUM None" "con = 0" "rootdisk k = dk"
    using assms unfolding boot_devices_run by (auto simp: blank_def)
  show p: "getProcess p k = None" if "p < MAX_PROCESS_NUM" for p using that by (simp add: getProcess_def o)
  have h: "\<not> has k p P" for p P using p by (auto simp: has_def)
  have w: "\<not> waits k p r" for p r by (simp add: waits_def o)
  have q: "queued (objs k r) = []" for r by (simp add: o)
  have "procs_ok k" using p by (simp add: procs_ok_def o)
  moreover have "refs_ok k" using h n(2) by (auto simp: refs_ok_def o)
  moreover have "devs_ok k"
    using n by (auto simp: devs_ok_def o MAX_BLOCK_INPUT_DEVICE_NUM_def MAX_SPECIAL_PATH_NUM_def ProcessWait_init_def)
  moreover have "waits_ok k" using w q by (simp add: waits_ok_def)
  moreover have "sleep_ok k" using h by (simp add: sleep_ok_def)
  ultimately show "kernel_ok k" by (simp add: kernel_ok_def)
  show "objs k con \<noteq> None" "rootdisk k = dk" by (simp_all add: o)
qed

lemma setState_awake: "running k p \<Longrightarrow> setProcessState p PROCESS_STATE_RUNNABLE k = k"
proof -
  assume "running k p"
  then obtain pr where pr: "process_list k ! p = Some pr" "process_state pr = PROCESS_STATE_RUNNABLE"
    using awake_state by (auto simp: getProcess_def)
  have "pr\<lparr>process_state := PROCESS_STATE_RUNNABLE\<rparr> = pr" using pr(2) by (cases pr) simp
  then have "(process_list k)[p := map_option (process_state_update (\<lambda>_. PROCESS_STATE_RUNNABLE)) (process_list k ! p)] = process_list k"
    using pr(1) list_update_id [of "process_list k" p] by simp
  then show ?thesis by (simp add: setProcessState_def upd_proc_def)
qed

text \<open>A process that is awake gets an object.\<close>

lemma give_ok:
  assumes "kernel_ok k" and "running k p" and "objs k r \<noteq> None"
  shows "kernel_ok (snd (setObject p i r k)) \<and> running (snd (setObject p i r k)) p \<and> objs (snd (setObject p i r k)) r \<noteq> None \<and>
    rootdisk (snd (setObject p i r k)) = rootdisk k"
proof -
  note id = running_idle [OF assms(1,2)]
  note s = setObject_ok [OF assms(1) id assms(3), of i]
  have "objs (snd (setObject p i r k)) r \<noteq> None"
    using removeObject_ok(4) [OF assms(1) id, of r "[r]" i] assms(3) by (simp add: setObject_def set_slot_def)
  moreover have "rootdisk (snd (setObject p i r k)) = rootdisk k"
    by (simp add: setObject_def set_slot_def upd_proc_def removeObject_def collect_def notify_removed_def split: option.split kobject.split)
  ultimately show ?thesis using s(1) only_running [OF s(3)] assms(2) by blast
qed

lemma enter_init_ok:
  assumes ok: "kernel_ok k" and con: "objs k con \<noteq> None"
  shows "ensures good (\<lambda>e. known_failure k e \<or> e = ''Assertion failed: \"Init process start failed\"'') (enter_init con args k)"
proof (cases "new_Process (- 1) k")
  case (Inl e)
  then have "e = ProcessLimitExceeded" by (auto simp: new_Process_def split: option.splits)
  with Inl show ?thesis by (simp add: enter_init_def)
next
  case (Inr x)
  then obtain p k0 where x: "new_Process (- 1) k = Inr (p, k0)" by (cases x) auto
  define give where "give i k = snd (setObject p i con k)" for i k
  have g: "kernel_ok (give i h) \<and> running (give i h) p \<and> objs (give i h) con \<noteq> None \<and> rootdisk (give i h) = rootdisk h"
    if "kernel_ok h" "running h p" "objs h con \<noteq> None" for i h unfolding give_def by (rule give_ok [OF that])
  define k3 where "k3 = give 2 (give 1 (give 0 k0))"
  note np = new_Process_ok [OF ok x]
  have "rootdisk k0 = rootdisk k" using x by (auto simp: new_Process_def split: option.splits)
  then have k3: "kernel_ok k3" "running k3 p" "rootdisk k3 = rootdisk k"
    using g np(1,6,9) con by (simp_all add: k3_def)
  have kf: "known_failure k3 = known_failure k" by (rule known_failure_disk [OF k3(3)])
  have fin: "good (leaveKernelMode (run p (setProcessScheType p PROCESS_SCHE_IDLE k4)))" if k4: "kernel_ok k4" "calm k3 k4" for k4
  proof -
    let ?k = "setProcessScheType p PROCESS_SCHE_IDLE k4"
    have k: "kernel_ok ?k" "running ?k p"
      using k4 k3(2) kernel_ok_neutral [OF k4(1)] running_neutral [OF kernel_ok_len [OF k4(1)]]
      by (simp_all add: setProcessScheType_def calm_def)
    then have "run p ?k = ?k\<lparr>current_process := p\<rparr>" using setState_awake [OF k(2)] by (simp add: run_def)
    with k show ?thesis by (auto simp: good_def leaveKernelMode_def split: option.split)
  qed
  have "ensures (\<lambda>(ret, k'). kernel_ok k' \<and> calm k3 k') (\<lambda>e. known_failure k e \<or> e = ''Assertion failed: \"Init process start failed\"'')
    (execv p (path_of ''/bin/hlt.elf'') args 7 0 k3)"
    using execv_ok [OF k3(1,2), unfolded kf] by (auto simp: ensures_def)
  then show ?thesis unfolding enter_init_def x sum.case prod.case Let_def k3_def [unfolded give_def, symmetric]
    by (rule ensures_and_then) (use fin in auto)
qed

section \<open>Scheduling\<close>

text \<open>The place of a process in the turn that begins behind the current one.\<close>

definition place :: "nat \<Rightarrow> nat \<Rightarrow> nat" where
  "place cur p = (if cur < p then p - cur - 1 else p + MAX_PROCESS_NUM - cur - 1)"

abbreviation ready :: "kernel \<Rightarrow> nat \<Rightarrow> bool" where
  "ready k p \<equiv> has k p (\<lambda>pr. process_state pr = PROCESS_STATE_RUNNABLE)"

abbreviation ready_normal :: "kernel \<Rightarrow> nat \<Rightarrow> bool" where
  "ready_normal k p \<equiv> has k p (\<lambda>pr. process_state pr = PROCESS_STATE_RUNNABLE \<and> process_sche_type pr \<noteq> PROCESS_SCHE_IDLE)"

lemma turn_length [simp]: "length (turn cur) = MAX_PROCESS_NUM"
  by (simp add: turn_def MAX_PROCESS_NUM_def)

lemma turn_nth:
  "cur < MAX_PROCESS_NUM \<Longrightarrow> i < MAX_PROCESS_NUM \<Longrightarrow>
    turn cur ! i = (if cur + 1 + i < MAX_PROCESS_NUM then cur + 1 + i else cur + 1 + i - MAX_PROCESS_NUM)"
  by (simp add: turn_def MAX_PROCESS_NUM_def mod_if)

lemma turn_place: "cur < MAX_PROCESS_NUM \<Longrightarrow> p < MAX_PROCESS_NUM \<Longrightarrow> turn cur ! i = p \<Longrightarrow> i < MAX_PROCESS_NUM \<Longrightarrow> i = place cur p"
  using turn_nth [of cur i] by (auto simp: place_def split: if_splits)

lemma place_turn: "cur < MAX_PROCESS_NUM \<Longrightarrow> p < MAX_PROCESS_NUM \<Longrightarrow> place cur p < MAX_PROCESS_NUM \<and> turn cur ! place cur p = p"
  using turn_nth [of cur "place cur p"] by (auto simp: place_def split: if_splits)

lemma next_process_first:
  assumes cur: "current_process k < MAX_PROCESS_NUM" and n: "next_process sel k = Some p"
    and q: "has k q (\<lambda>pr. process_state pr = PROCESS_STATE_RUNNABLE \<and> sel pr)"
  shows "place (current_process k) p \<le> place (current_process k) q"
proof -
  let ?c = "current_process k"
  let ?P = "\<lambda>p. case getProcess p k of None \<Rightarrow> False | Some pr \<Rightarrow> process_state pr = PROCESS_STATE_RUNNABLE \<and> sel pr"
  obtain i where i: "i < MAX_PROCESS_NUM" "?P (turn ?c ! i)" "turn ?c ! i = p" "\<forall>j<i. \<not> ?P (turn ?c ! j)"
    using n unfolding next_process_def find_Some_iff turn_length by auto
  have "p < MAX_PROCESS_NUM" using next_process_spec [OF n] by (simp add: has_def)
  then have "i = place ?c p" using turn_place [OF cur _ i(3,1)] by blast
  moreover have "q < MAX_PROCESS_NUM" "?P q" using q by (auto simp: has_def)
  ultimately show ?thesis using i(4) place_turn [OF cur, of q] by (metis not_less)
qed

lemma next_process_exists:
  assumes "current_process k < MAX_PROCESS_NUM" and "has k q (\<lambda>pr. process_state pr = PROCESS_STATE_RUNNABLE \<and> sel pr)"
  shows "next_process sel k \<noteq> None"
proof -
  have "q < MAX_PROCESS_NUM" using assms(2) by (simp add: has_def)
  then have "q \<in> set (turn (current_process k))" using place_turn [OF assms(1)] nth_mem by (metis turn_length)
  with assms(2) show ?thesis by (auto simp: next_process_def find_None_iff has_def)
qed

lemma resche_spec:
  assumes ok: "kernel_ok k" and cur: "current_process k < MAX_PROCESS_NUM"
  shows "case resche k of None \<Rightarrow> \<forall>q. \<not> ready k q
    | Some k' \<Rightarrow> let p = current_process k' in k' = k\<lparr>current_process := p, resche_counter := PROCESS_TICKS\<rparr> \<and> ready k p \<and>
        (\<forall>q. ready_normal k q \<longrightarrow> ready_normal k p \<and> place (current_process k) p \<le> place (current_process k) q) \<and>
        (\<not> ready_normal k p \<longrightarrow> (\<forall>q. ready k q \<longrightarrow> place (current_process k) p \<le> place (current_process k) q))"
proof -
  have sw: "switch_to p k = k\<lparr>current_process := p, resche_counter := PROCESS_TICKS\<rparr>" if "next_process sel k = Some p" for sel p
    using next_process_spec [OF that] ok by (auto simp: switch_to_def has_def kernel_ok_def procs_ok_def)
  let ?n = "next_process (\<lambda>pr. process_sche_type pr \<noteq> PROCESS_SCHE_IDLE) k" and ?a = "next_process (\<lambda>pr. True) k"
  show ?thesis
  proof (cases ?n)
    case (Some p)
    then show ?thesis using next_process_spec [OF Some] next_process_first [OF cur Some] sw [OF Some]
      by (auto simp: resche_def Let_def intro: has_mono)
  next
    case None
    then have nn: "\<not> ready_normal k q" for q using next_process_exists [OF cur, of q "\<lambda>pr. process_sche_type pr \<noteq> PROCESS_SCHE_IDLE"] by blast
    show ?thesis
    proof (cases ?a)
      case (Some p)
      then show ?thesis using None nn next_process_spec [OF Some] next_process_first [OF cur Some] sw [OF Some]
        by (simp add: resche_def Let_def)
    next
      case a: None
      then show ?thesis using None next_process_exists [OF cur, of _ "\<lambda>_. True"] by (auto simp: resche_def)
    qed
  qed
qed

lemma place_step:
  assumes "cur < MAX_PROCESS_NUM" "q < MAX_PROCESS_NUM" "p < MAX_PROCESS_NUM" "place cur q \<le> place cur p" "q \<noteq> p"
  shows "place q p < place cur p"
  using assms by (auto simp: place_def split: if_splits)

lemma resche_progress:
  assumes "kernel_ok k" and "current_process k < MAX_PROCESS_NUM" and "resche k = Some k'" and "ready_normal k p"
  shows "current_process k' < MAX_PROCESS_NUM"
    and "current_process k' = p \<or> place (current_process k') p < place (current_process k) p"
proof -
  from resche_spec [OF assms(1,2)] assms(3,4) have
    r: "ready k (current_process k')" "place (current_process k) (current_process k') \<le> place (current_process k) p" by (simp_all add: Let_def)
  then show "current_process k' < MAX_PROCESS_NUM" by (simp add: has_def)
  with r(2) place_step [OF assms(2), of "current_process k'" p] assms(4)
  show "current_process k' = p \<or> place (current_process k') p < place (current_process k) p" by (auto simp: has_def)
qed

text \<open>A sequence of turns: the kernel at the end of every time slice, and after the decision of the scheduler.\<close>

definition time_slices :: "(nat \<Rightarrow> kernel) \<Rightarrow> (nat \<Rightarrow> kernel) \<Rightarrow> bool" where
  "time_slices k k' \<longleftrightarrow> current_process (k 0) < MAX_PROCESS_NUM \<and>
     (\<forall>i. kernel_ok (k i) \<and> resche (k i) = Some (k' i) \<and> current_process (k (Suc i)) = current_process (k' i))"

lemma turn_comes:
  assumes t: "time_slices k k'" and p: "\<And>i. ready_normal (k i) p" and np: "\<And>i. i < n \<Longrightarrow> current_process (k' i) \<noteq> p"
  shows "current_process (k n) < MAX_PROCESS_NUM \<and> place (current_process (k n)) p + n < MAX_PROCESS_NUM"
  using np
proof (induction n)
  case 0
  then show ?case using t p [of 0] place_turn by (auto simp: time_slices_def has_def)
next
  case (Suc n)
  then have ih: "current_process (k n) < MAX_PROCESS_NUM" "place (current_process (k n)) p + n < MAX_PROCESS_NUM" by simp_all
  have "kernel_ok (k n)" "resche (k n) = Some (k' n)" using t by (simp_all add: time_slices_def)
  from resche_progress [OF this(1) ih(1) this(2) p] Suc.prems [of n] ih(2) show ?case using t by (simp add: time_slices_def)
qed

section \<open>Properties\<close>

text \<open>A concrete state: the devices are registered, and a first process runs.\<close>

definition demo_boot :: kernel where
  "demo_boot = blank (\<lambda>_. 0) demo_fs demo_disk 0x200000 0x300000 0x400000"

definition demo_kernel :: kernel where
  "demo_kernel =
     (case boot_devices demo_boot of Inl e \<Rightarrow> demo_boot
      | Inr (con, k) \<Rightarrow> (case new_Process (- 1) k of Inl e \<Rightarrow> k | Inr (p, k) \<Rightarrow> snd (setObject p 0 con (k\<lparr>current_process := p\<rparr>))))"

lemma demo_good:
  "good demo_kernel" "current_process demo_kernel = 0" "ready_normal demo_kernel 0"
  "\<And>q. q \<noteq> 0 \<Longrightarrow> q < MAX_PROCESS_NUM \<Longrightarrow> getProcess q demo_kernel = None"
proof -
  obtain con k where b: "boot_devices demo_boot = Inr (con, k)" using boot_devices_run by (simp add: demo_boot_def)
  note k = boot_ok [OF b [unfolded demo_boot_def]]
  have f: "List.find (\<lambda>i. process_list k ! i = None) [0..<MAX_PROCESS_NUM] = Some 0"
    using k(4) [of 0] by (simp add: MAX_PROCESS_NUM_def upt_conv_Cons getProcess_def)
  obtain k1 where n: "new_Process (- 1) k = Inr (0, k1)" by (simp add: new_Process_def f)
  note np = new_Process_ok [OF k(1) n]
  have l: "length (process_list k) = MAX_PROCESS_NUM" by (rule kernel_ok_len [OF k(1)])
  have nm: "ready_normal k1 0" using n l unfolding new_Process_def f by (auto simp: has_def getProcess_def MAX_PROCESS_NUM_def)
  let ?k = "k1\<lparr>current_process := 0\<rparr>"
  have d: "demo_kernel = snd (setObject 0 0 con ?k)" by (simp add: demo_kernel_def b n)
  have i: "idle ?k 0" using np(8) by (simp add: idle_def waits_def)
  have s: "kernel_ok demo_kernel" "only 0 ?k demo_kernel"
    using setObject_ok [OF _ i, of con 0] np(1,9) k(2) by (simp_all add: d)
  show "current_process demo_kernel = 0" using s(2) by (simp add: only_def)
  then show "good demo_kernel" using s np(6) only_running [OF s(2)] by (simp add: good_def)
  have "has demo_kernel 0 (\<lambda>pr. process_state pr = PROCESS_STATE_RUNNABLE \<and> process_sche_type pr \<noteq> PROCESS_SCHE_IDLE) =
    has ?k 0 (\<lambda>pr. process_state pr = PROCESS_STATE_RUNNABLE \<and> process_sche_type pr \<noteq> PROCESS_SCHE_IDLE)"
    by (rule only_has [OF s(2)]) (metis process.select_convs(3,4) process.surjective process.update_convs(8))
  then show "ready_normal demo_kernel 0" using nm by simp
  show "getProcess q demo_kernel = None" if "q \<noteq> 0" "q < MAX_PROCESS_NUM" for q
    using s(2) that np(5) [of q] k(4) [of q] by (simp add: only_def)
qed

lemma demo_ready: "ready demo_kernel q \<Longrightarrow> q = 0"
  using demo_good(4) [of q] by (cases "q = 0") (auto simp: has_def)

lemma demo_resche: "resche demo_kernel = Some (demo_kernel\<lparr>current_process := 0, resche_counter := PROCESS_TICKS\<rparr>)"
proof -
  have "kernel_ok demo_kernel" "current_process demo_kernel < MAX_PROCESS_NUM"
    using demo_good(1,2) by (simp_all add: good_def MAX_PROCESS_NUM_def)
  note r = resche_spec [OF this]
  obtain k' where k': "resche demo_kernel = Some k'"
    using r demo_good(3) by (cases "resche demo_kernel") (auto simp: has_def)
  then have "ready demo_kernel (current_process k')" "k' = demo_kernel\<lparr>current_process := current_process k', resche_counter := PROCESS_TICKS\<rparr>"
    using r by (simp_all add: Let_def)
  then show ?thesis using k' demo_ready by metis
qed

lemma demo_process: "\<exists>pr. getProcess 0 demo_kernel = Some pr \<and> stack_backup pr = None"
  using demo_good(1,2) running_awake [of demo_kernel 0] awake_state [of demo_kernel 0]
  by (auto simp: good_def has_def backed_def)

text \<open>
  C1: the kernel invariant holds in every state that a running system reaches, whatever user code does between its system
  calls and whenever the timer or the keyboard interrupts: process list, object tables, device table and waiting requests
  fit together, no table is overrun, every pointer that a process owns leads to an object, and the current process
  is one that is there and awake.
\<close>

theorem reachable_invariant:
  assumes "kernel_ok k0" and "running k0 (current_process k0)" and "kstep\<^sup>*\<^sup>* k0 k"
  shows "kernel_ok k \<and> running k (current_process k)"
  using reachable_good [OF assms(3)] assms(1,2) by (simp add: good_def)

theorem reachable_invariant_witness:
  "kernel_ok (demo_kernel\<lparr>user_tss := zero_tss, kmem := \<lambda>_. 1\<rparr>) \<and> running (demo_kernel\<lparr>user_tss := zero_tss, kmem := \<lambda>_. 1\<rparr>) 0"
  using reachable_invariant [of demo_kernel "demo_kernel\<lparr>user_tss := zero_tss, kmem := \<lambda>_. 1\<rparr>"] demo_good(1,2)
    r_into_rtranclp [of kstep, OF kstep.user [of demo_kernel "\<lambda>_. 1" zero_tss]]
  by (simp add: good_def)



text \<open>
  C11: starting the system. When \<open>main\<close> has registered its devices and \<open>enter_init\<close> has started the first process, the
  invariant holds; starting fails only with a known failure or the assertion that the first program could be loaded.
\<close>

theorem boot_establishes_invariant:
  "\<exists>con k. boot_devices (blank m fs dk us ks up) = Inr (con, k) \<and>
     ensures (\<lambda>k'. kernel_ok k' \<and> running k' (current_process k'))
       (\<lambda>e. known_failure k e \<or> e = ''Assertion failed: \"Init process start failed\"'') (enter_init con args k)"
proof -
  obtain con k where b: "boot_devices (blank m fs dk us ks up) = Inr (con, k)" using boot_devices_run by blast
  with boot_ok [OF b] enter_init_ok [of k con args] show ?thesis by (auto simp: good_def [abs_def])
qed





end
