(* ===== verification/Waiting.thy ===== *)
theory Waiting
  imports System
begin

text \<open>
  How processes wait: who sleeps and for what, whom a semaphore wakes, what the waiter for a process gets, and what
  becomes of the stack that a fork child shares with its parent.
\<close>

section \<open>Semaphores\<close>

text \<open>What serving a request of a semaphore does to the process that made it.\<close>

definition wake :: "pending_read \<Rightarrow> kernel \<Rightarrow> kernel" where
  "wake x k = syscall_set_retval (pr_proc x) 0 (setProcessState (pr_proc x) PROCESS_STATE_RUNNABLE (k\<lparr>current_process := pr_proc x\<rparr>))"

definition awake_with :: "u32 \<Rightarrow> process \<Rightarrow> bool" where
  "awake_with v pr \<longleftrightarrow> process_state pr = PROCESS_STATE_RUNNABLE \<and> t_eax (usermode_state pr) = v"

lemma wake_fields [simp]:
  "kmem (wake x k) = kmem k" "objs (wake x k) = objs k" "pit_ticks (wake x k) = pit_ticks k"
  "length (process_list (wake x k)) = length (process_list k)"
  by (simp_all add: wake_def syscall_set_retval_def setProcessState_def)

lemma getProcess_wake:
  assumes "length (process_list k) = MAX_PROCESS_NUM" and "pr_proc x < MAX_PROCESS_NUM"
  shows "getProcess q (wake x k) = (if q = pr_proc x then map_option (\<lambda>pr. pr\<lparr>process_state := PROCESS_STATE_RUNNABLE,
    usermode_state := (usermode_state pr)\<lparr>t_eax := 0, t_edx := 0\<rparr>\<rparr>) (getProcess q k) else getProcess q k)"
  using assms by (simp add: wake_def syscall_set_retval_def setProcessState_def getProcess_upd option.map_comp comp_def)

lemma alive_wake: "length (process_list k) = MAX_PROCESS_NUM \<Longrightarrow> pr_proc x < MAX_PROCESS_NUM \<Longrightarrow> alive (wake x k) q = alive k q"
  by (simp add: alive_def getProcess_wake)

lemma wakes:
  assumes "length (process_list k) = MAX_PROCESS_NUM" and "\<forall>x \<in> set xs. alive k (pr_proc x)"
  shows "(\<forall>x \<in> set xs. has (fold wake xs k) (pr_proc x) (awake_with 0)) \<and>
    (\<forall>q. q \<notin> pr_proc ` set xs \<longrightarrow> getProcess q (fold wake xs k) = getProcess q k) \<and> kmem (fold wake xs k) = kmem k \<and> objs (fold wake xs k) = objs k"
  using assms
proof (induction xs arbitrary: k)
  case (Cons x xs)
  have x: "pr_proc x < MAX_PROCESS_NUM" "getProcess (pr_proc x) k \<noteq> None" using Cons.prems(2) by (simp_all add: alive_def)
  have ih: "(\<forall>y \<in> set xs. has (fold wake xs (wake x k)) (pr_proc y) (awake_with 0)) \<and>
    (\<forall>q. q \<notin> pr_proc ` set xs \<longrightarrow> getProcess q (fold wake xs (wake x k)) = getProcess q (wake x k)) \<and>
    kmem (fold wake xs (wake x k)) = kmem (wake x k) \<and> objs (fold wake xs (wake x k)) = objs (wake x k)"
    using Cons.prems x(1) by (intro Cons.IH) (simp_all add: alive_wake)
  have "has (wake x k) (pr_proc x) (awake_with 0)"
    using x Cons.prems(1) by (auto simp: has_def getProcess_wake awake_with_def)
  then have "has (fold wake xs (wake x k)) (pr_proc x) (awake_with 0)"
    using ih by (cases "pr_proc x \<in> pr_proc ` set xs") (auto simp: has_def image_iff)
  with ih show ?case using Cons.prems(1) x(1) by (auto simp: getProcess_wake)
qed simp

lemma sint_pred: "0 < sint (w :: u32) \<Longrightarrow> sint (w - 1) = sint w - 1"
  using sint_greater_eq [of w] sint_less [of w] by (simp add: sint_word_ariths signed_take_bit_int_eq_self)

lemma semaphore_loop:
  fixes cnt :: u32
  assumes "length (process_list k) = MAX_PROCESS_NUM" and "\<forall>x \<in> set (drop ind pend). alive k (pr_proc x) \<and> pr_size x \<noteq> 0"
    and "ind \<le> length pend"
  defines "j \<equiv> min (length pend - ind) (nat (sint cnt))"
  shows "check_loop (dev_read t) ind (Semaphore cnt, pend) k =
    Inr (ind + j, (Semaphore (cnt - of_nat j), pend), fold wake (take j (drop ind pend)) k)"
  using assms(1-3) unfolding j_def
proof (induction "length pend - ind" arbitrary: ind cnt k)
  case 0
  then show ?case by (subst check_loop.simps) simp
next
  case (Suc n)
  have lt: "ind < length pend" using Suc(2) by simp
  then have d: "drop ind pend = pend ! ind # drop (Suc ind) pend" by (simp add: Cons_nth_drop_Suc)
  show ?case
  proof (cases "sint cnt \<le> 0")
    case True
    then show ?thesis using lt by (subst check_loop.simps) (simp add: Semaphore_read_def)
  next
    case False
    let ?x = "pend ! ind"
    have x: "alive k (pr_proc ?x)" "pr_size ?x \<noteq> 0" "pr_proc ?x < MAX_PROCESS_NUM" using Suc(4) d by (simp_all add: alive_def)
    have s: "sint (cnt - 1) = sint cnt - 1" using False by (simp add: sint_pred)
    have "check_loop (dev_read t) ind (Semaphore cnt, pend) k = check_loop (dev_read t) (Suc ind) (Semaphore (cnt - 1), pend) (wake ?x k)"
      using lt x False
      by (subst check_loop.simps) (auto simp: Semaphore_read_def do_read_def wake_def Let_def setProcessState_def upd_proc_def syscall_set_retval_def alive_def getProcess_def)
    also have "\<dots> = Inr (Suc ind + min (length pend - Suc ind) (nat (sint (cnt - 1))),
        (Semaphore (cnt - 1 - of_nat (min (length pend - Suc ind) (nat (sint (cnt - 1))))), pend),
        fold wake (take (min (length pend - Suc ind) (nat (sint (cnt - 1)))) (drop (Suc ind) pend)) (wake ?x k))"
      using Suc d lt x(3) by (intro Suc(1)) (auto simp: alive_wake)
    also have "min (length pend - Suc ind) (nat (sint (cnt - 1))) = min (length pend - ind) (nat (sint cnt)) - 1"
      using s False lt by linarith
    finally show ?thesis using lt False d by (cases "min (length pend - ind) (nat (sint cnt))") (auto simp: algebra_simps)
  qed
qed

lemma semaphore_check:
  assumes ok: "kernel_ok k" and r: "objs k r = Some (Blocking (Semaphore cnt) pend)" and sz: "\<forall>x \<in> set pend. pr_size x \<noteq> 0"
  defines "j \<equiv> min (length pend) (nat (sint cnt))"
  shows "\<exists>k'. check_device r k = Inr k' \<and> objs k' = (objs k)(r \<mapsto> Blocking (Semaphore (cnt - of_nat j)) (drop j pend)) \<and>
    (\<forall>x \<in> set (take j pend). has k' (pr_proc x) (awake_with 0)) \<and>
    (\<forall>q. q \<notin> pr_proc ` set (take j pend) \<longrightarrow> getProcess q k' = getProcess q k) \<and>
    kmem k' = kmem k \<and> current_process k' = current_process k"
proof -
  have l: "length (process_list k) = MAX_PROCESS_NUM" by (rule kernel_ok_len [OF ok])
  have al: "\<forall>x \<in> set pend. alive k (pr_proc x)"
    using waits_has [OF ok, of _ r] r by (auto simp: waits_def alive_has intro: has_mono)
  have eq: "check_loop (dev_read (pit_ticks k)) 0 (Semaphore cnt, pend) k =
    Inr (j, (Semaphore (cnt - of_nat j), pend), fold wake (take j pend) k)"
    using semaphore_loop [OF l, of 0 pend "pit_ticks k" cnt] al sz by (simp add: j_def)
  have "\<forall>x \<in> set (take j pend). alive k (pr_proc x)" using al by (auto dest: in_set_takeD)
  note w = wakes [OF l this]
  show ?thesis using w r by (auto simp: check_device_def check_def eq)
qed

section \<open>Waiting for a process\<close>

lemma wait_alive:
  assumes "length (reqs w) = MAX_PROCESS_NUM" and "p < MAX_PROCESS_NUM" and "unat t < MAX_PROCESS_NUM" and "t \<noteq> 0" and "al (unat t)"
  shows "\<exists>w1. ProcessWait_write al p t 4 w = Inr (4, w1) \<and> (\<forall>buf sz m. ProcessWait_read p buf sz w1 m = (- EAGAIN, m)) \<and>
    (\<forall>q code buf sz m. q < MAX_PROCESS_NUM \<longrightarrow> q \<noteq> unat t \<longrightarrow> ProcessWait_read p buf sz (processExit q code w1) m = (- EAGAIN, m)) \<and>
    (\<forall>code buf m. ProcessWait_read p buf 4 (processExit (unat t) code w1) m = (4, st32 m buf code))"
proof -
  have ne: "t \<noteq> of_nat q" if "q < MAX_PROCESS_NUM" "q \<noteq> unat t" for q
    using that by (auto simp: MAX_PROCESS_NUM_def unat_of_nat)
  show ?thesis using assms ne by (auto simp: ProcessWait_write_def ProcessWait_read_def processExit_def)
qed

section \<open>The stack of a fork\<close>

lemma store_bytes_other: "\<forall>i < length xs. b \<noteq> a + of_nat i \<Longrightarrow> store_bytes a xs m b = m b"
proof (induction xs arbitrary: a m)
  case (Cons x xs)
  have "b \<noteq> a" using Cons.prems by (auto dest: spec [of _ 0])
  moreover have "\<forall>i < length xs. b \<noteq> a + 1 + of_nat i" using Cons.prems by (auto dest: spec [of _ "Suc i" for i] simp: add.assoc)
  ultimately show ?case using Cons.IH by simp
qed simp

lemma bytes_store: "length xs < 2 ^ 32 \<Longrightarrow> bytes (store_bytes a xs m) a (length xs) = xs"
proof (induction xs arbitrary: a m)
  case (Cons x xs)
  have "\<forall>i < length xs. a \<noteq> a + 1 + of_nat i"
  proof (intro allI impI notI)
    fix i assume i: "i < length xs" "a = a + 1 + of_nat i"
    then have "of_nat (Suc i) = (0 :: u32)" by (simp add: add.assoc)
    then show False using i(1) Cons.prems dvd_imp_le [of "2 ^ 32" "Suc i"] unfolding word_of_nat_eq_0_iff by simp
  qed
  then show ?case using Cons by (simp add: bytes_Suc store_bytes_other)
qed simp

lemma getProcess_other: "q \<noteq> p \<Longrightarrow> getProcess q (upd_proc p f k) = getProcess q k"
  by (simp add: getProcess_def upd_proc_def)

lemma removeObject_other: "q \<noteq> p \<Longrightarrow> getProcess q (removeObject held p pos k) = getProcess q k"
  by (simp add: removeObject_def set_slot_def getProcess_other notify_removed_def split: option.split kobject.split)

lemma copy_objects_other: "q \<noteq> c \<Longrightarrow> getProcess q (copy_objects c i os k) = getProcess q k"
  by (induction c i os k rule: copy_objects.induct) (simp_all add: setObject_def set_slot_def getProcess_other removeObject_other)

text \<open>The child gets exactly the objects of its parent.\<close>

lemma copy_objects_child:
  assumes "length (process_list k) = MAX_PROCESS_NUM" "c < MAX_PROCESS_NUM" "getProcess c k = Some cr"
    "length (objects cr) = PROCESS_MAX_OBJECTS" "i + length os = PROCESS_MAX_OBJECTS" "\<forall>j. i \<le> j \<and> j < PROCESS_MAX_OBJECTS \<longrightarrow> objects cr ! j = None"
  shows "getProcess c (copy_objects c i os k) = Some (cr\<lparr>objects := take i (objects cr) @ os\<rparr>)"
  using assms
proof (induction c i os k arbitrary: cr rule: copy_objects.induct)
  case (2 c i os k)
  have "take (Suc i) (objects cr) = take i (objects cr) @ [None]" using 2(5-7) by (simp add: take_Suc_conv_app_nth)
  then show ?case using 2 by simp
next
  case (3 c i r os k)
  have lt: "i < PROCESS_MAX_OBJECTS" using 3(6) by simp
  then have "objects cr ! i = None" using 3(7) by blast
  then have s: "snd (setObject c i r k) = set_slot c i (Some r) k"
    using lt 3(4) by (simp add: setObject_def removeObject_def)
  let ?cr = "cr\<lparr>objects := (objects cr)[i := Some r]\<rparr>"
  have "getProcess c (copy_objects c (i + 1) os (set_slot c i (Some r) k)) = Some (?cr\<lparr>objects := take (i + 1) (objects ?cr) @ os\<rparr>)"
    using 3 lt by (intro 3(1) [unfolded s]) (auto simp: set_slot_def getProcess_upd)
  moreover have "take (Suc i) ((objects cr)[i := Some r]) = take i (objects cr) @ [Some r]"
    using lt 3(5) by (simp add: take_Suc_conv_app_nth)
  ultimately show ?case using s by simp
qed simp

text \<open>The parent while its child uses its stack, and the child.\<close>

definition in_fork :: "mem \<Rightarrow> process \<Rightarrow> process" where
  "in_fork m pr = pr\<lparr>process_state := PROCESS_STATE_SLEEPING, stack_top_backup := t_esp (usermode_state pr),
     stack_backup := Some (bytes m (t_esp (usermode_state pr)) PROCESS_STACK_BACKUP_SIZE)\<rparr>"

definition fork_child :: "nat \<Rightarrow> nat \<Rightarrow> process \<Rightarrow> process" where
  "fork_child c p pr = \<lparr>proc_pid = c, ppid = int p, process_state = PROCESS_STATE_RUNNABLE, process_sche_type = PROCESS_SCHE_NORMAL,
     stack_top_backup = 0, stack_backup = None, usermode_state = (usermode_state pr)\<lparr>t_eax := 0, t_edx := 0\<rparr>, objects = objects pr\<rparr>"

lemma fork_processes:
  assumes ok: "kernel_ok k" and pr: "getProcess p k = Some pr" and p: "p < MAX_PROCESS_NUM"
    and c: "clone p PROCESS_CLONE_KEEP_STACK k = Inr (Inr (c, k1))"
  shows "getProcess p k1 = Some (in_fork (kmem k) pr)"
    and "getProcess c k1 = Some (fork_child c p pr)"
proof -
  obtain k0 where n: "new_Process (int p) k = Inr (c, k0)"
    and k1: "k1 = (copy_objects c 0 (objects pr) (clone_registers p c PROCESS_CLONE_KEEP_STACK k0))\<lparr>current_process := c\<rparr>"
    using c pr by (auto simp: clone_def Let_def split: if_splits sum.splits)
  note np = new_Process_ok [OF ok n]
  have ne: "c \<noteq> p" using np(4) pr p by (auto simp: has_def)
  have l: "length (process_list k0) = MAX_PROCESS_NUM" by (rule kernel_ok_len [OF np(1)])
  have m: "kmem k0 = kmem k" using n by (auto simp: new_Process_def split: option.splits)
  have g: "getProcess p k0 = Some pr" using np(5) [of p] ne pr by simp
  have g2: "getProcess c k0 = Some \<lparr>proc_pid = c, ppid = int p, process_state = PROCESS_STATE_RUNNABLE, process_sche_type = PROCESS_SCHE_NORMAL,
      stack_top_backup = 0, stack_backup = None, usermode_state = zero_tss, objects = replicate PROCESS_MAX_OBJECTS None\<rparr>"
    using n kernel_ok_len [OF ok] np(3) by (auto simp: new_Process_def getProcess_def split: option.splits)
  have lo: "length (objects pr) = PROCESS_MAX_OBJECTS" using ok pr p by (simp add: kernel_ok_def procs_ok_def)
  let ?k = "clone_registers p c PROCESS_CLONE_KEEP_STACK k0"
  have lk: "length (process_list ?k) = MAX_PROCESS_NUM" "getProcess p ?k = Some (in_fork (kmem k) pr)"
    "getProcess c ?k = Some ((fork_child c p pr)\<lparr>objects := replicate PROCESS_MAX_OBJECTS None\<rparr>)"
    using g g2 l p np(3) ne m by (simp_all add: in_fork_def fork_child_def clone_registers_def Let_def setProcessState_def syscall_set_retval_def getProcess_upd)
  show "getProcess p k1 = Some (in_fork (kmem k) pr)"
    using lk(2) ne by (simp add: k1 copy_objects_other)
  from copy_objects_child [OF lk(1) np(3) lk(3), of 0 "objects pr"] lo
  show "getProcess c k1 = Some (fork_child c p pr)"
    by (simp add: k1 fork_child_def)
qed

lemma restore_in_fork:
  assumes "length (process_list k) = MAX_PROCESS_NUM" and "p < MAX_PROCESS_NUM" and "getProcess p k = Some (in_fork m pr)"
  shows "getProcess p (restoreStack p k) = Some (pr\<lparr>process_state := PROCESS_STATE_RUNNABLE, stack_top_backup := 0, stack_backup := None\<rparr>)"
    and "bytes (kmem (restoreStack p k)) (t_esp (usermode_state pr)) PROCESS_STACK_BACKUP_SIZE = bytes m (t_esp (usermode_state pr)) PROCESS_STACK_BACKUP_SIZE"
    and "(\<And>i. i < PROCESS_STACK_BACKUP_SIZE \<Longrightarrow> b \<noteq> t_esp (usermode_state pr) + of_nat i) \<Longrightarrow> kmem (restoreStack p k) b = kmem k b"
proof -
  let ?bs = "bytes m (t_esp (usermode_state pr)) PROCESS_STACK_BACKUP_SIZE"
  have r: "restoreStack p k = upd_proc p (\<lambda>pr. pr\<lparr>stack_top_backup := 0, stack_backup := None, process_state := PROCESS_STATE_RUNNABLE\<rparr>)
      (k\<lparr>kmem := store_bytes (t_esp (usermode_state pr)) ?bs (kmem k)\<rparr>)"
    using assms(3) by (simp add: restoreStack_def in_fork_def)
  show "getProcess p (restoreStack p k) = Some (pr\<lparr>process_state := PROCESS_STATE_RUNNABLE, stack_top_backup := 0, stack_backup := None\<rparr>)"
    using assms by (simp add: r getProcess_upd in_fork_def)
  show "bytes (kmem (restoreStack p k)) (t_esp (usermode_state pr)) PROCESS_STACK_BACKUP_SIZE = ?bs"
    using bytes_store [of ?bs "t_esp (usermode_state pr)" "kmem k"] by (simp add: r PROCESS_STACK_BACKUP_SIZE_def)
  show "kmem (restoreStack p k) b = kmem k b" if "\<And>i. i < PROCESS_STACK_BACKUP_SIZE \<Longrightarrow> b \<noteq> t_esp (usermode_state pr) + of_nat i"
    using that by (simp add: r store_bytes_other)
qed

section \<open>Termination\<close>

definition returns :: "'a option \<Rightarrow> bool" where
  "returns x \<longleftrightarrow> x \<noteq> None"

lemma returns_Some [simp]: "returns (Some x)"
  by (simp add: returns_def)

lemma returns_and_then: "returns x \<Longrightarrow> (\<And>a. returns (f a)) \<Longrightarrow> returns (and_then x f)"
  by (cases "(x, f)" rule: and_then.cases) (auto simp: returns_def)

lemma returns_resche [simp]: "returns (resche_outcome ko)"
  by (simp add: resche_outcome_def split: option.split)

lemma after_call_returns: "returns (after_call p v k)"
  unfolding after_call_def by (rule returns_and_then) (simp_all add: Let_def split: option.split)

text \<open>The calls that look at no string of the user and at no directory.\<close>

definition plain_call :: "u32 \<Rightarrow> bool" where
  "plain_call n \<longleftrightarrow> n \<notin> {SYSCALL_OPEN, SYSCALL_EXEC, SYSCALL_READDIR}"

lemmas plain_handler_defs = exit_handler_def fork_handler_def thread_handler_def clone_call_def read_handler_def write_handler_def
  close_handler_def dup2_handler_def sched_yield_handler_def sem_create_handler_def hlt_handler_def

lemma handler_returns: "plain_call n \<Longrightarrow> syscall_wrappers n = Some h \<Longrightarrow> returns (h t k)"
  by (auto simp: plain_call_def syscall_wrappers_def plain_handler_defs
      intro!: returns_and_then split: if_splits option.split sum.split exn.split kobject.split)

lemma syscall_returns:
  assumes ok: "kernel_ok k" and run: "running k (current_process k)" and plain: "plain_call (t_eax (user_tss k))"
  shows "returns (real_syscall_handler k)"
proof -
  obtain pr where pr: "getProcess (current_process k) k = Some pr" "current_process k < MAX_PROCESS_NUM" using awake_state [OF run] by blast
  then have g: "getProcess (current_process k) (enterKernelMode k) = Some (pr\<lparr>usermode_state := user_tss k\<rparr>)"
    using kernel_ok_len [OF ok] by (simp add: enterKernelMode_def getProcess_upd)
  have c: "current_process (enterKernelMode k) = current_process k" by (simp add: enterKernelMode_def)
  show ?thesis unfolding real_syscall_handler_def Let_def c g option.case
    using handler_returns [OF plain] by (auto intro!: returns_and_then simp: after_call_returns split: option.split)
qed

section \<open>Properties\<close>

lemma sleeping_iff:
  assumes ok: "kernel_ok k" and pr: "getProcess p k = Some pr" and p: "p < MAX_PROCESS_NUM"
  shows "process_state pr = PROCESS_STATE_SLEEPING \<longleftrightarrow> stack_backup pr \<noteq> None \<or> (\<exists>r. waits k p r)"
    and "stack_backup pr \<noteq> None \<Longrightarrow> \<not> waits k p r \<and> (\<exists>c. has k c (\<lambda>cr. ppid cr = int p))"
    and "waits k p r \<Longrightarrow> waits k p s \<Longrightarrow> s = r \<and> owns pr r"
proof -
  have s: "has k p sleeping = (process_state pr = PROCESS_STATE_SLEEPING)" "has k p backed = (stack_backup pr \<noteq> None)"
    using pr p by (simp_all add: has_def sleeping_def backed_def)
  have w: "process_state pr = PROCESS_STATE_SLEEPING \<and> owns pr r \<and> stack_backup pr = None" if "waits k p r" for r
    using waits_has [OF ok that] pr by (simp add: has_def sleeping_def backed_def)
  have sl: "has k p sleeping \<Longrightarrow> has k p backed \<or> (\<exists>r. waits k p r)"
    and bk: "has k p backed \<Longrightarrow> has k p sleeping \<and> (\<exists>c. has k c (\<lambda>pr. ppid pr = int p))"
    using ok by (simp_all add: kernel_ok_def sleep_ok_def)
  show "process_state pr = PROCESS_STATE_SLEEPING \<longleftrightarrow> stack_backup pr \<noteq> None \<or> (\<exists>r. waits k p r)"
    using sl [unfolded s] bk [unfolded s] w by metis
  show "\<not> waits k p r \<and> (\<exists>c. has k c (\<lambda>cr. ppid cr = int p))" if b: "stack_backup pr \<noteq> None"
    using conjunct2 [OF bk [unfolded s, OF b]] w [of r] b by auto
  show "s = r \<and> owns pr r" if "waits k p r" "waits k p s" using waits_unique [OF ok that] w that by blast
qed

text \<open>
  C3: who sleeps. In every state that a running system reaches, a process sleeps if and only if it is the parent of a fork whose
  stack is saved, or a request of it is queued at a device. It is never both; the parent then has a live child, which will
  wake it; and the request is queued at one device only, which the process owns. So no process sleeps for good because
  its request was lost.
\<close>

theorem sleepers_are_waited_for:
  assumes "kernel_ok k0" and "running k0 (current_process k0)" and "kstep\<^sup>*\<^sup>* k0 k"
    and "p < MAX_PROCESS_NUM" and "getProcess p k = Some pr"
  shows "(process_state pr = PROCESS_STATE_SLEEPING \<longleftrightarrow> stack_backup pr \<noteq> None \<or> (\<exists>r. waits k p r)) \<and>
    (stack_backup pr \<noteq> None \<longrightarrow> (\<forall>r. \<not> waits k p r) \<and> (\<exists>c. has k c (\<lambda>cr. ppid cr = int p))) \<and>
    (\<forall>r s. waits k p r \<longrightarrow> waits k p s \<longrightarrow> s = r \<and> owns pr r)"
proof -
  have "kernel_ok k" using reachable_good [OF assms(3)] assms(1,2) by (simp add: good_def)
  note s = sleeping_iff [OF this assms(5,4)]
  show ?thesis using s by blast
qed

theorem sleepers_are_waited_for_witness:
  "\<exists>pr. getProcess 0 demo_kernel = Some pr \<and> process_state pr \<noteq> PROCESS_STATE_SLEEPING \<and> (\<forall>r. \<not> waits demo_kernel 0 r)"
proof -
  obtain pr where pr: "getProcess 0 demo_kernel = Some pr" "process_state pr = PROCESS_STATE_RUNNABLE"
    using demo_good(1,2) awake_state [of demo_kernel 0] by (auto simp: good_def)
  have g: "kernel_ok demo_kernel" "running demo_kernel (current_process demo_kernel)" using demo_good(1) by (simp_all add: good_def)
  from sleepers_are_waited_for [OF g rtranclp.rtrancl_refl _ pr(1)] pr show ?thesis by (auto simp: MAX_PROCESS_NUM_def)
qed


text \<open>A state in which process 0 waits for a semaphore that has just been raised.\<close>

lemma demo_semaphore:
  "\<exists>k r. kernel_ok k \<and> objs k r = Some (Blocking (Semaphore 1) [\<lparr>pr_proc = 0, pr_buffer = 0, pr_size = 1\<rparr>])"
proof -
  obtain con k0 where b: "boot_devices demo_boot = Inr (con, k0)" and d: "devices k0 ! 3 = None"
    using boot_devices_run by (simp add: demo_boot_def)
  note k0 = boot_ok [OF b [unfolded demo_boot_def]]
  have "List.find (\<lambda>i. devices k0 ! i = None) [0..<MAX_BLOCK_INPUT_DEVICE_NUM] \<noteq> None"
    using d by (auto simp: find_None_iff MAX_BLOCK_INPUT_DEVICE_NUM_def intro: exI [of _ 3])
  then obtain r k1 where n: "new_device (Semaphore 1) k0 = Inr (r, k1)" by (auto simp: new_device_def new_object_def)
  note k1 = new_device_ok [OF k0(1) n]
  have "getProcess 0 k1 = None" using k1(3) [of 1] k0(4) [of 0] by (simp add: only_def MAX_PROCESS_NUM_def)
  then obtain k2 where p: "new_Process (- 1) k1 = Inr (0, k2)" by (auto simp: new_Process_def MAX_PROCESS_NUM_def upt_conv_Cons getProcess_def)
  note k2 = new_Process_ok [OF k1(1) p]
  have o2: "objs k2 r = Some (Blocking (Semaphore 1) [])" using k1(4) k2(9) by simp
  let ?k3 = "snd (setObject 0 5 r k2)"
  have l: "length (process_list k2) = MAX_PROCESS_NUM" by (rule kernel_ok_len [OF k2(1)])
  obtain pr where pr: "getProcess 0 k2 = Some pr" "length (objects pr) = PROCESS_MAX_OBJECTS" "objects pr ! 5 = None"
    using p kernel_ok_len [OF k1(1)] by (auto simp: new_Process_def getProcess_def MAX_PROCESS_NUM_def PROCESS_MAX_OBJECTS_def split: option.splits)
  have s: "?k3 = set_slot 0 5 (Some r) k2" using pr by (simp add: setObject_def removeObject_def PROCESS_MAX_OBJECTS_def)
  have k3: "kernel_ok ?k3" "running ?k3 0" "objs ?k3 r = Some (Blocking (Semaphore 1) [])"
    using setObject_ok [OF k2(1,8), of r 5] o2 only_running [of 0 k2 ?k3 0] k2(6) by (simp_all add: s) (simp add: set_slot_def)
  have "has ?k3 0 (\<lambda>pr. owns pr r)"
    using pr l set_update_memI [of 5 "objects pr" "Some r"] by (simp add: s set_slot_def has_def getProcess_upd owns_def MAX_PROCESS_NUM_def PROCESS_MAX_OBJECTS_def)
  note k3 = k3 this
  from kernel_ok_block [OF k3(1,3) _ k3(2,4), of "Semaphore 1" "\<lparr>pr_proc = 0, pr_buffer = 0, pr_size = 1\<rparr>"]
  show ?thesis by (intro exI conjI) auto
qed




text \<open>
  C7: fork. The child has the registers of its parent but the return value 0, and exactly its objects; the parent sleeps
  with its registers, and its own objects, unchanged and the top of its stack saved.
\<close>

theorem fork_duplicates_process:
  assumes "kernel_ok k" and "getProcess p k = Some pr" and "p < MAX_PROCESS_NUM"
    and "clone p PROCESS_CLONE_KEEP_STACK k = Inr (Inr (c, k'))"
  shows "getProcess c k' = Some (fork_child c p pr) \<and> getProcess p k' = Some (in_fork (kmem k) pr) \<and> current_process k' = c"
  using fork_processes [OF assms] assms(2,4) by (auto simp: clone_def Let_def split: if_splits sum.splits)

lemma demo_fork: "\<exists>pr c k'. getProcess 0 demo_kernel = Some pr \<and> clone 0 PROCESS_CLONE_KEEP_STACK demo_kernel = Inr (Inr (c, k'))"
proof -
  have "List.find (\<lambda>i. process_list demo_kernel ! i = None) [0..<MAX_PROCESS_NUM] \<noteq> None"
    using demo_good(4) [of 1] by (auto simp: find_None_iff getProcess_def MAX_PROCESS_NUM_def intro: exI [of _ 1])
  then show ?thesis using demo_process by (auto simp: clone_def new_Process_def Let_def)
qed

theorem fork_duplicates_process_witness:
  "\<exists>pr c k'. clone 0 PROCESS_CLONE_KEEP_STACK demo_kernel = Inr (Inr (c, k')) \<and> getProcess c k' = Some (fork_child c 0 pr)"
proof -
  obtain pr c k' where f: "getProcess 0 demo_kernel = Some pr" "clone 0 PROCESS_CLONE_KEEP_STACK demo_kernel = Inr (Inr (c, k'))"
    using demo_fork by blast
  have "kernel_ok demo_kernel" using demo_good(1) by (simp add: good_def)
  from fork_duplicates_process [OF this f(1) _ f(2)] f(2) show ?thesis by (auto simp: MAX_PROCESS_NUM_def)
qed





end
