(* ===== verification/FileCalls.thy ===== *)
theory FileCalls
  imports Waiting
begin

text \<open>
  Files through the system calls: what a process reads from a descriptor that it opened are the bytes of the file's clusters on the disk, in any number of
  pieces. This puts together path lookup and file contents (\<open>Fat16\<close>), the object table (\<open>Kernel\<close>) and the handlers of \<open>open\<close> and
  \<open>read\<close> (\<open>Syscall\<close>).
\<close>

section \<open>A descriptor that is a file\<close>

definition file_at :: "kernel \<Rightarrow> nat \<Rightarrow> kfile \<Rightarrow> bool" where
  "file_at k fd f \<longleftrightarrow> (\<exists>r. getObject (current_process k) fd k = Inr (Some r) \<and> objs k r = Some (FileObject f))"

lemma unat_small64: "n < 4294967296 \<Longrightarrow> unat (of_int (int n) :: u64) = n"
  by (simp add: unat_of_nat take_bit_nat_eq_self)

text \<open>One call of \<open>read\<close> hands out the next bytes and moves the cursor of the file.\<close>

lemma read_handler_file:
  fixes siz :: u32
  assumes "file_at k fd f" and "fd < 128" and "file_ok (rootdisk k) (fs_info (rootfs k)) f"
  defines "xs \<equiv> take (unat siz) (drop (file_cursor f) (file_contents (rootdisk k) (fs_info (rootfs k)) f))"
  shows "\<exists>k' f'. read_handler (of_nat fd) buf siz k = Some (Inr (of_int (int (length xs)), k')) \<and> kmem k' = store_bytes buf xs (kmem k) \<and>
    file_at k' fd f' \<and> rootdisk k' = rootdisk k \<and> rootfs k' = rootfs k \<and> file_ok (rootdisk k) (fs_info (rootfs k)) f' \<and>
    file_contents (rootdisk k) (fs_info (rootfs k)) f' = file_contents (rootdisk k) (fs_info (rootfs k)) f \<and>
    file_cursor f' = max (file_cursor f) (min (file_cursor f + unat siz) (length (file_contents (rootdisk k) (fs_info (rootfs k)) f)))"
proof -
  obtain r where r: "getObject (current_process k) fd k = Inr (Some r)" "objs k r = Some (FileObject f)" using assms(1) by (auto simp: file_at_def)
  obtain f' where f': "file_read (rootdisk k) (fs_info (rootfs k)) (unat siz) f = Inr (xs, f')" "file_ok (rootdisk k) (fs_info (rootfs k)) f'"
    "file_contents (rootdisk k) (fs_info (rootfs k)) f' = file_contents (rootdisk k) (fs_info (rootfs k)) f"
    "file_cursor f' = max (file_cursor f) (min (file_cursor f + unat siz) (length (file_contents (rootdisk k) (fs_info (rootfs k)) f)))"
    using file_read_contents [OF assms(3), of "unat siz"] unfolding xs_def by blast
  let ?k = "k\<lparr>objs := (objs k)(r \<mapsto> FileObject f'), kmem := store_bytes buf xs (kmem k)\<rparr>"
  have u: "unat (of_nat fd :: u32) = fd" using assms(2) by simp
  have "read_handler (of_nat fd) buf siz k = Some (Inr (of_int (int (length xs)), ?k))"
    unfolding read_handler_def u using r f'(1) by simp
  moreover have "getObject (current_process ?k) fd ?k = getObject (current_process k) fd k" by (simp add: getObject_def getProcess_def)
  then have "file_at ?k fd f'" unfolding file_at_def using r(1) by (intro exI [of _ r]) simp
  ultimately show ?thesis using f' by (intro exI [of _ ?k] exI [of _ f']) simp
qed

section \<open>Reading in pieces\<close>

text \<open>A process that calls \<open>read\<close> again and again: the bytes it finds in its buffers, one call after the other.\<close>

fun read_calls :: "u32 \<Rightarrow> (addr \<times> u32) list \<Rightarrow> kernel \<Rightarrow> (u8 list \<times> kernel) option" where
  "read_calls fd [] k = Some ([], k)"
| "read_calls fd ((buf, siz) # rs) k =
     (case read_handler fd buf siz k of
        Some (Inr (n, k)) \<Rightarrow> map_option (\<lambda>(ys, k'). (bytes (kmem k) buf (unat n) @ ys, k')) (read_calls fd rs k)
      | _ \<Rightarrow> None)"

lemma take_drop_pieces:
  "c \<le> length xs \<Longrightarrow> take a (drop c xs) @ take b (drop (max c (min (c + a) (length xs))) xs) = take (a + b) (drop c xs)"
  by (cases "c + a \<le> length xs") (simp_all add: take_add max_def min_def add.commute)

lemma read_calls_file:
  assumes "file_at k fd f" and "fd < 128" and "file_ok (rootdisk k) (fs_info (rootfs k)) f"
    and "file_contents (rootdisk k) (fs_info (rootfs k)) f = xs" and "file_cursor f \<le> length xs"
  shows "\<exists>k'. read_calls (of_nat fd) rs k = Some (take (sum_list (map (\<lambda>r. unat (snd r)) rs)) (drop (file_cursor f) xs), k')"
  using assms
proof (induction rs arbitrary: k f)
  case (Cons r rs)
  obtain buf siz where r: "r = (buf, siz)" by (cases r)
  let ?ys = "take (unat siz) (drop (file_cursor f) xs)"
  obtain k1 f1 where k1: "read_handler (of_nat fd) buf siz k = Some (Inr (of_int (int (length ?ys)), k1))" "kmem k1 = store_bytes buf ?ys (kmem k)"
    "file_at k1 fd f1" "rootdisk k1 = rootdisk k" "rootfs k1 = rootfs k" "file_ok (rootdisk k) (fs_info (rootfs k)) f1"
    "file_contents (rootdisk k) (fs_info (rootfs k)) f1 = xs"
    "file_cursor f1 = max (file_cursor f) (min (file_cursor f + unat siz) (length xs))"
    using read_handler_file [OF Cons.prems(1-3), where siz = siz and buf = buf] unfolding Cons.prems(4) by blast
  have len: "length ?ys < 4294967296" using unat_lt32 [of siz] by (simp add: min_less_iff_disj)
  have got: "bytes (kmem k1) buf (unat (of_int (int (length ?ys)) :: u64)) = ?ys"
    unfolding unat_small64 [OF len] k1(2) by (rule bytes_store) (use len in simp)
  have "file_cursor f1 \<le> length xs" using k1(8) Cons.prems(5) by simp
  then obtain k' where k': "read_calls (of_nat fd) rs k1 = Some (take (sum_list (map (\<lambda>r. unat (snd r)) rs)) (drop (file_cursor f1) xs), k')"
    using Cons.IH [of k1 f1] k1(3-7) Cons.prems(2) by auto
  have "read_calls (of_nat fd) (r # rs) k = Some (?ys @ take (sum_list (map (\<lambda>r. unat (snd r)) rs)) (drop (file_cursor f1) xs), k')"
    unfolding r read_calls.simps k1(1) option.case sum.case prod.case k' using got by simp
  also have "?ys @ take (sum_list (map (\<lambda>r. unat (snd r)) rs)) (drop (file_cursor f1) xs) = take (sum_list (map (\<lambda>r. unat (snd r)) (r # rs))) (drop (file_cursor f) xs)"
    unfolding k1(8) using take_drop_pieces [OF Cons.prems(5)] by (simp add: r)
  finally show ?case by blast
qed simp

section \<open>Opening\<close>

text \<open>The descriptors of a process.\<close>

definition slots :: "kernel \<Rightarrow> nat \<Rightarrow> nat option list \<Rightarrow> bool" where
  "slots k p os \<longleftrightarrow> p < length (process_list k) \<and> length os = 128 \<and> (\<exists>pr. getProcess p k = Some pr \<and> objects pr = os)"

lemma slots_set: "slots k p os \<Longrightarrow> slots (set_slot p pos ro k) p (os[pos := ro])"
  by (auto simp: slots_def set_slot_def upd_proc_def getProcess_def)

lemma slots_file_at: "slots k (current_process k) os \<Longrightarrow> fd < 128 \<Longrightarrow> os ! fd = Some r \<Longrightarrow> objs k r = Some (FileObject f) \<Longrightarrow> file_at k fd f"
  by (auto simp: slots_def file_at_def getObject_def PROCESS_MAX_OBJECTS_def)

text \<open>A new object gets a free descriptor from 3 on.\<close>

lemma attach_file:
  assumes ok: "kernel_ok k" and pr: "getProcess (current_process k) k = Some pr" "current_process k < MAX_PROCESS_NUM"
    and free: "\<exists>i. 3 \<le> i \<and> i < 128 \<and> objects pr ! i = None"
  shows "\<exists>fd r k'. (let (r, k1) = new_object (FileObject f) k in attach_call r k1) = done_call (int fd) k' \<and> 3 \<le> fd \<and> fd < 128 \<and>
    objects pr ! fd = None \<and> slots k' (current_process k) ((objects pr)[fd := Some r]) \<and> objs k' r = Some (FileObject f) \<and>
    current_process k' = current_process k \<and> rootdisk k' = rootdisk k \<and> rootfs k' = rootfs k"
proof -
  define r where "r = next_obj k"
  define k1 where "k1 = k\<lparr>objs := (objs k)(r \<mapsto> FileObject f), next_obj := r + 1\<rparr>"
  let ?p = "current_process k"
  have n: "new_object (FileObject f) k = (r, k1)" by (simp add: new_object_def r_def k1_def)
  have p1: "getProcess ?p k1 = Some pr" "current_process k1 = ?p" "objs k1 r = Some (FileObject f)" using pr by (simp_all add: k1_def getProcess_def)
  let ?ids = "[PROCESS_NORMAL_OBJECT_BEGIN..<PROCESS_MAX_OBJECTS]"
  have ids: "i \<in> set ?ids \<longleftrightarrow> 3 \<le> i \<and> i < 128" for i
    unfolding PROCESS_NORMAL_OBJECT_BEGIN_def PROCESS_MAX_OBJECTS_def set_upt by simp
  obtain i where "i \<in> set ?ids" "objects pr ! i = None" using free unfolding ids by blast
  then have "List.find (\<lambda>i. objects pr ! i = None) ?ids \<noteq> None" unfolding find_None_iff by blast
  then obtain fd where fd: "List.find (\<lambda>i. objects pr ! i = None) ?ids = Some fd" by blast
  from fd [unfolded find_Some_iff] obtain j where "j < length ?ids" "fd = ?ids ! j" and none: "objects pr ! fd = None" by blast
  then have "fd \<in> set ?ids" by (simp only: nth_mem)
  then have b: "3 \<le> fd" "fd < 128" unfolding ids by blast+
  let ?k = "set_slot ?p fd (Some r) k1"
  have "addObject ?p r k1 = Inr (fd, ?k)"
    using p1 fd by (simp add: addObject_def)
  then have a: "attach_call r k1 = done_call (int fd) ?k" by (simp add: attach_call_def p1(2))
  have len: "length (objects pr) = 128" "length (process_list k) = MAX_PROCESS_NUM"
    using ok pr by (auto simp: kernel_ok_def procs_ok_def PROCESS_MAX_OBJECTS_def)
  then have "slots k1 ?p (objects pr)" using pr p1(1) by (simp add: slots_def k1_def)
  from slots_set [OF this] have "slots ?k ?p ((objects pr)[fd := Some r])" .
  moreover have "objs ?k r = Some (FileObject f)" "current_process ?k = ?p" "rootdisk ?k = rootdisk k" "rootfs ?k = rootfs k"
    by (simp_all add: set_slot_def upd_proc_def k1_def)
  ultimately show ?thesis using n a b none by auto
qed

text \<open>The listed entries of the root directory, in order.\<close>

definition root_entries :: "disk \<Rightarrow> fatfs \<Rightarrow> fileinfo list" where
  "root_entries dk fs = map entry_info (listed (seq_contents dk
     (SequentialFile (first_data_sector (fs_info fs) - root_dir_sectors (fs_info fs)) (first_data_sector (fs_info fs)))))"

lemma openFile_root:
  assumes "name \<noteq> []" and "slash \<notin> set name" and "length name \<le> MAX_FILENAME_LENGTH"
    and "List.find (\<lambda>i. folded (filename i) = folded name) (root_entries dk fs) = Some i"
  shows "openFile dk None (slash # name) fs =
    and_then (ClusterFile dk (cluster i) (filesize i) (if directory i then F_DIR else F_REG) fs) (\<lambda>(f, fs). Some (Inr (Some (Cluster f), fs)))"
proof -
  from getRootDirectory_listed [of dk fs] obtain f' where
    d: "getRootDirectory dk fs = Some (Inr \<lparr>dir_file = f', infos = root_entries dk fs\<rparr>)" by (auto simp: root_entries_def)
  from openFile_component [OF assms(1-3) d] assms(4) show ?thesis by (simp add: Directory_openFile_def Directory_find_def)
qed

text \<open>The bytes of a chain of clusters.\<close>

definition chain_bytes :: "disk \<Rightarrow> fsinfo \<Rightarrow> u16 list \<Rightarrow> u8 list" where
  "chain_bytes dk fi cs = map (\<lambda>i. dk (cluster_sector fi cs i) ! (i mod 512)) [0..<length cs * (unat (sectors_per_cluster fi) * 512)]"

text \<open>A regular file on the disk: its entry in the root directory and its chain in the allocation table.\<close>

definition on_disk :: "disk \<Rightarrow> fatfs \<Rightarrow> u8 list \<Rightarrow> fileinfo \<Rightarrow> u16 list \<Rightarrow> bool" where
  "on_disk dk fs name i cs \<longleftrightarrow> name \<noteq> [] \<and> slash \<notin> set name \<and> length name \<le> MAX_FILENAME_LENGTH \<and>
     List.find (\<lambda>i. folded (filename i) = folded name) (root_entries dk fs) = Some i \<and> \<not> directory i \<and>
     seq_coherent dk (fat_file fs) \<and> is_chain (fat_entry dk (fat_file fs)) (ucast (cluster i)) cs \<and> in_table (fat_file fs) cs \<and>
     sectors_per_cluster (fs_info fs) \<noteq> 0 \<and> length (chain_bytes dk (fs_info fs) cs) < 4294967296 \<and>
     unat (filesize i) \<le> length (chain_bytes dk (fs_info fs) cs)"

lemma openFile_on_disk:
  assumes "on_disk dk fs name i cs"
  shows "\<exists>f fs'. openFile dk None (slash # name) fs = Some (Inr (Some f, fs')) \<and> fs_info fs' = fs_info fs \<and>
    file_ok dk (fs_info fs) f \<and> file_contents dk (fs_info fs) f = chain_bytes dk (fs_info fs) cs \<and> file_cursor f = 0"
proof -
  define L where "L = length cs * (unat (sectors_per_cluster (fs_info fs)) * 512)"
  note d = assms [unfolded on_disk_def]
  have L: "L < 4294967296" "unat (filesize i) \<le> L" using d by (simp_all add: chain_bytes_def L_def)
  obtain fs' where c: "ClusterFile dk (cluster i) (filesize i) F_REG fs = Some (Inr (\<lparr>cf_start = cluster i, cf_cursor = 0, cf_num = of_nat (length cs),
      cf_size = (if F_REG = F_DIR then of_nat L else max (filesize i) (of_nat L)), cf_mode = F_REG, cf_clusters = cs, cf_pos = - 1,
      cf_buf = replicate 512 0\<rparr>, fs'))" (is "_ = Some (Inr (?f, fs'))") and i': "fs_info fs' = fs_info fs"
    using ClusterFile_chain [of dk fs "cluster i" cs L "filesize i" F_REG] d L(1) L_def by blast
  have "filesize i \<le> of_nat L" using L by (simp add: word_le_nat_alt)
  then have sz: "unat (cf_size ?f) = L" using L by (simp add: max_absorb2)
  have "openFile dk None (slash # name) fs = Some (Inr (Some (Cluster ?f), fs'))"
    using openFile_root [of name dk fs i] d c by simp
  moreover have "file_ok dk (fs_info fs) (Cluster ?f)" using sz by (simp add: cluster_coherent_def covered_def L_def)
  moreover have "file_contents dk (fs_info fs) (Cluster ?f) = chain_bytes dk (fs_info fs) cs"
    using sz by (simp add: cluster_contents_def chain_bytes_def L_def)
  ultimately show ?thesis using i' by fastforce
qed

section \<open>Property\<close>

lemma open_file:
  assumes ok: "kernel_ok k" "getProcess (current_process k) k = Some pr" "current_process k < MAX_PROCESS_NUM"
    and free: "\<exists>i. 3 \<le> i \<and> i < 128 \<and> objects pr ! i = None"
    and path: "cstr (kmem k) pfilename (slash # name)" "SpecialPathManager_get (slash # name) k = None"
    and disk: "on_disk (rootdisk k) (rootfs k) name i cs"
  shows "\<exists>fd r f k'. open_handler pfilename k = Some (Inr (of_nat fd, k')) \<and> 3 \<le> fd \<and> fd < 128 \<and> objects pr ! fd = None \<and>
    slots k' (current_process k) ((objects pr)[fd := Some r]) \<and> objs k' r = Some (FileObject f) \<and>
    current_process k' = current_process k \<and> rootdisk k' = rootdisk k \<and> fs_info (rootfs k') = fs_info (rootfs k) \<and>
    file_ok (rootdisk k) (fs_info (rootfs k)) f \<and> file_cursor f = 0 \<and>
    file_contents (rootdisk k) (fs_info (rootfs k)) f = chain_bytes (rootdisk k) (fs_info (rootfs k)) cs"
proof -
  obtain f fs' where f: "openFile (rootdisk k) None (slash # name) (rootfs k) = Some (Inr (Some f, fs'))" "fs_info fs' = fs_info (rootfs k)"
    "file_ok (rootdisk k) (fs_info (rootfs k)) f" "file_contents (rootdisk k) (fs_info (rootfs k)) f = chain_bytes (rootdisk k) (fs_info (rootfs k)) cs"
    "file_cursor f = 0" using openFile_on_disk [OF disk] by blast
  let ?k = "k\<lparr>rootfs := fs'\<rparr>"
  have "kernel_ok ?k" using ok(1) by simp
  moreover have "getProcess (current_process ?k) ?k = Some pr" using ok(2) by (simp add: getProcess_def)
  ultimately obtain fd r k1 where k1: "(let (r, k1) = new_object (FileObject f) ?k in attach_call r k1) = done_call (int fd) k1" "3 \<le> fd" "fd < 128"
    "objects pr ! fd = None" "slots k1 (current_process k) ((objects pr)[fd := Some r])" "objs k1 r = Some (FileObject f)"
    "current_process k1 = current_process k" "rootdisk k1 = rootdisk k" "rootfs k1 = fs'" using attach_file [of ?k pr f] ok(3) free by auto
  have "unat (of_nat (length (slash # name)) :: u32) = length (slash # name)" using cstr_length [OF path(1)] by (simp only: unat_of_nat32)
  then have p: "strlen (kmem k) pfilename = Some (of_nat (length (slash # name)))"
    "bytes (kmem k) pfilename (unat (of_nat (length (slash # name)) :: u32)) = slash # name"
    using strlen_eq [OF path(1)] cstr_append [of "kmem k" pfilename "slash # name" "[]"] path(1) by simp_all
  have "open_handler pfilename k = done_call (int fd) k1"
    unfolding open_handler_def p(1) Option.bind.simps Let_def p(2) path(2) option.case f(1) and_then.simps prod.case
    using k1(1) by (simp add: Let_def)
  then show ?thesis using k1(2-9) f(2-5) by (intro exI [of _ fd] exI [of _ r] exI [of _ f] exI [of _ k1]) simp
qed

text \<open>
  C12: a process reads the file that it opened. Opening the path of a regular file in the root directory returns a descriptor from 3 to
  127; and the calls of \<open>read\<close> on it, with buffers of any sizes and in any number, hand out together the first bytes of the file's cluster chain in
  the order in which they are on the disk: no byte is lost or repeated where a sector, a cluster or a call ends, and nothing is handed out behind the last cluster.
\<close>

theorem open_read_file:
  assumes "kernel_ok k" and "getProcess (current_process k) k = Some pr" and "current_process k < MAX_PROCESS_NUM"
    and "\<exists>i. 3 \<le> i \<and> i < 128 \<and> objects pr ! i = None"
    and "cstr (kmem k) pfilename (slash # name)" and "SpecialPathManager_get (slash # name) k = None"
    and "on_disk (rootdisk k) (rootfs k) name i cs"
  shows "\<exists>fd k1 k2. open_handler pfilename k = Some (Inr (of_nat fd, k1)) \<and> 3 \<le> fd \<and> fd < 128 \<and>
    read_calls (of_nat fd) rs k1 = Some (take (sum_list (map (\<lambda>r. unat (snd r)) rs)) (chain_bytes (rootdisk k) (fs_info (rootfs k)) cs), k2)"
proof -
  obtain fd r f k1 where o: "open_handler pfilename k = Some (Inr (of_nat fd, k1))" "3 \<le> fd" "fd < 128" "slots k1 (current_process k1) ((objects pr)[fd := Some r])"
    "objs k1 r = Some (FileObject f)" "rootdisk k1 = rootdisk k" "fs_info (rootfs k1) = fs_info (rootfs k)" "file_ok (rootdisk k) (fs_info (rootfs k)) f"
    "file_cursor f = 0" "file_contents (rootdisk k) (fs_info (rootfs k)) f = chain_bytes (rootdisk k) (fs_info (rootfs k)) cs"
    using open_file [OF assms] by metis
  have "file_at k1 fd f" using o(3-5) by (intro slots_file_at [OF o(4)]) (simp_all add: slots_def)
  from read_calls_file [OF this o(3), of _ rs] o show ?thesis by auto
qed

text \<open>A process opens \<^verbatim>\<open>/sh.elf\<close> on the small disk and reads it in two pieces.\<close>

definition demo_opener :: kernel where
  "demo_opener = demo_kernel\<lparr>kmem := text_at 100 ''/sh.elf'' (\<lambda>_. 0)\<rparr>"

lemma demo_opener_state:
  "rootdisk demo_opener = demo_disk" "rootfs demo_opener = demo_fs"
  "special_paths demo_opener = [(path_of '':CON'', Some 0), (path_of '':WAITPID'', Some 1), (path_of '':SLEEP'', Some 2)] @ replicate 13 ([], None)"
  "\<exists>pr. getProcess 0 demo_opener = Some pr \<and> objects pr ! 3 = None"
proof -
  let ?b = "(blank (\<lambda>_. 0) demo_fs demo_disk 0x200000 0x300000 0x400000)\<lparr>
     objs := [0 \<mapsto> Blocking (VGATextIODevice boot_console) [], 1 \<mapsto> Blocking (ProcessWait ProcessWait_init) [],
       2 \<mapsto> Blocking (SleepDevice SleepDevice_init) []], next_obj := 3,
     devices := (replicate 64 None)[0 := Some 0, 1 := Some 1, 2 := Some 2],
     special_paths := SpecialPathManager_init[0 := (path_of '':CON'', Some 0), 1 := (path_of '':WAITPID'', Some 1), 2 := (path_of '':SLEEP'', Some 2)],
     static_refs := [0, 1, 2], wait_instance := 1\<rparr>"
  obtain n pr where n: "new_Process (- 1) ?b = Inr (0, n)" "n = ?b\<lparr>process_list := (process_list ?b)[0 := Some pr]\<rparr>"
    "objects pr = replicate PROCESS_MAX_OBJECTS None"
    by (simp add: new_Process_def blank_def MAX_PROCESS_NUM_def upt_conv_Cons)
  have p: "getProcess 0 (n\<lparr>current_process := 0\<rparr>) = Some pr" unfolding n(2) by (simp add: getProcess_def blank_def MAX_PROCESS_NUM_def)
  have d: "demo_kernel = set_slot 0 0 (Some 0) (n\<lparr>current_process := 0\<rparr>)"
    unfolding demo_kernel_def demo_boot_def boot_devices_run sum.case prod.case n(1)
    using p n(3) by (simp add: setObject_def removeObject_def PROCESS_MAX_OBJECTS_def)
  show "rootdisk demo_opener = demo_disk" "rootfs demo_opener = demo_fs"
    by (simp_all add: demo_opener_def d set_slot_def upd_proc_def n(2) blank_def)
  have "special_paths demo_opener = special_paths ?b" by (simp add: demo_opener_def d set_slot_def upd_proc_def n(2) blank_def)
  then show "special_paths demo_opener = [(path_of '':CON'', Some 0), (path_of '':WAITPID'', Some 1), (path_of '':SLEEP'', Some 2)] @ replicate 13 ([], None)"
    using three_updates [of 13 "([], None)" "(path_of '':CON'', Some (0 :: nat))" "(path_of '':WAITPID'', Some 1)" "(path_of '':SLEEP'', Some 2)"]
    by (simp add: SpecialPathManager_init_def MAX_SPECIAL_PATH_NUM_def)
  have "getProcess 0 demo_opener = Some (pr\<lparr>objects := (objects pr)[0 := Some 0]\<rparr>)"
    using p unfolding demo_opener_def d n(2) by (simp add: set_slot_def upd_proc_def getProcess_def blank_def MAX_PROCESS_NUM_def)
  then show "\<exists>pr. getProcess 0 demo_opener = Some pr \<and> objects pr ! 3 = None" by (simp add: n(3) PROCESS_MAX_OBJECTS_def)
qed

lemma demo_opener_path: "SpecialPathManager_get (ascii ''/sh.elf'') demo_opener = None"
proof -
  have "folded (fst q) \<noteq> folded (ascii ''/sh.elf'')" if "q \<in> set (special_paths demo_opener)" for q
    using that unfolding demo_opener_state(3) by (auto simp: tolower_def isupper_def uint_word_of_int)
  moreover have "length (special_paths demo_opener) = MAX_SPECIAL_PATH_NUM" by (simp add: demo_opener_state(3) MAX_SPECIAL_PATH_NUM_def)
  ultimately have "find_path (ascii ''/sh.elf'') demo_opener = None"
    unfolding find_path_def find_None_iff set_upt by (metis atLeastLessThan_iff nth_mem)
  then show ?thesis by (simp only: SpecialPathManager_get_def option.case)
qed

lemma demo_on_disk:
  "on_disk demo_disk demo_fs (ascii ''sh.elf'') \<lparr>filename = ascii ''SH.ELF'', directory = False, filesize = 600, cluster = 2\<rparr> [2, 3]"
proof -
  have "root_entries demo_disk demo_fs = [\<lparr>filename = ascii ''SH.ELF'', directory = False, filesize = 600, cluster = 2\<rparr>]"
    unfolding root_entries_def using demo_root by (simp add: demo_fs_def)
  then show ?thesis
    using demo_chain
    by (simp add: on_disk_def chain_bytes_def demo_entry CLUSTER_END_def MAX_FILENAME_LENGTH_def tolower_def isupper_def uint_word_of_int)
qed

theorem open_read_file_witness:
  "\<exists>fd k1 k2 xs. open_handler 100 demo_opener = Some (Inr (of_nat fd, k1)) \<and> 3 \<le> fd \<and>
     read_calls (of_nat fd) [(0x1000, 500), (0x2000, 100)] k1 = Some (xs, k2) \<and> length xs = 600 \<and> xs ! 511 = 3 \<and> xs ! 512 = 4"
proof -
  have k: "kernel_ok demo_opener" "current_process demo_opener = 0" "current_process demo_opener < MAX_PROCESS_NUM"
    using demo_good(1,2) by (simp_all add: demo_opener_def good_def MAX_PROCESS_NUM_def)
  obtain pr where pr: "getProcess (current_process demo_opener) demo_opener = Some pr" "objects pr ! 3 = None"
    using demo_opener_state(4) k(2) by metis
  have slot: "\<exists>i. 3 \<le> i \<and> i < 128 \<and> objects pr ! i = None" using pr(2) by (intro exI [of _ 3]) simp
  have path: "cstr (kmem demo_opener) 100 (slash # ascii ''sh.elf'')" "SpecialPathManager_get (slash # ascii ''sh.elf'') demo_opener = None"
    using demo_opener_path by (simp_all add: demo_opener_def)
  let ?bs = "chain_bytes demo_disk (fs_info demo_fs) [2, 3]"
  have disk: "on_disk (rootdisk demo_opener) (rootfs demo_opener) (ascii ''sh.elf'') \<lparr>filename = ascii ''SH.ELF'', directory = False, filesize = 600, cluster = 2\<rparr> [2, 3]"
    unfolding demo_opener_state by (rule demo_on_disk)
  from open_read_file [OF k(1) pr(1) k(3) slot path disk, of "[(0x1000, 500), (0x2000, 100)]"]
  obtain fd k1 k2 where r: "open_handler 100 demo_opener = Some (Inr (of_nat fd, k1))" "3 \<le> fd"
    "read_calls (of_nat fd) [(0x1000, 500), (0x2000, 100)] k1 = Some (take 600 ?bs, k2)"
    unfolding demo_opener_state by (auto simp del: read_calls.simps)
  have l: "length ?bs = 1024" by (simp add: chain_bytes_def demo_chain(4))
  have "take 600 ?bs ! j = demo_disk (cluster_sector (fs_info demo_fs) [2, 3] j) ! (j mod 512)" if "j < 600" for j
    using that by (simp add: chain_bytes_def demo_chain(4))
  then have "take 600 ?bs ! 511 = 3" "take 600 ?bs ! 512 = 4" by (simp_all add: cluster_sector_def demo_fs_def demo_disk_def)
  with r l show ?thesis by (intro exI [of _ fd] exI [of _ k1] exI [of _ k2] exI [of _ "take 600 ?bs"]) simp
qed

end
