(* ===== verification/UserStart.thy ===== *)
theory UserStart
  imports Waiting
begin

text \<open>
  The entry of a user program (\<^verbatim>\<open>user/lib/user_call_main.c\<close>) and the system call wrappers that prepare a call of
  \<open>exec\<close> (\<^verbatim>\<open>user/lib/syscall.c\<close>), together with the kernel's side of the passing of arguments: what one program hands to
  \<open>exec\<close> is what the other finds in \<open>argv\<close>.
\<close>

section \<open>The code\<close>

text \<open>The loop of \<open>start\<close>, \<open>n\<close> turns before \<open>PROCESS_MAX_ARGUMENTS\<close>: the entries of \<open>argv\<close> from \<open>argc\<close> on.\<close>

fun start_loop :: "mem \<Rightarrow> addr \<Rightarrow> nat \<Rightarrow> nat \<Rightarrow> addr list" where
  "start_loop m info argc 0 = []"
| "start_loop m info argc (Suc n) =
     (let off = ld16 m (info + 4 + 2 * of_nat argc)
      in if off \<noteq> 0xFFFF then (info + 36 + ucast off) # start_loop m info (argc + 1) n else [])"

definition start_argv :: "mem \<Rightarrow> addr \<Rightarrow> addr list" where
  "start_argv m runtime_info = start_loop m runtime_info 0 PROCESS_MAX_ARGUMENTS"

text \<open>The masks that \<open>exec_exv\<close> builds from its list of descriptors, which ends with -1; shifts count modulo 32.\<close>

partial_function (option) keep_masks :: "mem \<Rightarrow> addr \<Rightarrow> u32 \<Rightarrow> u32 \<Rightarrow> (u32 \<times> u32) option" where
  "keep_masks m fd_keep low high =
     (let fd = ld32 m fd_keep
      in if fd = - 1 then Some (low, high)
         else if fd <s 32 then keep_masks m (fd_keep + 4) (low OR push_bit (unat (fd AND 31)) 1) high
         else keep_masks m (fd_keep + 4) low (high OR push_bit (unat ((fd - 32) AND 31)) 1))"

definition exec_exv :: "mem \<Rightarrow> addr \<Rightarrow> (u32 \<times> u32) option" where
  "exec_exv m fd_keep = keep_masks m fd_keep 0 0"

section \<open>Offsets in the information block\<close>

lemma offset_eq [simp]: "x < 4294967296 \<Longrightarrow> y < 4294967296 \<Longrightarrow> (info + of_nat x = info + (of_nat y :: addr)) \<longleftrightarrow> x = y"
  using of_nat32_eq_iff [of x y] by simp

definition slot :: "addr \<Rightarrow> nat \<Rightarrow> addr" where
  "slot info i = info + 4 + 2 * of_nat i"

lemma slot_offset: "slot info i = info + of_nat (4 + 2 * i)" "slot info i + 1 = info + of_nat (5 + 2 * i)"
  by (simp_all add: slot_def)

lemma text_offset: "info + 36 + of_nat used + of_nat j = info + (of_nat (36 + used + j) :: addr)"
  by simp

lemma st16_other: "x \<noteq> 4 + 2 * i \<Longrightarrow> x \<noteq> 5 + 2 * i \<Longrightarrow> i < 16 \<Longrightarrow> x < 528 \<Longrightarrow> st16 m (slot info i) v (info + of_nat x) = m (info + of_nat x)"
proof -
  assume x: "x \<noteq> 4 + 2 * i" "x \<noteq> 5 + 2 * i" "i < 16" "x < 528"
  then have "info + of_nat x \<noteq> slot info i" unfolding slot_offset(1) by (subst offset_eq) auto
  moreover have "info + of_nat x \<noteq> slot info i + 1" unfolding slot_offset(2) using x by (subst offset_eq) auto
  ultimately show ?thesis by (simp add: st16_def)
qed

lemma st16_slot: "ld16 (st16 m p v) p = v"
proof (rule bit_word_eqI)
  fix n assume "n < LENGTH(16)"
  then show "bit (ld16 (st16 m p v) p) n = bit v n"
    by (cases "n < 8") (auto simp: ld16_def st16_def bit_simps)
qed

lemma store_text_other:
  assumes "x < 36 + used \<or> 36 + used + length xs < x" and "used + length xs + 1 \<le> 492" and "x < 528"
  shows "store_bytes (info + 36 + of_nat used) (xs @ [0]) m (info + of_nat x) = m (info + of_nat x)"
proof (rule store_bytes_other, intro allI impI)
  fix j assume "j < length (xs @ [0])"
  then show "info + of_nat x \<noteq> info + 36 + of_nat used + of_nat j"
    unfolding text_offset using assms by (subst offset_eq) auto
qed

section \<open>What the kernel writes, the program reads\<close>

text \<open>Writing the rest of the arguments keeps the earlier entries of the table and the earlier strings.\<close>

lemma write_args_keeps:
  assumes "i + length xss \<le> 16" and "x < 4 + 2 * i \<or> 36 \<le> x \<and> x < 36 + used" and "x < 528"
  shows "write_args info i used xss m (info + of_nat x) = m (info + of_nat x)"
  using assms
proof (induction info i used xss m rule: write_args.induct)
  case (2 info i used xs rest m)
  show ?case
  proof (cases "used + length xs + 1 \<le> ARGS_BUFFER_SIZE")
    case True
    then have fit: "used + length xs + 1 \<le> 492" by (simp add: ARGS_BUFFER_SIZE_def)
    define m1 where "m1 = st16 (store_bytes (info + 36 + of_nat used) (xs @ [0]) m) (slot info i) (of_nat used)"
    have "write_args info i used (xs # rest) m (info + of_nat x) = write_args info (i + 1) (used + length xs + 1) rest m1 (info + of_nat x)"
      using True by (simp add: m1_def slot_def Let_def)
    also have "\<dots> = m1 (info + of_nat x)"
      unfolding m1_def slot_def by (rule 2(1) [OF True refl refl]) (use 2 in auto)
    also have "\<dots> = m (info + of_nat x)"
      unfolding m1_def using 2(2,3,4) fit store_text_other [of x used xs info m] by (subst st16_other) auto
    finally show ?thesis .
  qed simp
qed simp

lemma ld16_slot_cong:
  "m' (info + of_nat (4 + 2 * i)) = m (info + of_nat (4 + 2 * i)) \<Longrightarrow> m' (info + of_nat (5 + 2 * i)) = m (info + of_nat (5 + 2 * i)) \<Longrightarrow>
    ld16 m' (slot info i) = ld16 m (slot info i)"
  unfolding ld16_def slot_offset(2) unfolding slot_offset(1) by (simp only:)

lemma cstr_store:
  assumes "0 \<notin> set xs" and "length xs < 500"
  shows "cstr (store_bytes a (xs @ [0]) m) a xs"
  using bytes_store [of "xs @ [0]" a m] assms by (simp add: cstr_bytes)

text \<open>A string in the buffer of the information block.\<close>

definition placed :: "addr \<Rightarrow> mem \<Rightarrow> addr \<Rightarrow> u8 list \<Rightarrow> bool" where
  "placed info m a xs \<longleftrightarrow> cstr m a xs \<and> (\<exists>off. a = info + of_nat (36 + off) \<and> off + length xs < 492)"

lemma placed_cong:
  assumes "\<And>x. x < 528 \<Longrightarrow> 4 \<le> x \<Longrightarrow> m' (info + of_nat x) = m (info + of_nat x)" and "placed info m a xs"
  shows "cstr m' a xs"
proof -
  obtain off where off: "a = info + of_nat (36 + off)" "off + length xs < 492" and c: "cstr m a xs" using assms(2) by (auto simp: placed_def)
  have "m' x = m x" if x: "x \<in> span a (Suc (length xs))" for x
  proof -
    obtain j where "j \<le> length xs" "x = info + of_nat (36 + off + j)" using x off(1) by (auto simp: span_def less_Suc_eq_le add.assoc)
    then show ?thesis using assms(1) [of "36 + off + j"] off(2) by simp
  qed
  then show ?thesis using cstr_cong [of a xs m' m] c by blast
qed

lemma start_reads_written:
  assumes "i + length xss \<le> 16" and "used \<le> 20 * i" and "\<forall>xs \<in> set xss. length xs \<le> 19 \<and> 0 \<notin> set xs"
    and "\<forall>j. i \<le> j \<and> j < 16 \<longrightarrow> ld16 m (slot info j) = 0xFFFF"
  defines "m' \<equiv> write_args info i used xss m"
  shows "list_all2 (placed info m') (start_loop m' info i (16 - i)) xss"
  using assms(1-4) unfolding m'_def
proof (induction xss arbitrary: i used m)
  case Nil
  then show ?case by (cases "16 - i") (simp_all add: slot_def)
next
  case (Cons xs rest)
  define m0 where "m0 = store_bytes (info + 36 + of_nat used) (xs @ [0]) m"
  define m1 where "m1 = st16 m0 (slot info i) (of_nat used)"
  define m2 where "m2 = write_args info (i + 1) (used + length xs + 1) rest m1"
  have i: "i < 16" and len: "length xs \<le> 19" "0 \<notin> set xs" and used: "used \<le> 300" using Cons.prems by auto
  have w: "write_args info i used (xs # rest) m = m2"
    using len used by (simp add: m2_def m1_def m0_def slot_def ARGS_BUFFER_SIZE_def Let_def)
  have keep: "m2 (info + of_nat x) = m1 (info + of_nat x)" if "x < 6 + 2 * i \<or> 36 \<le> x \<and> x < 37 + used + length xs" "x < 528" for x
    unfolding m2_def by (rule write_args_keeps) (use Cons.prems(1) that in auto)
  have "ld16 m2 (slot info i) = ld16 m1 (slot info i)"
    using keep [of "4 + 2 * i"] keep [of "5 + 2 * i"] i by (intro ld16_slot_cong) simp_all
  then have s: "ld16 m2 (slot info i) = of_nat used" by (simp add: m1_def st16_slot)
  have u: "unat (of_nat used :: u16) = used" using used by (simp add: unat_of_nat)
  then have "of_nat used \<noteq> (0xFFFF :: u16)" using used by auto
  moreover have "ucast (of_nat used :: u16) = (of_nat used :: addr)" using used u by (simp add: word_unat_eq_iff unsigned_ucast_eq take_bit_nat_eq_self)
  moreover have n: "16 - i = Suc (16 - (i + 1))" using i by simp
  ultimately have loop: "start_loop m2 info i (16 - i) = (info + 36 + of_nat used) # start_loop m2 info (i + 1) (16 - (i + 1))"
    using s unfolding n by (simp add: slot_def Let_def)
  have "cstr m2 (info + 36 + of_nat used) xs \<longleftrightarrow> cstr m0 (info + 36 + of_nat used) xs"
  proof (rule cstr_cong)
    fix x assume "x \<in> span (info + 36 + of_nat used) (Suc (length xs))"
    then obtain j where j: "j \<le> length xs" "x = info + of_nat (36 + used + j)" by (auto simp: span_def less_Suc_eq_le)
    have "m2 x = m1 x" unfolding j(2) by (rule keep) (use j(1) len(1) used in auto)
    also have "\<dots> = m0 x" unfolding m1_def j(2) by (rule st16_other) (use j(1) len(1) used i in auto)
    finally show "m2 x = m0 x" .
  qed
  then have str: "cstr m2 (info + 36 + of_nat used) xs" using cstr_store [OF len(2)] len(1) unfolding m0_def by simp
  have "ld16 m1 (slot info j) = 0xFFFF" if "i + 1 \<le> j \<and> j < 16" for j
  proof -
    have "m1 (info + of_nat x) = m (info + of_nat x)" if "x = 4 + 2 * j \<or> x = 5 + 2 * j" for x
    proof -
      have "x \<noteq> 4 + 2 * i \<and> x \<noteq> 5 + 2 * i \<and> x < 36" using that \<open>i + 1 \<le> j \<and> j < 16\<close> by presburger
      then show ?thesis unfolding m1_def m0_def using len used i store_text_other [of x used xs info m] by (subst st16_other) auto
    qed
    then have "ld16 m1 (slot info j) = ld16 m (slot info j)" by (intro ld16_slot_cong) blast+
    then show ?thesis using Cons.prems(4) that by simp
  qed
  then have "list_all2 (placed info m2) (start_loop m2 info (i + 1) (16 - (i + 1))) rest"
    unfolding m2_def using Cons.prems len by (intro Cons.IH) auto
  moreover have "placed info m2 (info + 36 + of_nat used) xs"
    unfolding placed_def using str len(1) used by (intro conjI exI [of _ used]) simp_all
  ultimately show ?case unfolding w loop by simp
qed

section \<open>The whole way\<close>

text \<open>An argument vector as C has it: pointers to strings, ended by a null pointer.\<close>

fun arg_vector :: "mem \<Rightarrow> addr \<Rightarrow> u8 list list \<Rightarrow> bool" where
  "arg_vector m a [] \<longleftrightarrow> ld32 m a = 0"
| "arg_vector m a (xs # xss) \<longleftrightarrow> ld32 m a \<noteq> 0 \<and> cstr m (ld32 m a) xs \<and> arg_vector m (a + 4) xss"

lemma bytes_of_cstr: "cstr m a xs \<Longrightarrow> bytes m a (length xs) = xs"
  using cstr_append [of m a xs "[]"] by simp

lemma read_args_eq: "arg_vector m a xss \<Longrightarrow> read_args m a n = Some (map (take 19) (take n xss))"
proof (induction n arbitrary: a xss)
  case (Suc n)
  show ?case
  proof (cases xss)
    case (Cons xs rest)
    then have c: "cstr m (ld32 m a) xs" "arg_vector m (a + 4) rest" "ld32 m a \<noteq> 0" using Suc.prems by simp_all
    have "unat (of_nat (length xs) :: u32) = length xs" using cstr_length [OF c(1)] by simp
    then show ?thesis using Cons c Suc.IH [OF c(2)] by (simp add: strlen_eq [OF c(1)] bytes_of_cstr)
  qed (use Suc.prems in simp)
qed simp

text \<open>The argument of \<open>start\<close> and the return address lie outside the table and the strings.\<close>

lemma frame_cells:
  assumes "x < 528" "4 \<le> x"
  shows "st32 (st32 m info v) (info - 4) w (info + of_nat x) = m (info + of_nat x)"
proof -
  have "info + of_nat x \<notin> span info 4"
    unfolding span_def using assms by (auto simp del: offset_eq dest!: iffD1 [OF offset_eq, rotated 2])
  moreover have "info + of_nat x \<notin> span (info - 4) 4"
  proof
    assume "info + of_nat x \<in> span (info - 4) 4"
    then obtain j where j: "j < 4" "info + of_nat x = info - 4 + of_nat j" by (auto simp: span_def)
    then have "info - 4 + of_nat (x + 4) = info - 4 + of_nat j" by (simp add: algebra_simps)
    then show False using j(1) assms by (subst (asm) offset_eq) auto
  qed
  ultimately show ?thesis by (simp add: st32_outside)
qed

lemma start_loop_cong:
  assumes "\<And>x. x < 528 \<Longrightarrow> 4 \<le> x \<Longrightarrow> m' (info + of_nat x) = m (info + of_nat x)"
  shows "i + n \<le> 16 \<Longrightarrow> start_loop m' info i n = start_loop m info i n"
proof (induction n arbitrary: i)
  case (Suc n)
  then have "ld16 m' (slot info i) = ld16 m (slot info i)" by (intro ld16_slot_cong assms) simp_all
  then show ?case using Suc by (simp add: slot_def Let_def)
qed simp

lemma table_cleared: "j < 16 \<Longrightarrow> ld16 (snd (memset (info + 4) 0xFF 32 m)) (slot info j) = 0xFFFF"
proof -
  assume j: "j < 16"
  have "snd (memset (info + 4) 0xFF 32 m) (info + of_nat x) = 0xFF" if "4 \<le> x" "x < 36" for x
  proof -
    have "bytes (snd (memset (info + 4) 0xFF 32 m)) (info + 4) 32 ! (x - 4) = 0xFF"
      using memset_bytes [of "info + 4" "0xFF" 32 m] that by simp
    then show ?thesis using that by (simp add: of_nat_diff)
  qed
  from this [of "4 + 2 * j"] this [of "5 + 2 * j"] j show ?thesis
    unfolding ld16_def slot_offset(2) unfolding slot_offset(1) by (simp add: push_bit_eq_mult)
qed

lemma exec_stack_start:
  fixes p :: nat and k :: kernel
  assumes "length sargs \<le> 16" and "\<forall>xs \<in> set sargs. length xs \<le> 19 \<and> 0 \<notin> set xs"
  defines "m \<equiv> exec_stack p sargs k" and "info \<equiv> stack_end (user_stack_pos k) p - RUNTIME_INFO_SIZE"
  shows "ld32 m info = info" and "ld32 m (info - 4) = 0" and "list_all2 (cstr m) (start_argv m info) sargs"
proof -
  define m0 where "m0 = snd (memset (info + 4) 0xFF 32 (kmem k))"
  define m1 where "m1 = write_args info 0 0 sargs m0"
  have m: "m = st32 (st32 m1 info info) (info - 4) 0" by (simp add: m_def exec_stack_def info_def m1_def m0_def Let_def)
  show "ld32 m (info - 4) = 0" by (simp add: m)
  have "info + of_nat x \<notin> span (info - 4) 4" if "x < 4" for x
  proof
    assume "info + of_nat x \<in> span (info - 4) 4"
    then obtain j where "j < 4" "info + of_nat x = info - 4 + of_nat j" by (auto simp: span_def)
    moreover from this have "info - 4 + of_nat (x + 4) = info - 4 + of_nat j" by (simp add: algebra_simps)
    ultimately show False using that by (subst (asm) offset_eq) auto
  qed
  from this [of 0] this [of 1] this [of 2] this [of 3] have "ld32 m info = ld32 (st32 m1 info info) info"
    unfolding m ld32_def by (simp add: st32_outside)
  then show "ld32 m info = info" by simp
  have same: "m (info + of_nat x) = m1 (info + of_nat x)" if "x < 528" "4 \<le> x" for x
    unfolding m by (rule frame_cells [OF that])
  have "list_all2 (placed info m1) (start_loop m1 info 0 16) sargs"
    using start_reads_written [of 0 sargs 0 m0 info] assms(1,2) table_cleared unfolding m0_def m1_def by simp
  then have "list_all2 (cstr m) (start_loop m1 info 0 16) sargs"
    by (rule list_all2_mono) (rule placed_cong [where info = info and m = m1, OF same])
  moreover have "start_loop m info 0 16 = start_loop m1 info 0 16" by (rule start_loop_cong [where info = info and m' = m and m = m1, OF same]) simp_all
  ultimately show "list_all2 (cstr m) (start_argv m info) sargs" by (simp add: start_argv_def PROCESS_MAX_ARGUMENTS_def)
qed

section \<open>Which descriptors survive\<close>

text \<open>The descriptor list of \<open>exec_exv\<close> in memory.\<close>

fun fd_list :: "mem \<Rightarrow> addr \<Rightarrow> nat list \<Rightarrow> bool" where
  "fd_list m a [] \<longleftrightarrow> ld32 m a = - 1"
| "fd_list m a (fd # fds) \<longleftrightarrow> ld32 m a = of_nat fd \<and> fd_list m (a + 4) fds"

lemma keep_masks_bits:
  assumes "fd_list m a fds" and "\<forall>fd \<in> set fds. fd < 32"
  shows "\<exists>low'. keep_masks m a low high = Some (low', high) \<and> (\<forall>i < 32. bit low' i \<longleftrightarrow> bit low i \<or> i \<in> set fds)"
  using assms
proof (induction fds arbitrary: a low)
  case Nil
  then show ?case by (subst keep_masks.simps) (simp add: Let_def)
next
  case (Cons fd fds)
  then have fd: "fd < 32" "ld32 m a = of_nat fd" by simp_all
  have u: "unat (of_nat fd :: u32) = fd" using fd(1) by simp
  then have n: "(of_nat fd :: u32) \<noteq> - 1" using fd(1) by (auto simp: word_unat_eq_iff unsigned_minus_1_eq_mask mask_eq_exp_minus_1)
  have s: "(of_nat fd :: u32) <s 32" using fd(1) sint_of_nat32 [of fd] by (simp add: word_sless_alt)
  have "(31 :: u32) = mask 5" by (simp add: mask_eq_exp_minus_1)
  then have "unat ((of_nat fd :: u32) AND 31) = take_bit 5 fd"
    using u by (simp only: take_bit_eq_mask [symmetric] unsigned_take_bit_eq)
  then have "unat ((of_nat fd :: u32) AND 31) = fd" using fd(1) by (simp add: take_bit_nat_eq_self)
  then have "keep_masks m a low high = keep_masks m (a + 4) (low OR push_bit fd 1) high"
    using n s fd by (subst keep_masks.simps) (simp add: Let_def)
  moreover obtain low' where "keep_masks m (a + 4) (low OR push_bit fd 1) high = Some (low', high)"
    "\<forall>i < 32. bit low' i \<longleftrightarrow> bit (low OR push_bit fd 1) i \<or> i \<in> set fds" using Cons.IH [of "a + 4" "low OR push_bit fd 1"] Cons.prems by auto
  ultimately show ?case using fd(1) by (auto simp: bit_simps bit_1_iff)
qed

lemma keeps_low:
  assumes "i < 31"
  shows "keeps low high i \<longleftrightarrow> bit low i"
proof -
  have "push_bit 32 (ucast high :: u64) AND ucast low = 0" by (rule bit_word_eqI) (auto simp: bit_simps dest: bit_imp_le_length)
  then have "push_bit 32 (ucast high :: u64) + ucast low = push_bit 32 (ucast high) OR ucast low" by (rule disjunctive_add_eq_or)
  moreover have "(scast (push_bit i (1 :: u32)) :: u64) = push_bit i 1"
    using assms by (intro bit_word_eqI) (auto simp: bit_simps bit_1_iff)
  moreover have "i mod 32 = i" using assms by simp
  ultimately have "keeps low high i \<longleftrightarrow> bit (push_bit 32 (ucast high :: u64) OR ucast low) i"
    unfolding keeps_def bit_iff_and_push_bit_not_eq_0 by simp
  then show ?thesis using assms by (auto simp: bit_simps)
qed

lemma keeps_wraps: "keeps low high (i + 32) \<longleftrightarrow> keeps low high i"
  by (simp add: keeps_def)

text \<open>The descriptors that \<open>exec_exv\<close> names survive \<open>exec\<close>, and of the first 31 only these; a descriptor of 32 or more shares the fate of the one 32 below it.\<close>

lemma exec_exv_keeps:
  assumes "fd_list m fd_keep fds" and "\<forall>fd \<in> set fds. fd < 32"
  shows "\<exists>low high. exec_exv m fd_keep = Some (low, high) \<and> (\<forall>i < 31. keeps low high i \<longleftrightarrow> i \<in> set fds)"
  using keep_masks_bits [OF assms, of 0 0] by (auto simp: exec_exv_def keeps_low)

section \<open>Properties\<close>

text \<open>C15: The arguments of a program arrive. For every argument vector that a program passes to \<open>exec\<close>, the kernel reads it, lays it out on the new stack, and the entry
  code of the new program, which gets the address of the layout as its argument, hands exactly these strings to
  \<open>main\<close>: the first 16 of them, each cut to 19 characters. Nothing else is cut, because 16 arguments of that length always fit.\<close>

theorem exec_passes_arguments:
  assumes "arg_vector (kmem k) args xss"
  shows "\<exists>sargs. read_args (kmem k) args PROCESS_MAX_ARGUMENTS = Some sargs \<and>
    (let m = exec_stack p sargs k; runtime_info = ld32 m (t_esp (exec_registers p entry k) + 4)
     in list_all2 (cstr m) (start_argv m runtime_info) (map (take 19) (take 16 xss)))"
proof -
  define sargs where "sargs = map (take 19) (take 16 xss)"
  have r: "read_args (kmem k) args PROCESS_MAX_ARGUMENTS = Some sargs"
    unfolding sargs_def PROCESS_MAX_ARGUMENTS_def by (rule read_args_eq [OF assms])
  have "\<forall>xs \<in> set xss. 0 \<notin> set xs" using assms by (induction xss arbitrary: args) (auto simp: cstr_iff)
  then have ok: "length sargs \<le> 16" "\<forall>xs \<in> set sargs. length xs \<le> 19 \<and> 0 \<notin> set xs"
    unfolding sargs_def by (auto dest!: in_set_takeD)
  note s = exec_stack_start [OF ok, of p k]
  have "t_esp (exec_registers p entry k) + 4 = stack_end (user_stack_pos k) p - RUNTIME_INFO_SIZE"
    by (simp add: exec_registers_def zero_tss_def Let_def)
  then show ?thesis using r s by (simp add: sargs_def [symmetric] Let_def)
qed

text \<open>A vector with the strings \<open>ab\<close> and one of 20 characters.\<close>

definition demo_args :: mem where
  "demo_args a =
     (if a = 0x100 then 0x20 else if a = 0x104 then 0x40 else if a = 0x101 \<or> a = 0x105 then 1
      else if a = 0x120 then 97 else if a = 0x121 then 98 else if 0x140 \<le> a \<and> a < 0x154 then 120 else 0)"

lemma twenty: "replicate 20 (120 :: u8) = [120, 120, 120, 120, 120, 120, 120, 120, 120, 120, 120, 120, 120, 120, 120, 120, 120, 120, 120, 120]"
  by (simp add: eval_nat_numeral)

lemma demo_args_vector: "arg_vector demo_args 0x100 [[97, 98], replicate 20 120]"
  unfolding twenty by (simp add: demo_args_def ld32_def)

theorem exec_passes_arguments_witness:
  "arg_vector (kmem (demo_kernel\<lparr>kmem := demo_args\<rparr>)) 0x100 [[97, 98], replicate 20 120] \<and>
   (\<exists>sargs. let k = demo_kernel\<lparr>kmem := demo_args\<rparr>; m = exec_stack 0 sargs k; runtime_info = ld32 m (t_esp (exec_registers 0 0 k) + 4)
     in list_all2 (cstr m) (start_argv m runtime_info) [[97, 98], replicate 19 120])"
proof -
  have v: "arg_vector (kmem (demo_kernel\<lparr>kmem := demo_args\<rparr>)) 0x100 [[97, 98], replicate 20 120]" using demo_args_vector by simp
  then show ?thesis using exec_passes_arguments [OF v, of 0 0] by (simp add: Let_def) blast
qed

end
