(* ===== verification/Strtok.thy ===== *)
theory Strtok
  imports CString
begin

text \<open>
  The tokenizer of the user library (\<^verbatim>\<open>user/lib/strtok.c\<close>), which the shell uses to split its command
  line. The pointer to the rest of the string is kept in a memory cell \<open>last\<close>; \<open>strtok\<close> uses a static
  variable for it, whose address is a parameter here.
\<close>

section \<open>The code\<close>

text \<open>\<open>for (spanp = delim; (sc = *spanp++) != 0;) if (c == sc) goto cont;\<close>\<close>

partial_function (option) skip_delim :: "mem \<Rightarrow> u8 \<Rightarrow> addr \<Rightarrow> bool option" where
  "skip_delim m c spanp =
     (let sc = m spanp in if sc \<noteq> 0 then if c = sc then Some True else skip_delim m c (spanp + 1) else Some False)"

text \<open>The loop of the label \<open>cont\<close>: the first character that is not skipped, and the pointer behind it.\<close>

partial_function (option) strtok_cont :: "mem \<Rightarrow> addr \<Rightarrow> addr \<Rightarrow> (u8 \<times> addr) option" where
  "strtok_cont m delim s =
     Option.bind (skip_delim m (m s) delim) (\<lambda>again. if again then strtok_cont m delim (s + 1) else Some (m s, s + 1))"

text \<open>\<open>do { if ((sc = *spanp++) == c) ... } while (sc != 0)\<close>\<close>

partial_function (option) match_delim :: "mem \<Rightarrow> u8 \<Rightarrow> addr \<Rightarrow> bool option" where
  "match_delim m c spanp =
     (let sc = m spanp in if sc = c then Some True else if sc \<noteq> 0 then match_delim m c (spanp + 1) else Some False)"

text \<open>The scan of the token: the memory with the delimiter overwritten, and the new value of \<open>*last\<close>.\<close>

partial_function (option) strtok_scan :: "mem \<Rightarrow> addr \<Rightarrow> addr \<Rightarrow> (mem \<times> addr) option" where
  "strtok_scan m delim s =
     (let c = m s; s = s + 1
      in Option.bind (match_delim m c delim) (\<lambda>hit.
           if hit then (if c = 0 then Some (m, 0) else Some (m(s - 1 := 0), s))
           else strtok_scan m delim s))"

definition strtok_r :: "addr \<Rightarrow> addr \<Rightarrow> addr \<Rightarrow> mem \<Rightarrow> (addr \<times> mem) option" where
  "strtok_r s delim lastp m =
     (let s = (if s = 0 then ld32 m lastp else s)
      in if s = 0 then Some (0, m)
         else Option.bind (strtok_cont m delim s) (\<lambda>(c, s).
                if c = 0 then Some (0, st32 m lastp 0)
                else let tok = s - 1
                     in Option.bind (strtok_scan m delim s) (\<lambda>(m, s). Some (tok, st32 m lastp s))))"

definition strtok :: "addr \<Rightarrow> addr \<Rightarrow> addr \<Rightarrow> mem \<Rightarrow> (addr \<times> mem) option" where
  "strtok lastp s delim m = strtok_r s delim lastp m"

section \<open>Tokens\<close>

text \<open>The maximal runs of characters outside \<open>D\<close>.\<close>

function tokens :: "'a set \<Rightarrow> 'a list \<Rightarrow> 'a list list" where
  "tokens D xs =
     (case dropWhile (\<lambda>x. x \<in> D) xs of [] \<Rightarrow> []
      | ys \<Rightarrow> takeWhile (\<lambda>x. x \<notin> D) ys # tokens D (dropWhile (\<lambda>x. x \<notin> D) ys))"
  by pat_completeness auto
termination
proof (relation "measure (\<lambda>(D, xs). length xs)")
  fix D :: "'a set" and xs ys y ys'
  assume "dropWhile (\<lambda>x. x \<in> D) xs = y # ys'"
  moreover from this have "y \<notin> D" by (metis dropWhile_eq_Cons_conv)
  ultimately show "((D, dropWhile (\<lambda>x. x \<notin> D) (y # ys')), (D, xs)) \<in> measure (\<lambda>(D, xs). length xs)"
    using length_dropWhile_le [of "\<lambda>x. x \<in> D" xs] length_dropWhile_le [of "\<lambda>x. x \<notin> D" ys'] by simp
qed simp

declare tokens.simps [simp del]

lemma tokens_skip: "d \<in> D \<Longrightarrow> tokens D (d # xs) = tokens D xs"
  by (simp add: tokens.simps [of D "d # xs"] tokens.simps [of D xs])

lemma skip_delim_eq: "cstr m d ds \<Longrightarrow> skip_delim m c d = Some (c \<in> set ds)"
  by (induction ds arbitrary: d) (subst skip_delim.simps, auto simp: Let_def)+

lemma match_delim_eq: "cstr m d ds \<Longrightarrow> match_delim m c d = Some (c = 0 \<or> c \<in> set ds)"
  by (induction ds arbitrary: d) (subst match_delim.simps, auto simp: Let_def)+

lemma strtok_cont_eq:
  assumes "cstr m s xs" and d: "cstr m delim ds"
  shows "strtok_cont m delim s = (let k = length (takeWhile (\<lambda>x. x \<in> set ds) xs) in Some (m (s + of_nat k), s + of_nat k + 1))"
  using assms(1)
proof (induction xs arbitrary: s)
  case Nil
  have "0 \<notin> set ds" using d by (simp add: cstr_iff)
  with Nil show ?case by (subst strtok_cont.simps) (simp add: skip_delim_eq [OF d])
next
  case (Cons x xs)
  then show ?case by (subst strtok_cont.simps) (simp add: skip_delim_eq [OF d] Let_def add.assoc)
qed

lemma strtok_scan_eq:
  assumes "cstr m s xs" and d: "cstr m delim ds"
  shows "strtok_scan m delim s =
    (let k = length (takeWhile (\<lambda>x. x \<notin> set ds) xs)
     in Some (if k = length xs then (m, 0) else (m(s + of_nat k := 0), s + of_nat k + 1)))"
  using assms(1)
proof (induction xs arbitrary: s)
  case Nil
  then show ?case by (subst strtok_scan.simps) (simp add: match_delim_eq [OF d])
next
  case (Cons x xs)
  then show ?case by (subst strtok_scan.simps) (auto simp: match_delim_eq [OF d] Let_def add.assoc)
qed


section \<open>One call\<close>

lemma span_add: "span a (n + k) = span a n \<union> span (a + of_nat n) k"
  by (induction n arbitrary: a) (auto simp: span_Suc add.assoc)

lemma span_parts_disjoint:
  assumes "n + k \<le> 4294967296"
  shows "span a n \<inter> span (a + of_nat n) k = {}"
proof -
  have "(of_nat i :: addr) \<noteq> of_nat n + of_nat j" if "i < n" "j < k" for i j
    using of_nat32_eq_iff [of i "n + j"] that assms by (simp add: add.commute)
  then show ?thesis by (auto simp: span_def add.assoc)
qed

text \<open>
  The cell \<open>last\<close> and the delimiter string are not part of the text that is split, and the text does not
  contain the address 0.
\<close>

definition separate :: "addr set \<Rightarrow> addr \<Rightarrow> addr set \<Rightarrow> bool" where
  "separate A lastp D \<longleftrightarrow> 0 \<notin> A \<and> A \<inter> D = {} \<and> A \<inter> span lastp 4 = {} \<and> D \<inter> span lastp 4 = {}"

text \<open>What is still to be split: the text \<open>xs\<close> at \<open>*last\<close>, or nothing when \<open>*last\<close> is NULL.\<close>

definition pending :: "mem \<Rightarrow> addr \<Rightarrow> addr set \<Rightarrow> u8 list \<Rightarrow> bool" where
  "pending m s A xs \<longleftrightarrow> (s = 0 \<and> xs = [] \<and> A = {}) \<or> (s \<noteq> 0 \<and> cstr m s xs \<and> A = span s (Suc (length xs)))"

lemma strtok_r_none:
  assumes "cstr m s xs" and "cstr m delim ds" and "s \<noteq> 0" and "\<forall>x \<in> set xs. x \<in> set ds"
    and "p = s \<or> p = 0 \<and> ld32 m lastp = s"
  shows "strtok_r p delim lastp m = Some (0, st32 m lastp 0)"
proof -
  have tw: "takeWhile (\<lambda>x. x \<in> set ds) xs = xs" using assms(4) by simp
  have "m (s + of_nat (length xs)) = 0" using assms(1) by (simp add: cstr_iff)
  then have "strtok_cont m delim s = Some (0, s + of_nat (length xs) + 1)"
    unfolding strtok_cont_eq [OF assms(1, 2)] tw Let_def by simp
  then show ?thesis using assms(3, 5) by (auto simp: strtok_r_def)
qed

lemma strtok_r_token:
  assumes str: "cstr m s (pre @ t @ rest)" and d: "cstr m delim ds" and "s \<noteq> 0"
    and pre: "\<forall>x \<in> set pre. x \<in> set ds" and t: "t \<noteq> []" "\<forall>x \<in> set t. x \<notin> set ds"
    and rest: "rest = [] \<or> hd rest \<in> set ds" and p: "p = s \<or> p = 0 \<and> ld32 m lastp = s"
  shows "strtok_r p delim lastp m =
    (let tok = s + of_nat (length pre); e = tok + of_nat (length t)
     in Some (tok, if rest = [] then st32 m lastp 0 else st32 (m(e := 0)) lastp (e + 1)))"
proof -
  obtain c u where cu: "t = c # u" using t(1) by (cases t) auto
  let ?q = "s + of_nat (length pre)"
  have q: "cstr m ?q (c # u @ rest)" using str unfolding cu by (simp add: cstr_append)
  have c: "m ?q = c" "c \<noteq> 0" "c \<notin> set ds" and q1: "cstr m (?q + 1) (u @ rest)"
    using q t(2) by (simp_all add: cu)
  have tw: "takeWhile (\<lambda>x. x \<in> set ds) (pre @ t @ rest) = pre"
    using pre c(3) by (simp add: cu takeWhile_append2)
  have cont: "strtok_cont m delim s = Some (c, ?q + 1)"
    unfolding strtok_cont_eq [OF str d] tw using c(1) by simp
  have "takeWhile (\<lambda>x. x \<notin> set ds) (u @ rest) = u"
    using t(2) rest by (cases rest) (simp_all add: cu takeWhile_append2)
  then have scan: "strtok_scan m delim (?q + 1) = Some (if rest = [] then (m, 0)
      else (m(?q + 1 + of_nat (length u) := 0), ?q + 1 + of_nat (length u) + 1))"
    unfolding strtok_scan_eq [OF q1 d] by (simp add: Let_def)
  have ps: "(if p = 0 then ld32 m lastp else p) = s" using p assms(3) by auto
  have e: "?q + of_nat (length t) = ?q + 1 + of_nat (length u)" by (simp add: cu add_ac)
  show ?thesis
    unfolding strtok_r_def ps Let_def cont e using assms(3) c(2) by (simp add: scan)
qed

text \<open>A text has no token, or it is delimiters, its first token and a rest that is empty or starts with a delimiter.\<close>

lemma tokens_cases:
  obtains (none) "tokens D xs = []" "\<forall>x \<in> set xs. x \<in> D"
  | (token) pre t w where "xs = pre @ t @ w" "\<forall>x \<in> set pre. x \<in> D" "t \<noteq> []" "\<forall>x \<in> set t. x \<notin> D"
      "w = [] \<or> hd w \<in> D" "tokens D xs = t # tokens D (tl w)"
proof (cases "dropWhile (\<lambda>x. x \<in> D) xs")
  case Nil
  then have "tokens D xs = []" by (subst tokens.simps) (simp only: list.case)
  with Nil show thesis by (intro none) (simp_all add: dropWhile_eq_Nil_conv)
next
  case (Cons c ys)
  define t where "t = takeWhile (\<lambda>x. x \<notin> D) (c # ys)"
  define w where "w = dropWhile (\<lambda>x. x \<notin> D) (c # ys)"
  have c: "c \<notin> D" using Cons by (metis dropWhile_eq_Cons_conv)
  have w: "w = [] \<or> hd w \<in> D" unfolding w_def using hd_dropWhile [of "\<lambda>x. x \<notin> D" "c # ys"] by blast
  have "tokens D xs = t # tokens D w" by (subst tokens.simps) (simp add: Cons t_def w_def c)
  also have "tokens D w = tokens D (tl w)" using w by (cases w) (simp_all add: tokens_skip)
  finally have "tokens D xs = t # tokens D (tl w)" .
  moreover have "xs = takeWhile (\<lambda>x. x \<in> D) xs @ t @ w" unfolding t_def w_def using Cons by (metis takeWhile_dropWhile_id)
  ultimately show thesis
    using w c by (intro token [of "takeWhile (\<lambda>x. x \<in> D) xs" t w]) (auto simp: t_def dest: set_takeWhileD)
qed

text \<open>Overwriting the character after a token with NUL cuts the string there.\<close>

lemma cut_string:
  assumes str: "cstr m tok (t @ w)" and e: "e = tok + of_nat (length t)" and z: "m' e = 0"
    and eq: "\<And>x. x \<in> span tok (Suc (length (t @ w))) \<Longrightarrow> x \<noteq> e \<Longrightarrow> m' x = m x"
  shows "cstr m' tok t" and "w \<noteq> [] \<Longrightarrow> cstr m' (e + 1) (tl w)"
proof -
  have len: "length t + length w < 4294967296" using cstr_length [OF str] by simp
  have off: "m' (tok + of_nat i) = m (tok + of_nat i)" if "i \<le> length t + length w" "i \<noteq> length t" for i
    using of_nat32_eq_iff [of i "length t"] that len by (intro eq) (auto simp: e span_def)
  have "m' (tok + of_nat i) = t ! i" if "i < length t" for i
    using off [of i] str that by (simp add: cstr_iff nth_append)
  with z str show "cstr m' tok t" by (simp add: cstr_iff e)
  assume "w \<noteq> []"
  then obtain v u where w: "w = v # u" by (cases w) auto
  have "cstr m (e + 1) u" using str by (simp add: w e cstr_append)
  moreover have "m' x = m x" if x: "x \<in> span (e + 1) (Suc (length u))" for x
  proof -
    obtain k where "k < Suc (length u)" "x = tok + of_nat (length t + 1 + k)"
      using x by (auto simp: span_def e add_ac)
    then show ?thesis using off [of "length t + 1 + k"] by (simp add: w)
  qed
  ultimately show "cstr m' (e + 1) (tl w)" by (simp add: w cstr_cong [of _ _ m' m])
qed

text \<open>The parts of the text: the token with its NUL, and what is behind it.\<close>

lemma span_token:
  fixes s :: addr and pre t w :: "u8 list"
  defines "e \<equiv> s + of_nat (length pre) + of_nat (length t)"
  assumes "A = span s (Suc (length (pre @ t @ w)))" and "length (pre @ t @ w) < 4294967296"
  shows "span (s + of_nat (length pre)) (Suc (length (t @ w))) \<subseteq> A" "span (e + 1) (length w) \<subseteq> A"
    and "span (e + 1) (length w) \<inter> span (s + of_nat (length pre)) (Suc (length t)) = {}"
proof -
  have e1: "e + 1 = s + of_nat (length pre) + of_nat (Suc (length t))" by (simp add: e_def)
  show "span (s + of_nat (length pre)) (Suc (length (t @ w))) \<subseteq> A"
    using span_add [of s "length pre" "Suc (length t + length w)"] assms(2) by auto
  show "span (e + 1) (length w) \<subseteq> A"
    using span_add [of s "length pre + Suc (length t)" "length w"] assms(2) by (auto simp: e_def add_ac)
  show "span (e + 1) (length w) \<inter> span (s + of_nat (length pre)) (Suc (length t)) = {}"
    using span_parts_disjoint [of "Suc (length t)" "length w" "s + of_nat (length pre)"] assms(3) unfolding e1 by auto
qed

text \<open>The effect of a call on what is pending: no token left, or the first token and the rest after it.\<close>

lemma strtok_r_step:
  assumes p: "pending m s A xs" and D: "cstr m delim ds" and sep: "separate A lastp (span delim (Suc (length ds)))"
    and call0: "p = s \<and> s \<noteq> 0 \<or> p = 0 \<and> ld32 m lastp = s"
  obtains (none) m' where "tokens (set ds) xs = []" "strtok_r p delim lastp m = Some (0, m')" "\<forall>x. x \<notin> span lastp 4 \<longrightarrow> m' x = m x"
  | (token) m' tok t rest B C where "strtok_r p delim lastp m = Some (tok, m')" "tok \<noteq> 0"
      "tokens (set ds) xs = t # tokens (set ds) rest" "length rest < length xs"
      "cstr m' tok t" "span tok (Suc (length t)) \<subseteq> A" "C = span tok (Suc (length t))"
      "pending m' (ld32 m' lastp) B rest" "B \<subseteq> A" "B \<inter> C = {}"
      "\<forall>x. x \<notin> span lastp 4 \<and> x \<notin> C \<longrightarrow> m' x = m x"
proof (cases rule: tokens_cases [of "set ds" xs])
  case none: none
  show thesis
  proof (cases "s = 0")
    case True
    with call0 have "strtok_r p delim lastp m = Some (0, m)" by (auto simp: strtok_r_def Let_def)
    with none(1) show thesis by (rule that(1)) simp
  next
    case False
    with p have "cstr m s xs" by (simp add: pending_def)
    from strtok_r_none [OF this D False none(2)] call0 none(1) show thesis
      by (intro that(1) [of "st32 m lastp 0"]) (auto simp: st32_outside)
  qed
next
  case tk: (token pre t w)
  have nz: "s \<noteq> 0" "cstr m s (pre @ t @ w)" and A: "A = span s (Suc (length (pre @ t @ w)))"
    using p tk(1,3) by (auto simp: pending_def)
  let ?tok = "s + of_nat (length pre)"
  let ?e = "?tok + of_nat (length t)"
  let ?m = "if w = [] then st32 m lastp 0 else st32 (m(?e := 0)) lastp (?e + 1)"
  let ?B = "if w = [] then {} else span (?e + 1) (length w)"
  have call: "strtok_r p delim lastp m = Some (?tok, ?m)"
    using strtok_r_token [OF nz(2) D nz(1) tk(2-5), of p lastp] call0 by (auto simp: Let_def)
  have tokA: "cstr m ?tok (t @ w)" using nz(2) by (simp add: cstr_append)
  note parts = span_token [OF A cstr_length [OF nz(2)]]
  have CA: "span ?tok (Suc (length t)) \<subseteq> A" using parts(1) span_mono [of "Suc (length t)" "Suc (length (t @ w))" ?tok] by auto
  have eC: "?e \<in> span ?tok (Suc (length t))" by (auto simp: span_def)
  have tC: "?tok \<in> span ?tok (Suc (length t))" by (simp add: span_Suc)
  have out: "?m x = m x" if "x \<notin> span lastp 4" "x \<noteq> ?e" for x using that by (simp add: st32_outside)
  have outA: "?m x = m x" if "x \<in> A" "x \<noteq> ?e" for x using that sep by (intro out) (auto simp: separate_def)
  have "?e \<notin> span lastp 4" using eC CA sep by (auto simp: separate_def)
  moreover have "m ?e = 0" if "w = []" using tokA that by (simp add: cstr_iff)
  ultimately have me: "?m ?e = 0" by (simp add: st32_outside)
  note cut = cut_string [where m' = ?m, OF tokA refl me outA [OF subsetD [OF parts(1)]]]
  have "?e + 1 \<noteq> 0" if "w \<noteq> []"
    using parts(2) sep that by (cases w) (auto simp: separate_def span_Suc)
  then have pend: "pending ?m (ld32 ?m lastp) ?B (tl w)"
    using cut(2) by (auto simp: pending_def)
  have outC: "\<forall>x. x \<notin> span lastp 4 \<and> x \<notin> span ?tok (Suc (length t)) \<longrightarrow> ?m x = m x" using out eC by blast
  have "?tok \<noteq> 0" using tC CA sep by (auto simp: separate_def)
  moreover have "length (tl w) < length xs" using tk(1,3) by (cases t) simp_all
  moreover have "?B \<subseteq> A" "?B \<inter> span ?tok (Suc (length t)) = {}" using parts by simp_all
  ultimately show thesis
    using call tk(6) cut(1) CA pend outC by (intro that(2) [of ?tok ?m t "tl w" _ ?B]) simp_all
qed

section \<open>All tokens\<close>

text \<open>The loop over \<open>strtok(NULL, delim)\<close> that a client runs after the first call.\<close>

partial_function (option) strtok_rest :: "addr \<Rightarrow> addr \<Rightarrow> mem \<Rightarrow> (addr list \<times> mem) option" where
  "strtok_rest lastp delim m =
     Option.bind (strtok lastp 0 delim m) (\<lambda>(now, m).
       if now = 0 then Some ([], m)
       else Option.bind (strtok_rest lastp delim m) (\<lambda>(toks, m). Some (now # toks, m)))"

definition strtok_all :: "addr \<Rightarrow> addr \<Rightarrow> addr \<Rightarrow> mem \<Rightarrow> (addr list \<times> mem) option" where
  "strtok_all lastp s delim m =
     Option.bind (strtok lastp s delim m) (\<lambda>(tok, m).
       if tok = 0 then Some ([], m)
       else Option.bind (strtok_rest lastp delim m) (\<lambda>(toks, m). Some (tok # toks, m)))"

lemma delim_kept:
  assumes "cstr m delim ds" and "separate A lastp (span delim (Suc (length ds)))" and "C \<subseteq> A"
    and "\<forall>x. x \<notin> span lastp 4 \<and> x \<notin> C \<longrightarrow> m' x = m x"
  shows "cstr m' delim ds"
proof -
  have "m' x = m x" if "x \<in> span delim (Suc (length ds))" for x
    using assms(2-4) that unfolding separate_def by blast
  with assms(1) show ?thesis by (subst cstr_cong [of _ _ _ m]) simp_all
qed

lemma token_kept:
  assumes "cstr m tok t" and "separate A lastp D" and "span tok (Suc (length t)) \<subseteq> A"
    and "\<forall>x. x \<notin> span lastp 4 \<and> x \<notin> B \<longrightarrow> m' x = m x" and "B \<inter> span tok (Suc (length t)) = {}"
  shows "cstr m' tok t"
proof -
  have "m' x = m x" if "x \<in> span tok (Suc (length t))" for x
    using assms(2-5) that unfolding separate_def by blast
  with assms(1) show ?thesis by (subst cstr_cong [of _ _ _ m]) simp_all
qed

lemma separate_mono: "separate A lastp D \<Longrightarrow> B \<subseteq> A \<Longrightarrow> separate B lastp D"
  by (auto simp: separate_def)

lemma strtok_rest_tokens:
  assumes "pending m (ld32 m lastp) A xs" and "cstr m delim ds" and "separate A lastp (span delim (Suc (length ds)))"
  shows "\<exists>toks m'. strtok_rest lastp delim m = Some (toks, m') \<and> list_all2 (cstr m') toks (tokens (set ds) xs) \<and>
    (\<forall>x. x \<notin> span lastp 4 \<and> x \<notin> A \<longrightarrow> m' x = m x)"
  using assms
proof (induction xs arbitrary: m A rule: length_induct)
  case (1 xs)
  have call: "0 = ld32 m lastp \<and> ld32 m lastp \<noteq> 0 \<or> 0 = (0 :: addr) \<and> ld32 m lastp = ld32 m lastp" by simp
  show ?case
    using "1.prems"(1-3) call
  proof (cases rule: strtok_r_step)
    case (none m')
    then show ?thesis by (subst strtok_rest.simps) (simp add: strtok_def)
  next
    case (token m' tok t rest B C)
    have dl: "cstr m' delim ds"
      by (rule delim_kept [OF "1.prems"(2,3)]) (use token(6,7,11) in simp_all)
    from "1.IH" [rule_format, OF token(4) token(8) dl separate_mono [OF "1.prems"(3) token(9)]]
    obtain toks m'' where ih: "strtok_rest lastp delim m' = Some (toks, m'')"
      "list_all2 (cstr m'') toks (tokens (set ds) rest)" "\<forall>x. x \<notin> span lastp 4 \<and> x \<notin> B \<longrightarrow> m'' x = m' x" by blast
    have "cstr m'' tok t" by (rule token_kept [OF token(5) "1.prems"(3) token(6) ih(3)]) (use token(7,10) in simp)
    moreover have "\<forall>x. x \<notin> span lastp 4 \<and> x \<notin> A \<longrightarrow> m'' x = m x"
      using ih(3) token(6,7,9,11) by (metis subsetD)
    ultimately show ?thesis using ih(1,2) token(1-3) by (subst strtok_rest.simps) (simp add: strtok_def)
  qed
qed

lemma strtok_all_tokens:
  assumes "cstr m s xs" and "s \<noteq> 0" and "cstr m delim ds"
    and "separate (span s (Suc (length xs))) lastp (span delim (Suc (length ds)))"
  shows "\<exists>toks m'. strtok_all lastp s delim m = Some (toks, m') \<and> list_all2 (cstr m') toks (tokens (set ds) xs) \<and>
    (\<forall>x. x \<notin> span lastp 4 \<and> x \<notin> span s (Suc (length xs)) \<longrightarrow> m' x = m x)"
proof -
  have p: "pending m s (span s (Suc (length xs))) xs" and call: "s = s \<and> s \<noteq> 0 \<or> s = 0 \<and> ld32 m lastp = s"
    using assms by (simp_all add: pending_def)
  from p assms(3,4) call show ?thesis
  proof (cases rule: strtok_r_step)
    case (none m')
    then show ?thesis by (simp add: strtok_all_def strtok_def)
  next
    case (token m' tok t rest B C)
    have dl: "cstr m' delim ds"
      by (rule delim_kept [OF assms(3,4)]) (use token(6,7,11) in simp_all)
    from strtok_rest_tokens [OF token(8) dl separate_mono [OF assms(4) token(9)]]
    obtain toks m'' where ih: "strtok_rest lastp delim m' = Some (toks, m'')"
      "list_all2 (cstr m'') toks (tokens (set ds) rest)" "\<forall>x. x \<notin> span lastp 4 \<and> x \<notin> B \<longrightarrow> m'' x = m' x" by blast
    have "cstr m'' tok t" by (rule token_kept [OF token(5) assms(4) token(6) ih(3)]) (use token(7,10) in simp)
    moreover have "\<forall>x. x \<notin> span lastp 4 \<and> x \<notin> span s (Suc (length xs)) \<longrightarrow> m'' x = m x"
      using ih(3) token(6,7,9,11) by (metis subsetD)
    ultimately show ?thesis using ih(1,2) token(1-3) by (simp add: strtok_all_def strtok_def)
  qed
qed

section \<open>Property\<close>

text \<open>
  \<open>strtok\<close> splits a string into exactly its tokens. Called on a NUL-terminated string and then with NULL
  until it returns NULL, it terminates and yields one pointer per maximal run of characters outside
  \<open>delim\<close>, in order; after the last call each of them points to a NUL-terminated string that is the run,
  and no byte outside the string and the cell \<open>last\<close> has changed.
\<close>

theorem strtok_splits:
  assumes "cstr m s xs" and "s \<noteq> 0" and "cstr m delim ds"
    and "separate (span s (Suc (length xs))) lastp (span delim (Suc (length ds)))"
  shows "\<exists>toks m'. strtok_all lastp s delim m = Some (toks, m') \<and> list_all2 (cstr m') toks (tokens (set ds) xs) \<and>
    (\<forall>x. x \<notin> span lastp 4 \<and> x \<notin> span s (Suc (length xs)) \<longrightarrow> m' x = m x)"
  using assms by (rule strtok_all_tokens)

theorem strtok_splits_witness:
  "\<exists>p q m'. strtok_all 300 100 200 (text_at 100 '' ls  -a'' (text_at 200 '' '' (\<lambda>_. 0))) = Some ([p, q], m') \<and>
     cstr m' p (ascii ''ls'') \<and> cstr m' q (ascii ''-a'')"
proof -
  let ?m = "text_at 100 '' ls  -a'' (text_at 200 '' '' (\<lambda>_. 0))"
  have str: "cstr ?m 100 (ascii '' ls  -a'')" "(100 :: addr) \<noteq> 0" "cstr ?m 200 (ascii '' '')" by simp_all
  have "separate (span 100 (Suc (length (ascii '' ls  -a'')))) 300 (span 200 (Suc (length (ascii '' ''))))"
    by (simp add: separate_def span_Suc span_numeral)
  moreover have "tokens (set (ascii '' '')) (ascii '' ls  -a'') = [ascii ''ls'', ascii ''-a'']"
    by (simp add: tokens.simps)
  ultimately show ?thesis
    using strtok_splits [OF str, of 300] by (auto simp: list_all2_Cons2)
qed

end
