(* ===== verification/Shell.thy ===== *)
theory Shell
  imports FileCalls UserStart Strtok
begin

text \<open>
  The shell (\<^verbatim>\<open>user/sh/sh.c\<close>): how it takes a line apart, and what a child process does for a redirection before it calls \<open>exec\<close>. The words of
  a line stay in the line's buffer, and the array \<open>args\<close> on the stack points to them.
\<close>

section \<open>The code\<close>

text \<open>Where the linker and the stack frame of \<open>main\<close> put what the shell uses.\<close>

record shell =
  sh_last :: addr
  sh_delim :: addr
  sh_amp :: addr
  sh_dir :: addr
  sh_buffer :: addr
  sh_args :: addr

text \<open>The loop over the words behind the command: the next free index of \<open>args\<close>, \<open>stdin_file\<close> and \<open>stdout_file\<close>.\<close>

partial_function (option) sh_words :: "shell \<Rightarrow> nat \<Rightarrow> addr \<Rightarrow> addr \<Rightarrow> mem \<Rightarrow> (nat \<times> addr \<times> addr \<times> mem) option" where
  "sh_words s i stdin_file stdout_file m =
     Option.bind (strtok (sh_last s) 0 (sh_delim s) m) (\<lambda>(now, m).
       if now = 0 then Some (i, stdin_file, stdout_file, m)
       else if m now = 62 then sh_words s i stdin_file (now + 1) m
       else if m now = 60 then sh_words s i (now + 1) stdout_file m
       else if i < PROCESS_MAX_ARGUMENTS then sh_words s (i + 1) stdin_file stdout_file (st32 m (sh_args s + 4 * of_nat i) now)
       else sh_words s i stdin_file stdout_file m)"

text \<open>What a line asks for: nothing, a listing (of NULL, a syntax error), or a program with \<open>wait\<close>, \<open>stdin_file\<close> and \<open>stdout_file\<close>.\<close>

datatype sh_command = Blank | Dir addr | Run addr bool addr addr

definition sh_run :: "shell \<Rightarrow> addr \<Rightarrow> mem \<Rightarrow> (sh_command \<times> mem) option" where
  "sh_run s cmd m =
     Option.bind (sh_words s 1 0 0 (st32 m (sh_args s) cmd)) (\<lambda>(i, stdin_file, stdout_file, m).
       Option.bind (strcmp m (ld32 m (sh_args s + 4 * of_nat (i - 1))) (sh_amp s)) (\<lambda>c.
         let (i, wait) = (if c = 0 then (i - 1, False) else (i, True))
         in Some (Run cmd wait stdin_file stdout_file, st32 m (sh_args s + 4 * of_nat i) 0)))"

definition sh_parse :: "shell \<Rightarrow> u32 \<Rightarrow> mem \<Rightarrow> (sh_command \<times> mem) option" where
  "sh_parse s siz m =
     Option.bind (strtok (sh_last s) (sh_buffer s) (sh_delim s) (m(sh_buffer s + siz := 0))) (\<lambda>(cmd, m).
       if cmd = 0 then Some (Blank, m)
       else Option.bind (strcmp m cmd (sh_dir s)) (\<lambda>c.
              if c = 0 then Option.bind (strtok (sh_last s) 0 (sh_delim s) m) (\<lambda>(path, m). Some (Dir path, m))
              else sh_run s cmd m))"

section \<open>What a line means\<close>

text \<open>
  The words behind the command are redirections, which start with \<open><\<close> or \<open>>\<close>, and arguments. The last redirection of a kind counts. With the command
  there are at most 16 arguments, and the program runs in the background when the last of these is \<open>&\<close>.
\<close>

definition plain_words :: "u8 list list \<Rightarrow> u8 list list" where
  "plain_words ws = filter (\<lambda>w. hd w \<noteq> 62 \<and> hd w \<noteq> 60) ws"

definition redirected :: "u8 \<Rightarrow> u8 list list \<Rightarrow> u8 list option \<Rightarrow> u8 list option" where
  "redirected c ws = fold (\<lambda>w r. if hd w = c then Some (tl w) else r) ws"

definition command_words :: "u8 list \<Rightarrow> u8 list list \<Rightarrow> u8 list list" where
  "command_words w ws = take 16 (w # plain_words ws)"

definition in_background :: "u8 list \<Rightarrow> u8 list list \<Rightarrow> bool" where
  "in_background w ws \<longleftrightarrow> last (command_words w ws) = [38]"

definition command_args :: "u8 list \<Rightarrow> u8 list list \<Rightarrow> u8 list list" where
  "command_args w ws = (if in_background w ws then butlast (command_words w ws) else command_words w ws)"

section \<open>Words that are kept\<close>

text \<open>A string that lies in a region which nothing writes to any more.\<close>

definition kept :: "addr set \<Rightarrow> mem \<Rightarrow> addr \<Rightarrow> u8 list \<Rightarrow> bool" where
  "kept F m p xs \<longleftrightarrow> p \<noteq> 0 \<and> cstr m p xs \<and> span p (Suc (length xs)) \<subseteq> F"

definition kept_opt :: "addr set \<Rightarrow> mem \<Rightarrow> addr \<Rightarrow> u8 list option \<Rightarrow> bool" where
  "kept_opt F m p r \<longleftrightarrow> (case r of None \<Rightarrow> p = 0 | Some xs \<Rightarrow> kept F m p xs)"

text \<open>The first cells of \<open>args\<close>.\<close>

definition cells :: "addr set \<Rightarrow> mem \<Rightarrow> addr \<Rightarrow> u8 list list \<Rightarrow> bool" where
  "cells F m a ts \<longleftrightarrow> (\<forall>j < length ts. kept F m (ld32 m (a + 4 * of_nat j)) (ts ! j))"

lemma kept_cong: "kept F m p xs \<Longrightarrow> (\<And>x. x \<in> F \<Longrightarrow> m' x = m x) \<Longrightarrow> F \<subseteq> G \<Longrightarrow> kept G m' p xs"
  unfolding kept_def using cstr_cong [of p xs m' m] by blast

lemma kept_opt_cong: "kept_opt F m p r \<Longrightarrow> (\<And>x. x \<in> F \<Longrightarrow> m' x = m x) \<Longrightarrow> F \<subseteq> G \<Longrightarrow> kept_opt G m' p r"
  by (auto simp: kept_opt_def split: option.splits intro: kept_cong)

lemma cell_span: "j < n \<Longrightarrow> span (a + 4 * of_nat j) 4 \<subseteq> span a (4 * n)"
proof
  fix x assume j: "j < n" and "x \<in> span (a + 4 * of_nat j) 4"
  then obtain k where "k < 4" "x = a + of_nat (4 * j + k)" by (auto simp: span_def add.assoc)
  then show "x \<in> span a (4 * n)" unfolding span_def using j by (intro image_eqI [of _ _ "4 * j + k"]) simp_all
qed

lemma cells_apart:
  assumes "i \<noteq> j" "i < 17" "j < 17"
  shows "span (a + 4 * of_nat i) 4 \<inter> span (a + 4 * of_nat j) 4 = {}"
proof -
  have "False" if x: "x \<in> span (a + 4 * of_nat i) 4" "x \<in> span (a + 4 * of_nat j) 4" for x
  proof -
    obtain k l where "k < 4" "x = a + of_nat (4 * i + k)" "l < 4" "x = a + of_nat (4 * j + l)" using x by (auto simp: span_def add.assoc)
    moreover from this have "a + of_nat (4 * i + k) = a + of_nat (4 * j + l)" by metis
    then have "4 * i + k = 4 * j + l" by (rule iffD1 [OF offset_eq, rotated 2]) (use calculation assms in linarith)+
    ultimately show False using assms(1) by linarith
  qed
  then show ?thesis by blast
qed

lemma cells_cong:
  assumes "cells F m a ts" and "\<And>x. x \<in> F \<Longrightarrow> m' x = m x" and "\<And>x. x \<in> span a (4 * length ts) \<Longrightarrow> m' x = m x" and "F \<subseteq> G"
  shows "cells G m' a ts"
proof -
  have "ld32 m' (a + 4 * of_nat j) = ld32 m (a + 4 * of_nat j)" if "j < length ts" for j
    by (rule ld32_same, rule assms(3)) (use cell_span [OF that] in blast)
  then show ?thesis using assms(1,2,4) by (auto simp: cells_def intro: kept_cong)
qed

lemma cells_snoc:
  assumes "cells F m a ts" and "kept F m now t" and "length ts < 17" and "F \<inter> span a 68 = {}"
  shows "cells F (st32 m (a + 4 * of_nat (length ts)) now) a (ts @ [t])"
proof -
  let ?c = "a + 4 * of_nat (length ts)" and ?m = "st32 m (a + 4 * of_nat (length ts)) now"
  have c: "span ?c 4 \<subseteq> span a 68" using cell_span [OF assms(3), of a] by simp
  have F: "?m x = m x" if "x \<in> F" for x using assms(4) c that by (intro st32_outside) blast
  have "ld32 ?m (a + 4 * of_nat j) = ld32 m (a + 4 * of_nat j)" if "j < length ts" for j
    by (rule ld32_same, rule st32_outside) (use cells_apart [of j "length ts" a] that assms(3) in auto)
  then show ?thesis
    using assms(1,2) kept_cong [OF _ F] by (auto simp: cells_def nth_append less_Suc_eq)
qed

lemma tokens_nonempty: "t \<in> set (tokens D xs) \<Longrightarrow> t \<noteq> []"
proof (induction xs rule: length_induct)
  case (1 xs)
  show ?case
  proof (cases rule: tokens_cases [of D xs])
    case (token pre u w)
    moreover have "length (tl w) < length xs" using token(1,3) by (cases u) simp_all
    ultimately show ?thesis using 1 by auto
  qed (use 1 in simp)
qed

section \<open>The loop over the words\<close>

text \<open>
  The memory of the shell: the words that were found (\<open>F\<close>), the rest of the line (\<open>A\<close>), the cell of \<open>strtok\<close>, the array and the delimiters do not meet.
\<close>

definition laid_out :: "shell \<Rightarrow> addr set \<Rightarrow> addr set \<Rightarrow> bool" where
  "laid_out s F A \<longleftrightarrow> 0 \<notin> A \<and> F \<inter> A = {} \<and> A \<inter> span (sh_delim s) 3 = {} \<and> span (sh_last s) 4 \<inter> span (sh_args s) 68 = {} \<and>
     (F \<union> A \<union> span (sh_delim s) 3) \<inter> (span (sh_last s) 4 \<union> span (sh_args s) 68) = {}"

lemma apart_next: "(F \<union> A \<union> D) \<inter> W = {} \<Longrightarrow> B \<subseteq> A \<Longrightarrow> C \<subseteq> A \<Longrightarrow> (F \<union> C \<union> B \<union> D) \<inter> W = {}"
  by blast

lemma laid_out_next:
  assumes "laid_out s F A" and "B \<subseteq> A" and "C \<subseteq> A" and "B \<inter> C = {}"
  shows "laid_out s (F \<union> C) B"
proof -
  have l: "0 \<notin> A" "F \<inter> A = {}" "A \<inter> span (sh_delim s) 3 = {}" using assms(1) unfolding laid_out_def by simp_all
  have "0 \<notin> B" "B \<inter> span (sh_delim s) 3 = {}" "(F \<union> C) \<inter> B = {}"
    using l assms(2-4) by (simp_all only: disjoint_iff Un_iff) (blast dest: subsetD)+
  then show ?thesis using assms(1) apart_next [OF _ assms(2,3)] by (simp only: laid_out_def simp_thms)
qed

lemma laid_out_separate: "laid_out s F A \<Longrightarrow> separate A (sh_last s) (span (sh_delim s) 3)"
  unfolding laid_out_def separate_def by blast

abbreviation blanks :: "u8 list" where "blanks \<equiv> [32, 10]"

lemma redirected_Cons: "redirected c (w # ws) r = redirected c ws (if hd w = c then Some (tl w) else r)"
  by (simp add: redirected_def)

lemma plain_words_Cons: "plain_words (w # ws) = (if hd w = 62 \<or> hd w = 60 then plain_words ws else w # plain_words ws)"
  by (simp add: plain_words_def)

text \<open>Between two rounds: \<open>A\<close> is the rest of the line, and \<open>ts\<close>, \<open>r\<close> and \<open>q\<close> are what \<open>args\<close>, \<open>stdin_file\<close> and \<open>stdout_file\<close> point to.\<close>

definition sh_inv :: "shell \<Rightarrow> addr set \<Rightarrow> addr set \<Rightarrow> u8 list list \<Rightarrow> addr \<Rightarrow> u8 list option \<Rightarrow> addr \<Rightarrow> u8 list option \<Rightarrow> mem \<Rightarrow> bool" where
  "sh_inv s F A ts sin r sout q m \<longleftrightarrow> cstr m (sh_delim s) blanks \<and> laid_out s F A \<and>
     cells F m (sh_args s) ts \<and> length ts \<le> 16 \<and> kept_opt F m sin r \<and> kept_opt F m sout q"

lemma sh_inv_done:
  assumes "sh_inv s F A ts sin r sout q m" and "\<forall>x. x \<notin> span (sh_last s) 4 \<and> x \<notin> A \<longrightarrow> m' x = m x"
  shows "cells F m' (sh_args s) ts" "kept_opt F m' sin r" "kept_opt F m' sout q"
proof -
  note i = assms(1) [unfolded sh_inv_def]
  have "x \<notin> span (sh_last s) 4" "x \<notin> A" if "x \<in> F \<or> x \<in> span (sh_args s) 68" for x using i that unfolding laid_out_def by blast+
  then have F: "m' x = m x" if "x \<in> F \<or> x \<in> span (sh_args s) 68" for x using assms(2) that by blast
  moreover have "span (sh_args s) (4 * length ts) \<subseteq> span (sh_args s) 68" using i by (intro span_mono) simp
  ultimately show "cells F m' (sh_args s) ts" using i by (intro cells_cong [of F m "sh_args s" ts m' F]) auto
  show "kept_opt F m' sin r" "kept_opt F m' sout q" using i F kept_opt_cong [of F m _ _ m' F] by auto
qed

text \<open>The state after a call that returned the token \<open>t\<close>.\<close>

lemma sh_inv_token:
  assumes i: "sh_inv s F A ts sin r sout q m" and t: "cstr m' tok t" "tok \<noteq> 0" "t \<noteq> []" "C = span tok (Suc (length t))" "C \<subseteq> A"
    and rest: "B \<subseteq> A" "B \<inter> C = {}" and m': "\<forall>x. x \<notin> span (sh_last s) 4 \<and> x \<notin> C \<longrightarrow> m' x = m x"
  shows "sh_inv s (F \<union> C) B ts sin r sout q m'" "kept (F \<union> C) m' tok t" "kept (F \<union> C) m' (tok + 1) (tl t)"
proof -
  note j = i [unfolded sh_inv_def]
  have lay: "laid_out s F A" using j by simp
  have sep: "separate A (sh_last s) (span (sh_delim s) (Suc (length blanks)))" using laid_out_separate [OF lay] by (simp add: numeral_3_eq_3)
  have "cstr m' (sh_delim s) blanks" using delim_kept [OF _ sep t(5) m'] j by simp
  moreover have "\<forall>x. x \<notin> span (sh_last s) 4 \<and> x \<notin> A \<longrightarrow> m' x = m x" using m' t(5) by (meson subsetD)
  note keep = sh_inv_done [OF i this]
  moreover have "F \<subseteq> F \<union> C" by simp
  note mono = cells_cong [OF keep(1) refl refl this] kept_opt_cong [OF keep(2) refl this] kept_opt_cong [OF keep(3) refl this]
  ultimately show "sh_inv s (F \<union> C) B ts sin r sout q m'"
    using j laid_out_next [OF lay rest(1) t(5) rest(2)] mono by (simp add: sh_inv_def)
  show "kept (F \<union> C) m' tok t" using t by (simp add: kept_def)
  obtain c u where u: "t = c # u" using t(3) by (cases t) auto
  have sp: "span (tok + 1) (Suc (length u)) \<subseteq> C" unfolding t(4) u by (auto simp: span_Suc [of tok])
  then have "tok + 1 \<in> A" using t(5) by (auto simp: span_Suc)
  then have "tok + 1 \<noteq> 0" using lay unfolding laid_out_def by metis
  then show "kept (F \<union> C) m' (tok + 1) (tl t)" using t(1) sp by (auto simp: kept_def u)
qed

text \<open>Storing a word into the next cell of \<open>args\<close>.\<close>

lemma sh_inv_store:
  fixes s ts tok m
  defines "m' \<equiv> st32 m (sh_args s + 4 * of_nat (length ts)) tok"
  assumes i: "sh_inv s F A ts sin r sout q m" and t: "kept F m tok t" "length ts < 16"
  shows "sh_inv s F A (ts @ [t]) sin r sout q m'" and "\<And>x. x \<notin> span (sh_args s) 68 \<Longrightarrow> m' x = m x"
    and "pending m (ld32 m (sh_last s)) A xs \<Longrightarrow> pending m' (ld32 m' (sh_last s)) A xs"
proof -
  note j = i [unfolded sh_inv_def]
  show m': "m' x = m x" if "x \<notin> span (sh_args s) 68" for x
    using cell_span [of "length ts" 17 "sh_args s"] t(2) that unfolding m'_def by (intro st32_outside) auto
  have same: "m' x = m x" if "x \<in> F \<union> A \<union> span (sh_last s) 4 \<union> span (sh_delim s) 3" for x
    using j that unfolding laid_out_def by (intro m') blast
  have "ld32 m' (sh_last s) = ld32 m (sh_last s)" by (rule ld32_same) (use same in blast)
  then show "pending m (ld32 m (sh_last s)) A xs \<Longrightarrow> pending m' (ld32 m' (sh_last s)) A xs"
    using cstr_cong [of "ld32 m (sh_last s)" xs m' m] same by (auto simp: pending_def)
  have "cstr m' (sh_delim s) blanks" using j cstr_cong [of "sh_delim s" blanks m' m] same by (simp add: numeral_3_eq_3)
  moreover have "F \<inter> span (sh_args s) 68 = {}" using j unfolding laid_out_def by blast
  then have "cells F m' (sh_args s) (ts @ [t])" using j t unfolding m'_def by (intro cells_snoc) simp_all
  moreover have "kept_opt F m' sin r" "kept_opt F m' sout q" using j same kept_opt_cong [of F m _ _ m' F] by auto
  ultimately show "sh_inv s F A (ts @ [t]) sin r sout q m'" using j t(2) by (simp add: sh_inv_def)
qed

text \<open>One round of the loop.\<close>

lemma sh_words_round:
  assumes i: "sh_inv s F A ts sin r sout q m" and p: "pending m (ld32 m (sh_last s)) A xs"
  obtains (none) m' where "tokens (set blanks) xs = []" "sh_words s (length ts) sin sout m = Some (length ts, sin, sout, m')"
      "\<forall>x. x \<notin> span (sh_last s) 4 \<longrightarrow> m' x = m x"
  | (token) m1 ts' sin' r' sout' q' t rest B G where "tokens (set blanks) xs = t # tokens (set blanks) rest" "length rest < length xs"
      "sh_words s (length ts) sin sout m = sh_words s (length ts') sin' sout' m1" "pending m1 (ld32 m1 (sh_last s)) B rest" "sh_inv s G B ts' sin' r' sout' q' m1" "G \<union> B \<subseteq> F \<union> A" "B \<subseteq> A"
      "\<And>ws. take 16 (ts' @ plain_words ws) = take 16 (ts @ plain_words (t # ws))" "r' = (if hd t = 60 then Some (tl t) else r)"
      "q' = (if hd t = 62 then Some (tl t) else q)" "\<forall>x. x \<notin> span (sh_last s) 4 \<union> A \<union> span (sh_args s) 68 \<longrightarrow> m1 x = m x"
proof -
  note j = i [unfolded sh_inv_def]
  have sep: "separate A (sh_last s) (span (sh_delim s) (Suc (length blanks)))" using laid_out_separate [of s F A] j by (simp add: numeral_3_eq_3)
  have d: "cstr m (sh_delim s) blanks" using j by simp
  have call: "0 = ld32 m (sh_last s) \<and> ld32 m (sh_last s) \<noteq> 0 \<or> 0 = (0 :: addr) \<and> ld32 m (sh_last s) = ld32 m (sh_last s)" by simp
  from p d sep call show thesis
  proof (cases rule: strtok_r_step)
    case (none m')
    then have "sh_words s (length ts) sin sout m = Some (length ts, sin, sout, m')" by (subst sh_words.simps) (simp add: strtok_def)
    from that(1) [OF none(1) this none(3)] show thesis .
  next
    case (token m' tok t rest B C)
    have CA: "C \<subseteq> A" and t: "t \<noteq> []" using token(3,6,7) tokens_nonempty [of t "set blanks" xs] by simp_all
    note st = sh_inv_token [OF i token(5,2) t token(7) CA token(9-11)]
    have hd: "m' tok = hd t" using token(5) t by (cases t) simp_all
    have sub: "F \<union> C \<union> B \<subseteq> F \<union> A" using CA token(9) by blast
    have m': "\<forall>x. x \<notin> span (sh_last s) 4 \<union> A \<union> span (sh_args s) 68 \<longrightarrow> m' x = m x" using token(11) CA by blast
    have c: "sh_words s (length ts) sin sout m =
       (if hd t = 62 then sh_words s (length ts) sin (tok + 1) m'
        else if hd t = 60 then sh_words s (length ts) (tok + 1) sout m'
        else if length ts < 16 then sh_words s (length ts + 1) sin sout (st32 m' (sh_args s + 4 * of_nat (length ts)) tok)
        else sh_words s (length ts) sin sout m')"
      using token(1,2) hd by (subst sh_words.simps) (simp add: strtok_def PROCESS_MAX_ARGUMENTS_def)
    have len: "length ts \<le> 16" using j by simp
    consider (out) "hd t = 62" | (inp) "hd t = 60" | (arg) "hd t \<noteq> 62" "hd t \<noteq> 60" "length ts < 16" | (full) "hd t \<noteq> 62" "hd t \<noteq> 60" "length ts = 16"
      using len by linarith
    then show thesis
    proof cases
      case out
      have "sh_inv s (F \<union> C) B ts sin r (tok + 1) (Some (tl t)) m'" using st by (simp add: sh_inv_def kept_opt_def)
      from that(2) [OF token(3,4) _ token(8) this sub token(9) _ _ _ m'] out c show thesis by (simp add: plain_words_Cons)
    next
      case inp
      have "sh_inv s (F \<union> C) B ts (tok + 1) (Some (tl t)) sout q m'" using st by (simp add: sh_inv_def kept_opt_def)
      from that(2) [OF token(3,4) _ token(8) this sub token(9) _ _ _ m'] inp c show thesis by (simp add: plain_words_Cons)
    next
      case arg
      let ?m = "st32 m' (sh_args s + 4 * of_nat (length ts)) tok"
      note new = sh_inv_store [OF st(1,2) arg(3)]
      have "\<forall>x. x \<notin> span (sh_last s) 4 \<union> A \<union> span (sh_args s) 68 \<longrightarrow> ?m x = m x" using m' new(2) by simp
      from that(2) [OF token(3,4) _ new(3) [OF token(8)] new(1) sub token(9) _ _ _ this] arg c show thesis by (simp add: plain_words_Cons)
    next
      case full
      from that(2) [OF token(3,4) _ token(8) st(1) sub token(9) _ _ _ m'] full c show thesis by (simp add: plain_words_Cons)
    qed
  qed
qed

lemma sh_words_run:
  assumes "sh_inv s F A ts sin r sout q m" and "pending m (ld32 m (sh_last s)) A xs"
  shows "\<exists>sin' sout' m'. (let ws = tokens (set blanks) xs; us = take 16 (ts @ plain_words ws) in
    sh_words s (length ts) sin sout m = Some (length us, sin', sout', m') \<and> cells (F \<union> A) m' (sh_args s) us \<and>
    kept_opt (F \<union> A) m' sin' (redirected 60 ws r) \<and> kept_opt (F \<union> A) m' sout' (redirected 62 ws q) \<and>
    (\<forall>x. x \<notin> span (sh_last s) 4 \<union> A \<union> span (sh_args s) 68 \<longrightarrow> m' x = m x))"
  using assms
proof (induction xs arbitrary: F A ts sin r sout q m rule: length_induct)
  case (1 xs)
  from "1.prems" show ?case
  proof (cases rule: sh_words_round)
    case (none m')
    have sub: "F \<subseteq> F \<union> A" by simp
    note d = sh_inv_done [OF "1.prems"(1), of m'] none
    have "cells (F \<union> A) m' (sh_args s) ts" "kept_opt (F \<union> A) m' sin r" "kept_opt (F \<union> A) m' sout q"
      using d cells_cong [OF _ refl refl sub, of m'] kept_opt_cong [OF _ refl sub, of m'] by blast+
    moreover have "length ts \<le> 16" using "1.prems" by (simp add: sh_inv_def)
    ultimately show ?thesis using none by (simp add: plain_words_def redirected_def)
  next
    case (token m1 ts' sin' r' sout' q' t rest B G)
    let ?ws = "tokens (set blanks) rest" and ?us = "take 16 (ts @ plain_words (t # tokens (set blanks) rest))"
    obtain sin'' sout'' m'' where ih: "sh_words s (length ts') sin' sout' m1 = Some (length ?us, sin'', sout'', m'')" "cells (G \<union> B) m'' (sh_args s) ?us"
      "kept_opt (G \<union> B) m'' sin'' (redirected 60 (t # ?ws) r)" "kept_opt (G \<union> B) m'' sout'' (redirected 62 (t # ?ws) q)"
      "\<forall>x. x \<notin> span (sh_last s) 4 \<union> B \<union> span (sh_args s) 68 \<longrightarrow> m'' x = m1 x"
      using "1.IH" [rule_format, OF token(2,5,4)] unfolding Let_def token(8,9,10) redirected_Cons by blast
    have "\<forall>x. x \<notin> span (sh_last s) 4 \<union> A \<union> span (sh_args s) 68 \<longrightarrow> m'' x = m x"
      using ih(5) token(11) subsetD [OF token(7)] by (metis Un_iff)
    with ih(1) cells_cong [OF ih(2) refl refl token(6)] kept_opt_cong [OF ih(3) refl token(6)] kept_opt_cong [OF ih(4) refl token(6)]
    show ?thesis unfolding token(1,3) Let_def by blast
  qed
qed


section \<open>A command\<close>

definition given :: "mem \<Rightarrow> addr \<Rightarrow> u8 list option \<Rightarrow> bool" where
  "given m p r \<longleftrightarrow> (case r of None \<Rightarrow> p = 0 | Some xs \<Rightarrow> p \<noteq> 0 \<and> cstr m p xs)"

lemma strcmp_equal: "cstr m p xs \<Longrightarrow> cstr m q ys \<Longrightarrow> \<exists>c. strcmp m p q = Some c \<and> (c = 0 \<longleftrightarrow> xs = ys)"
  using first_diff_uint_zero [of xs ys] by (auto simp: strcmp_eq cstr_iff)

lemma arg_vector_cells:
  "\<forall>j < length ts. ld32 m (a + 4 * of_nat j) \<noteq> 0 \<and> cstr m (ld32 m (a + 4 * of_nat j)) (ts ! j) \<Longrightarrow>
   ld32 m (a + 4 * of_nat (length ts)) = 0 \<Longrightarrow> arg_vector m a ts"
proof (induction ts arbitrary: a)
  case (Cons t ts)
  have "\<forall>j < length ts. ld32 m (a + 4 + 4 * of_nat j) \<noteq> 0 \<and> cstr m (ld32 m (a + 4 + 4 * of_nat j)) (ts ! j)"
  proof (intro allI impI)
    fix j assume "j < length ts"
    then show "ld32 m (a + 4 + 4 * of_nat j) \<noteq> 0 \<and> cstr m (ld32 m (a + 4 + 4 * of_nat j)) (ts ! j)"
      using Cons.prems(1) [rule_format, of "Suc j"] by (simp add: algebra_simps)
  qed
  moreover have "ld32 m (a + 4 + 4 * of_nat (length ts)) = 0" using Cons.prems(2) by (simp add: algebra_simps)
  ultimately show ?case using Cons.IH [of "a + 4"] Cons.prems(1) by (auto dest: spec [of _ 0])
qed simp

text \<open>The null pointer behind the arguments.\<close>

lemma cells_close:
  fixes m a i
  defines "m' \<equiv> st32 m (a + 4 * of_nat i) 0"
  assumes "cells F m a ts" and "i \<le> length ts" and "i < 17" and "length ts \<le> 17" and "F \<inter> span a 68 = {}"
  shows "arg_vector m' a (take i ts)" and "\<And>x. x \<in> F \<Longrightarrow> m' x = m x"
proof -
  show F: "m' x = m x" if "x \<in> F" for x
    unfolding m'_def using cell_span [OF assms(4), of a] assms(6) that by (intro st32_outside) auto
  have "ld32 m' (a + 4 * of_nat j) = ld32 m (a + 4 * of_nat j)" if "j < i" for j
    unfolding m'_def by (rule ld32_same, rule st32_outside) (use cells_apart [of j i a] that assms(4) in auto)
  then have "\<forall>j < i. kept F m' (ld32 m' (a + 4 * of_nat j)) (ts ! j)"
    using assms(2,3) kept_cong [of F m _ _ m' F, OF _ F subset_refl] by (simp add: cells_def)
  then show "arg_vector m' a (take i ts)" using assms(3) by (intro arg_vector_cells) (auto simp: kept_def m'_def)
qed

lemma sh_run_command:
  fixes s rest w
  defines "ws \<equiv> tokens (set blanks) rest"
  assumes i: "sh_inv s C B [] 0 None 0 None m" and w: "kept C m cmd w" and p: "pending m (ld32 m (sh_last s)) B rest"
    and amp: "cstr m (sh_amp s) [38]" "span (sh_amp s) 2 \<inter> (span (sh_last s) 4 \<union> B \<union> span (sh_args s) 68) = {}"
  shows "\<exists>sin sout m'. sh_run s cmd m = Some (Run cmd (\<not> in_background w ws) sin sout, m') \<and> cstr m' cmd w \<and>
    arg_vector m' (sh_args s) (command_args w ws) \<and> given m' sin (redirected 60 ws None) \<and> given m' sout (redirected 62 ws None)"
proof -
  let ?m = "st32 m (sh_args s) cmd" and ?us = "command_words w ws" and ?F = "C \<union> B"
  note st = sh_inv_store [OF i w] p
  have i1: "sh_inv s C B [w] 0 None 0 None ?m" and p1: "pending ?m (ld32 ?m (sh_last s)) B rest" and m1: "\<And>x. x \<notin> span (sh_args s) 68 \<Longrightarrow> ?m x = m x"
    using st by simp_all
  obtain sin sout m1 where r: "sh_words s 1 0 0 ?m = Some (length ?us, sin, sout, m1)" "cells ?F m1 (sh_args s) ?us"
    "kept_opt ?F m1 sin (redirected 60 ws None)" "kept_opt ?F m1 sout (redirected 62 ws None)"
    "\<forall>x. x \<notin> span (sh_last s) 4 \<union> B \<union> span (sh_args s) 68 \<longrightarrow> m1 x = ?m x"
    using sh_words_run [OF i1 p1] unfolding Let_def command_words_def ws_def by (auto simp del: take_Cons_numeral)
  have us: "?us \<noteq> []" "length ?us \<le> 16" "?us ! 0 = w" by (simp_all add: command_words_def)
  have cmp: "cstr m1 (sh_amp s) [38]"
    using amp r(5) m1 by (subst cstr_cong [of _ _ _ m]) (auto simp: numeral_2_eq_2)
  have "kept ?F m1 (ld32 m1 (sh_args s + 4 * of_nat (length ?us - 1))) (last ?us)"
    using r(2) us(1) by (simp add: cells_def last_conv_nth)
  then obtain c where c: "strcmp m1 (ld32 m1 (sh_args s + 4 * of_nat (length ?us - 1))) (sh_amp s) = Some c" "c = 0 \<longleftrightarrow> in_background w ws"
    using strcmp_equal [OF _ cmp] unfolding kept_def in_background_def by blast
  define n where "n = (if in_background w ws then length ?us - 1 else length ?us)"
  let ?m' = "st32 m1 (sh_args s + 4 * of_nat n) 0"
  have n: "n \<le> length ?us" "n < 17" "length ?us \<le> 17" using us(2) by (auto simp: n_def)
  have "?F \<inter> span (sh_args s) 68 = {}" using i unfolding sh_inv_def laid_out_def by blast
  note close = cells_close [OF r(2) n this]
  have cl: "arg_vector ?m' (sh_args s) (take n ?us)" "\<And>x. x \<in> ?F \<Longrightarrow> ?m' x = m1 x"
    by (rule close(1)) (rule close(2))
  have "take n ?us = command_args w ws" by (simp add: n_def command_args_def butlast_conv_take)
  moreover have "kept_opt ?F ?m' sin (redirected 60 ws None)" "kept_opt ?F ?m' sout (redirected 62 ws None)"
    using r(3,4) cl(2) kept_opt_cong [of ?F m1 _ _ ?m' ?F] by auto
  then have "given ?m' sin (redirected 60 ws None)" "given ?m' sout (redirected 62 ws None)"
    by (auto simp: given_def kept_opt_def kept_def split: option.splits)
  moreover have "sh_run s cmd m = Some (Run cmd (\<not> in_background w ws) sin sout, ?m')"
    unfolding sh_run_def r(1) Option.bind.simps prod.case c(1) using c(2) by (simp add: n_def)
  moreover have "x \<notin> span (sh_last s) 4 \<union> B \<union> span (sh_args s) 68" if "x \<in> C" for x
    using i that unfolding sh_inv_def laid_out_def by blast
  then have "kept ?F ?m' cmd w" using r(5) m1 cl(2) by (intro kept_cong [OF w]) auto
  ultimately show ?thesis using cl(1) by (auto simp: kept_def)
qed


section \<open>A line\<close>

text \<open>The buffer, the literals, the cell of \<open>strtok\<close> and the array lie apart.\<close>

definition shell_ok :: "shell \<Rightarrow> mem \<Rightarrow> bool" where
  "shell_ok s m \<longleftrightarrow> cstr m (sh_delim s) blanks \<and> cstr m (sh_amp s) [38] \<and> cstr m (sh_dir s) (map of_char ''dir'') \<and> 0 \<notin> span (sh_buffer s) 256 \<and>
     span (sh_buffer s) 256 \<inter> (span (sh_delim s) 3 \<union> span (sh_amp s) 2 \<union> span (sh_dir s) 4) = {} \<and> span (sh_last s) 4 \<inter> span (sh_args s) 68 = {} \<and>
     (span (sh_buffer s) 256 \<union> span (sh_delim s) 3 \<union> span (sh_amp s) 2 \<union> span (sh_dir s) 4) \<inter> (span (sh_last s) 4 \<union> span (sh_args s) 68) = {}"

lemma cstr_until: "cstr (m(a + of_nat n := 0)) a (takeWhile (\<lambda>x. x \<noteq> 0) (bytes m a n))" if "n < 4294967296"
proof -
  let ?xs = "takeWhile (\<lambda>x. x \<noteq> 0) (bytes m a n)" and ?m = "m(a + of_nat n := 0)"
  have len: "length ?xs \<le> n" using length_takeWhile_le [of _ "bytes m a n"] by simp
  have "?m (a + of_nat i) = ?xs ! i" if i: "i < length ?xs" for i
    using takeWhile_nth [OF i] i len of_nat32_eq_iff [of i n] that \<open>n < 4294967296\<close> by simp
  moreover have "?m (a + of_nat (length ?xs)) = 0"
  proof (cases "length ?xs = n")
    case False
    then have "bytes m a n ! length ?xs = 0" using nth_length_takeWhile [of "\<lambda>x. x \<noteq> 0" "bytes m a n"] len by simp
    then show ?thesis using False len by simp
  qed simp
  moreover have "0 \<notin> set ?xs" by (auto dest: set_takeWhileD)
  ultimately show ?thesis unfolding cstr_iff by blast
qed

text \<open>What \<open>sh_parse\<close> finds in a line with the words \<open>ws\<close>.\<close>

fun understood :: "shell \<Rightarrow> u8 list list \<Rightarrow> sh_command \<Rightarrow> mem \<Rightarrow> bool" where
  "understood s [] c m \<longleftrightarrow> c = Blank"
| "understood s (w # ws) c m \<longleftrightarrow>
     (if w = map of_char ''dir'' then (\<exists>path. c = Dir path \<and> given m path (case ws of [] \<Rightarrow> None | v # _ \<Rightarrow> Some v))
      else \<exists>cmd sin sout. c = Run cmd (\<not> in_background w ws) sin sout \<and> cstr m cmd w \<and> arg_vector m (sh_args s) (command_args w ws) \<and>
        given m sin (redirected 60 ws None) \<and> given m sout (redirected 62 ws None))"

lemma sh_dir_path:
  assumes "pending m (ld32 m (sh_last s)) B rest" and "cstr m (sh_delim s) blanks" and "laid_out s C B"
  shows "\<exists>path m'. strtok (sh_last s) 0 (sh_delim s) m = Some (path, m') \<and> given m' path (case tokens (set blanks) rest of [] \<Rightarrow> None | v # _ \<Rightarrow> Some v)"
proof -
  have sep: "separate B (sh_last s) (span (sh_delim s) (Suc (length blanks)))" using laid_out_separate [OF assms(3)] by (simp add: numeral_3_eq_3)
  have call: "0 = ld32 m (sh_last s) \<and> ld32 m (sh_last s) \<noteq> 0 \<or> 0 = (0 :: addr) \<and> ld32 m (sh_last s) = ld32 m (sh_last s)" by simp
  from assms(1,2) sep call show ?thesis
    by (cases rule: strtok_r_step) (auto simp: strtok_def given_def)
qed

lemma sh_start:
  fixes s m and n :: u32
  defines "line \<equiv> takeWhile (\<lambda>x. x \<noteq> 0) (bytes m (sh_buffer s) (unat n))" and "m' \<equiv> m(sh_buffer s + n := 0)"
  defines "A \<equiv> span (sh_buffer s) (Suc (length line))"
  assumes ok: "shell_ok s m" and n: "unat n < 256"
  shows "pending m' (sh_buffer s) A line" "sh_buffer s \<noteq> 0" "A \<subseteq> span (sh_buffer s) 256" "sh_inv s {} A [] 0 None 0 None m'"
    "cstr m' (sh_amp s) [38]" "cstr m' (sh_dir s) (map of_char ''dir'')"
proof -
  note o = ok [unfolded shell_ok_def]
  have b: "sh_buffer s \<in> span (sh_buffer s) 256" "sh_buffer s + n \<in> span (sh_buffer s) 256"
    using n by (simp_all add: span_def image_eqI [of _ _ "unat n"] image_eqI [of _ _ 0])
  then show b0: "sh_buffer s \<noteq> 0" using o by metis
  have "cstr m' (sh_buffer s) line" using cstr_until [of "unat n" m "sh_buffer s"] n by (simp add: line_def m'_def)
  then show "pending m' (sh_buffer s) A line" using b0 by (simp add: pending_def A_def)
  have "length line \<le> unat n" using length_takeWhile_le [of _ "bytes m (sh_buffer s) (unat n)"] by (simp add: line_def)
  then show A: "A \<subseteq> span (sh_buffer s) 256" unfolding A_def using n by (intro span_mono) simp
  have "m' x = m x" if "x \<in> span (sh_delim s) 3 \<union> span (sh_amp s) 2 \<union> span (sh_dir s) 4" for x
    using o b(2) that unfolding m'_def by (metis disjoint_iff fun_upd_other)
  then have l: "cstr m' (sh_delim s) blanks \<and> cstr m' (sh_amp s) [38] \<and> cstr m' (sh_dir s) (map of_char ''dir'')"
    using o cstr_cong [of "sh_delim s" blanks m' m] cstr_cong [of "sh_amp s" "[38]" m' m] cstr_cong [of "sh_dir s" "map of_char ''dir''" m' m]
    by (simp add: eval_nat_numeral)
  then show "cstr m' (sh_amp s) [38]" "cstr m' (sh_dir s) (map of_char ''dir'')" by blast+
  have "laid_out s {} A" using o A unfolding laid_out_def by blast
  then show "sh_inv s {} A [] 0 None 0 None m'" using l by (simp add: sh_inv_def cells_def kept_opt_def)
qed

lemma sh_parse_understands:
  fixes n :: u32
  assumes ok: "shell_ok s m" and n: "unat n < 256"
  defines "line \<equiv> takeWhile (\<lambda>x. x \<noteq> 0) (bytes m (sh_buffer s) (unat n))"
  shows "\<exists>c m'. sh_parse s n m = Some (c, m') \<and> understood s (tokens (set blanks) line) c m'"
proof -
  let ?m = "m(sh_buffer s + n := 0)" and ?A = "span (sh_buffer s) (Suc (length line))"
  note o = ok [unfolded shell_ok_def]
  note start = sh_start [OF ok n, folded line_def]
  have lay: "laid_out s {} ?A" and dl: "cstr ?m (sh_delim s) blanks" using start(4) by (simp_all add: sh_inv_def)
  have sep: "separate ?A (sh_last s) (span (sh_delim s) (Suc (length blanks)))" using laid_out_separate [OF lay] by (simp add: numeral_3_eq_3)
  have call: "sh_buffer s = sh_buffer s \<and> sh_buffer s \<noteq> 0 \<or> sh_buffer s = 0 \<and> ld32 ?m (sh_last s) = sh_buffer s" using start(2) by simp
  from start(1) dl sep call show ?thesis
  proof (cases rule: strtok_r_step)
    case (none m')
    then show ?thesis by (simp add: sh_parse_def strtok_def)
  next
    case (token m' tok t rest B C)
    have CA: "C \<subseteq> ?A" and t: "t \<noteq> []" using token(3,6,7) tokens_nonempty [of t "set blanks" line] by simp_all
    note st = sh_inv_token [OF start(4) token(5,2) t token(7) CA token(9-11), unfolded Un_empty_left]
    have out: "x \<notin> span (sh_last s) 4 \<union> ?A \<union> span (sh_args s) 68" if "x \<in> span (sh_amp s) 2 \<union> span (sh_dir s) 4" for x
      using o start(3) that by blast
    then have "m' x = ?m x" if "x \<in> span (sh_amp s) 2 \<union> span (sh_dir s) 4" for x using token(11) CA that by blast
    then have l': "cstr m' (sh_amp s) [38]" "cstr m' (sh_dir s) (map of_char ''dir'')"
      using start(5,6) cstr_cong [of "sh_amp s" "[38]" m' ?m] cstr_cong [of "sh_dir s" "map of_char ''dir''" m' ?m] by (simp_all add: eval_nat_numeral)
    obtain c where c: "strcmp m' tok (sh_dir s) = Some c" "c = 0 \<longleftrightarrow> t = map of_char ''dir''" using strcmp_equal [OF token(5) l'(2)] by blast
    have run: "sh_parse s n m = (if c = 0 then Option.bind (strtok (sh_last s) 0 (sh_delim s) m') (\<lambda>(path, m). Some (Dir path, m)) else sh_run s tok m')"
      using token(1,2) c(1) by (simp add: sh_parse_def strtok_def)
    show ?thesis
    proof (cases "c = 0")
      case True
      have "cstr m' (sh_delim s) blanks" "laid_out s C B" using st(1) by (simp_all add: sh_inv_def)
      from sh_dir_path [OF token(8) this] True c(2) token(3) show ?thesis by (auto simp: run)
    next
      case False
      have "span (sh_amp s) 2 \<inter> (span (sh_last s) 4 \<union> B \<union> span (sh_args s) 68) = {}" using out token(9) by blast
      from sh_run_command [OF st(1,2) token(8) l'(1) this] False c(2) token(3) show ?thesis by (auto simp: run)
    qed
  qed
qed


section \<open>Redirection\<close>

text \<open>
  What the child does between \<open>fork\<close> and \<open>exec\<close>, as the calls of its handlers. The result of \<open>open\<close> is an \<open>int\<close>, which \<open>dup2\<close> and \<open>close\<close> take as an
  unsigned number without a check.
\<close>

definition redirect_stdin :: "addr \<Rightarrow> kernel \<Rightarrow> kernel outcome option" where
  "redirect_stdin stdin_file k =
     and_then (open_handler stdin_file k) (\<lambda>(stdin_fd, k).
       and_then (dup2_handler (ucast stdin_fd) 0 k) (\<lambda>(_, k).
         and_then (close_handler (ucast stdin_fd) k) (\<lambda>(_, k). Some (Inr k))))"

definition redirect_stdout :: "addr \<Rightarrow> kernel \<Rightarrow> kernel outcome option" where
  "redirect_stdout stdout_file k =
     and_then (open_handler stdout_file k) (\<lambda>(stdout_fd, k).
       and_then (dup2_handler (ucast stdout_fd) 1 k) (\<lambda>(_, k).
         and_then (dup2_handler (ucast stdout_fd) 2 k) (\<lambda>(_, k).
           and_then (close_handler (ucast stdout_fd) k) (\<lambda>(_, k). Some (Inr k)))))"

definition sh_child :: "addr \<Rightarrow> addr \<Rightarrow> kernel \<Rightarrow> kernel outcome option" where
  "sh_child stdin_file stdout_file k =
     and_then (if stdin_file \<noteq> 0 then redirect_stdin stdin_file k else Some (Inr k)) (\<lambda>k.
       if stdout_file \<noteq> 0 then redirect_stdout stdout_file k else Some (Inr k))"

text \<open>A descriptor goes, and a file that another descriptor or the caller holds stays.\<close>

lemma notify_same [simp]:
  "process_list (notify_removed p r k) = process_list k" "current_process (notify_removed p r k) = current_process k"
  "rootdisk (notify_removed p r k) = rootdisk k" "rootfs (notify_removed p r k) = rootfs k"
  by (simp_all add: notify_removed_def split: option.splits kobject.splits)

lemma notify_file: "objs k s = Some (FileObject f) \<Longrightarrow> objs (notify_removed p r k) s = Some (FileObject f)"
  by (auto simp: notify_removed_def split: option.splits kobject.splits)

lemma collect_same [simp]:
  "process_list (collect held r k) = process_list k" "current_process (collect held r k) = current_process k"
  "rootdisk (collect held r k) = rootdisk k" "rootfs (collect held r k) = rootfs k"
  by (simp_all add: collect_def)

lemma slots_cong: "process_list k' = process_list k \<Longrightarrow> slots k' p os \<longleftrightarrow> slots k p os"
  by (simp add: slots_def getProcess_def)

lemma slots_referenced: "slots k p os \<Longrightarrow> Some r \<in> set os \<Longrightarrow> referenced held r k"
  unfolding slots_def referenced_def list_ex_iff getProcess_def owns_def by (metis nth_mem option.case(2))

lemma removeObject_slots:
  assumes s: "slots k p os" and "pos < 128"
  shows "slots (removeObject held p pos k) p (os[pos := None])" and "current_process (removeObject held p pos k) = current_process k"
    "rootdisk (removeObject held p pos k) = rootdisk k" "rootfs (removeObject held p pos k) = rootfs k"
    and "objs k r = Some (FileObject f) \<Longrightarrow> r \<in> set held \<or> Some r \<in> set (os[pos := None]) \<Longrightarrow> objs (removeObject held p pos k) r = Some (FileObject f)"
proof -
  obtain pr where pr: "getProcess p k = Some pr" "objects pr = os" "length os = 128" using s by (auto simp: slots_def)
  have all: "slots (removeObject held p pos k) p (os[pos := None]) \<and> current_process (removeObject held p pos k) = current_process k \<and>
    rootdisk (removeObject held p pos k) = rootdisk k \<and> rootfs (removeObject held p pos k) = rootfs k \<and>
    (objs k r = Some (FileObject f) \<longrightarrow> r \<in> set held \<or> Some r \<in> set (os[pos := None]) \<longrightarrow> objs (removeObject held p pos k) r = Some (FileObject f))"
  proof (cases "os ! pos")
    case None
    then have "os[pos := None] = os" using list_update_id [of os pos] by simp
    then show ?thesis using pr s assms(2) None by (simp add: removeObject_def PROCESS_MAX_OBJECTS_def)
  next
    case (Some q)
    let ?n = "notify_removed p q k"
    let ?k = "set_slot p pos None ?n"
    have e: "removeObject held p pos k = collect held q ?k" using pr Some assms(2) by (simp add: removeObject_def PROCESS_MAX_OBJECTS_def)
    have "slots ?n p os" using s slots_cong [of ?n k] by simp
    then have sl: "slots ?k p (os[pos := None])" by (rule slots_set)
    then have "objs (collect held q ?k) r = Some (FileObject f)" if "objs k r = Some (FileObject f)" "r \<in> set held \<or> Some r \<in> set (os[pos := None])"
      using that notify_file [OF that(1), of p q] slots_referenced [OF sl, of r held] by (auto simp: collect_def set_slot_def upd_proc_def referenced_def)
    then show ?thesis unfolding e using sl slots_cong [of "collect held q ?k" ?k] by (simp add: set_slot_def upd_proc_def)
  qed
  then show "slots (removeObject held p pos k) p (os[pos := None])" and "current_process (removeObject held p pos k) = current_process k"
    "rootdisk (removeObject held p pos k) = rootdisk k" "rootfs (removeObject held p pos k) = rootfs k" by blast+
  show "objs k r = Some (FileObject f) \<Longrightarrow> r \<in> set held \<or> Some r \<in> set (os[pos := None]) \<Longrightarrow> objs (removeObject held p pos k) r = Some (FileObject f)"
    using all by blast
qed

lemma dup2_file:
  assumes "slots k (current_process k) os" and "os ! fd = Some r" and "objs k r = Some (FileObject f)" and "fd < 128" and "newfd < 128" and "fd \<noteq> newfd"
  shows "\<exists>k'. dup2_handler (of_nat fd) (of_nat newfd) k = Some (Inr (0, k')) \<and> slots k' (current_process k) (os[newfd := Some r]) \<and>
    objs k' r = Some (FileObject f) \<and> current_process k' = current_process k \<and> rootdisk k' = rootdisk k \<and> rootfs k' = rootfs k"
proof -
  let ?p = "current_process k"
  let ?k = "removeObject [r] ?p newfd k"
  note rm = removeObject_slots [OF assms(1,5), where held = "[r]"]
  have u: "unat (of_nat fd :: u32) = fd" "unat (of_nat newfd :: u32) = newfd" "(of_nat fd :: u32) \<noteq> of_nat newfd"
    using assms(4-6) of_nat32_eq_iff [of fd newfd] by simp_all
  have "getObject ?p fd k = Inr (Some r)" using assms(1,2,4) by (auto simp: slots_def getObject_def PROCESS_MAX_OBJECTS_def)
  then have "dup2_handler (of_nat fd) (of_nat newfd) k = Some (Inr (0, set_slot ?p newfd (Some r) ?k))"
    using u assms(5) by (simp add: dup2_handler_def setObject_def PROCESS_MAX_OBJECTS_def)
  moreover have "slots (set_slot ?p newfd (Some r) ?k) ?p (os[newfd := Some r])" using slots_set [OF rm(1), of newfd "Some r"] by simp
  ultimately show ?thesis using rm(2-5) assms(3) by (intro exI [of _ "set_slot ?p newfd (Some r) ?k"]) (simp add: set_slot_def upd_proc_def)
qed


lemma redirect_stdin_file:
  assumes "kernel_ok k" and "getProcess (current_process k) k = Some pr" and "current_process k < MAX_PROCESS_NUM"
    and "\<exists>i. 3 \<le> i \<and> i < 128 \<and> objects pr ! i = None"
    and "cstr (kmem k) stdin_file (slash # name)" and "SpecialPathManager_get (slash # name) k = None"
    and "on_disk (rootdisk k) (rootfs k) name i cs"
  shows "\<exists>r f k'. redirect_stdin stdin_file k = Some (Inr k') \<and> slots k' (current_process k) ((objects pr)[0 := Some r]) \<and> file_at k' 0 f \<and>
    current_process k' = current_process k \<and> rootdisk k' = rootdisk k \<and> fs_info (rootfs k') = fs_info (rootfs k) \<and>
    file_ok (rootdisk k) (fs_info (rootfs k)) f \<and> file_cursor f = 0 \<and>
    file_contents (rootdisk k) (fs_info (rootfs k)) f = chain_bytes (rootdisk k) (fs_info (rootfs k)) cs"
proof -
  let ?p = "current_process k" and ?os = "objects pr"
  obtain fd r f k1 where o: "open_handler stdin_file k = Some (Inr (of_nat fd, k1))" "3 \<le> fd" "fd < 128" "?os ! fd = None"
    "slots k1 ?p (?os[fd := Some r])" "objs k1 r = Some (FileObject f)" "current_process k1 = ?p" "rootdisk k1 = rootdisk k"
    "fs_info (rootfs k1) = fs_info (rootfs k)" "file_ok (rootdisk k) (fs_info (rootfs k)) f" "file_cursor f = 0"
    "file_contents (rootdisk k) (fs_info (rootfs k)) f = chain_bytes (rootdisk k) (fs_info (rootfs k)) cs"
    using open_file [OF assms] by metis
  have len: "length ?os = 128" using o(5) by (simp add: slots_def)
  obtain k2 where d: "dup2_handler (of_nat fd) 0 k1 = Some (Inr (0, k2))" "slots k2 ?p (?os[fd := Some r, 0 := Some r])"
    "objs k2 r = Some (FileObject f)" "current_process k2 = ?p" "rootdisk k2 = rootdisk k" "rootfs k2 = rootfs k1"
    using dup2_file [of k1 "?os[fd := Some r]" fd r f 0] o len by auto
  let ?k = "removeObject [] ?p fd k2"
  note rm = removeObject_slots [OF d(2) o(3), where held = "[]"]
  have "?os[fd := Some r, 0 := Some r, fd := None] = ?os[0 := Some r, fd := None]" using o(2) by (simp add: list_update_swap)
  also have "\<dots> = ?os[0 := Some r]" using o(2,4) list_update_id [of "?os[0 := Some r]" fd] by simp
  finally have os: "?os[fd := Some r, 0 := Some r, fd := None] = ?os[0 := Some r]" .
  have r0: "Some r \<in> set (?os[0 := Some r])" using len by (intro set_update_memI) simp
  then have "objs ?k r = Some (FileObject f)" using rm(5) [OF d(3)] os by simp
  moreover have sl: "slots ?k ?p (?os[0 := Some r])" using rm(1) os by simp
  ultimately have "file_at ?k 0 f" using len rm(2) d(4) by (intro slots_file_at [of _ "?os[0 := Some r]" 0 r]) simp_all
  moreover have u: "(ucast (of_nat fd :: u64) :: u32) = of_nat fd" "unat (of_nat fd :: u32) = fd" using o(3) by (simp_all add: word_unat_eq_iff unsigned_ucast_eq unat_of_nat take_bit_nat_eq_self)
  then have "redirect_stdin stdin_file k = Some (Inr ?k)"
    using o(1) d(1,4) by (simp add: redirect_stdin_def close_handler_def)
  ultimately show ?thesis using sl rm(2-4) d(4-6) o(9-12) by (intro exI [of _ r] exI [of _ f] exI [of _ ?k]) simp
qed

text \<open>A file that does not exist: the negative result of \<open>open\<close> goes on to \<open>dup2\<close>, which indexes the table of objects with it.\<close>

lemma redirect_missing_file:
  assumes "open_handler stdin_file k = done_call (- ENOENT) k'"
  shows "redirect_stdin stdin_file k = Some (Inl ''objects index out of bounds'')"
  using assms by (simp add: redirect_stdin_def ENOENT_def dup2_handler_def getObject_def PROCESS_MAX_OBJECTS_def)

section \<open>Properties\<close>

text \<open>
  C13: the shell understands a line. For every line of at most 255 characters the parser returns, and the command it hands out is the one that the words of the line
  denote: nothing for a line of blanks; a listing of the second word for \<open>dir\<close>; otherwise a program with its first 15 arguments as a null-terminated vector of strings, in order and
  without the redirections, the last file named behind \<open><\<close> and \<open>>\<close>, and no waiting if the last of these arguments is \<open>&\<close>, which is then left out.
\<close>

theorem shell_understands_line:
  fixes n :: u32
  assumes "shell_ok s m" and "unat n < 256"
  shows "\<exists>c m'. sh_parse s n m = Some (c, m') \<and>
    understood s (tokens (set blanks) (takeWhile (\<lambda>x. x \<noteq> 0) (bytes m (sh_buffer s) (unat n)))) c m'"
  by (rule sh_parse_understands [OF assms])

definition demo_shell :: shell where
  "demo_shell = \<lparr>sh_last = 0x800, sh_delim = 0x810, sh_amp = 0x820, sh_dir = 0x830, sh_buffer = 0x1000, sh_args = 0x2000\<rparr>"

definition demo_line :: mem where
  "demo_line = text_at 0x1000 ''cat <a  b &'' (text_at 0x810 [CHR 0x20, CHR 0x0A] (text_at 0x820 ''&'' (text_at 0x830 ''dir'' (\<lambda>_. 0))))"

lemma span_range: "x \<in> span a n \<Longrightarrow> unat a + n \<le> 4294967296 \<Longrightarrow> unat a \<le> unat x \<and> unat x < unat a + n"
proof -
  assume "x \<in> span a n" and n: "unat a + n \<le> 4294967296"
  then obtain k where "k < n" "x = a + of_nat k" by (auto simp: span_def)
  moreover from this have "x = of_nat (unat a + k)" by simp
  ultimately show ?thesis using n unat_of_nat32 [of "unat a + k"] by simp
qed

lemma span_apart: "unat a + n \<le> unat b \<Longrightarrow> unat b + k \<le> 4294967296 \<Longrightarrow> span a n \<inter> span b k = {} \<and> span b k \<inter> span a n = {}"
  using span_range [of _ a n] span_range [of _ b k] by fastforce

lemma demo_shell_ok: "shell_ok demo_shell demo_line"
proof -
  have "cstr demo_line 0x810 blanks" "cstr demo_line 0x820 [38]" "cstr demo_line 0x830 (map of_char ''dir'')" by (simp_all add: demo_line_def)
  moreover have "(0 :: addr) \<notin> span 0x1000 256" using span_range [of 0 "0x1000" 256] by auto
  ultimately show ?thesis
    unfolding shell_ok_def demo_shell_def shell.select_convs Int_Un_distrib Int_Un_distrib2 by (simp add: span_apart)
qed

theorem shell_understands_line_witness:
  "\<exists>cmd sin sout m'. sh_parse demo_shell 11 demo_line = Some (Run cmd False sin sout, m') \<and> cstr m' sin (ascii ''a'') \<and> sout = 0 \<and>
     arg_vector m' 0x2000 [ascii ''cat'', ascii ''b'']"
proof -
  have "cstr demo_line 0x1000 (ascii ''cat <a  b &'')" by (simp add: demo_line_def)
  from bytes_of_cstr [OF this] have "bytes demo_line 0x1000 11 = ascii ''cat <a  b &''" by (simp add: eval_nat_numeral)
  then have b: "takeWhile (\<lambda>x. x \<noteq> 0) (bytes demo_line 0x1000 11) = ascii ''cat <a  b &''" by simp
  have t: "tokens (set blanks) (ascii ''cat <a  b &'') = [ascii ''cat'', ascii ''<a'', ascii ''b'', ascii ''&'']" by (simp add: tokens.simps)
  have "unat (11 :: u32) < 256" by simp
  from shell_understands_line [OF demo_shell_ok this] show ?thesis
    using b t by (auto simp: demo_shell_def given_def redirected_def in_background_def command_args_def command_words_def plain_words_def)
qed

text \<open>
  C14: a redirected program reads the file. When the shell's child was given the path of a regular file behind \<open><\<close>, its calls of \<open>open\<close>, \<open>dup2\<close> and \<open>close\<close> change no descriptor
  but 0, and what a program then reads from descriptor 0, in pieces of any sizes, are the bytes of the file.
\<close>

theorem shell_redirects_input:
  assumes "kernel_ok k" and "getProcess (current_process k) k = Some pr" and "current_process k < MAX_PROCESS_NUM"
    and "\<exists>i. 3 \<le> i \<and> i < 128 \<and> objects pr ! i = None" and "stdin_file \<noteq> 0"
    and "cstr (kmem k) stdin_file (slash # name)" and "SpecialPathManager_get (slash # name) k = None"
    and "on_disk (rootdisk k) (rootfs k) name i cs"
  shows "\<exists>k' pr' k2. sh_child stdin_file 0 k = Some (Inr k') \<and> getProcess (current_process k) k' = Some pr' \<and> tl (objects pr') = tl (objects pr) \<and>
    read_calls 0 rs k' = Some (take (sum_list (map (\<lambda>r. unat (snd r)) rs)) (chain_bytes (rootdisk k) (fs_info (rootfs k)) cs), k2)"
proof -
  obtain r f k' where k': "redirect_stdin stdin_file k = Some (Inr k')" "slots k' (current_process k) ((objects pr)[0 := Some r])" "file_at k' 0 f"
    "rootdisk k' = rootdisk k" "fs_info (rootfs k') = fs_info (rootfs k)" "file_ok (rootdisk k) (fs_info (rootfs k)) f" "file_cursor f = 0"
    "file_contents (rootdisk k) (fs_info (rootfs k)) f = chain_bytes (rootdisk k) (fs_info (rootfs k)) cs"
    using redirect_stdin_file [OF assms(1-4,6-8)] by metis
  obtain pr' where pr': "getProcess (current_process k) k' = Some pr'" "objects pr' = (objects pr)[0 := Some r]" using k'(2) by (auto simp: slots_def)
  have "tl (objects pr') = tl (objects pr)" by (cases "objects pr") (simp_all add: pr'(2))
  moreover obtain k2 where "read_calls 0 rs k' = Some (take (sum_list (map (\<lambda>r. unat (snd r)) rs)) (chain_bytes (rootdisk k) (fs_info (rootfs k)) cs), k2)"
    using read_calls_file [OF k'(3), of _ rs] k'(4-8) by auto
  ultimately show ?thesis using k'(1) pr'(1) assms(5) by (simp add: sh_child_def)
qed

theorem shell_redirects_input_witness:
  "\<exists>k' pr' k2 xs. sh_child 100 0 demo_opener = Some (Inr k') \<and> getProcess 0 k' = Some pr' \<and>
     read_calls 0 [(0x1000, 500), (0x2000, 100)] k' = Some (xs, k2) \<and> length xs = 600 \<and> xs ! 512 = 4"
proof -
  have k: "kernel_ok demo_opener" "current_process demo_opener = 0" "current_process demo_opener < MAX_PROCESS_NUM"
    using demo_good(1,2) by (simp_all add: demo_opener_def good_def MAX_PROCESS_NUM_def)
  obtain pr where pr: "getProcess (current_process demo_opener) demo_opener = Some pr" "objects pr ! 3 = None"
    using demo_opener_state(4) k(2) by metis
  have slot: "\<exists>i. 3 \<le> i \<and> i < 128 \<and> objects pr ! i = None" using pr(2) by (intro exI [of _ 3]) simp
  have path: "(100 :: addr) \<noteq> 0" "cstr (kmem demo_opener) 100 (slash # ascii ''sh.elf'')" "SpecialPathManager_get (slash # ascii ''sh.elf'') demo_opener = None"
    using demo_opener_path by (simp_all add: demo_opener_def)
  have disk: "on_disk (rootdisk demo_opener) (rootfs demo_opener) (ascii ''sh.elf'') \<lparr>filename = ascii ''SH.ELF'', directory = False, filesize = 600, cluster = 2\<rparr> [2, 3]"
    unfolding demo_opener_state by (rule demo_on_disk)
  let ?bs = "chain_bytes demo_disk (fs_info demo_fs) [2, 3]"
  from shell_redirects_input [OF k(1) pr(1) k(3) slot path disk, of "[(0x1000, 500), (0x2000, 100)]"]
  obtain k' pr' k2 where r: "sh_child 100 0 demo_opener = Some (Inr k')" "getProcess 0 k' = Some pr'"
    "read_calls 0 [(0x1000, 500), (0x2000, 100)] k' = Some (take 600 ?bs, k2)"
    unfolding demo_opener_state k(2) by (auto simp del: read_calls.simps)
  have "length ?bs = 1024" "?bs ! 512 = 4"
    by (simp_all add: chain_bytes_def demo_chain(4) cluster_sector_def demo_fs_def demo_disk_def)
  with r show ?thesis by (intro exI [of _ k'] exI [of _ pr'] exI [of _ k2] exI [of _ "take 600 ?bs"]) simp
qed

end
