(* ===== verification/Cmdline.thy ===== *)
theory Cmdline
  imports Strtok
begin

text \<open>
  The kernel's command line (\<open>parse_cmdline\<close> of \<^verbatim>\<open>src/main.cpp\<close>): words separated by blanks; the last word before \<open>--\<close> is the path of
  the first program, the words behind it are its arguments. The words are cut out in place, in the memory of the command line.
\<close>

section \<open>The code\<close>

record cmdline =
  init_path :: addr
  cmd_args :: "addr list"
  begin_args :: bool

text \<open>\<open>while (*p && *p == ' ') *(p++) = 0;\<close> and \<open>while (*p && *p != ' ') p++;\<close>\<close>

partial_function (option) zero_blanks :: "addr \<Rightarrow> mem \<Rightarrow> (addr \<times> mem) option" where
  "zero_blanks p m = (if m p \<noteq> 0 \<and> m p = 32 then zero_blanks (p + 1) (m(p := 0)) else Some (p, m))"

partial_function (option) word_end :: "addr \<Rightarrow> mem \<Rightarrow> addr option" where
  "word_end p m = (if m p \<noteq> 0 \<and> m p \<noteq> 32 then word_end (p + 1) m else Some p)"

text \<open>What is done with one word; \<open>dashes\<close> is the address of the string \<open>--\<close>, and \<open>args[0 .. now_arg_ind)\<close> is the list.\<close>

definition take_word :: "addr \<Rightarrow> addr \<Rightarrow> mem \<Rightarrow> cmdline \<Rightarrow> cmdline option" where
  "take_word dashes now_start m c =
     (if begin_args c then
        Some (if length (cmd_args c) < 16 then c\<lparr>cmd_args := cmd_args c @ [now_start]\<rparr> else c)
      else Option.bind (strcmp m now_start dashes) (\<lambda>d.
        Some (if d = 0 then c\<lparr>begin_args := True, cmd_args := cmd_args c @ [init_path c]\<rparr>
              else c\<lparr>init_path := now_start\<rparr>)))"

partial_function (option) cmdline_loop :: "addr \<Rightarrow> addr \<Rightarrow> cmdline \<Rightarrow> mem \<Rightarrow> (cmdline \<times> mem) option" where
  "cmdline_loop dashes now_start c m =
     Option.bind (word_end now_start m) (\<lambda>now_end.
       if m now_end = 0 then Option.bind (take_word dashes now_start m c) (\<lambda>c. Some (c, m))
       else Option.bind (zero_blanks now_end m) (\<lambda>(nxt, m).
         Option.bind (take_word dashes now_start m c) (\<lambda>c.
           if m nxt \<noteq> 0 then cmdline_loop dashes nxt c m else Some (c, m))))"

definition parse_cmdline :: "addr \<Rightarrow> addr \<Rightarrow> addr \<Rightarrow> mem \<Rightarrow> (addr \<times> addr list \<times> mem) option" where
  "parse_cmdline dashes cmdline init m =
     Option.bind (zero_blanks cmdline m) (\<lambda>(now_start, m).
       Option.bind (cmdline_loop dashes now_start \<lparr>init_path = init, cmd_args = [], begin_args = False\<rparr> m) (\<lambda>(c, m).
         let args = (if begin_args c then cmd_args c else cmd_args c @ [init_path c])
         in Some (init_path c, args, m)))"

section \<open>What it means\<close>

text \<open>The words, each a list of characters; a command line without words has the empty word.\<close>

definition dashdash :: "u8 list" where "dashdash = [45, 45]"

definition command :: "u8 list \<Rightarrow> u8 list list \<Rightarrow> u8 list \<times> u8 list list" where
  "command dflt ws =
     (let pre = takeWhile (\<lambda>w. w \<noteq> dashdash) ws;
          init = (if pre = [] then dflt else List.last pre)
      in (init, init # take 15 (drop (Suc (length pre)) ws)))"

definition cmdline_words :: "u8 list \<Rightarrow> u8 list list" where
  "cmdline_words xs = (if tokens {32} xs = [] then [[]] else tokens {32} xs)"

section \<open>The scanning loops\<close>

lemma word_end_eq: "cstr m p xs \<Longrightarrow> word_end p m = Some (p + of_nat (length (takeWhile (\<lambda>x. x \<noteq> 32) xs)))"
proof (induction xs arbitrary: p)
  case (Cons x xs)
  then show ?case by (subst word_end.simps) (simp add: add.assoc)
qed (subst word_end.simps, simp)

lemma zero_blanks_eq:
  assumes "cstr m p xs"
  defines "k \<equiv> length (takeWhile (\<lambda>x. x = 32) xs)"
  shows "\<exists>m'. zero_blanks p m = Some (p + of_nat k, m') \<and> (\<forall>x. x \<notin> span p k \<longrightarrow> m' x = m x) \<and> (\<forall>x \<in> span p k. m' x = 0) \<and>
    cstr m' (p + of_nat k) (dropWhile (\<lambda>x. x = 32) xs)"
  using assms(1) unfolding k_def
proof (induction xs arbitrary: p m)
  case Nil
  then show ?case by (subst zero_blanks.simps) simp
next
  case (Cons x xs)
  show ?case
  proof (cases "x = 32")
    case True
    let ?k = "length (takeWhile (\<lambda>x. x = 32) xs)" and ?m = "m(p := 0)"
    have len: "length xs < 4294967295" using cstr_length [OF Cons.prems] by simp
    have p: "p \<notin> span (p + 1) (Suc (length xs))" using len by (intro span_next) simp
    have "cstr ?m (p + 1) xs" using Cons.prems p by (subst cstr_cong [of _ _ _ m]) auto
    from Cons.IH [OF this] obtain m' where m': "zero_blanks (p + 1) ?m = Some (p + 1 + of_nat ?k, m')"
      "\<forall>x. x \<notin> span (p + 1) ?k \<longrightarrow> m' x = ?m x" "\<forall>x \<in> span (p + 1) ?k. m' x = 0"
      "cstr m' (p + 1 + of_nat ?k) (dropWhile (\<lambda>x. x = 32) xs)" by blast
    have "zero_blanks p m = zero_blanks (p + 1) ?m" using Cons.prems True by (subst zero_blanks.simps) simp
    moreover have "p \<notin> span (p + 1) ?k" using p span_mono [of ?k "Suc (length xs)" "p + 1"] length_takeWhile_le [of "\<lambda>x. x = 32" xs] by auto
    ultimately show ?thesis using True m' by (auto simp: span_Suc add.assoc)
  next
    case False
    then show ?thesis using Cons.prems by (subst zero_blanks.simps) simp
  qed
qed

lemma strcmp_dashes:
  assumes "cstr m p w" and "cstr m dashes dashdash"
  shows "\<exists>d. strcmp m p dashes = Some d \<and> (d = 0 \<longleftrightarrow> w = dashdash)"
  using strcmp_eq [OF assms] assms first_diff_uint_zero [of w dashdash] by (simp add: cstr_iff)

section \<open>Words\<close>

lemma tokens_drop: "tokens D (dropWhile (\<lambda>x. x \<in> D) xs) = tokens D xs"
  by (simp add: tokens.simps [of D "dropWhile (\<lambda>x. x \<in> D) xs"] tokens.simps [of D xs])

lemma tokens_first:
  assumes "xs \<noteq> []" and "hd xs \<noteq> 32"
  shows "tokens {32} xs = takeWhile (\<lambda>x. x \<noteq> 32) xs # tokens {32} (dropWhile (\<lambda>x. x = 32) (dropWhile (\<lambda>x. x \<noteq> 32) xs))"
proof -
  obtain y ys where "xs = y # ys" "y \<noteq> 32" using assms by (cases xs) auto
  then show ?thesis using tokens_drop [of "{32}" "dropWhile (\<lambda>x. x \<noteq> 32) xs"] by (subst tokens.simps) simp
qed

lemma words_first:
  assumes "hd xs \<noteq> 32 \<or> xs = []"
  defines "rest \<equiv> dropWhile (\<lambda>x. x = 32) (dropWhile (\<lambda>x. x \<noteq> 32) xs)"
  shows "cmdline_words xs = takeWhile (\<lambda>x. x \<noteq> 32) xs # (if rest = [] then [] else cmdline_words rest)"
proof (cases "xs = []")
  case False
  have t: "tokens {32} xs = takeWhile (\<lambda>x. x \<noteq> 32) xs # tokens {32} rest" using tokens_first assms False by (simp add: rest_def)
  have "rest \<noteq> [] \<Longrightarrow> hd rest \<noteq> 32" unfolding rest_def using hd_dropWhile [of "\<lambda>x. x = 32" "dropWhile (\<lambda>x. x \<noteq> 32) xs"] by simp
  then have "rest \<noteq> [] \<Longrightarrow> tokens {32} rest \<noteq> []" using tokens_first [of rest] by simp
  moreover have "tokens {32} [] = []" by (simp add: tokens.simps)
  ultimately show ?thesis using t by (auto simp: cmdline_words_def)
qed (simp add: cmdline_words_def tokens.simps rest_def)

text \<open>The effect of the words, one by one, and all together.\<close>

type_synonym command_state = "u8 list \<times> u8 list list \<times> bool"

fun word_step :: "u8 list \<Rightarrow> command_state \<Rightarrow> command_state" where
  "word_step w (i, as, True) = (i, if length as < 16 then as @ [w] else as, True)"
| "word_step w (i, as, False) = (if w = dashdash then (i, as @ [i], True) else (w, as, False))"

lemma fold_words_begun: "length as \<le> 16 \<Longrightarrow> fold word_step ws (i, as, True) = (i, as @ take (16 - length as) ws, True)"
proof (induction ws arbitrary: as)
  case (Cons w ws)
  show ?case
  proof (cases "length as < 16")
    case True
    then have "16 - length as = Suc (16 - Suc (length as))" by simp
    then show ?thesis using Cons True by (simp only: take_Suc_Cons) simp
  next
    case False
    then show ?thesis using Cons by simp
  qed
qed simp

lemma fold_words_command:
  "(case fold word_step ws (d, [], False) of (i, as, b) \<Rightarrow> (i, if b then as else as @ [i])) = command d ws"
proof (induction ws arbitrary: d)
  case (Cons w ws)
  show ?case
  proof (cases "w = dashdash")
    case True
    then show ?thesis by (simp add: command_def fold_words_begun)
  next
    case False
    have "command w ws = command d (w # ws)" using False by (simp add: command_def Let_def)
    then show ?thesis using Cons False by simp
  qed
qed (simp add: command_def)

section \<open>The loop over the words\<close>

text \<open>A string that lies outside \<open>A\<close>, the part of the command line that is still to be cut.\<close>

definition safe_string :: "mem \<Rightarrow> addr set \<Rightarrow> addr \<Rightarrow> u8 list \<Rightarrow> bool" where
  "safe_string m A p xs \<longleftrightarrow> cstr m p xs \<and> span p (Suc (length xs)) \<inter> A = {}"

fun represents :: "mem \<Rightarrow> addr set \<Rightarrow> cmdline \<Rightarrow> command_state \<Rightarrow> bool" where
  "represents m A c (i, as, b) \<longleftrightarrow> begin_args c = b \<and> safe_string m A (init_path c) i \<and> list_all2 (safe_string m A) (cmd_args c) as"

lemma safe_string_cong:
  assumes "safe_string m A p xs" and "\<forall>x. x \<notin> A \<longrightarrow> m' x = m x" and "B \<subseteq> A"
  shows "safe_string m' B p xs"
proof -
  have "m' x = m x" if "x \<in> span p (Suc (length xs))" for x using assms(1,2) that by (auto simp: safe_string_def)
  then show ?thesis using assms cstr_cong [of p xs m' m] by (auto simp: safe_string_def)
qed

lemma represents_cong:
  assumes "represents m A c st" and "\<forall>x. x \<notin> A \<longrightarrow> m' x = m x" and "B \<subseteq> A"
  shows "represents m' B c st"
proof -
  obtain i as b where st: "st = (i, as, b)" by (cases st)
  have "list_all2 (safe_string m' B) (cmd_args c) as"
    using assms(1) unfolding st by (auto intro: list_all2_mono [OF _ safe_string_cong [OF _ assms(2,3)]])
  then show ?thesis using assms(1) safe_string_cong [OF _ assms(2,3)] unfolding st by auto
qed

lemma take_word_represents:
  assumes "represents m A c st" and "safe_string m A p w" and "safe_string m A dashes dashdash"
  shows "\<exists>c'. take_word dashes p m c = Some c' \<and> represents m A c' (word_step w st)"
proof -
  obtain i as b where st: "st = (i, as, b)" by (cases st)
  obtain d where d: "strcmp m p dashes = Some d" "d = 0 \<longleftrightarrow> w = dashdash"
    using strcmp_dashes [of m p w dashes] assms(2,3) by (auto simp: safe_string_def)
  have "length (cmd_args c) = length as" using assms(1) unfolding st by (auto dest: list_all2_lengthD)
  then show ?thesis using assms(1,2) d unfolding st by (cases b) (auto simp: take_word_def intro: list_all2_appendI)
qed

text \<open>Cutting the first word off: it becomes a string of its own, and the rest of the line starts behind the blanks.\<close>

lemma cut_word:
  assumes str: "cstr m s (w @ v)" and v: "v \<noteq> []" "hd v = 32"
  defines "rest \<equiv> dropWhile (\<lambda>x. x = 32) v" and "k \<equiv> length (takeWhile (\<lambda>x. x = 32) v)" and "A \<equiv> span s (Suc (length (w @ v)))"
  defines "A1 \<equiv> span (s + of_nat (length w + k)) (Suc (length rest))"
  shows "\<exists>m1. zero_blanks (s + of_nat (length w)) m = Some (s + of_nat (length w + k), m1) \<and> cstr m1 (s + of_nat (length w + k)) rest \<and>
    safe_string m1 A1 s w \<and> (\<forall>x. x \<notin> A \<longrightarrow> m1 x = m x) \<and> A1 \<subseteq> A \<and> length rest < length (w @ v)"
proof -
  let ?e = "s + of_nat (length w)"
  have e: "cstr m ?e v" using str by (simp add: cstr_append)
  obtain m1 where m1: "zero_blanks ?e m = Some (?e + of_nat k, m1)" "\<forall>x. x \<notin> span ?e k \<longrightarrow> m1 x = m x" "\<forall>x \<in> span ?e k. m1 x = 0"
    "cstr m1 (?e + of_nat k) rest" using zero_blanks_eq [OF e] unfolding k_def rest_def by blast
  have k: "0 < k" using v by (cases v) (simp_all add: k_def)
  have len: "length (w @ v) = length w + k + length rest" unfolding k_def rest_def
    by (metis add.assoc length_append takeWhile_dropWhile_id)
  note total = cstr_length [OF str]
  have A: "A = span s (length w) \<union> span ?e k \<union> A1"
    using span_add [of s "length w + k" "Suc (length rest)"] span_add [of s "length w" k] len unfolding A_def A1_def by (simp add: add.assoc)
  have "m1 x = m x" if "x \<in> span s (length w)" for x
    using m1(2) that span_parts_disjoint [of "length w" k s] total len by auto
  moreover have "m1 ?e = 0" using m1(3) k by (cases k) (auto simp: span_Suc)
  ultimately have "cstr m1 s w" using str by (auto simp: cstr_iff nth_append span_def)
  moreover have "span s (Suc (length w)) \<inter> A1 = {}" unfolding A1_def
    using span_parts_disjoint [of "length w + k" "Suc (length rest)" s] span_mono [of "Suc (length w)" "length w + k" s] k total len by auto
  ultimately have "safe_string m1 A1 s w" by (simp add: safe_string_def)
  moreover have "\<forall>x. x \<notin> A \<longrightarrow> m1 x = m x" using m1(2) A by blast
  ultimately show ?thesis using m1(1,4) A len k by (auto simp: add.assoc)
qed

lemma cmdline_loop_words:
  assumes "cstr m s xs" and "hd xs \<noteq> 32 \<or> xs = []" and "A = span s (Suc (length xs))"
    and "represents m A c st" and "safe_string m A dashes dashdash"
  shows "\<exists>c' m'. cmdline_loop dashes s c m = Some (c', m') \<and> represents m' {} c' (fold word_step (cmdline_words xs) st) \<and>
    (\<forall>x. x \<notin> A \<longrightarrow> m' x = m x)"
  using assms
proof (induction xs arbitrary: m s c st A rule: length_induct)
  case (1 xs)
  define w v where "w = takeWhile (\<lambda>x. x \<noteq> 32) xs" and "v = dropWhile (\<lambda>x. x \<noteq> 32) xs"
  define rest where "rest = dropWhile (\<lambda>x. x = 32) v"
  have xs: "xs = w @ v" by (simp add: w_def v_def)
  let ?e = "s + of_nat (length w)"
  have ends: "word_end s m = Some ?e" using word_end_eq [OF "1.prems"(1)] by (simp add: w_def)
  have e: "cstr m ?e v" using "1.prems"(1) by (simp add: xs cstr_append)
  have words: "cmdline_words xs = w # (if rest = [] then [] else cmdline_words rest)"
    unfolding w_def v_def rest_def by (rule words_first [OF "1.prems"(2)])
  show ?case
  proof (cases "v = []")
    case True
    then have "safe_string m {} s w" using "1.prems"(1) by (simp add: safe_string_def xs)
    then obtain c' where c': "take_word dashes s m c = Some c'" "represents m {} c' (word_step w st)"
      using take_word_represents [of m "{}" c st s w dashes] represents_cong [OF "1.prems"(4), of m "{}"]
        safe_string_cong [OF "1.prems"(5), of m "{}"] by auto
    have "m ?e = 0" using e True by simp
    then have "cmdline_loop dashes s c m = Some (c', m)" using ends c'(1) by (subst cmdline_loop.simps) simp
    then show ?thesis using c'(2) words True by (simp add: rest_def)
  next
    case False
    have hv: "hd v = 32" unfolding v_def using False hd_dropWhile [of "\<lambda>x. x \<noteq> 32" xs] by (auto simp: v_def)
    define nxt where "nxt = s + of_nat (length w + length (takeWhile (\<lambda>x. x = 32) v))"
    obtain m1 where m1: "zero_blanks ?e m = Some (nxt, m1)" "cstr m1 nxt rest" "safe_string m1 (span nxt (Suc (length rest))) s w"
      "\<forall>x. x \<notin> A \<longrightarrow> m1 x = m x" "span nxt (Suc (length rest)) \<subseteq> A" "length rest < length xs"
      using cut_word [OF "1.prems"(1) [unfolded xs] False hv] "1.prems"(3) unfolding nxt_def rest_def xs by blast
    note r1 = represents_cong [OF "1.prems"(4) m1(4,5)] and d1 = safe_string_cong [OF "1.prems"(5) m1(4,5)]
    obtain c' where c': "take_word dashes s m1 c = Some c'" "represents m1 (span nxt (Suc (length rest))) c' (word_step w st)"
      using take_word_represents [OF r1 m1(3) d1] by blast
    have "m ?e \<noteq> 0" using e False hv by (cases v) auto
    then have loop: "cmdline_loop dashes s c m = (if m1 nxt \<noteq> 0 then cmdline_loop dashes nxt c' m1 else Some (c', m1))"
      using ends m1(1) c'(1) by (subst cmdline_loop.simps) simp
    show ?thesis
    proof (cases "rest = []")
      case True
      then show ?thesis using loop words m1(2,4) c'(2) represents_cong [OF c'(2), of m1 "{}"] by auto
    next
      case False
      then have n: "m1 nxt \<noteq> 0" "hd rest \<noteq> 32" using m1(2) hd_dropWhile [of "\<lambda>x. x = 32" v] by (cases rest; simp add: rest_def)+
      then obtain c2 m2 where "cmdline_loop dashes nxt c' m1 = Some (c2, m2)" "\<forall>x. x \<notin> span nxt (Suc (length rest)) \<longrightarrow> m2 x = m1 x"
        "represents m2 {} c2 (fold word_step (cmdline_words rest) (word_step w st))"
        using "1.IH" [rule_format, OF m1(6,2) _ refl c'(2) d1] by blast
      then show ?thesis using loop words False n(1) m1(4,5) by auto
    qed
  qed
qed

section \<open>Property\<close>

lemma parse_cmdline_command:
  assumes "cstr m line xs" and "A = span line (Suc (length xs))" and "safe_string m A init dflt" and "safe_string m A dashes dashdash"
  shows "\<exists>path args m'. parse_cmdline dashes line init m = Some (path, args, m') \<and>
    cstr m' path (fst (command dflt (cmdline_words xs))) \<and> list_all2 (cstr m') args (snd (command dflt (cmdline_words xs))) \<and>
    (\<forall>x. x \<notin> A \<longrightarrow> m' x = m x)"
proof -
  define k where "k = length (takeWhile (\<lambda>x. x = 32) xs)"
  define ys where "ys = dropWhile (\<lambda>x. x = 32) xs"
  let ?s = "line + of_nat k" and ?c = "\<lparr>init_path = init, cmd_args = [], begin_args = False\<rparr>"
  obtain m1 where m1: "zero_blanks line m = Some (?s, m1)" "\<forall>x. x \<notin> span line k \<longrightarrow> m1 x = m x" "cstr m1 ?s ys"
    using zero_blanks_eq [OF assms(1)] unfolding k_def ys_def by blast
  have "length xs = k + length ys" unfolding k_def ys_def by (metis length_append takeWhile_dropWhile_id)
  then have A: "A = span line k \<union> span ?s (Suc (length ys))" using span_add [of line k "Suc (length ys)"] assms(2) by simp
  then have sub: "span ?s (Suc (length ys)) \<subseteq> A" and out: "\<forall>x. x \<notin> A \<longrightarrow> m1 x = m x" using m1(2) by auto
  have r: "represents m1 (span ?s (Suc (length ys))) ?c (dflt, [], False)" using safe_string_cong [OF assms(3) out sub] by simp
  have hd: "hd ys \<noteq> 32 \<or> ys = []" unfolding ys_def using hd_dropWhile [of "\<lambda>x. x = 32" xs] by blast
  from cmdline_loop_words [OF m1(3) hd refl r safe_string_cong [OF assms(4) out sub]] obtain c m2
    where c: "cmdline_loop dashes ?s ?c m1 = Some (c, m2)" "represents m2 {} c (fold word_step (cmdline_words ys) (dflt, [], False))"
      "\<forall>x. x \<notin> span ?s (Suc (length ys)) \<longrightarrow> m2 x = m1 x" by blast
  have ws: "cmdline_words ys = cmdline_words xs" using tokens_drop [of "{32}" xs] by (simp add: cmdline_words_def ys_def)
  obtain i as b where f: "fold word_step (cmdline_words xs) (dflt, [], False) = (i, as, b)" by (cases "fold word_step (cmdline_words xs) (dflt, [], False)")
  then have cmd: "command dflt (cmdline_words xs) = (i, if b then as else as @ [i])" using fold_words_command [of "cmdline_words xs" dflt] by simp
  have s: "begin_args c = b" "cstr m2 (init_path c) i" "list_all2 (cstr m2) (cmd_args c) as"
    using c(2) unfolding ws f by (auto simp: safe_string_def intro: list_all2_mono)
  have "\<forall>x. x \<notin> A \<longrightarrow> m2 x = m x" using c(3) out sub by (metis subsetD)
  then show ?thesis using m1(1) c(1) s cmd by (auto simp: parse_cmdline_def Let_def intro: list_all2_appendI)
qed

text \<open>C20: The kernel's command line is understood as meant. For every command line \<open>parse_cmdline\<close> returns, the path is the last word before \<open>--\<close>
  (the default if there is none), and the arguments are this path and up to 15 of the words behind \<open>--\<close>, in order, each
  a string of its own in the memory of the command line; nothing else is written.\<close>

theorem parse_cmdline_splits:
  assumes "cstr m line xs" and "safe_string m (span line (Suc (length xs))) init dflt"
    and "safe_string m (span line (Suc (length xs))) dashes dashdash"
  shows "\<exists>path args m'. parse_cmdline dashes line init m = Some (path, args, m') \<and> length args \<le> 16 \<and>
    cstr m' path (fst (command dflt (cmdline_words xs))) \<and> list_all2 (cstr m') args (snd (command dflt (cmdline_words xs))) \<and>
    (\<forall>x. x \<notin> span line (Suc (length xs)) \<longrightarrow> m' x = m x)"
proof -
  have "length (snd (command dflt (cmdline_words xs))) \<le> 16" by (simp add: command_def Let_def)
  then show ?thesis using parse_cmdline_command [OF assms(1) refl assms(2,3)] list_all2_lengthD by metis
qed

theorem parse_cmdline_splits_witness:
  "\<exists>p a b m'. parse_cmdline 300 100 200 (text_at 100 '' kernel /sh.elf --  -x'' (text_at 200 ''/init.elf'' (text_at 300 ''--'' (\<lambda>_. 0)))) = Some (p, [a, b], m') \<and>
     cstr m' p (ascii ''/sh.elf'') \<and> cstr m' a (ascii ''/sh.elf'') \<and> cstr m' b (ascii ''-x'')"
proof -
  let ?m = "text_at 100 '' kernel /sh.elf --  -x'' (text_at 200 ''/init.elf'' (text_at 300 ''--'' (\<lambda>_. 0)))"
  let ?A = "span 100 (Suc (length (ascii '' kernel /sh.elf --  -x'')))"
  have str: "cstr ?m 100 (ascii '' kernel /sh.elf --  -x'')" by simp
  have safe: "safe_string ?m ?A 200 (ascii ''/init.elf'')" "safe_string ?m ?A 300 dashdash"
    by (simp_all add: safe_string_def dashdash_def span_Suc span_numeral)
  have "cmdline_words (ascii '' kernel /sh.elf --  -x'') = map ascii [''kernel'', ''/sh.elf'', ''--'', ''-x'']"
    by (simp add: cmdline_words_def tokens.simps)
  then have "command (ascii ''/init.elf'') (cmdline_words (ascii '' kernel /sh.elf --  -x'')) = (ascii ''/sh.elf'', [ascii ''/sh.elf'', ascii ''-x''])"
    by (simp add: command_def dashdash_def Let_def)
  then show ?thesis using parse_cmdline_splits [OF str safe] by (auto simp: list_all2_Cons2)
qed

end
