(* ===== verification/Protection.thy ===== *)
theory Protection
  imports Exec PIC
begin

text \<open>
  The processor's tables: segment descriptors (\<open>initialize_gdt\<close> of \<^verbatim>\<open>src/protected_mode.cpp\<close>) and interrupt gates (\<open>initialize_intr\<close> of
  \<^verbatim>\<open>src/intr.cpp\<close>), with their layout in memory; and what they mean to the processor, from its manual: which addresses a
  program in user mode can reach through the segments it may load, and through which gates it can enter the kernel.
\<close>

section \<open>Segment descriptors\<close>

record gdt_entry =
  g_limit_low :: u16
  g_base_low :: "24 word"
  g_accessed :: bool
  g_read_write :: bool
  g_conforming_expand_down :: bool
  g_code :: bool
  g_code_data_segment :: bool
  g_DPL :: "2 word"
  g_present :: bool
  g_limit_high :: "4 word"
  g_available :: bool
  g_long_mode :: bool
  g_big :: bool
  g_gran :: bool
  g_base_high :: u8

text \<open>The packed bit fields, least significant first.\<close>

definition encode_gdt :: "gdt_entry \<Rightarrow> u64" where
  "encode_gdt e =
     ucast (g_limit_low e) OR push_bit 16 (ucast (g_base_low e)) OR push_bit 40 (of_bool (g_accessed e)) OR
     push_bit 41 (of_bool (g_read_write e)) OR push_bit 42 (of_bool (g_conforming_expand_down e)) OR push_bit 43 (of_bool (g_code e)) OR
     push_bit 44 (of_bool (g_code_data_segment e)) OR push_bit 45 (ucast (g_DPL e)) OR push_bit 47 (of_bool (g_present e)) OR
     push_bit 48 (ucast (g_limit_high e)) OR push_bit 52 (of_bool (g_available e)) OR push_bit 53 (of_bool (g_long_mode e)) OR
     push_bit 54 (of_bool (g_big e)) OR push_bit 55 (of_bool (g_gran e)) OR push_bit 56 (ucast (g_base_high e))"

definition SEG_KERNEL_CODE :: u32 where "SEG_KERNEL_CODE = 1"
definition SEG_INIT_TSS :: u32 where "SEG_INIT_TSS = 5"
definition SEG_USER_TSS :: u32 where "SEG_USER_TSS = 6"
definition SEG_SYSCALL_TSS :: u32 where "SEG_SYSCALL_TSS = 7"
definition SEG_V8086_TSS :: u32 where "SEG_V8086_TSS = 8"

definition kernel_code :: gdt_entry where
  "kernel_code = \<lparr>g_limit_low = 0xFFFF, g_base_low = 0, g_accessed = False, g_read_write = True, g_conforming_expand_down = False,
     g_code = True, g_code_data_segment = True, g_DPL = 0, g_present = True, g_limit_high = 0xF, g_available = True,
     g_long_mode = False, g_big = True, g_gran = True, g_base_high = 0\<rparr>"

definition kernel_data :: gdt_entry where
  "kernel_data = kernel_code\<lparr>g_code := False, g_conforming_expand_down := False\<rparr>"

definition user_code :: gdt_entry where
  "user_code = kernel_code\<lparr>g_DPL := 3\<rparr>"

definition user_data :: gdt_entry where
  "user_data = user_code\<lparr>g_code := False, g_conforming_expand_down := True, g_limit_low := 0x1fff, g_limit_high := 0\<rparr>"

text \<open>The sizes of the structures \<open>tss_entry_struct_t\<close> and \<open>tss_entry_struct_with_io_t\<close>; the addresses come from \<open>new\<close>.\<close>

definition tss_size :: u32 where "tss_size = 136"
definition tss_with_io_size :: u32 where "tss_with_io_size = 136 + 8193"

definition set_base :: "addr \<Rightarrow> gdt_entry \<Rightarrow> gdt_entry" where
  "set_base a e = e\<lparr>g_base_low := ucast a, g_base_high := ucast (drop_bit 24 a)\<rparr>"

definition init_tss :: "addr \<Rightarrow> gdt_entry" where
  "init_tss a = set_base a \<lparr>g_limit_low = ucast tss_size, g_base_low = 0, g_accessed = True, g_read_write = False,
     g_conforming_expand_down = False, g_code = True, g_code_data_segment = False, g_DPL = 0, g_present = True,
     g_limit_high = ucast (drop_bit 16 tss_size), g_available = False, g_long_mode = False, g_big = False, g_gran = False, g_base_high = 0\<rparr>"

definition null_entry :: gdt_entry where
  "null_entry = \<lparr>g_limit_low = 0, g_base_low = 0, g_accessed = False, g_read_write = False, g_conforming_expand_down = False,
     g_code = False, g_code_data_segment = False, g_DPL = 0, g_present = False, g_limit_high = 0, g_available = False,
     g_long_mode = False, g_big = False, g_gran = False, g_base_high = 0\<rparr>"

text \<open>The table; \<open>tss i\<close> is the address of the task state \<open>i\<close>.\<close>

definition initialize_gdt :: "(u32 \<Rightarrow> addr) \<Rightarrow> gdt_entry list" where
  "initialize_gdt tss =
     [null_entry, kernel_code, kernel_data, user_code, user_data, init_tss (tss SEG_INIT_TSS),
      set_base (tss SEG_USER_TSS) ((init_tss (tss SEG_INIT_TSS))\<lparr>g_DPL := 3\<rparr>),
      (set_base (tss SEG_SYSCALL_TSS) (init_tss (tss SEG_INIT_TSS)))\<lparr>g_DPL := 0\<rparr>,
      set_base (tss SEG_V8086_TSS) ((init_tss (tss SEG_INIT_TSS))
        \<lparr>g_limit_low := ucast tss_with_io_size, g_limit_high := ucast (drop_bit 16 tss_with_io_size)\<rparr>)]"

text \<open>The descriptors as they lie in memory.\<close>

definition gdt_words :: "(u32 \<Rightarrow> addr) \<Rightarrow> u64 list" where
  "gdt_words tss = map encode_gdt (initialize_gdt tss)"

section \<open>What the processor makes of a descriptor\<close>

definition seg_base :: "u64 \<Rightarrow> addr" where
  "seg_base d = ucast (take_bit 24 (drop_bit 16 d)) OR push_bit 24 (ucast (drop_bit 56 d))"

definition seg_limit :: "u64 \<Rightarrow> u32" where
  "seg_limit d =
     (let l = ucast (take_bit 16 d) OR push_bit 16 (ucast (take_bit 4 (drop_bit 48 d)))
      in if bit d 55 then push_bit 12 l OR 0xFFF else l)"

definition seg_dpl :: "u64 \<Rightarrow> nat" where
  "seg_dpl d = unat (take_bit 2 (drop_bit 45 d))"

text \<open>A segment with bit 44 holds code (bit 43) or data. Data that expands down (bit 42) has the offsets above its limit.\<close>

definition offset_ok :: "u64 \<Rightarrow> u32 \<Rightarrow> bool" where
  "offset_ok d off \<longleftrightarrow>
     (if \<not> bit d 43 \<and> bit d 42 then seg_limit d < off \<and> (bit d 54 \<or> off \<le> 0xFFFF) else off \<le> seg_limit d)"

definition may_load :: "nat \<Rightarrow> nat \<Rightarrow> u64 \<Rightarrow> bool" where
  "may_load cpl rpl d \<longleftrightarrow> bit d 47 \<and> bit d 44 \<and> (bit d 43 \<longrightarrow> bit d 41) \<and> (bit d 43 \<and> bit d 42 \<or> cpl \<le> seg_dpl d \<and> rpl \<le> seg_dpl d)"

definition may_write :: "u64 \<Rightarrow> bool" where
  "may_write d \<longleftrightarrow> \<not> bit d 43 \<and> bit d 41"

definition reaches :: "u64 \<Rightarrow> addr \<Rightarrow> bool" where
  "reaches d a \<longleftrightarrow> offset_ok d (a - seg_base d)"

definition user_can_read :: "u64 list \<Rightarrow> addr \<Rightarrow> bool" where
  "user_can_read gdt a \<longleftrightarrow> (\<exists>d \<in> set gdt. may_load 3 3 d \<and> reaches d a)"

definition user_can_write :: "u64 list \<Rightarrow> addr \<Rightarrow> bool" where
  "user_can_write gdt a \<longleftrightarrow> (\<exists>d \<in> set gdt. may_load 3 3 d \<and> may_write d \<and> reaches d a)"

lemma encode_bits:
  "bit (encode_gdt e) 41 \<longleftrightarrow> g_read_write e" "bit (encode_gdt e) 42 \<longleftrightarrow> g_conforming_expand_down e" "bit (encode_gdt e) 43 \<longleftrightarrow> g_code e"
  "bit (encode_gdt e) 44 \<longleftrightarrow> g_code_data_segment e" "bit (encode_gdt e) 47 \<longleftrightarrow> g_present e" "bit (encode_gdt e) 54 \<longleftrightarrow> g_big e"
  "bit (encode_gdt e) 55 \<longleftrightarrow> g_gran e"
  by (auto simp: encode_gdt_def bit_simps dest: bit_imp_le_length)

declare encode_bits [simp]

lemma encode_base: "seg_base (encode_gdt (set_base a e)) = a"
proof (rule bit_word_eqI)
  fix n assume "n < LENGTH(32)"
  then consider "n < 24" | "24 \<le> n" "n < 32" by fastforce
  then show "bit (seg_base (encode_gdt (set_base a e))) n = bit a n"
    by cases (auto simp: seg_base_def encode_gdt_def set_base_def bit_simps dest: bit_imp_le_length)
qed

lemma encode_dpl: "seg_dpl (encode_gdt e) = unat (g_DPL e)"
proof -
  have b: "bit (encode_gdt e) 45 \<longleftrightarrow> bit (g_DPL e) 0" "bit (encode_gdt e) 46 \<longleftrightarrow> bit (g_DPL e) 1"
    by (auto simp: encode_gdt_def bit_simps dest: bit_imp_le_length)
  have "take_bit 2 (drop_bit 45 (encode_gdt e)) = ucast (g_DPL e)"
  proof (rule bit_word_eqI)
    fix n :: nat
    consider "n = 0" | "n = 1" | "2 \<le> n" by linarith
    then show "bit (take_bit 2 (drop_bit 45 (encode_gdt e))) n = bit (ucast (g_DPL e) :: u64) n"
      using bit_imp_le_length [of "g_DPL e" n] by cases (auto simp: bit_take_bit_iff bit_drop_bit_eq bit_ucast_iff b)
  qed
  moreover have "unat (g_DPL e) < 4" using unsigned_less [of "g_DPL e", where 'a = nat] by simp
  ultimately show ?thesis by (simp add: seg_dpl_def unsigned_ucast_eq take_bit_nat_eq_self)
qed

lemma user_segments:
  "seg_base (encode_gdt user_code) = 0" "seg_limit (encode_gdt user_code) = - 1" "seg_base (encode_gdt user_data) = 0" "seg_limit (encode_gdt user_data) = 0x1FFFFFF"
  by (simp_all add: encode_gdt_def user_data_def user_code_def kernel_code_def seg_base_def seg_limit_def)

text \<open>The segments that a program in user mode may load are \<open>SEG_USER_CODE\<close> and \<open>SEG_USER_DATA\<close>.\<close>

lemma user_may_load: "d \<in> set (gdt_words tss) \<Longrightarrow> may_load 3 3 d \<Longrightarrow> d = encode_gdt user_code \<or> d = encode_gdt user_data"
  by (auto simp: gdt_words_def initialize_gdt_def may_load_def encode_dpl null_entry_def kernel_data_def kernel_code_def init_tss_def set_base_def)

lemma user_segments_loadable: "may_load 3 3 (encode_gdt user_code)" "may_load 3 3 (encode_gdt user_data)"
  by (simp_all add: may_load_def encode_dpl user_data_def user_code_def kernel_code_def)

lemma user_segments_reach: "reaches (encode_gdt user_code) a" "reaches (encode_gdt user_data) a \<longleftrightarrow> 0x2000000 \<le> a"
proof -
  show "reaches (encode_gdt user_code) a"
    by (simp add: reaches_def offset_ok_def user_segments) (simp add: user_code_def kernel_code_def)
  have "(0x1FFFFFF :: u32) < a \<longleftrightarrow> 0x2000000 \<le> a" by (simp add: word_less_nat_alt word_le_nat_alt) linarith
  then show "reaches (encode_gdt user_data) a \<longleftrightarrow> 0x2000000 \<le> a"
    by (simp add: reaches_def offset_ok_def user_segments) (simp add: user_data_def user_code_def kernel_code_def)
qed

lemma user_write_range: "user_can_write (gdt_words tss) a \<longleftrightarrow> 0x2000000 \<le> a"
proof -
  have "encode_gdt user_data \<in> set (gdt_words tss)" by (simp add: gdt_words_def initialize_gdt_def)
  moreover have "may_write (encode_gdt user_data)" "\<not> may_write (encode_gdt user_code)"
    by (simp_all add: may_write_def user_data_def user_code_def kernel_code_def)
  ultimately show ?thesis unfolding user_can_write_def
    using user_may_load user_segments_loadable(2) user_segments_reach(2) by metis
qed

text \<open>Reading is not limited: the code segment is readable and covers all memory.\<close>

lemma user_reads_all: "user_can_read (gdt_words tss) a"
proof -
  have "encode_gdt user_code \<in> set (gdt_words tss)" by (simp add: gdt_words_def initialize_gdt_def)
  then show ?thesis unfolding user_can_read_def using user_segments_loadable(1) user_segments_reach(1) by blast
qed

section \<open>Interrupt gates\<close>

record idt_entry =
  i_isr_low :: u16
  i_kernel_cs :: u16
  i_reserved :: u8
  i_type :: "4 word"
  i_zero :: bool
  i_dpl :: "2 word"
  i_present :: bool
  i_isr_high :: u16

definition encode_idt :: "idt_entry \<Rightarrow> u64" where
  "encode_idt e =
     ucast (i_isr_low e) OR push_bit 16 (ucast (i_kernel_cs e)) OR push_bit 32 (ucast (i_reserved e)) OR push_bit 40 (ucast (i_type e)) OR
     push_bit 44 (of_bool (i_zero e)) OR push_bit 45 (ucast (i_dpl e)) OR push_bit 47 (of_bool (i_present e)) OR push_bit 48 (ucast (i_isr_high e))"

definition IDT_TASK :: u32 where "IDT_TASK = 0x5"
definition IDT_INTERRUPT_32 :: u32 where "IDT_INTERRUPT_32 = 0xe"
definition IRQ_BASE0 :: u8 where "IRQ_BASE0 = 0x20"

text \<open>Bit fields take the low bits of what is assigned to them.\<close>

definition gate :: "u32 \<Rightarrow> addr \<Rightarrow> u32 \<Rightarrow> u32 \<Rightarrow> u32 \<Rightarrow> idt_entry" where
  "gate segsel isr pres dpl typ =
     \<lparr>i_isr_low = ucast (isr AND 0xFFFF), i_kernel_cs = ucast segsel, i_reserved = 0, i_type = ucast typ,
      i_zero = False, i_dpl = ucast dpl, i_present = bit pres 0, i_isr_high = ucast (drop_bit 16 isr)\<rparr>"

definition idt_set_descriptor :: "u8 \<Rightarrow> u32 \<Rightarrow> addr \<Rightarrow> u32 \<Rightarrow> u32 \<Rightarrow> u32 \<Rightarrow> idt_entry list \<Rightarrow> idt_entry list" where
  "idt_set_descriptor vector segsel isr pres dpl typ idt = idt[unat vector := gate segsel isr pres dpl typ]"

definition error_code :: "nat \<Rightarrow> bool" where
  "error_code n \<longleftrightarrow> n \<in> {8, 10, 11, 12, 13, 14, 17, 21, 29, 30}"

text \<open>The addresses of the handlers are those that the linker gives them.\<close>

record handlers =
  trap_handler :: "nat \<Rightarrow> addr"
  trap_handler_with_error_code :: "nat \<Rightarrow> addr"
  gp_handler :: addr
  timer_handler :: addr
  irq1_handler_addr :: addr

definition kernel_gate :: "nat \<Rightarrow> addr \<Rightarrow> idt_entry list \<Rightarrow> idt_entry list" where
  "kernel_gate n isr = idt_set_descriptor (of_nat n) (SEGMENT_SELECTOR SEG_KERNEL_CODE 0 0) isr 1 0 IDT_INTERRUPT_32"

fun SetDefaultISR :: "handlers \<Rightarrow> nat \<Rightarrow> idt_entry list \<Rightarrow> idt_entry list" where
  "SetDefaultISR h 0 idt = kernel_gate 0 (trap_handler h 0) idt"
| "SetDefaultISR h (Suc n) idt =
     SetDefaultISR h n
       (if Suc n < 32 \<and> error_code (Suc n) then kernel_gate (Suc n) (trap_handler_with_error_code h (Suc n)) idt
        else kernel_gate (Suc n) (trap_handler h (Suc n)) idt)"

definition initialize_intr :: "handlers \<Rightarrow> idt_entry list \<Rightarrow> idt_entry list" where
  "initialize_intr h idt =
     (let idt = SetDefaultISR h 255 idt;
          idt = kernel_gate 13 (gp_handler h) idt
      in idt_set_descriptor 0x80 (SEGMENT_SELECTOR SEG_SYSCALL_TSS 0 0) 0 1 3 IDT_TASK idt)"

text \<open>The gates that the timer and the console install later.\<close>

definition install_irqs :: "handlers \<Rightarrow> idt_entry list \<Rightarrow> idt_entry list" where
  "install_irqs h idt =
     idt_set_descriptor (IRQ_BASE0 + 1) (SEGMENT_SELECTOR SEG_KERNEL_CODE 0 0) (irq1_handler_addr h) 1 0 IDT_INTERRUPT_32
       (idt_set_descriptor IRQ_BASE0 (SEGMENT_SELECTOR SEG_KERNEL_CODE 0 0) (timer_handler h) 1 0 IDT_INTERRUPT_32 idt)"

text \<open>What the processor reads: where a gate leads, and that an instruction \<open>int\<close> needs a gate with its privilege.\<close>

definition gate_offset :: "u64 \<Rightarrow> addr" where
  "gate_offset d = ucast (take_bit 16 d) OR push_bit 16 (ucast (drop_bit 48 d))"

definition gate_selector :: "u64 \<Rightarrow> u16" where
  "gate_selector d = ucast (drop_bit 16 d)"

definition gate_type :: "u64 \<Rightarrow> u32" where
  "gate_type d = ucast (take_bit 5 (drop_bit 40 d))"

definition int_allowed :: "nat \<Rightarrow> u64 \<Rightarrow> bool" where
  "int_allowed cpl d \<longleftrightarrow> bit d 47 \<and> cpl \<le> seg_dpl d"

text \<open>The gates one after the other.\<close>

definition default_isr :: "handlers \<Rightarrow> nat \<Rightarrow> addr" where
  "default_isr h n = (if n < 32 \<and> error_code n then trap_handler_with_error_code h n else trap_handler h n)"

abbreviation kernel_entry :: "addr \<Rightarrow> idt_entry" where
  "kernel_entry isr \<equiv> gate (SEGMENT_SELECTOR SEG_KERNEL_CODE 0 0) isr 1 0 IDT_INTERRUPT_32"

lemma kernel_gate_update: "n < 256 \<Longrightarrow> kernel_gate n isr idt = idt[n := kernel_entry isr]"
  by (simp add: kernel_gate_def idt_set_descriptor_def unat_of_nat)

lemma SetDefaultISR_nth:
  assumes "n < 256" and "length idt = 256" and "v < 256"
  shows "SetDefaultISR h n idt ! v = (if v \<le> n then kernel_entry (default_isr h v) else idt ! v) \<and> length (SetDefaultISR h n idt) = 256"
  using assms
proof (induction n arbitrary: idt)
  case 0
  then show ?case by (simp add: kernel_gate_update nth_list_update default_isr_def error_code_def)
next
  case (Suc n)
  have "SetDefaultISR h (Suc n) idt = SetDefaultISR h n (idt[Suc n := kernel_entry (default_isr h (Suc n))])"
    using Suc.prems(1) by (simp add: kernel_gate_update default_isr_def)
  then show ?case using Suc by (auto simp: nth_list_update le_Suc_eq)
qed

definition idt_start :: "idt_entry list" where
  "idt_start = replicate 256 \<lparr>i_isr_low = 0, i_kernel_cs = 0, i_reserved = 0, i_type = 0, i_zero = False, i_dpl = 0, i_present = False, i_isr_high = 0\<rparr>"

definition idt_table :: "handlers \<Rightarrow> idt_entry list" where
  "idt_table h = install_irqs h (initialize_intr h idt_start)"

lemma idt_table_nth:
  assumes "v < 256"
  shows "idt_table h ! v =
    (if v = 0x80 then gate (SEGMENT_SELECTOR SEG_SYSCALL_TSS 0 0) 0 1 3 IDT_TASK
     else kernel_entry (if v = 0x21 then irq1_handler_addr h else if v = 0x20 then timer_handler h
       else if v = 13 then gp_handler h else default_isr h v))"
proof -
  have "length idt_start = 256" by (simp add: idt_start_def)
  from SetDefaultISR_nth [of 255 idt_start v h, OF _ this assms] assms show ?thesis
    by (auto simp: idt_table_def install_irqs_def initialize_intr_def kernel_gate_update idt_set_descriptor_def IRQ_BASE0_def nth_list_update)
qed

lemma gate_reads:
  "bit (encode_idt (gate s i p d t)) 47 \<longleftrightarrow> bit p 0" "bit (encode_idt (gate s i p d t)) 45 \<longleftrightarrow> bit d 0" "bit (encode_idt (gate s i p d t)) 46 \<longleftrightarrow> bit d 1"
  by (auto simp: encode_idt_def gate_def bit_simps dest: bit_imp_le_length)

lemma gate_dpl: "seg_dpl (encode_idt (gate s i p d t)) = unat (take_bit 2 d)"
proof -
  have "take_bit 2 (drop_bit 45 (encode_idt (gate s i p d t))) = ucast (take_bit 2 d)"
  proof (rule bit_word_eqI)
    fix n :: nat
    consider "n = 0" | "n = 1" | "2 \<le> n" by linarith
    then show "bit (take_bit 2 (drop_bit 45 (encode_idt (gate s i p d t)))) n = bit (ucast (take_bit 2 d) :: u64) n"
      by cases (auto simp: bit_take_bit_iff bit_drop_bit_eq bit_ucast_iff gate_reads)
  qed
  moreover have "take_bit 64 (unat (take_bit 2 d)) = unat (take_bit 2 d)"
    by (rule take_bit_nat_eq_self) (rule less_trans [OF unat_lt32], simp)
  ultimately show ?thesis by (simp add: seg_dpl_def unsigned_ucast_eq)
qed

lemma gate_offset_eq: "gate_offset (encode_idt (gate s i p d t)) = i"
proof (rule bit_word_eqI)
  fix n assume "n < LENGTH(32)"
  then consider "n < 16" | "16 \<le> n" "n < 32" by fastforce
  then show "bit (gate_offset (encode_idt (gate s i p d t))) n = bit i n"
  proof cases
    case 1
    moreover have "(0xFFFF :: u32) = mask 16" by (simp add: mask_eq_exp_minus_1)
    then have "bit (0xFFFF :: u32) n" using 1 by (simp only: bit_mask_iff) simp
    ultimately show ?thesis by (simp add: gate_offset_def encode_idt_def gate_def bit_simps)
  next
    case 2
    then show ?thesis by (auto simp: gate_offset_def encode_idt_def gate_def bit_simps dest: bit_imp_le_length)
  qed
qed

lemma gate_target: "gate_selector (encode_idt (gate s i p d t)) = ucast s"
  by (rule bit_word_eqI) (auto simp: gate_selector_def encode_idt_def gate_def bit_simps dest: bit_imp_le_length)

section \<open>Properties\<close>

text \<open>C16: A program in user mode cannot write the kernel's memory: through the segments that the table lets it load it can write exactly the addresses from 32 MiB on, where user
  space begins, whatever the addresses of the task states are.\<close>

theorem user_writes_only_user_space:
  "user_can_write (gdt_words tss) a \<longleftrightarrow> 0x2000000 \<le> a"
  by (rule user_write_range)


definition demo_handlers :: handlers where
  "demo_handlers = \<lparr>trap_handler = \<lambda>n. 0x400000, trap_handler_with_error_code = \<lambda>n. 0x400100, gp_handler = 0x400200,
     timer_handler = 0x400300, irq1_handler_addr = 0x400400\<rparr>"


text \<open>The selectors that \<open>exec\<close> gives a process are loadable in user mode, and the segments are those of user mode.\<close>

lemma exec_selectors_loadable:
  "gdt_words tss ! unat (drop_bit 3 (t_cs (exec_registers p entry k))) = encode_gdt user_code"
  "gdt_words tss ! unat (drop_bit 3 (t_ds (exec_registers p entry k))) = encode_gdt user_data"
  "t_ss (exec_registers p entry k) = t_ds (exec_registers p entry k)"
  by (simp_all add: exec_registers_def SEGMENT_SELECTOR_def SEG_USER_CODE_def SEG_USER_DATA_def gdt_words_def initialize_gdt_def Let_def)

end
