(* ===== verification/V8086.thy ===== *)
theory V8086
  imports Protection UserStart
begin

text \<open>
  Calls of the BIOS (\<^verbatim>\<open>src/v8086.cpp\<close>): the task state with which \<open>v8086_call\<close> enters virtual 8086 mode, and the handler of general protection
  faults, which carries out the instructions that this mode does not allow: \<open>hlt\<close> ends the call, \<open>int\<close> enters an interrupt service of the
  BIOS through the real mode vector table. Also the task states of \<open>initialize_tss\<close> (\<^verbatim>\<open>src/protected_mode.cpp\<close>).
\<close>

section \<open>The code\<close>

text \<open>The linker script's addresses of the 16-bit code and its stack.\<close>

definition CODE16 :: addr where "CODE16 = 0x800"
definition CODE16END :: addr where "CODE16END = 0x2000"
definition CODE16STACKTOP :: addr where "CODE16STACKTOP = 0x4000"

definition initialize_tss :: "addr \<Rightarrow> addr \<Rightarrow> addr \<Rightarrow> u32 \<Rightarrow> tss" where
  "initialize_tss syscall_handler stack v8086_stack seg =
     (let kdata = SEGMENT_SELECTOR SEG_KERNEL_DATA 0 0
      in if seg = SEG_SYSCALL_TSS then
           zero_tss\<lparr>t_iomap_base := ucast tss_size, t_cs := SEGMENT_SELECTOR SEG_KERNEL_CODE 0 0, t_ds := kdata, t_es := kdata,
             t_fs := kdata, t_gs := kdata, t_ss := kdata, t_eip := syscall_handler, t_esp := stack + 8192, t_eflags := push_bit 9 1\<rparr>
         else if seg = SEG_V8086_TSS then
           zero_tss\<lparr>t_iomap_base := ucast tss_with_io_size, t_ss0 := kdata, t_esp0 := v8086_stack + 1024\<rparr>
         else zero_tss\<lparr>t_iomap_base := ucast tss_size\<rparr>)"

text \<open>\<open>v8086_init\<close>: the code must fit into its place; \<open>Inl\<close> is a panic.\<close>

definition v8086_init :: "addr \<Rightarrow> addr \<Rightarrow> mem \<Rightarrow> mem outcome" where
  "v8086_init source_start source_end m =
     (if CODE16END - CODE16 <s source_end - source_start then Inl ''16bit code too large''
      else Inr (snd (memcpy CODE16 source_start (source_end - source_start) m)))"

record v8086_args =
  arg_ax :: u16
  arg_bx :: u16
  arg_cx :: u16
  arg_dx :: u16
  arg_si :: u16
  arg_di :: u16
  arg_ds :: u16
  arg_es :: u16

definition v8086_call :: "addr \<Rightarrow> addr \<Rightarrow> v8086_args \<Rightarrow> u32 \<Rightarrow> u32 \<Rightarrow> tss \<Rightarrow> tss" where
  "v8086_call source_start func a cr3 eflags t =
     t\<lparr>t_prev_tss := 0, t_cr3 := cr3, t_eflags := eflags OR 0x23000, t_cs := 0, t_eip := func - source_start + CODE16,
       t_ss := 0, t_esp := CODE16STACKTOP, t_ds := ucast (arg_ds a), t_es := ucast (arg_es a), t_eax := ucast (arg_ax a),
       t_ebx := ucast (arg_bx a), t_ecx := ucast (arg_cx a), t_edx := ucast (arg_dx a), t_esi := ucast (arg_si a),
       t_edi := ucast (arg_di a), t_ldt := 0, t_iomap_base := ucast tss_size, t_redirect := replicate 32 0xFF\<rparr>"

record interrupt_frame =
  f_eip :: u32
  f_cs :: u32
  f_eflags :: u32
  f_esp :: u32
  f_ss :: u32

datatype gp_result = LeaveV8086 | Resume interrupt_frame mem | GPPanic

definition v8086_gp_handler :: "interrupt_frame \<Rightarrow> mem \<Rightarrow> gp_result" where
  "v8086_gp_handler f m =
     (let at = f_cs f * 16 + f_eip f; stack = f_ss f * 16 + f_esp f
      in if m at = 0xF4 then LeaveV8086
         else if m at = 0xCD then
           let intno = ucast (m (at + 1)) :: u32;
               int_cs = ld16 m (2 * (2 * intno + 1));
               int_ip = ld16 m (2 * (2 * intno));
               m = st16 m (stack - 2) (ucast (f_eflags f));
               m = st16 m (stack - 4) (ucast (f_cs f));
               m = st16 m (stack - 6) (ucast (f_eip f + 2))
           in Resume (f\<lparr>f_esp := f_esp f - 6, f_cs := ucast int_cs, f_eip := ucast int_ip\<rparr>) m
         else GPPanic)"

section \<open>An interrupt service and its return\<close>

text \<open>What \<open>iret\<close> does in this mode: it pops instruction pointer, code segment and the low half of the flags.\<close>

definition iret16 :: "interrupt_frame \<Rightarrow> mem \<Rightarrow> interrupt_frame" where
  "iret16 f m =
     (let stack = f_ss f * 16 + f_esp f
      in f\<lparr>f_eip := ucast (ld16 m stack), f_cs := ucast (ld16 m (stack + 2)),
           f_eflags := (f_eflags f AND NOT 0xFFFF) OR ucast (ld16 m (stack + 4)), f_esp := f_esp f + 6\<rparr>)"

lemma ld16_st16_apart: "q \<noteq> p \<Longrightarrow> q \<noteq> p + 1 \<Longrightarrow> q + 1 \<noteq> p \<Longrightarrow> q + 1 \<noteq> p + 1 \<Longrightarrow> ld16 (st16 m p v) q = ld16 m q"
  by (simp add: ld16_def st16_def)

lemma frame_pushed:
  fixes t :: addr and m :: mem and fl c ip :: u16
  defines "m3 \<equiv> st16 (st16 (st16 m (t + 4) fl) (t + 2) c) t ip"
  shows "ld16 m3 t = ip" and "ld16 m3 (t + 2) = c" and "ld16 m3 (t + 4) = fl"
  unfolding m3_def by (simp_all add: ld16_st16_apart st16_slot add.assoc)

lemma ucast_16_32: "w < 0x10000 \<Longrightarrow> ucast (ucast (w :: u32) :: u16) = w"
  by (simp add: word_less_nat_alt word_unat_eq_iff unsigned_ucast_eq take_bit_nat_eq_self unsigned_take_bit_eq)

text \<open>
  When the service returns, the program goes on behind its \<open>int\<close> instruction with its stack and flags, provided that the service has
  balanced its stack; the addresses below the stack pointer are the only memory that the handler writes.
\<close>

lemma int_returns:
  assumes "v8086_gp_handler f m = Resume f' m'" and "f_cs f < 0x10000" and "f_eip f + 2 < 0x10000"
  shows "iret16 f' m' = f\<lparr>f_eip := f_eip f + 2, f_eflags := f_eflags (iret16 f' m')\<rparr>"
    and "take_bit 16 (f_eflags (iret16 f' m')) = take_bit 16 (f_eflags f)"
    and "\<forall>x. x \<notin> span (f_ss f * 16 + f_esp f - 6) 6 \<longrightarrow> m' x = m x"
proof -
  define t where "t = f_ss f * 16 + f_esp f - 6"
  have s: "f_ss f * 16 + f_esp f - 2 = t + 4" "f_ss f * 16 + f_esp f - 4 = t + 2" "f_ss f * 16 + f_esp f - 6 = t"
    by (simp_all add: t_def)
  have f': "f_ss f' = f_ss f" "f_esp f' = f_esp f - 6" "f_eflags f' = f_eflags f"
    and m': "m' = st16 (st16 (st16 m (t + 4) (ucast (f_eflags f))) (t + 2) (ucast (f_cs f))) t (ucast (f_eip f + 2))"
    and g: "f' = f\<lparr>f_esp := f_esp f - 6, f_cs := f_cs f', f_eip := f_eip f'\<rparr>"
    using assms(1) by (auto simp: v8086_gp_handler_def Let_def s split: if_splits)
  have st: "f_ss f' * 16 + f_esp f' = t" using f' by (simp add: t_def)
  note p = frame_pushed [of m t "ucast (f_eflags f)" "ucast (f_cs f)" "ucast (f_eip f + 2)", folded m']
  have r: "iret16 f' m' = f'\<lparr>f_eip := f_eip f + 2, f_cs := f_cs f, f_eflags := (f_eflags f AND NOT 0xFFFF) OR ucast (ucast (f_eflags f) :: u16), f_esp := f_esp f\<rparr>"
    unfolding iret16_def Let_def st using p assms(2,3) f'(2,3) by (simp add: ucast_16_32)
  show "iret16 f' m' = f\<lparr>f_eip := f_eip f + 2, f_eflags := f_eflags (iret16 f' m')\<rparr>"
    unfolding r by (subst g) (cases f, simp)
  show "take_bit 16 (f_eflags (iret16 f' m')) = take_bit 16 (f_eflags f)"
  proof (rule bit_word_eqI)
    fix n
    have "(0xFFFF :: u32) = mask 16" by (simp add: mask_eq_exp_minus_1)
    then have "n < 16 \<Longrightarrow> bit (0xFFFF :: u32) n" by (simp only: bit_mask_iff) simp
    then show "bit (take_bit 16 (f_eflags (iret16 f' m'))) n = bit (take_bit 16 (f_eflags f)) n"
      unfolding r by (auto simp: bit_simps)
  qed
  have "x \<notin> span t 6 \<Longrightarrow> m' x = m x" for x unfolding m' by (simp add: st16_def span_numeral span_Suc add.assoc)
  then show "\<forall>x. x \<notin> span (f_ss f * 16 + f_esp f - 6) 6 \<longrightarrow> m' x = m x" by (simp add: t_def)
qed

text \<open>The 16-bit code fits below the 16-bit stack, and nothing else is written when it is put in place.\<close>

lemma v8086_init_places:
  assumes "v8086_init a b m = Inr m'" and "unat (b - a) < 2147483648"
  shows "unat (b - a) \<le> 0x1800" and "\<forall>x. x \<notin> span CODE16 0x1800 \<longrightarrow> m' x = m x"
proof -
  let ?n = "b - a"
  have "sint ?n = int (unat ?n)" using sint_of_nat32 [OF assms(2)] by simp
  moreover have "\<not> CODE16END - CODE16 <s ?n" using assms(1) by (auto simp: v8086_init_def split: if_splits)
  ultimately show n: "unat ?n \<le> 0x1800" using uint_vs_int(2) [of 6144 ?n] by (simp add: word_sless_alt CODE16END_def CODE16_def)
  have m': "m' = memcpy_loop CODE16 a ?n 0 m" using assms(1) by (auto simp: v8086_init_def memcpy_def split: if_splits)
  show "\<forall>x. x \<notin> span CODE16 0x1800 \<longrightarrow> m' x = m x"
  proof (intro allI impI)
    fix x assume x: "x \<notin> span CODE16 0x1800"
    have "x = CODE16 + of_nat (unat (x - CODE16))" by simp
    then have "\<not> unat (x - CODE16) < 0x1800" using x unfolding span_def by blast
    then show "m' x = m x" unfolding m' using n by (intro memcpy_loop_outside) (simp add: word_le_nat_alt)
  qed
qed

end
