(* ===== verification/Division.thy ===== *)
theory Division
  imports Prelude "HOL-Library.Log_Nat" "HOL-Library.Signed_Division"
begin

text \<open>
  The 64-bit division of the compiler runtime (\<^verbatim>\<open>compile-rt-builtins\<close>), which the kernel needs on its 32-bit machine for
  every \<open>/\<close> and \<open>%\<close> of 64-bit numbers: the shift-and-subtract division of \<^verbatim>\<open>int_div_impl.inc\<close> for any width, the
  division on halves \<^verbatim>\<open>udivmoddi4.c\<close>, and the signed divisions on top of them. Each of them is proved equal to the
  division of words or, for the signed ones, to the truncating division of integers.
\<close>

section \<open>The code\<close>

text \<open>The compiler's \<open>__builtin_clz\<close> and \<open>__builtin_ctz\<close>: the number of leading and trailing zero bits.\<close>

definition clz :: "'a::len word \<Rightarrow> nat" where
  "clz w = LENGTH('a) - floorlog 2 (unat w)"

definition ctz :: "'a::len word \<Rightarrow> nat" where
  "ctz w = length (takeWhile (\<lambda>i. \<not> bit w i) [0..<LENGTH('a)])"

text \<open>The loop of both divisions: remainder \<open>r\<close>, the rest of the dividend with the quotient behind it \<open>n\<close>, last quotient bit \<open>c\<close>.\<close>

fun div_loop :: "nat \<Rightarrow> 'a::len word \<Rightarrow> 'a word \<Rightarrow> 'a word \<Rightarrow> 'a word \<Rightarrow> 'a word \<times> 'a word \<times> 'a word" where
  "div_loop 0 d r n c = (r, n, c)"
| "div_loop (Suc sr) d r n c =
     (let r = push_bit 1 r OR drop_bit (LENGTH('a) - 1) n;
          n = push_bit 1 n OR c;
          s = signed_drop_bit (LENGTH('a) - 1) (d - r - 1)
      in div_loop sr d (r - (d AND s)) n (s AND 1))"

definition shift_count :: "'a::len word \<Rightarrow> 'a word \<Rightarrow> u32" where
  "shift_count n d = of_nat (if d \<noteq> 0 then clz d else LENGTH('a)) - of_nat (if n \<noteq> 0 then clz n else LENGTH('a))"

definition udivXi3 :: "'a::len word \<Rightarrow> 'a word \<Rightarrow> 'a word" where
  "udivXi3 n d =
     (let sr = shift_count n d
      in if sr > of_nat (LENGTH('a) - 1) then 0
         else if sr = of_nat (LENGTH('a) - 1) then n
         else let sr = unat (sr + 1);
                  (r, n, c) = div_loop sr d (drop_bit sr n) (push_bit (LENGTH('a) - sr) n) 0
              in push_bit 1 n OR c)"

definition umodXi3 :: "'a::len word \<Rightarrow> 'a word \<Rightarrow> 'a word" where
  "umodXi3 n d =
     (let sr = shift_count n d
      in if sr > of_nat (LENGTH('a) - 1) then n
         else if sr = of_nat (LENGTH('a) - 1) then 0
         else let sr = unat (sr + 1);
                  (r, n, c) = div_loop sr d (drop_bit sr n) (push_bit (LENGTH('a) - sr) n) 0
              in r)"

subsection \<open>Division on halves\<close>

text \<open>The union \<open>udwords\<close>: a 64-bit number and its halves.\<close>

definition dword :: "u32 \<Rightarrow> u32 \<Rightarrow> u64" where
  "dword h l = push_bit 32 (ucast h) OR ucast l"

definition high :: "u64 \<Rightarrow> u32" where
  "high w = ucast (drop_bit 32 w)"

definition low :: "u64 \<Rightarrow> u32" where
  "low w = ucast w"

fun half_loop :: "nat \<Rightarrow> u64 \<Rightarrow> u32 \<Rightarrow> u32 \<Rightarrow> u32 \<Rightarrow> u32 \<Rightarrow> u32 \<Rightarrow> u64 \<times> u64 \<times> u32" where
  "half_loop 0 d rh rl qh ql c = (dword rh rl, dword qh ql, c)"
| "half_loop (Suc sr) d rh rl qh ql c =
     (let rh = push_bit 1 rh OR drop_bit 31 rl;
          rl = push_bit 1 rl OR drop_bit 31 qh;
          qh = push_bit 1 qh OR drop_bit 31 ql;
          ql = push_bit 1 ql OR c;
          s = signed_drop_bit 63 (d - dword rh rl - 1);
          r = dword rh rl - (d AND s)
      in half_loop sr d (high r) (low r) qh ql (ucast (s AND 1)))"

definition udivmod_finish :: "nat \<Rightarrow> u64 \<Rightarrow> u32 \<Rightarrow> u32 \<Rightarrow> u32 \<Rightarrow> u32 \<Rightarrow> (u64 \<times> u64) option" where
  "udivmod_finish sr d rh rl qh ql =
     (let (r, q, c) = half_loop sr d rh rl qh ql 0 in Some (push_bit 1 q OR ucast c, r))"

text \<open>Quotient and remainder, or \<open>None\<close> when the processor traps because it divides by 0.\<close>

definition udiv32 :: "u32 \<Rightarrow> u32 \<Rightarrow> (u64 \<times> u64) option" where
  "udiv32 a b = (if b = 0 then None else Some (ucast (a div b), ucast (a mod b)))"

definition udivmoddi4 :: "u64 \<Rightarrow> u64 \<Rightarrow> (u64 \<times> u64) option" where
  "udivmoddi4 n d =
     (let nh = high n; nl = low n; dh = high d; dl = low d
      in if nh = 0 then if dh = 0 then udiv32 nl dl else Some (0, ucast nl)
         else if dl = 0 then
           if dh = 0 then udiv32 nh dl
           else if nl = 0 then Some (ucast (nh div dh), dword (nh mod dh) 0)
           else if dh AND (dh - 1) = 0 then Some (ucast (drop_bit (ctz dh) nh), dword (nh AND (dh - 1)) nl)
           else let sr = of_nat (clz dh) - of_nat (clz nh) :: u32
                in if sr > 30 then Some (0, n)
                   else let sr = unat (sr + 1)
                        in udivmod_finish sr d (drop_bit sr nh) (push_bit (32 - sr) nh OR drop_bit sr nl) (push_bit (32 - sr) nl) 0
         else if dh = 0 then
           if dl AND (dl - 1) = 0 then
             Some (if dl = 1 then n
                   else dword (drop_bit (ctz dl) nh) (push_bit (32 - ctz dl) nh OR drop_bit (ctz dl) nl),
                   ucast (nl AND (dl - 1)))
           else let sr = unat (1 + 32 + of_nat (clz dl) - of_nat (clz nh) :: u32)
                in if sr = 32 then udivmod_finish sr d 0 nh nl 0
                   else if sr < 32 then
                     udivmod_finish sr d (drop_bit sr nh) (push_bit (32 - sr) nh OR drop_bit sr nl) (push_bit (32 - sr) nl) 0
                   else udivmod_finish sr d 0 (drop_bit (sr - 32) nh)
                     (push_bit (64 - sr) nh OR drop_bit (sr - 32) nl) (push_bit (64 - sr) nl)
         else
           let sr = of_nat (clz dh) - of_nat (clz nh) :: u32
           in if sr > 31 then Some (0, n)
              else let sr = unat (sr + 1)
                   in if sr = 32 then udivmod_finish sr d 0 nh nl 0
                      else udivmod_finish sr d (drop_bit sr nh) (push_bit (32 - sr) nh OR drop_bit sr nl) (push_bit (32 - sr) nl) 0)"

subsection \<open>Signed division\<close>

text \<open>\<open>a >> N\<close> is \<open>-1\<close> for negative numbers; \<open>(a ^ s) + (-s)\<close> then negates. The unsigned division is an argument.\<close>

definition sign_of :: "'a::len word \<Rightarrow> 'a word" where
  "sign_of a = signed_drop_bit (LENGTH('a) - 1) a"

definition negate_if :: "'a::len word \<Rightarrow> 'a word \<Rightarrow> 'a word" where
  "negate_if s a = (a XOR s) + (- s)"

definition divXi3 :: "('a::len word \<Rightarrow> 'a word \<Rightarrow> 'a word option) \<Rightarrow> 'a word \<Rightarrow> 'a word \<Rightarrow> 'a word option" where
  "divXi3 udiv a b =
     (let s_a = sign_of a; s_b = sign_of b;
          a_u = negate_if s_a a; b_u = negate_if s_b b
      in map_option (negate_if (s_a XOR s_b)) (udiv a_u b_u))"

definition modXi3 :: "('a::len word \<Rightarrow> 'a word \<Rightarrow> 'a word option) \<Rightarrow> 'a word \<Rightarrow> 'a word \<Rightarrow> 'a word option" where
  "modXi3 umod a b =
     (let b_u = negate_if (sign_of b) b; s = sign_of a; a_u = negate_if s a
      in map_option (negate_if s) (umod a_u b_u))"

definition udivdi3 :: "u64 \<Rightarrow> u64 \<Rightarrow> u64" where "udivdi3 = udivXi3"
definition umoddi3 :: "u64 \<Rightarrow> u64 \<Rightarrow> u64" where "umoddi3 = umodXi3"
definition udivsi3 :: "u32 \<Rightarrow> u32 \<Rightarrow> u32" where "udivsi3 = udivXi3"
definition umodsi3 :: "u32 \<Rightarrow> u32 \<Rightarrow> u32" where "umodsi3 = umodXi3"

definition divdi3 :: "u64 \<Rightarrow> u64 \<Rightarrow> u64 option" where
  "divdi3 = divXi3 (\<lambda>a b. map_option fst (udivmoddi4 a b))"

definition moddi3 :: "u64 \<Rightarrow> u64 \<Rightarrow> u64 option" where
  "moddi3 = modXi3 (\<lambda>a b. map_option snd (udivmoddi4 a b))"

definition divmoddi4 :: "u64 \<Rightarrow> u64 \<Rightarrow> (u64 \<times> u64) option" where
  "divmoddi4 a b =
     (let s_a = sign_of a; s_b = sign_of b;
          a = (a XOR s_a) - s_a; b = (b XOR s_b) - s_b; s_b = s_b XOR s_a
      in map_option (\<lambda>(q, r). ((q XOR s_b) - s_b, (r XOR s_a) - s_a)) (udivmoddi4 a b))"

definition divsi3 :: "u32 \<Rightarrow> u32 \<Rightarrow> u32 option" where
  "divsi3 = divXi3 (\<lambda>a b. if b = 0 then None else Some (a div b))"

definition modsi3 :: "u32 \<Rightarrow> u32 \<Rightarrow> u32 option" where
  "modsi3 a b = map_option (\<lambda>q. a - q * b) (divsi3 a b)"

definition udivmodsi4 :: "u32 \<Rightarrow> u32 \<Rightarrow> u32 \<times> u32" where
  "udivmodsi4 a b = (let d = udivsi3 a b in (d, a - d * b))"

definition divmodsi4 :: "u32 \<Rightarrow> u32 \<Rightarrow> u32 \<times> u32" where
  "divmodsi4 a b =
     (let s_a = sign_of a; s_b = sign_of b;
          a = (a XOR s_a) - s_a; b = (b XOR s_b) - s_b; s_b = s_b XOR s_a;
          (q, r) = udivmodsi4 a b
      in ((q XOR s_b) - s_b, (r XOR s_a) - s_a))"

section \<open>One step of the loop\<close>

lemma sign_mask: "signed_drop_bit (LENGTH('a) - 1) (w :: 'a::len word) = (if bit w (LENGTH('a) - 1) then - 1 else 0)"
  by (rule bit_word_eqI) (auto simp: bit_signed_drop_bit_iff min_def not_le)

lemma top_bit_unat: "bit (w :: 'a::len word) (LENGTH('a) - 1) \<longleftrightarrow> 2 ^ (LENGTH('a) - 1) \<le> unat w"
proof -
  have "unat w < 2 * 2 ^ (LENGTH('a) - 1)" using unsigned_less [of w, where 'a = nat] by (simp flip: power_Suc)
  then have "unat w div 2 ^ (LENGTH('a) - 1) < 2" by (simp add: less_mult_imp_div_less)
  then have "odd (unat w div 2 ^ (LENGTH('a) - 1)) \<longleftrightarrow> 1 \<le> unat w div 2 ^ (LENGTH('a) - 1)"
    by (metis One_nat_def Suc_leI even_zero less_2_cases linorder_not_le odd_one odd_pos zero_less_one)
  also have "\<dots> \<longleftrightarrow> 2 ^ (LENGTH('a) - 1) \<le> unat w" by (simp add: Suc_le_eq div_greater_zero_iff)
  finally have "bit (unat w) (LENGTH('a) - 1) \<longleftrightarrow> 2 ^ (LENGTH('a) - 1) \<le> unat w" by (simp only: bit_iff_odd)
  then show ?thesis by (simp add: bit_unsigned_iff)
qed

lemma len_power: "2 ^ LENGTH('a::len) = 2 * (2 :: nat) ^ (LENGTH('a) - 1)"
  by (simp flip: power_Suc)

lemma unat_bool: "unat (c :: 'a::len word) < 2 \<Longrightarrow> c = 0 \<or> c = 1"
proof -
  assume "unat c < 2"
  then have "unat c = 0 \<or> unat c = 1" by linarith
  then show ?thesis by (metis unat_1 unat_eq_zero unsigned_word_eqI)
qed

text \<open>A shift left by one with a new last bit.\<close>

lemma shift_in:
  fixes w c :: "'a::len word"
  assumes "unat c < 2"
  shows "unat (push_bit 1 w OR c) = (2 * unat w + unat c) mod 2 ^ LENGTH('a)"
proof -
  have c: "c = 0 \<or> c = 1" using assms by (rule unat_bool)
  have "push_bit 1 w OR c = 2 * w + c" using c by (auto simp: push_bit_Suc even_or_iff or_one_eq mult.commute)
  then show ?thesis by (simp add: unat_word_ariths mod_simps)
qed

lemma step_remainder:
  fixes d r :: "'a::len word"
  assumes "unat r < 2 * unat d" and "unat d \<le> unat r \<Longrightarrow> unat r - unat d < 2 ^ (LENGTH('a) - 1)"
    and "unat r < unat d \<Longrightarrow> unat d - unat r - 1 < 2 ^ (LENGTH('a) - 1)"
  defines "s \<equiv> signed_drop_bit (LENGTH('a) - 1) (d - r - 1)"
  shows "s AND 1 = of_bool (unat d \<le> unat r)" and "unat (r - (d AND s)) = (if unat d \<le> unat r then unat r - unat d else unat r)"
proof -
  define D R B where "D = unat d" and "R = unat r" and "B = (2 :: nat) ^ (LENGTH('a) - 1)"
  note defs = D_def [symmetric] R_def [symmetric] B_def [symmetric]
  let ?x = "int D - int R - 1"
  have "int (unat (d - r - 1)) = ?x mod 2 ^ LENGTH('a)" by (simp add: D_def R_def uint_word_ariths mod_simps)
  moreover have "2 ^ LENGTH('a) = 2 * int B" using len_power [where 'a = 'a] by (metis B_def of_nat_mult of_nat_numeral of_nat_power)
  ultimately have u: "int (unat (d - r - 1)) = ?x mod (2 * int B)" by simp
  have "B \<le> unat (d - r - 1) \<longleftrightarrow> D \<le> R"
  proof (cases "D \<le> R")
    case True
    then have x: "- int B \<le> ?x" "?x < 0" using assms(2) unfolding defs by linarith+
    have "?x mod (2 * int B) = (?x + 2 * int B) mod (2 * int B)" by simp
    also have "\<dots> = ?x + 2 * int B" using x by (intro mod_pos_pos_trivial) simp_all
    finally show ?thesis using True x u by linarith
  next
    case False
    then have x: "0 \<le> ?x" "?x < int B" using assms(3) unfolding defs by linarith+
    then have "?x mod (2 * int B) = ?x" by (intro mod_pos_pos_trivial) simp_all
    then show ?thesis using False x u by linarith
  qed
  then have "bit (d - r - 1) (LENGTH('a) - 1) \<longleftrightarrow> unat d \<le> unat r" unfolding top_bit_unat defs .
  then have s: "s = (if unat d \<le> unat r then - 1 else 0)" unfolding s_def sign_mask by simp
  show "s AND 1 = of_bool (unat d \<le> unat r)" by (simp add: s)
  show "unat (r - (d AND s)) = (if unat d \<le> unat r then unat r - unat d else unat r)"
    by (simp add: s unat_sub word_le_nat_alt)
qed

text \<open>Long division, one binary digit at a time.\<close>

lemma long_division:
  fixes Y D :: nat
  assumes "0 < D"
  defines "R \<equiv> 2 * (Y div 2 mod D) + Y mod 2"
  shows "Y div D = 2 * (Y div 2 div D) + of_bool (D \<le> R)" and "Y mod D = (if D \<le> R then R - D else R)" and "R < 2 * D" and "R \<le> Y"
proof -
  let ?Q = "Y div 2 div D"
  have y: "Y = 2 * ?Q * D + R"
  proof -
    have "Y = 2 * (D * ?Q + Y div 2 mod D) + Y mod 2" by simp
    then show ?thesis unfolding R_def by (simp only: distrib_left mult.assoc mult.left_commute mult.commute [of D] add.assoc)
  qed
  show "R \<le> Y" using y by simp
  have "Y div 2 mod D < D" using assms(1) by simp
  then have "Y div 2 mod D + 1 \<le> D" by simp
  then show r: "R < 2 * D" unfolding R_def by linarith
  show "Y div D = 2 * ?Q + of_bool (D \<le> R)"
  proof (rule div_nat_eqI)
    show "D * (2 * ?Q + of_bool (D \<le> R)) \<le> Y" using y by (simp add: algebra_simps)
    show "Y < D * Suc (2 * ?Q + of_bool (D \<le> R))" using y r by (simp add: algebra_simps)
  qed
  then show "Y mod D = (if D \<le> R then R - D else R)"
    using y div_mult_mod_eq [of Y D] by (cases "D \<le> R") (auto simp: algebra_simps)
qed

text \<open>
  The state before the last \<open>sr\<close> steps of dividing \<open>X\<close>: the high digits of \<open>X\<close> are divided, the low \<open>sr\<close> digits stand in the
  high part of \<open>n\<close>, above the quotient so far.
\<close>

definition div_state :: "nat \<Rightarrow> nat \<Rightarrow> nat \<Rightarrow> 'a::len word \<Rightarrow> 'a word \<Rightarrow> 'a word \<Rightarrow> bool" where
  "div_state X D sr r n c \<longleftrightarrow> unat r = X div 2 ^ sr mod D \<and>
     unat n = X mod 2 ^ sr * 2 ^ (LENGTH('a) - sr) + X div 2 ^ sr div D div 2 \<and> unat c = X div 2 ^ sr div D mod 2"

lemma high_digits_less: "X < 2 ^ N \<Longrightarrow> sr \<le> N \<Longrightarrow> X div 2 ^ sr div D < (2 :: nat) ^ (N - sr)"
proof -
  assume "X < 2 ^ N" "sr \<le> N"
  then have "X < 2 ^ (N - sr) * 2 ^ sr" by (simp flip: power_add)
  then have "X div 2 ^ sr < 2 ^ (N - sr)" by (rule less_mult_imp_div_less)
  then show ?thesis using div_le_dividend [of "X div 2 ^ sr" D] by linarith
qed

lemma mod_power_Suc: "X mod 2 ^ Suc sr = X div 2 ^ sr mod 2 * 2 ^ sr + X mod (2 :: nat) ^ sr"
  by (simp only: power_Suc mod_mult2_eq mult.commute [of 2]) (simp add: mult.commute)

lemma div_state_top:
  fixes n :: "'a::len word"
  assumes "div_state X D (Suc sr) r n c" and X: "X < 2 ^ LENGTH('a)" and sr: "Suc sr \<le> LENGTH('a)"
  shows "unat n div 2 ^ (LENGTH('a) - 1) = X div 2 ^ sr mod 2"
    and "(2 * unat n + unat c) mod 2 ^ LENGTH('a) = X mod 2 ^ sr * 2 ^ (LENGTH('a) - sr) + X div 2 ^ Suc sr div D"
proof -
  let ?N = "LENGTH('a)" let ?Q = "X div 2 ^ Suc sr div D" and ?b = "X div 2 ^ sr mod 2" and ?l = "X mod 2 ^ sr"
  have q: "?Q < 2 ^ (?N - Suc sr)" using X sr by (rule high_digits_less)
  have p: "(2 :: nat) ^ sr * 2 ^ (?N - Suc sr) = 2 ^ (?N - 1)" "(2 :: nat) ^ (?N - sr) = 2 * 2 ^ (?N - Suc sr)" "(2 :: nat) ^ ?N = 2 * 2 ^ (?N - 1)"
    using sr by (simp_all flip: power_add power_Suc add: Suc_diff_Suc)
  have n: "unat n = ?b * 2 ^ (?N - 1) + (?l * 2 ^ (?N - Suc sr) + ?Q div 2)" and c: "unat c = ?Q mod 2"
    using assms(1) by (simp_all add: div_state_def mod_power_Suc distrib_right mult.assoc p(1) del: power_Suc)
  have "?l + 1 \<le> 2 ^ sr" by (simp add: Suc_le_eq)
  then have "(?l + 1) * 2 ^ (?N - Suc sr) \<le> 2 ^ sr * 2 ^ (?N - Suc sr)" by (rule mult_le_mono1)
  then have l: "?l * 2 ^ (?N - Suc sr) + 2 ^ (?N - Suc sr) \<le> 2 ^ (?N - 1)" by (simp add: p(1))
  show "unat n div 2 ^ (?N - 1) = ?b"
    unfolding n using l q by (intro div_nat_eqI) (simp_all add: algebra_simps)
  have "2 * unat n + unat c = ?b * 2 ^ ?N + (?l * 2 ^ (?N - sr) + ?Q)"
    unfolding n c p(2,3) by (simp add: algebra_simps)
  moreover have "?l * 2 ^ (?N - sr) + ?Q < 2 ^ ?N" using l q unfolding p(2,3) by (simp add: algebra_simps)
  ultimately show "(2 * unat n + unat c) mod 2 ^ ?N = ?l * 2 ^ (?N - sr) + ?Q" by simp
qed

lemma div_loop_spec:
  fixes d r n c :: "'a::len word"
  assumes "div_state X (unat d) sr r n c" and "X < 2 ^ LENGTH('a)" and "0 < unat d" and "sr \<le> LENGTH('a)"
    and "unat d \<le> 2 ^ (LENGTH('a) - 1) \<or> sr \<le> 1 \<and> 2 ^ (LENGTH('a) - 1) \<le> X"
  shows "\<exists>r' n' c'. div_loop sr d r n c = (r', n', c') \<and> div_state X (unat d) 0 r' n' c'"
  using assms
proof (induction sr arbitrary: r n c)
  case (Suc sr)
  let ?N = "LENGTH('a)" let ?Y = "X div 2 ^ sr" let ?D = "unat d" let ?R = "2 * (?Y div 2 mod ?D) + ?Y mod 2"
  note ld = long_division [OF Suc.prems(3), of ?Y]
  have y: "X div 2 ^ Suc sr = ?Y div 2" by (simp only: power_Suc2 div_mult2_eq)
  have Y: "?Y < 2 ^ ?N" using Suc.prems(2) div_le_dividend [of X "2 ^ sr"] by linarith
  define r1 where "r1 = push_bit 1 r OR drop_bit (?N - 1) n"
  define n1 where "n1 = push_bit 1 n OR c"
  define s where "s = signed_drop_bit (?N - 1) (d - r1 - 1)"
  have t: "unat (drop_bit (?N - 1) n) = ?Y mod 2"
    unfolding unat_drop_bit_eq unfolding drop_bit_eq_div by (rule div_state_top(1) [OF Suc.prems(1,2,4)])
  have "unat r = ?Y div 2 mod ?D" using Suc.prems(1) unfolding div_state_def y by blast
  then have r1: "unat r1 = ?R" using shift_in [of "drop_bit (?N - 1) n" r] t ld(4) Y by (simp add: r1_def)
  have "unat c < 2" using Suc.prems(1) by (simp add: div_state_def)
  then have n1: "unat n1 = X mod 2 ^ sr * 2 ^ (?N - sr) + ?Y div 2 div ?D"
    using shift_in [of c n] unfolding div_state_top(2) [OF Suc.prems(1,2,4)] n1_def y by blast
  have big: "2 ^ (?N - 1) < ?D \<Longrightarrow> sr = 0 \<and> 2 ^ (?N - 1) \<le> X" using Suc.prems(5) by auto
  have dN: "?D < 2 * 2 ^ (?N - 1)" "X < 2 * 2 ^ (?N - 1)" using len_power [where 'a = 'a] Suc.prems(2) unsigned_less [of d, where 'a = nat] by simp_all
  have "2 ^ (?N - 1) < ?D \<Longrightarrow> ?R = X" using big dN(2) by simp
  then have ok: "?D \<le> ?R \<Longrightarrow> ?R - ?D < 2 ^ (?N - 1)" "?R < ?D \<Longrightarrow> ?D - ?R - 1 < 2 ^ (?N - 1)"
    using ld(3) big dN by linarith+
  have s: "s AND 1 = of_bool (?D \<le> ?R)" "unat (r1 - (d AND s)) = (if ?D \<le> ?R then ?R - ?D else ?R)"
    using step_remainder [of r1 d] ld(3) ok by (simp_all add: r1 s_def)
  have "div_state X ?D sr (r1 - (d AND s)) n1 (s AND 1)"
    using s n1 ld(1,2) by (simp add: div_state_def)
  from Suc.IH [OF this Suc.prems(2,3)] Suc.prems(4,5) show ?case by (auto simp: Let_def r1_def n1_def s_def)
qed auto

section \<open>The division of any width\<close>

abbreviation bits :: "'a::len word \<Rightarrow> nat" where
  "bits w \<equiv> floorlog 2 (unat w)"

lemma bits_le: "bits (w :: 'a::len word) \<le> LENGTH('a)"
  using unsigned_less [of w, where 'a = nat] by (simp add: floorlog_le_iff)

lemma bits_bounds: "w \<noteq> 0 \<Longrightarrow> 2 ^ (bits w - 1) \<le> unat w \<and> unat w < 2 ^ bits w \<and> 0 < bits w"
  using floorlog_bounds [of "unat w" 2] floorlog_eq_zero_iff [of 2 "unat w"] by (simp add: unat_gt_0 unat_eq_zero)

lemma shift_count_bits:
  fixes n d :: "'a::len word"
  assumes "LENGTH('a) \<le> 64"
  shows "bits n < bits d \<Longrightarrow> shift_count n d > of_nat (LENGTH('a) - 1)" and "bits d \<le> bits n \<Longrightarrow> shift_count n d = of_nat (bits n - bits d)"
proof -
  have s: "shift_count n d = of_nat (LENGTH('a) - bits d) - of_nat (LENGTH('a) - bits n)"
    by (simp add: shift_count_def clz_def floorlog_def)
  note b = bits_le [of n] bits_le [of d]
  show "shift_count n d = of_nat (bits n - bits d)" if "bits d \<le> bits n"
    using that b unfolding s by (simp add: of_nat_diff)
  show "shift_count n d > of_nat (LENGTH('a) - 1)" if "bits n < bits d"
  proof -
    have "shift_count n d = - of_nat (bits d - bits n)" using that b unfolding s by (simp add: of_nat_diff)
    also have "\<dots> = of_nat (2 ^ 32 - (bits d - bits n))" using b assms that by (simp add: of_nat_diff)
    finally have "unat (shift_count n d) = 2 ^ 32 - (bits d - bits n)"
      using that b assms by (simp only: unat_of_nat) simp
    moreover have "unat (of_nat (LENGTH('a) - 1) :: u32) = LENGTH('a) - 1" using assms by (simp add: unat_of_nat)
    ultimately show ?thesis using that b assms by (simp add: word_less_nat_alt)
  qed
qed

lemma div_start:
  fixes n d :: "'a::len word"
  assumes "d \<noteq> 0" and "bits d \<le> bits n"
  defines "sr \<equiv> bits n - bits d + 1"
  shows "div_state (unat n) (unat d) sr (drop_bit sr n) (push_bit (LENGTH('a) - sr) n) 0"
    and "unat d \<le> 2 ^ (LENGTH('a) - 1) \<or> sr \<le> 1 \<and> 2 ^ (LENGTH('a) - 1) \<le> unat n" and "sr \<le> LENGTH('a)"
proof -
  let ?N = "LENGTH('a)"
  have d: "2 ^ (bits d - 1) \<le> unat d" "0 < bits d" "unat d < 2 ^ bits d" using bits_bounds [OF assms(1)] by simp_all
  have n0: "n \<noteq> 0" using assms(2) d(2) by (auto simp: floorlog_def)
  note n = bits_bounds [OF n0] and le = bits_le [of n] bits_le [of d]
  show sr: "sr \<le> ?N" using d(2) le assms(2) by (simp add: sr_def)
  have "bits d - 1 + sr = bits n" using d(2) assms(2) by (simp add: sr_def)
  then have "unat n < 2 ^ (bits d - 1) * 2 ^ sr" using n unfolding power_add [symmetric] by simp
  then have h: "unat n div 2 ^ sr < unat d" using d(1) less_mult_imp_div_less by fastforce
  have r: "unat (drop_bit sr n) = unat n div 2 ^ sr" unfolding unat_drop_bit_eq unfolding drop_bit_eq_div by (rule refl)
  have "unat (push_bit (?N - sr) n) = unat n * 2 ^ (?N - sr) mod 2 ^ ?N"
    unfolding unsigned_push_bit_eq unfolding push_bit_eq_mult take_bit_eq_mod by (rule refl)
  also have "(2 :: nat) ^ ?N = 2 ^ sr * 2 ^ (?N - sr)" using sr by (simp flip: power_add)
  finally have p: "unat (push_bit (?N - sr) n) = unat n mod 2 ^ sr * 2 ^ (?N - sr)" by (simp add: mult_mod_left)
  show "div_state (unat n) (unat d) sr (drop_bit sr n) (push_bit (?N - sr) n) 0"
    using h r p by (simp add: div_state_def)
  show "unat d \<le> 2 ^ (?N - 1) \<or> sr \<le> 1 \<and> 2 ^ (?N - 1) \<le> unat n"
  proof (cases "bits d = ?N")
    case True
    then have "bits n = ?N" using le assms(2) by simp
    then show ?thesis using n True by (simp add: sr_def)
  next
    case False
    then have "(2 :: nat) ^ bits d \<le> 2 ^ (?N - 1)" using le by (intro power_increasing) simp_all
    then show ?thesis using d(3) by linarith
  qed
qed

lemma div_loop_result:
  fixes n d :: "'a::len word"
  assumes "d \<noteq> 0" and "bits d \<le> bits n"
  shows "\<exists>n' c. div_loop (bits n - bits d + 1) d (drop_bit (bits n - bits d + 1) n) (push_bit (LENGTH('a) - (bits n - bits d + 1)) n) 0 =
    (n mod d, n', c) \<and> push_bit 1 n' OR c = n div d \<and> unat c < 2"
proof -
  have "0 < unat d" using assms(1) by (simp add: unat_gt_0)
  from div_loop_spec [OF div_start(1) [OF assms] _ this div_start(3,2) [OF assms]] obtain r' n' c'
    where l: "div_loop (bits n - bits d + 1) d (drop_bit (bits n - bits d + 1) n) (push_bit (LENGTH('a) - (bits n - bits d + 1)) n) 0 = (r', n', c')"
    and s: "div_state (unat n) (unat d) 0 r' n' c'" by auto
  have "r' = n mod d" using s by (simp add: div_state_def unat_mod_distrib word_unat_eq_iff)
  moreover have c: "unat c' < 2" using s by (simp add: div_state_def)
  moreover have "unat (push_bit 1 n' OR c') = unat n div unat d"
  proof -
    have "unat n div unat d < 2 ^ LENGTH('a)" using unsigned_less [of "n div d", where 'a = nat] by (simp add: unat_div_distrib)
    moreover have "2 * unat n' + unat c' = unat n div unat d" using s by (simp add: div_state_def)
    ultimately show ?thesis using shift_in [OF c, of n'] by simp
  qed
  then have "push_bit 1 n' OR c' = n div d" by (simp add: unat_div_distrib word_unat_eq_iff)
  ultimately show ?thesis using l by blast
qed

lemma zero_bits: "bits (w :: 'a::len word) = 0 \<longleftrightarrow> w = 0"
  using bits_bounds [of w] by (cases "w = 0") (simp_all add: floorlog_def)

lemma less_bits: "bits n < bits d \<Longrightarrow> (n :: 'a::len word) < d"
proof -
  assume b: "bits n < bits d"
  then have d: "2 ^ (bits d - 1) \<le> unat d" using bits_bounds [of d] zero_bits [of d] by fastforce
  have "unat n < 2 ^ bits n" using bits_bounds [of n] by (cases "n = 0") simp_all
  moreover have "(2 :: nat) ^ bits n \<le> 2 ^ (bits d - 1)" using b by (intro power_increasing) simp_all
  ultimately show ?thesis using d unfolding word_less_nat_alt by linarith
qed

lemma word_div_less: "(n :: 'a::len word) < d \<Longrightarrow> n div d = 0 \<and> n mod d = n"
  by (simp add: word_less_nat_alt word_unat_eq_iff unat_div_distrib unat_mod_distrib)

lemma udivXi3_eq:
  fixes n d :: "'a::len word"
  assumes "LENGTH('a) \<le> 64" and d: "d \<noteq> 0"
  shows "udivXi3 n d = n div d" and "umodXi3 n d = n mod d"
proof -
  let ?N = "LENGTH('a)"
  have "udivXi3 n d = n div d \<and> umodXi3 n d = n mod d"
  proof (cases "bits n < bits d")
    case True
    then show ?thesis using shift_count_bits(1) [OF assms(1) True] word_div_less [OF less_bits [OF True]]
      by (simp add: udivXi3_def umodXi3_def Let_def)
  next
    case False
    let ?k = "bits n - bits d"
    have s: "shift_count n d = of_nat ?k" using shift_count_bits(2) [OF assms(1)] False by simp
    have b: "0 < bits d" "bits n \<le> ?N" "bits d \<le> ?N" using zero_bits [of d] d bits_le by auto
    have k: "?k \<le> ?N - 1" using b by simp
    have small: "unat (of_nat i :: u32) = i" if "i \<le> 64" for i using that by (simp add: unat_of_nat)
    have k64: "?k \<le> 64" "?N - 1 \<le> 64" using k assms(1) by simp_all
    have le: "\<not> (of_nat ?k :: u32) > of_nat (?N - 1)" and eq: "(of_nat ?k :: u32) = of_nat (?N - 1) \<longleftrightarrow> ?k = ?N - 1"
      unfolding word_less_nat_alt word_unat_eq_iff [where 'a = 32] small [OF k64(1)] small [OF k64(2)] using k by simp_all
    have u: "unat (of_nat ?k + 1 :: u32) = ?k + 1" using k assms(1) by (simp add: unat_word_ariths unat_of_nat)
    show ?thesis
    proof (cases "?k = ?N - 1")
      case True
      then have "bits d = 1" using b by simp
      then have "d = 1" using bits_bounds [OF d] by (simp add: word_unat_eq_iff)
      moreover have "udivXi3 n d = n" "umodXi3 n d = 0"
        unfolding udivXi3_def umodXi3_def s Let_def using le eq True by simp_all
      ultimately show ?thesis by simp
    next
      case False
      then show ?thesis using div_loop_result [OF d, of n] \<open>\<not> bits n < bits d\<close> le eq u
        by (auto simp: udivXi3_def umodXi3_def s Let_def)
    qed
  qed
  then show "udivXi3 n d = n div d" and "umodXi3 n d = n mod d" by simp_all
qed

section \<open>Division on halves\<close>

lemma unat_ucast_up: "unat (ucast (w :: u32) :: u64) = unat w"
proof -
  have "unat w < 2 ^ 32" using unsigned_less [of w, where 'a = nat] by simp
  then have "unat w < 2 ^ 64" by (rule less_trans) simp
  then show ?thesis unfolding unsigned_ucast_eq by (intro take_bit_nat_eq_self) simp
qed

lemma bit_dword: "bit (dword h l) i \<longleftrightarrow> (if i < 32 then bit l i else bit h (i - 32))"
  by (auto simp: dword_def bit_or_iff bit_push_bit_iff bit_ucast_iff dest: bit_imp_le_length)

lemma dword_parts [simp]: "dword (high w) (low w) = w"
  by (rule bit_word_eqI) (auto simp: bit_dword high_def low_def bit_ucast_iff bit_drop_bit_eq)

lemma parts_dword [simp]: "high (dword h l) = h" "low (dword h l) = l"
  by (rule bit_word_eqI; simp add: bit_dword high_def low_def bit_ucast_iff bit_drop_bit_eq)+

lemma unat_dword: "unat (dword h l) = unat h * 2 ^ 32 + unat l"
proof -
  have "dword h l = push_bit 32 (ucast h) + ucast l"
    unfolding dword_def by (rule disjunctive_add [symmetric]) (auto simp: bit_push_bit_iff bit_ucast_iff dest: bit_imp_le_length)
  then have eq: "unat (dword h l) = (unat h mod 2 ^ 64 * 2 ^ 32 mod 2 ^ 64 + unat l mod 2 ^ 64) mod 2 ^ 64"
    by (simp add: unat_word_ariths push_bit_eq_mult unsigned_ucast_eq take_bit_eq_mod)
  have ar: "x < 2 ^ 32 \<Longrightarrow> y < 2 ^ 32 \<Longrightarrow> (x mod 2 ^ 64 * 2 ^ 32 mod 2 ^ 64 + y mod 2 ^ 64) mod 2 ^ 64 = x * 2 ^ 32 + y" for x y :: nat
    by simp
  have "unat w < 2 ^ 32" for w :: u32 using unsigned_less [of w, where 'a = nat] by simp
  then show ?thesis unfolding eq by (intro ar)
qed

lemma bits_dword: "bits (dword h l) = (if h = 0 then bits l else 32 + bits h)"
proof (cases "h = 0")
  case True
  then show ?thesis by (simp add: unat_dword)
next
  case False
  have l: "unat l < 2 ^ 32" using unsigned_less [of l, where 'a = nat] by simp
  have "2 ^ (32 + bits h - 1) \<le> unat (dword h l)"
  proof -
    have "32 + bits h - 1 = bits h - 1 + 32" using bits_bounds [OF False] by simp
    then have "(2 :: nat) ^ (32 + bits h - 1) = 2 ^ (bits h - 1) * 2 ^ 32" by (simp only: power_add)
    also have "\<dots> \<le> unat h * 2 ^ 32" using bits_bounds [OF False] by (intro mult_le_mono1) simp
    finally show ?thesis by (simp add: unat_dword)
  qed
  moreover have "unat (dword h l) < 2 ^ (32 + bits h)"
  proof -
    have "unat h + 1 \<le> 2 ^ bits h" using bits_bounds [OF False] by simp
    then have "(unat h + 1) * 2 ^ 32 \<le> 2 ^ bits h * 2 ^ 32" by (rule mult_le_mono1)
    then show ?thesis using l unfolding unat_dword power_add mult.commute [of "2 ^ 32"] distrib_right mult_1 by linarith
  qed
  ultimately show ?thesis using False by (intro antisym) (simp_all add: floorlog_leI floorlog_geI)
qed

text \<open>The loop on halves is the loop of the other division at 64 bits.\<close>

lemma dword_push: "k \<le> 32 \<Longrightarrow> push_bit k (dword h l) = dword (push_bit k h OR drop_bit (32 - k) l) (push_bit k l)"
  by (rule bit_word_eqI) (auto simp: bit_dword bit_or_iff bit_push_bit_iff bit_drop_bit_eq ac_simps dest: bit_imp_le_length)

lemma dword_push_big: "32 \<le> k \<Longrightarrow> push_bit k (dword h l) = dword (push_bit (k - 32) l) 0"
  by (rule bit_word_eqI) (auto simp: bit_dword bit_push_bit_iff dest: bit_imp_le_length)

lemma dword_drop: "k \<le> 32 \<Longrightarrow> drop_bit k (dword h l) = dword (drop_bit k h) (push_bit (32 - k) h OR drop_bit k l)"
  by (rule bit_word_eqI) (auto simp: bit_dword bit_or_iff bit_push_bit_iff bit_drop_bit_eq ac_simps dest: bit_imp_le_length)

lemma dword_drop_big: "32 \<le> k \<Longrightarrow> drop_bit k (dword h l) = dword 0 (drop_bit (k - 32) h)"
  by (rule bit_word_eqI) (auto simp: bit_dword bit_drop_bit_eq dest: bit_imp_le_length)

lemma dword_or: "dword h l OR ucast c = dword h (l OR c)"
  by (rule bit_word_eqI) (auto simp: bit_dword bit_or_iff bit_ucast_iff dest: bit_imp_le_length)

lemma dword_shift: "push_bit 1 (dword h l) OR ucast c = dword (push_bit 1 h OR drop_bit 31 l) (push_bit 1 l OR c)"
  using dword_push [of 1 h l] dword_or by simp

lemma ucast_up_down [simp]: "ucast (ucast (c :: u32) :: u64) = c"
  by (rule bit_word_eqI) (simp add: bit_ucast_iff)

lemma dword_top: "drop_bit 63 (dword h l) = ucast (drop_bit 31 h)"
  by (rule bit_word_eqI) (auto simp: bit_dword bit_drop_bit_eq bit_ucast_iff dest: bit_imp_le_length)

lemma half_loop_refines:
  "half_loop sr d rh rl qh ql c =
    (let (r, q, c) = div_loop sr d (dword rh rl) (dword qh ql) (ucast c) in (r, q, ucast c))"
proof (induction sr arbitrary: rh rl qh ql c)
  case (Suc sr)
  have s: "ucast (ucast (signed_drop_bit 63 w AND 1) :: u32) = signed_drop_bit 63 w AND 1"
    for w :: u64 using sign_mask [of w] by simp
  show ?case
    unfolding half_loop.simps div_loop.simps Let_def Suc.IH by (simp add: dword_top dword_shift [simplified] s Let_def)
qed simp

text \<open>Started with the dividend shifted apart, the loop divides.\<close>

lemma finish_divides:
  assumes "d \<noteq> 0" and "bits d \<le> bits n" and "sr = bits n - bits d + 1"
    and "dword rh rl = drop_bit sr n" and "dword qh ql = push_bit (64 - sr) n"
  shows "udivmod_finish sr d rh rl qh ql = Some (n div d, n mod d)"
proof -
  obtain n' c where l: "div_loop sr d (dword rh rl) (dword qh ql) (ucast (0 :: u32)) = (n mod d, n', c)" "push_bit 1 n' OR c = n div d" "unat c < 2"
    using div_loop_result [OF assms(1,2)] assms(3-5) by auto
  have "ucast (ucast c :: u32) = c" using unat_bool [OF l(3)] by auto
  then show ?thesis using l by (simp add: udivmod_finish_def half_loop_refines)
qed

lemma ctz_first:
  fixes d :: "'a::len word"
  assumes "d \<noteq> 0"
  shows "ctz d < LENGTH('a)" and "bit d (ctz d)" and "i < ctz d \<Longrightarrow> \<not> bit d i"
proof -
  let ?xs = "takeWhile (\<lambda>i. \<not> bit d i) [0..<LENGTH('a)]"
  obtain j where j: "j < LENGTH('a)" "bit d j" using assms bit_word_eqI [of d 0] by auto
  show k: "ctz d < LENGTH('a)"
  proof (rule ccontr)
    assume "\<not> ctz d < LENGTH('a)"
    then have "?xs = [0..<LENGTH('a)]" using length_takeWhile_le [of "\<lambda>i. \<not> bit d i" "[0..<LENGTH('a)]"]
      by (metis ctz_def length_upt diff_zero le_antisym linorder_not_less takeWhile_eq_take take_all_iff order_refl)
    then have "\<forall>i \<in> set [0..<LENGTH('a)]. \<not> bit d i" by (simp only: takeWhile_eq_all_conv)
    with j show False by simp
  qed
  show "bit d (ctz d)" using nth_length_takeWhile [of "\<lambda>i. \<not> bit d i" "[0..<LENGTH('a)]"] k by (simp add: ctz_def)
  show "\<not> bit d i" if "i < ctz d"
    using that k nth_mem [of i ?xs] takeWhile_nth [of i "\<lambda>i. \<not> bit d i" "[0..<LENGTH('a)]"] by (auto simp: ctz_def dest: set_takeWhileD)
qed

lemma power_of_two:
  fixes d :: "'a::len word"
  assumes "d \<noteq> 0" and "d AND (d - 1) = 0"
  shows "unat d = 2 ^ ctz d"
proof -
  let ?k = "ctz d" let ?D = "unat d" let ?m = "?D div 2 ^ Suc ?k"
  note c = ctz_first [OF assms(1)]
  have "take_bit (Suc ?k) ?D = 2 ^ ?k"
    by (rule bit_eqI) (use c in \<open>auto simp: bit_take_bit_iff bit_exp_iff bit_unsigned_iff less_Suc_eq\<close>)
  then have D: "?D = ?m * 2 ^ Suc ?k + 2 ^ ?k" by (metis div_mult_mod_eq take_bit_eq_mod)
  have "unat (d - 1) = ?D - 1" using assms(1) by (simp add: unat_minus_one)
  then have "unat (d - 1) = 2 ^ Suc ?k * ?m + (2 ^ ?k - 1)" using D by (simp add: mult.commute)
  moreover have "(2 :: nat) ^ ?k - 1 < 2 ^ Suc ?k" by (simp add: less_imp_diff_less)
  ultimately have m: "unat (d - 1) div 2 ^ Suc ?k = ?m" by (simp only: div_mult_self4 [OF power_not_zero [OF zero_neq_numeral [symmetric]]] div_less add_0_right add.right_neutral)
  have "drop_bit (Suc ?k) (?D AND unat (d - 1)) = 0" using arg_cong [OF assms(2), of unat] by (simp add: unsigned_and_eq)
  then have "drop_bit (Suc ?k) ?D AND drop_bit (Suc ?k) (unat (d - 1)) = 0" by (simp only: drop_bit_and)
  then have "?m AND ?m = 0" by (simp only: drop_bit_eq_div m)
  then have "?m = 0" by simp
  then show ?thesis using D by simp
qed

lemma power_of_two_divides:
  fixes n d :: "'a::len word"
  assumes "d \<noteq> 0" and "d AND (d - 1) = 0"
  shows "n div d = drop_bit (ctz d) n" and "n mod d = n AND (d - 1)"
proof -
  note p = power_of_two [OF assms]
  show "n div d = drop_bit (ctz d) n"
    by (simp add: word_unat_eq_iff unat_div_distrib p unat_drop_bit_eq) (simp add: drop_bit_eq_div)
  have "d = 2 ^ ctz d"
  proof (rule bit_word_eqI)
    fix i assume "i < LENGTH('a)"
    moreover have "bit d i = bit (unat d) i" by (simp add: bit_unsigned_iff)
    ultimately show "bit d i = bit (2 ^ ctz d :: 'a word) i" by (simp add: p bit_exp_iff)
  qed
  then have "d - 1 = mask (ctz d)" by (simp add: mask_eq_exp_minus_1)
  then have "n AND (d - 1) = take_bit (ctz d) n" by (simp add: take_bit_eq_mask)
  then show "n mod d = n AND (d - 1)"
    by (simp add: word_unat_eq_iff unat_mod_distrib p unsigned_take_bit_eq) (simp add: take_bit_eq_mod)
qed

lemma shift_count_halves:
  assumes "(nh :: u32) \<noteq> 0" and "(dh :: u32) \<noteq> 0"
  shows "bits nh < bits dh \<Longrightarrow> of_nat (clz dh) - of_nat (clz nh) > (31 :: u32)"
    and "bits dh \<le> bits nh \<Longrightarrow> of_nat (clz dh) - of_nat (clz nh) = (of_nat (bits nh - bits dh) :: u32)"
proof -
  have s: "of_nat (clz dh) - of_nat (clz nh) = shift_count nh dh" using assms by (simp add: shift_count_def)
  show "bits nh < bits dh \<Longrightarrow> of_nat (clz dh) - of_nat (clz nh) > (31 :: u32)" unfolding s using shift_count_bits(1) [of nh dh] by simp
  show "bits dh \<le> bits nh \<Longrightarrow> of_nat (clz dh) - of_nat (clz nh) = (of_nat (bits nh - bits dh) :: u32)"
    unfolding s using shift_count_bits(2) [where n = nh and d = dh] by simp
qed

lemma not_power_bits:
  fixes d :: u32
  assumes "d \<noteq> 0" and "d AND (d - 1) \<noteq> 0"
  shows "2 \<le> bits d"
proof -
  have "bits d \<noteq> 1"
  proof
    assume "bits d = 1"
    then have "d = 1" using bits_bounds [OF assms(1)] by (simp add: word_unat_eq_iff)
    with assms(2) show False by simp
  qed
  then show ?thesis using zero_bits [of d] assms(1) by auto
qed

text \<open>The cases of \<open>__udivmoddi4\<close>, each for the parts of dividend and divisor.\<close>

lemma udivmod_big:
  assumes nh: "nh \<noteq> 0" and dh: "dh \<noteq> 0" and sr: "of_nat (clz dh) - of_nat (clz nh) = (sr :: u32)" "\<not> sr > 31"
  shows "(if unat (sr + 1) = 32 then udivmod_finish (unat (sr + 1)) (dword dh dl) 0 nh nl 0
     else udivmod_finish (unat (sr + 1)) (dword dh dl) (drop_bit (unat (sr + 1)) nh) (push_bit (32 - unat (sr + 1)) nh OR drop_bit (unat (sr + 1)) nl)
       (push_bit (32 - unat (sr + 1)) nl) 0) = Some (dword nh nl div dword dh dl, dword nh nl mod dword dh dl)"
proof -
  let ?n = "dword nh nl" and ?d = "dword dh dl" and ?k = "bits nh - bits dh"
  have le: "bits dh \<le> bits nh" using shift_count_halves(1) [OF nh dh] sr by (meson not_le)
  have k: "?k \<le> 31" using bits_le [of nh] zero_bits [of dh] dh by simp
  have "sr = of_nat ?k" using shift_count_halves(2) [OF nh dh le] sr by simp
  then have s: "unat (sr + 1) = ?k + 1" using k by (simp add: unat_word_ariths unat_of_nat)
  have d0: "?d \<noteq> 0" using dh unat_dword [of dh dl] by (auto simp: word_unat_eq_iff)
  have b: "bits ?d \<le> bits ?n" "?k + 1 = bits ?n - bits ?d + 1" using nh dh le by (simp_all add: bits_dword)
  have "dword (drop_bit (?k + 1) nh) (push_bit (32 - (?k + 1)) nh OR drop_bit (?k + 1) nl) = drop_bit (?k + 1) ?n"
    "dword (push_bit (32 - (?k + 1)) nl) 0 = push_bit (64 - (?k + 1)) ?n"
    using k dword_drop [of "?k + 1" nh nl] dword_push_big [of "64 - (?k + 1)" nh nl] by simp_all
  moreover have "dword 0 nh = drop_bit 32 ?n" "dword nl 0 = push_bit 32 ?n" by (simp_all add: dword_drop_big dword_push_big)
  ultimately show ?thesis unfolding s using finish_divides [OF d0 b(1) b(2)] by auto
qed

lemma udivmod_small_divisor:
  assumes nh: "nh \<noteq> 0" and dl: "dl \<noteq> 0" "dl AND (dl - 1) \<noteq> 0" and sr: "sr = unat (1 + 32 + of_nat (clz dl) - of_nat (clz nh) :: u32)"
  shows "(if sr = 32 then udivmod_finish sr (dword 0 dl) 0 nh nl 0
     else if sr < 32 then udivmod_finish sr (dword 0 dl) (drop_bit sr nh) (push_bit (32 - sr) nh OR drop_bit sr nl) (push_bit (32 - sr) nl) 0
     else udivmod_finish sr (dword 0 dl) 0 (drop_bit (sr - 32) nh) (push_bit (64 - sr) nh OR drop_bit (sr - 32) nl) (push_bit (64 - sr) nl)) =
     Some (dword nh nl div dword 0 dl, dword nh nl mod dword 0 dl)"
proof -
  let ?n = "dword nh nl" and ?d = "dword 0 dl"
  have b: "0 < bits nh" "bits nh \<le> 32" "bits dl \<le> 32" using bits_bounds [OF nh] bits_le [of nh] bits_le [of dl] by simp_all
  note b2 = not_power_bits [OF dl]
  have c: "(1 + 32 + of_nat (clz dl) - of_nat (clz nh) :: u32) = of_nat (33 + bits nh - bits dl)"
    using b by (simp add: clz_def of_nat_diff)
  have "sr = 33 + bits nh - bits dl" unfolding sr c using b by (simp only: unat_of_nat) simp
  then have s: "sr = bits ?n - bits ?d + 1" using nh b by (simp add: bits_dword)
  then have s2: "2 \<le> sr" "sr \<le> 63" using nh b b2 by (simp_all add: bits_dword)
  have d0: "?d \<noteq> 0" using dl(1) unat_dword [of 0 dl] by (auto simp: word_unat_eq_iff)
  have le: "bits ?d \<le> bits ?n" using nh b by (simp add: bits_dword)
  note f = finish_divides [OF d0 le s]
  have "sr < 32 \<Longrightarrow> ?thesis" using s2 f dword_drop [of sr nh nl] dword_push_big [of "64 - sr" nh nl] by simp
  moreover have "sr = 32 \<Longrightarrow> ?thesis" using f dword_drop_big [of 32 nh nl] dword_push_big [of 32 nh nl] by simp
  moreover have "32 < sr \<Longrightarrow> ?thesis" using s2 f dword_drop_big [of sr nh nl] dword_push [of "64 - sr" nh nl] by simp
  ultimately show ?thesis by linarith
qed

lemma div_dword_high:
  assumes "dh \<noteq> 0"
  shows "ucast (nh div dh) = dword nh nl div dword dh 0" and "dword (nh mod dh) nl = dword nh nl mod dword dh 0"
proof -
  have d: "0 < unat dh" using assms by (simp add: unat_gt_0)
  have l: "unat nl < 2 ^ 32" using unsigned_less [of nl, where 'a = nat] by simp
  have "(unat nh * 2 ^ 32 + unat nl) div 2 ^ 32 = unat nh" "(unat nh * 2 ^ 32 + unat nl) mod 2 ^ 32 = unat nl" using l by simp_all
  then have q: "(unat nh * 2 ^ 32 + unat nl) div (unat dh * 2 ^ 32) = unat nh div unat dh"
    and r: "(unat nh * 2 ^ 32 + unat nl) mod (unat dh * 2 ^ 32) = unat nh mod unat dh * 2 ^ 32 + unat nl"
    unfolding mult.commute [of "unat dh"] div_mult2_eq mod_mult2_eq by simp_all
  show "ucast (nh div dh) = dword nh nl div dword dh 0"
    using q by (simp add: word_unat_eq_iff unat_div_distrib unat_dword unat_ucast_up)
  show "dword (nh mod dh) nl = dword nh nl mod dword dh 0"
    using r by (simp add: word_unat_eq_iff unat_mod_distrib unat_dword)
qed

lemma dword_0: "dword 0 l = ucast l"
  by (simp add: dword_def)

lemma dword_eq_0: "dword h l = 0 \<longleftrightarrow> h = 0 \<and> l = 0"
  using unat_dword [of h l] by (auto simp: word_unat_eq_iff)

lemma udiv32_eq: "udiv32 a b = (if b = 0 then None else Some (dword 0 a div dword 0 b, dword 0 a mod dword 0 b))"
  by (auto simp: udiv32_def dword_0 word_unat_eq_iff unat_div_distrib unat_mod_distrib unat_ucast_up)

lemma less_halves:
  assumes "nh \<noteq> 0" and "dh \<noteq> 0" and "of_nat (clz dh) - of_nat (clz nh) > (31 :: u32)"
  shows "dword nh nl div dword dh dl = 0" and "dword nh nl mod dword dh dl = dword nh nl"
proof -
  let ?sr = "of_nat (clz dh) - of_nat (clz nh) :: u32"
  have "bits nh < bits dh"
  proof (rule ccontr)
    assume "\<not> bits nh < bits dh"
    then have "?sr = of_nat (bits nh - bits dh)" using shift_count_halves(2) [OF assms(1,2)] by simp
    moreover have "bits nh - bits dh \<le> 31" using bits_le [of nh] zero_bits [of dh] assms(2) by simp
    ultimately have "unat ?sr \<le> 31" by (simp only: unat_of_nat) (simp add: le_trans [OF mod_less_eq_dividend])
    then show False using assms(3) by (simp add: word_less_nat_alt)
  qed
  then have "dword nh nl < dword dh dl" using assms by (intro less_bits) (simp add: bits_dword)
  from word_div_less [OF this] show "dword nh nl div dword dh dl = 0" and "dword nh nl mod dword dh dl = dword nh nl" by simp_all
qed

lemma small_power:
  assumes "dl \<noteq> 0" and "dl AND (dl - 1) = (0 :: u32)"
  shows "dword nh nl div ucast dl = drop_bit (ctz dl) (dword nh nl)" and "dword nh nl mod ucast dl = ucast (nl AND (dl - 1))"
proof -
  have p: "unat (ucast dl :: u64) = 2 ^ ctz dl" using power_of_two [OF assms] by (simp add: unat_ucast_up)
  show "dword nh nl div ucast dl = drop_bit (ctz dl) (dword nh nl)"
    by (simp add: word_unat_eq_iff unat_div_distrib p unat_drop_bit_eq) (simp add: drop_bit_eq_div)
  have k: "(2 :: nat) ^ 32 = 2 ^ ctz dl * 2 ^ (32 - ctz dl)" using ctz_first(1) [OF assms(1)] by (simp flip: power_add)
  have "(unat nh * 2 ^ 32 + unat nl) mod 2 ^ ctz dl = unat nl mod 2 ^ ctz dl" 
    unfolding k by (simp only: mult.left_commute [of "unat nh"] mult.assoc mod_mult_self4)
  then show "dword nh nl mod ucast dl = ucast (nl AND (dl - 1))"
    using power_of_two [OF assms]
    by (simp add: word_unat_eq_iff unat_mod_distrib p unat_ucast_up unat_dword flip: power_of_two_divides(2) [OF assms])
qed

lemma udivmod_no_low:
  assumes "nh \<noteq> 0" and "dh \<noteq> 0"
  shows "udivmoddi4 (dword nh nl) (dword dh 0) = Some (dword nh nl div dword dh 0, dword nh nl mod dword dh 0)"
proof -
  let ?sr = "of_nat (clz dh) - of_nat (clz nh) :: u32"
  consider (even) "nl = 0" | (power) "nl \<noteq> 0" "dh AND (dh - 1) = 0" | (less) "nl \<noteq> 0" "dh AND (dh - 1) \<noteq> 0" "?sr > 31"
    | (loop) "nl \<noteq> 0" "dh AND (dh - 1) \<noteq> 0" "\<not> ?sr > 31" by blast
  then show ?thesis
  proof cases
    case even
    then show ?thesis using assms div_dword_high [OF assms(2)] by (simp add: udivmoddi4_def)
  next
    case power
    then show ?thesis using assms div_dword_high [OF assms(2)] power_of_two_divides [OF assms(2) power(2)] by (simp add: udivmoddi4_def)
  next
    case less
    then have "?sr > 30" by (simp add: word_less_nat_alt)
    then show ?thesis using assms less less_halves [OF assms less(3)] by (simp add: udivmoddi4_def Let_def)
  next
    case loop
    have le: "bits dh \<le> bits nh" using shift_count_halves(1) [OF assms] loop(3) by (meson not_le)
    have "bits dh \<noteq> 1" using not_power_bits [OF assms(2) loop(2)] by simp
    then have k: "bits nh - bits dh \<le> 30" using zero_bits [of dh] assms(2) bits_le [of nh] by simp
    have "unat ?sr = bits nh - bits dh"
      unfolding shift_count_halves(2) [OF assms le] using k by (simp only: unat_of_nat) simp
    then have n: "\<not> ?sr > 30" "unat (?sr + 1) \<noteq> 32" using k by (simp_all add: word_less_nat_alt unat_word_ariths)
    show ?thesis using assms loop n udivmod_big [OF assms refl loop(3), of 0 nl] by (simp add: udivmoddi4_def Let_def)
  qed
qed

lemma udivmod_parts:
  "udivmoddi4 (dword nh nl) (dword dh dl) =
    (if dword dh dl = 0 then None else Some (dword nh nl div dword dh dl, dword nh nl mod dword dh dl))"
proof -
  let ?sr = "of_nat (clz dh) - of_nat (clz nh) :: u32"
  consider (narrow) "nh = 0" "dh = 0" | (zero) "nh = 0" "dh \<noteq> 0" | (trap) "nh \<noteq> 0" "dh = 0" "dl = 0" | (no_low) "nh \<noteq> 0" "dh \<noteq> 0" "dl = 0"
    | (power) "nh \<noteq> 0" "dh = 0" "dl \<noteq> 0" "dl AND (dl - 1) = 0" | (small) "nh \<noteq> 0" "dh = 0" "dl \<noteq> 0" "dl AND (dl - 1) \<noteq> 0"
    | (less) "nh \<noteq> 0" "dh \<noteq> 0" "dl \<noteq> 0" "?sr > 31" | (loop) "nh \<noteq> 0" "dh \<noteq> 0" "dl \<noteq> 0" "\<not> ?sr > 31" by blast
  then show ?thesis
  proof cases
    case narrow
    then show ?thesis by (simp add: udivmoddi4_def udiv32_eq dword_eq_0)
  next
    case zero
    have "bits (dword 0 nl) < bits (dword dh dl)" using zero bits_le [of nl] zero_bits [of dh] by (simp add: bits_dword)
    from word_div_less [OF less_bits [OF this]] zero show ?thesis by (simp add: udivmoddi4_def dword_eq_0 flip: dword_0)
  next
    case trap
    then show ?thesis by (simp add: udivmoddi4_def udiv32_def dword_eq_0)
  next
    case no_low
    then show ?thesis using udivmod_no_low by (simp add: dword_eq_0)
  next
    case power
    have "ctz dl \<le> 32" using ctz_first(1) [OF power(3)] by simp
    then show ?thesis using power small_power [OF power(3,4)] dword_drop [of "ctz dl" nh nl]
      by (simp add: udivmoddi4_def dword_eq_0) (simp add: dword_0)
  next
    case small
    then show ?thesis using udivmod_small_divisor [OF small(1,3,4) refl, of nl] by (simp add: udivmoddi4_def Let_def dword_eq_0 cong: if_cong)
  next
    case less
    then show ?thesis using less_halves [OF less(1,2,4)] by (simp add: udivmoddi4_def Let_def dword_eq_0)
  next
    case loop
    then show ?thesis using udivmod_big [OF loop(1,2) refl loop(4)] by (simp add: udivmoddi4_def Let_def dword_eq_0)
  qed
qed

lemma udivmoddi4_eq: "udivmoddi4 n d = (if d = 0 then None else Some (n div d, n mod d))"
  using udivmod_parts [of "high n" "low n" "high d" "low d"] by simp

section \<open>Signed division\<close>

lemma sign_of_eq: "sign_of (a :: 'a::len word) = (if sint a < 0 then - 1 else 0)"
  unfolding sign_of_def sign_mask using bit_last_iff [of a] by simp

lemma negate_if_eq [simp]: "negate_if 0 a = a" "negate_if (- 1) a = - a"
  by (simp_all add: negate_if_def not_eq_complement)

text \<open>The magnitude of a signed number as an unsigned one: exact even for the least number, which has no signed negation.\<close>

lemma magnitude:
  fixes a :: "'a::len word"
  defines "u \<equiv> negate_if (sign_of a) a"
  shows "uint u = \<bar>sint a\<bar>" and "u = 0 \<longleftrightarrow> a = 0"
proof -
  have b: "\<bar>sint a\<bar> \<le> 2 ^ (LENGTH('a) - 1)" using sint_ge [of a] sint_lt [of a] by linarith
  moreover have "(2 :: int) ^ (LENGTH('a) - 1) < 2 ^ LENGTH('a)" by (rule power_strict_increasing) simp_all
  ultimately have r: "\<bar>sint a\<bar> mod 2 ^ LENGTH('a) = \<bar>sint a\<bar>" by (intro mod_pos_pos_trivial) linarith+
  have "u = word_of_int \<bar>sint a\<bar>" by (simp add: u_def sign_of_eq)
  then show "uint u = \<bar>sint a\<bar>" using r by (simp add: unsigned_of_int take_bit_eq_mod)
  show "u = 0 \<longleftrightarrow> a = 0" by (simp add: u_def sign_of_eq)
qed

lemma word_of_int_div: "(a :: 'a::len word) div b = word_of_int (uint a div uint b)" "a mod b = word_of_int (uint a mod uint b)"
  by (simp_all add: word_div_def word_mod_def)

lemma sgn_cases: "sgn (x :: int) = (if x < 0 then - 1 else if x = 0 then 0 else 1)"
  by (simp add: sgn_if)

lemma sint_eq_0: "sint (a :: 'a::len word) = 0 \<longleftrightarrow> a = 0"
  by (metis signed_0 signed_word_eqI)

lemma signed_quotient:
  fixes a b :: "'a::len word"
  shows "negate_if (sign_of a XOR sign_of b) (negate_if (sign_of a) a div negate_if (sign_of b) b) = word_of_int (sint a sdiv sint b)"
    and "negate_if (sign_of a) (negate_if (sign_of a) a mod negate_if (sign_of b) b) = word_of_int (sint a smod sint b)"
  unfolding word_of_int_div magnitude
  by (auto simp: sign_of_eq signed_divide_int_def signed_modulo_int_def sgn_cases sint_eq_0)

lemma divdi3_eq: "divdi3 a b = (if b = 0 then None else Some (word_of_int (sint a sdiv sint b)))"
  unfolding divdi3_def divXi3_def Let_def udivmoddi4_eq magnitude(2) by (simp add: signed_quotient)

lemma moddi3_eq: "moddi3 a b = (if b = 0 then None else Some (word_of_int (sint a smod sint b)))"
  unfolding moddi3_def modXi3_def Let_def udivmoddi4_eq magnitude(2) by (simp add: signed_quotient)

lemma negate_if_minus: "(a XOR s) - s = negate_if s a"
  by (simp add: negate_if_def)

lemma divmoddi4_eq:
  "divmoddi4 a b = (if b = 0 then None else Some (word_of_int (sint a sdiv sint b), word_of_int (sint a smod sint b)))"
  unfolding divmoddi4_def Let_def udivmoddi4_eq negate_if_minus magnitude(2) xor.commute [of "sign_of b"]
  by (simp add: signed_quotient)

lemma divsi3_eq: "divsi3 a b = (if b = 0 then None else Some (word_of_int (sint a sdiv sint b)))"
  unfolding divsi3_def divXi3_def Let_def magnitude(2) by (simp add: signed_quotient)

lemma modsi3_eq: "modsi3 a b = (if b = 0 then None else Some (word_of_int (sint a smod sint b)))"
proof -
  have "sint a smod sint b = sint a - sint a sdiv sint b * sint b" using sdiv_mult_smod_eq [of "sint a" "sint b"] by simp
  then have "word_of_int (sint a smod sint b) = a - word_of_int (sint a sdiv sint b) * b" by simp
  then show ?thesis by (simp add: modsi3_def divsi3_eq)
qed

lemma udivmodsi4_eq: "b \<noteq> 0 \<Longrightarrow> udivmodsi4 a b = (a div b, a mod b)"
  using udivXi3_eq [of b a] by (simp add: udivmodsi4_def udivsi3_def minus_div_mult_eq_mod)

lemma divmodsi4_eq:
  "b \<noteq> 0 \<Longrightarrow> divmodsi4 a b = (word_of_int (sint a sdiv sint b), word_of_int (sint a smod sint b))"
  unfolding divmodsi4_def Let_def negate_if_minus xor.commute [of "sign_of b"]
  by (simp add: udivmodsi4_eq magnitude(2) signed_quotient)

section \<open>Properties\<close>

text \<open>C21: \<open>__udivmoddi4\<close> divides: for every dividend and divisor it returns exactly the quotient and the remainder of the
  unsigned division, by every one of its special cases and through its loop, and it traps exactly for the divisor 0.\<close>

theorem udivmoddi4_divides: "udivmoddi4 n d = (if d = 0 then None else Some (n div d, n mod d))"
  by (rule udivmoddi4_eq)

text \<open>The shift-and-subtract divisions \<open>__udivdi3\<close>, \<open>__umoddi3\<close>, \<open>__udivsi3\<close>, \<open>__umodsi3\<close> and \<open>__udivmodsi4\<close> compute the
  quotient and the remainder of the unsigned division for every divisor but 0.\<close>

theorem shift_subtract_divides:
  assumes "d \<noteq> 0" and "e \<noteq> 0"
  shows "udivdi3 n d = n div d \<and> umoddi3 n d = n mod d \<and>
    udivsi3 m e = m div e \<and> umodsi3 m e = m mod e \<and> udivmodsi4 m e = (m div e, m mod e)"
  using assms udivXi3_eq [of d n] udivXi3_eq [of e m] udivmodsi4_eq [of e m]
  by (simp_all add: udivdi3_def umoddi3_def udivsi3_def umodsi3_def)

theorem shift_subtract_divides_witness:
  "(7 :: u64) \<noteq> 0 \<and> (3 :: u32) \<noteq> 0 \<and> udivdi3 100 7 = 14 \<and> umoddi3 100 7 = 2 \<and> udivmodsi4 17 3 = (5, 2)"
  using shift_subtract_divides [of 7 3 100 17] by simp

text \<open>C22: The signed divisions truncate towards 0, as C asks: quotient and remainder of \<open>__divdi3\<close>, \<open>__moddi3\<close>, \<open>__divmoddi4\<close>,
  \<open>__divsi3\<close> and \<open>__modsi3\<close> are those of the mathematical numbers, wrapped to the width (which matters only for the least
  number divided by -1), and a divisor 0 traps.\<close>

theorem signed_division_truncates:
  "divdi3 a b = (if b = 0 then None else Some (word_of_int (sint a sdiv sint b))) \<and>
   moddi3 a b = (if b = 0 then None else Some (word_of_int (sint a smod sint b))) \<and>
   divmoddi4 a b = (if b = 0 then None else Some (word_of_int (sint a sdiv sint b), word_of_int (sint a smod sint b))) \<and>
   divsi3 x y = (if y = 0 then None else Some (word_of_int (sint x sdiv sint y))) \<and>
   modsi3 x y = (if y = 0 then None else Some (word_of_int (sint x smod sint y)))"
  using divdi3_eq moddi3_eq divmoddi4_eq divsi3_eq modsi3_eq by blast

end
