(* ===== verification/Guard.thy ===== *)
theory Guard
  imports Prelude
begin

text \<open>
  The guard of function-local statics (\<^verbatim>\<open>libcxxrt/guard.cc\<close>): the two words of \<open>DoubleWordGuard\<close>, which is the one i686
  uses, and the threads that run \<open>__cxa_guard_acquire\<close>, the constructor and \<open>__cxa_guard_release\<close> or \<open>__cxa_guard_abort\<close>
  on it. Every atomic access to a word is one step, and a schedule says which thread makes the next step, so that
  every interleaving of any number of threads is a schedule.
\<close>

section \<open>The code\<close>

record guard =
  init_word :: u32
  lock_word :: u32

definition locked :: u32 where "locked = push_bit 31 1"
definition initialised :: u32 where "initialised = push_bit 0 1"

definition is_initialised :: "guard \<Rightarrow> bool" where
  "is_initialised g \<longleftrightarrow> init_word g AND initialised = initialised"

definition compare_exchange :: "u32 \<Rightarrow> u32 \<Rightarrow> guard \<Rightarrow> bool \<times> guard" where
  "compare_exchange expected desired g =
     (if lock_word g = expected then (True, g\<lparr>lock_word := desired\<rparr>) else (False, g))"

text \<open>
  Where a thread is: at the first look of \<open>__cxa_guard_acquire\<close>, at the exchange in \<open>try_lock\<close>, at its second look with the lock
  taken, at the store it does when that look finds the variable initialised, returned with 0 or with 1 (it then runs the constructor), at the
  two stores of \<open>unlock\<close> and at the assertion behind them, and past it or stopped there by \<open>panic\<close>.
\<close>

datatype gpc = Acquire | TryLock | LockTaken | LateStore | ReturnedZero | Constructing
  | StoreInit bool | StoreLock bool | Assert bool | Left bool | Panic

text \<open>One atomic access of a thread. \<open>ok\<close> tells whether the constructor returns (release) or throws (abort). A thread that is through comes back for
  the next use of the variable.\<close>

fun guard_step :: "bool \<Rightarrow> gpc \<Rightarrow> guard \<Rightarrow> gpc \<times> guard" where
  "guard_step ok Acquire g = (if is_initialised g then ReturnedZero else TryLock, g)"
| "guard_step ok TryLock g =
     (let (taken, g) = compare_exchange 0 locked g in (if taken then LockTaken else TryLock, g))"
| "guard_step ok LockTaken g = (if is_initialised g then LateStore else Constructing, g)"
| "guard_step ok LateStore g = (ReturnedZero, g\<lparr>lock_word := initialised\<rparr>)"
| "guard_step ok ReturnedZero g = (Acquire, g)"
| "guard_step ok Constructing g = (StoreInit ok, g)"
| "guard_step ok (StoreInit b) g = (StoreLock b, g\<lparr>init_word := if b then initialised else 0\<rparr>)"
| "guard_step ok (StoreLock b) g = (Assert b, g\<lparr>lock_word := 0\<rparr>)"
| "guard_step ok (Assert b) g = (if (ucast (init_word g) \<noteq> (0 :: u8)) = b then Left b else Panic, g)"
| "guard_step ok (Left b) g = (Acquire, g)"
| "guard_step ok Panic g = (Panic, g)"

record guard_system =
  guard :: guard
  pcs :: "nat \<Rightarrow> gpc"

definition thread_step :: "nat \<times> bool \<Rightarrow> guard_system \<Rightarrow> guard_system" where
  "thread_step c s = (let (pc, g) = guard_step (snd c) (pcs s (fst c)) (guard s) in s\<lparr>guard := g, pcs := (pcs s)(fst c := pc)\<rparr>)"

definition guard_start :: guard_system where
  "guard_start = \<lparr>guard = \<lparr>init_word = 0, lock_word = 0\<rparr>, pcs = \<lambda>_. Acquire\<rparr>"

definition run_guard :: "(nat \<times> bool) list \<Rightarrow> guard_system \<Rightarrow> guard_system" where
  "run_guard = fold thread_step"

section \<open>The invariant\<close>

fun holds_lock :: "gpc \<Rightarrow> bool" where
  "holds_lock LockTaken = True"
| "holds_lock LateStore = True"
| "holds_lock Constructing = True"
| "holds_lock (StoreInit b) = True"
| "holds_lock (StoreLock b) = True"
| "holds_lock pc = False"

fun pc_ok :: "bool \<Rightarrow> gpc \<Rightarrow> bool" where
  "pc_ok i LateStore = i"
| "pc_ok i ReturnedZero = i"
| "pc_ok i Constructing = (\<not> i)"
| "pc_ok i (StoreInit b) = (\<not> i)"
| "pc_ok i (StoreLock b) = (i = b)"
| "pc_ok i (Assert b) = (b \<longrightarrow> i)"
| "pc_ok i pc = True"

definition guard_ok :: "guard_system \<Rightarrow> bool" where
  "guard_ok s \<longleftrightarrow> init_word (guard s) \<in> {0, initialised} \<and>
     (\<forall>i j. holds_lock (pcs s i) \<longrightarrow> holds_lock (pcs s j) \<longrightarrow> i = j) \<and>
     ((\<exists>i. holds_lock (pcs s i)) \<longrightarrow> lock_word (guard s) \<noteq> 0) \<and>
     (\<forall>i. pc_ok (is_initialised (guard s)) (pcs s i))"

lemma initialised_simps [simp]: "initialised \<noteq> 0" "0 \<noteq> initialised" "locked \<noteq> 0" "initialised AND initialised = initialised" "ucast initialised = (1 :: u8)"
  by (simp_all add: initialised_def locked_def)

lemma is_initialised_simps [simp]:
  "is_initialised (g\<lparr>lock_word := w\<rparr>) = is_initialised g" "is_initialised (g\<lparr>init_word := 0\<rparr>) = False"
  "is_initialised (g\<lparr>init_word := initialised\<rparr>) = True"
  by (simp_all add: is_initialised_def)

lemma guard_ok_start: "guard_ok guard_start"
  by (simp add: guard_ok_def guard_start_def)

text \<open>Only the holder of the lock writes, and it is alone; the others keep their place because what they rely on is never taken back.\<close>

lemma pc_ok_initialised: "pc_ok False pc \<Longrightarrow> \<not> holds_lock pc \<Longrightarrow> pc_ok True pc"
  by (cases pc) auto

lemma guard_ok_step:
  assumes "guard_ok s"
  shows "guard_ok (thread_step c s)"
proof -
  obtain i ok where c: "c = (i, ok)" by (cases c)
  let ?g = "guard s"
  have inv: "init_word ?g \<in> {0, initialised}" "\<And>j k. holds_lock (pcs s j) \<Longrightarrow> holds_lock (pcs s k) \<Longrightarrow> j = k"
    "\<And>j. holds_lock (pcs s j) \<Longrightarrow> lock_word ?g \<noteq> 0" "\<And>j. pc_ok (is_initialised ?g) (pcs s j)"
    using assms unfolding guard_ok_def by blast+
  have only: "holds_lock (pcs s i) \<Longrightarrow> j \<noteq> i \<Longrightarrow> \<not> holds_lock (pcs s j)" for j using inv(2) by blast
  have free: "lock_word ?g = 0 \<Longrightarrow> \<not> holds_lock (pcs s j)" for j using inv(3) by blast
  show ?thesis
  proof (cases "pcs s i")
    case (StoreInit b)
    then have "\<not> is_initialised ?g" using inv(4) [of i] by simp
    then have "j \<noteq> i \<Longrightarrow> pc_ok b (pcs s j)" for j
      using inv(4) [of j] only [of j] pc_ok_initialised StoreInit by (cases b) auto
    then show ?thesis using inv(1,2) inv(3) [of i] StoreInit only unfolding guard_ok_def c thread_step_def
      by (auto simp: Let_def)
  qed (use inv(1,2,4) free inv(3) [of i] inv(4) [of i] only in \<open>auto simp: guard_ok_def c thread_step_def compare_exchange_def Let_def split: if_splits\<close>)
qed

lemma guard_ok_run: "guard_ok s \<Longrightarrow> guard_ok (run_guard cs s)"
  unfolding run_guard_def by (induction cs arbitrary: s) (simp_all add: guard_ok_step)

lemma initialised_step:
  assumes "guard_ok s" and "is_initialised (guard s)"
  shows "is_initialised (guard (thread_step c s))"
proof -
  have "pc_ok True (pcs s (fst c))" using assms unfolding guard_ok_def by simp
  then show ?thesis using assms(2)
    by (cases "pcs s (fst c)") (auto simp: thread_step_def compare_exchange_def Let_def split: if_splits)
qed

lemma initialised_run:
  assumes "guard_ok s" and "is_initialised (guard s)"
  shows "is_initialised (guard (run_guard cs s))"
  using assms unfolding run_guard_def
proof (induction cs arbitrary: s)
  case (Cons c cs)
  then show ?case using guard_ok_step initialised_step by simp
qed simp

section \<open>Properties\<close>

lemma run_guard_append: "run_guard (cs @ ds) s = run_guard ds (run_guard cs s)"
  by (simp add: run_guard_def)

lemma guard_ok_reachable: "guard_ok (run_guard cs guard_start)"
  by (rule guard_ok_run [OF guard_ok_start])

text \<open>C19: In every interleaving of any number of threads at most one thread at a time is between taking the lock of the guard and giving it back, in particular
  in the constructor; a thread that got 0 finds the variable initialised; and once the variable is initialised, no thread is in the
  constructor then or at any later moment, so that it succeeds at most once. The assertion in \<open>unlock(true)\<close> never fails.\<close>

theorem guard_initialises_once:
  fixes cs ds :: "(nat \<times> bool) list"
  defines "s \<equiv> run_guard cs guard_start" and "t \<equiv> run_guard (cs @ ds) guard_start"
  shows "(holds_lock (pcs s i) \<longrightarrow> holds_lock (pcs s j) \<longrightarrow> i = j) \<and>
    (pcs s i = ReturnedZero \<longrightarrow> is_initialised (guard s)) \<and>
    (is_initialised (guard s) \<longrightarrow> is_initialised (guard t) \<and> pcs t i \<noteq> Constructing) \<and>
    (pcs s i = Assert True \<longrightarrow> pcs (thread_step (i, ok) s) i = Left True)"
proof -
  have s: "guard_ok s" and t: "guard_ok t" unfolding s_def t_def by (rule guard_ok_reachable)+
  have p: "pc_ok (is_initialised (guard s)) (pcs s i)" "pc_ok (is_initialised (guard t)) (pcs t i)" "init_word (guard s) \<in> {0, initialised}"
    using s t unfolding guard_ok_def by blast+
  have "is_initialised (guard t)" if "is_initialised (guard s)"
    using initialised_run [OF s that, of ds] unfolding t_def s_def run_guard_append .
  then have "is_initialised (guard s) \<longrightarrow> is_initialised (guard t) \<and> pcs t i \<noteq> Constructing" using p(2) by auto
  moreover have "holds_lock (pcs s i) \<longrightarrow> holds_lock (pcs s j) \<longrightarrow> i = j" using s unfolding guard_ok_def by blast
  moreover have "pcs s i = ReturnedZero \<longrightarrow> is_initialised (guard s)" using p(1) by auto
  moreover have "pcs s i = Assert True \<longrightarrow> pcs (thread_step (i, ok) s) i = Left True"
    using p(1,3) by (auto simp: thread_step_def is_initialised_def)
  ultimately show ?thesis by blast
qed

text \<open>Thread 0 constructs the variable while thread 1 has already looked and then finds the lock taken.\<close>

definition demo_schedule :: "(nat \<times> bool) list" where
  "demo_schedule = [(0, True), (1, True), (0, True), (1, True), (0, True), (0, True), (0, True), (0, True)]"

lemma demo_schedule_run:
  "let s = run_guard demo_schedule guard_start in pcs s 0 = Assert True \<and> pcs s 1 = TryLock \<and> is_initialised (guard s)"
  by (simp add: demo_schedule_def run_guard_def thread_step_def guard_start_def compare_exchange_def is_initialised_def)

theorem guard_initialises_once_witness:
  "is_initialised (guard (run_guard demo_schedule guard_start)) \<and>
   is_initialised (guard (run_guard (demo_schedule @ [(1, True), (1, True)]) guard_start)) \<and>
   pcs (thread_step (0, True) (run_guard demo_schedule guard_start)) 0 = Left True"
  using guard_initialises_once [of demo_schedule 0 0 "[(1, True), (1, True)]" True] demo_schedule_run by (simp add: Let_def)

text \<open>
  What the code does not give: the late store puts the value \<open>initialised\<close>, not 0, into the lock word, so a third thread that looked before the
  variable was ready spins forever; and the assertion behind \<open>unlock(false)\<close> is made without the lock, so it can fail.
\<close>

lemma lock_never_free:
  assumes "lock_word (guard s) = initialised" and "\<forall>i. \<not> holds_lock (pcs s i)"
  shows "lock_word (guard (run_guard cs s)) = initialised \<and> (\<forall>i. pcs s i = TryLock \<longrightarrow> pcs (run_guard cs s) i = TryLock)"
  using assms unfolding run_guard_def
proof (induction cs arbitrary: s)
  case (Cons c cs)
  have "\<not> holds_lock (pcs s (fst c))" using Cons.prems by blast
  then have "lock_word (guard (thread_step c s)) = initialised \<and> (\<forall>i. \<not> holds_lock (pcs (thread_step c s) i)) \<and>
    (\<forall>i. pcs s i = TryLock \<longrightarrow> pcs (thread_step c s) i = TryLock)"
    using Cons.prems by (cases "pcs s (fst c)") (auto simp: thread_step_def compare_exchange_def Let_def split: if_splits)
  then show ?case using Cons.IH [of "thread_step c s"] by simp
qed simp

definition late_schedule :: "(nat \<times> bool) list" where
  "late_schedule = [(2, True)] @ demo_schedule @ [(0, True), (1, True), (1, True), (1, True)]"

lemma guard_third_thread_spins:
  "pcs (run_guard (late_schedule @ cs) guard_start) 2 = TryLock"
proof -
  define s where "s = run_guard late_schedule guard_start"
  have "lock_word (guard s) = initialised \<and> (\<forall>i. \<not> holds_lock (pcs s i)) \<and> pcs s 2 = TryLock"
    by (simp add: s_def late_schedule_def demo_schedule_def run_guard_def thread_step_def guard_start_def compare_exchange_def is_initialised_def)
  then show ?thesis using lock_never_free [of s cs] unfolding run_guard_append s_def by simp
qed

lemma guard_abort_assertion_fails:
  "pcs (run_guard ([(0, False), (0, False), (0, False), (0, False), (0, False), (0, False)] @
     [(1, True), (1, True), (1, True), (1, True), (1, True), (0, False)]) guard_start) 0 = Panic"
  by (simp add: run_guard_def thread_step_def guard_start_def compare_exchange_def is_initialised_def)

end
