(* ===== verification/SharedPtr.thy ===== *)
theory SharedPtr
  imports Prelude
begin

text \<open>
  Reference-counted pointers (\<^verbatim>\<open>inc/shared_ptr.hpp\<close>), which own every kernel object: the buffers with their counters, the
  variables of type \<open>shared_ptr\<close>, and the constructors, destructor, assignments and casts on them. The counters are
  proved to implement plain ownership: an object is destroyed at the moment its last pointer goes, exactly once.
\<close>

section \<open>The code\<close>

record shared_buffer =
  sb_ptr :: addr
  sb_destructor :: bool
  sb_ref :: u32

text \<open>
  The buffers on the heap, the buffer pointer of every \<open>shared_ptr\<close> variable that is constructed (0 is the null pointer), and the objects whose destructor was
  called, the newest first. An operation returns \<open>None\<close> where it reads or writes a buffer that was deleted, or a variable that is not
  constructed (or constructs one twice).
\<close>

record sp_state =
  bufs :: "addr \<rightharpoonup> shared_buffer"
  vars :: "nat \<rightharpoonup> addr"
  destructed :: "addr list"

definition addRef :: "addr \<Rightarrow> sp_state \<Rightarrow> (u32 \<times> sp_state) option" where
  "addRef b s =
     (case bufs s b of
        None \<Rightarrow> None
      | Some bf \<Rightarrow>
          let ret = sb_ref bf + 1; s = s\<lparr>bufs := (bufs s)(b \<mapsto> bf\<lparr>sb_ref := ret\<rparr>)\<rparr>
          in Some (if ret <s 0 then 0 else ret, s))"

definition decRef :: "addr \<Rightarrow> sp_state \<Rightarrow> (u32 \<times> sp_state) option" where
  "decRef b s =
     (case bufs s b of
        None \<Rightarrow> None
      | Some bf \<Rightarrow>
          let ret = sb_ref bf - 1
          in if ret = 0 then Some (0, s\<lparr>bufs := (bufs s)(b \<mapsto> bf\<lparr>sb_ref := 0x80000000\<rparr>)\<rparr>)
             else Some (ret, s\<lparr>bufs := (bufs s)(b \<mapsto> bf\<lparr>sb_ref := ret\<rparr>)\<rparr>))"

text \<open>The body of the destructor: the variable is null afterwards.\<close>

definition sp_release :: "nat \<Rightarrow> sp_state \<Rightarrow> sp_state option" where
  "sp_release h s =
     (case vars s h of
        None \<Rightarrow> None
      | Some pbuffer \<Rightarrow>
          let s = s\<lparr>vars := (vars s)(h \<mapsto> 0)\<rparr>
          in if pbuffer = 0 then Some s
             else case decRef pbuffer s of
                    None \<Rightarrow> None
                  | Some (ret, s) \<Rightarrow>
                      if ret = 0 then
                        case bufs s pbuffer of
                          None \<Rightarrow> None
                        | Some bf \<Rightarrow> Some (s\<lparr>destructed := (if sb_destructor bf then [sb_ptr bf] else []) @ destructed s,
                                            bufs := (bufs s)(pbuffer := None)\<rparr>)
                      else Some s)"

text \<open>The constructor from a buffer: a buffer whose counter does not count any more is not taken.\<close>

definition sp_from_buffer :: "nat \<Rightarrow> addr \<Rightarrow> sp_state \<Rightarrow> sp_state option" where
  "sp_from_buffer h b s =
     (if b = 0 then Some (s\<lparr>vars := (vars s)(h \<mapsto> 0)\<rparr>)
      else case addRef b s of
             None \<Rightarrow> None
           | Some (ret, s) \<Rightarrow> Some (s\<lparr>vars := (vars s)(h \<mapsto> if ret = 0 then 0 else b)\<rparr>))"

datatype sp_op =
    Null nat
  | Create nat addr bool addr
  | Copy nat nat
  | Move nat nat
  | Destroy nat
  | Assign nat nat
  | AssignNull nat
  | CastUp nat nat
  | CastDown nat nat bool

text \<open>
  \<open>Create h p d b\<close> gets the buffer \<open>b\<close> from \<open>operator new\<close>; \<open>CastDown h k dyn\<close> gets the result of \<open>dynamic_cast\<close>, which reads the buffer. The variable \<open>h\<close> of a
  constructor is new.
\<close>

fun sp_step :: "sp_op \<Rightarrow> sp_state \<Rightarrow> sp_state option" where
  "sp_step (Null h) s = (if vars s h = None then Some (s\<lparr>vars := (vars s)(h \<mapsto> 0)\<rparr>) else None)"
| "sp_step (Create h p d b) s =
     (if vars s h = None
      then Some (s\<lparr>bufs := (bufs s)(b \<mapsto> \<lparr>sb_ptr = p, sb_destructor = d, sb_ref = 1\<rparr>), vars := (vars s)(h \<mapsto> b)\<rparr>)
      else None)"
| "sp_step (Copy h k) s =
     (if vars s h = None then case vars s k of None \<Rightarrow> None | Some b \<Rightarrow> sp_from_buffer h b s else None)"
| "sp_step (Move h k) s =
     (if vars s h = None
      then case vars s k of None \<Rightarrow> None | Some b \<Rightarrow> Some (s\<lparr>vars := (vars s)(h \<mapsto> b, k \<mapsto> 0)\<rparr>)
      else None)"
| "sp_step (Destroy h) s =
     (case sp_release h s of None \<Rightarrow> None | Some s \<Rightarrow> Some (s\<lparr>vars := (vars s)(h := None)\<rparr>))"
| "sp_step (Assign h k) s =
     (case sp_release h s of
        None \<Rightarrow> None
      | Some s \<Rightarrow> (case vars s k of None \<Rightarrow> None | Some b \<Rightarrow> sp_from_buffer h b s))"
| "sp_step (AssignNull h) s = sp_release h s"
| "sp_step (CastUp h k) s =
     (if vars s h = None then case vars s k of None \<Rightarrow> None | Some b \<Rightarrow> sp_from_buffer h b s else None)"
| "sp_step (CastDown h k dyn) s =
     (if vars s h = None
      then case vars s k of
             None \<Rightarrow> None
           | Some b \<Rightarrow> if bufs s b = None then None
                       else if dyn then sp_from_buffer h b s
                       else Some (s\<lparr>vars := (vars s)(h \<mapsto> 0)\<rparr>)
      else None)"

definition sp_get :: "nat \<Rightarrow> sp_state \<Rightarrow> addr option" where
  "sp_get h s =
     (case vars s h of
        None \<Rightarrow> None
      | Some b \<Rightarrow> if b = 0 then Some 0 else map_option sb_ptr (bufs s b))"

fun sp_run :: "sp_op list \<Rightarrow> sp_state \<Rightarrow> sp_state option" where
  "sp_run [] s = Some s"
| "sp_run (op # ops) s = (case sp_step op s of None \<Rightarrow> None | Some s \<Rightarrow> sp_run ops s)"

section \<open>Ownership without counters\<close>

text \<open>The abstract state: who owns what. An object lives as long as some variable owns it.\<close>

record own_state =
  owned :: "addr \<rightharpoonup> addr \<times> bool"
  owner :: "nat \<rightharpoonup> addr"
  dead :: "addr list"

definition drop_owner :: "nat \<Rightarrow> own_state \<Rightarrow> own_state" where
  "drop_owner h a =
     (let b = the (owner a h); a = a\<lparr>owner := (owner a)(h \<mapsto> 0)\<rparr>
      in if b = 0 \<or> b \<in> ran (owner a) then a
         else a\<lparr>owned := (owned a)(b := None), dead := (if snd (the (owned a b)) then [fst (the (owned a b))] else []) @ dead a\<rparr>)"

fun own_step :: "sp_op \<Rightarrow> own_state \<Rightarrow> own_state" where
  "own_step (Null h) a = a\<lparr>owner := (owner a)(h \<mapsto> 0)\<rparr>"
| "own_step (Create h p d b) a = a\<lparr>owned := (owned a)(b \<mapsto> (p, d)), owner := (owner a)(h \<mapsto> b)\<rparr>"
| "own_step (Copy h k) a = a\<lparr>owner := (owner a)(h := owner a k)\<rparr>"
| "own_step (Move h k) a = a\<lparr>owner := (owner a)(h := owner a k, k \<mapsto> 0)\<rparr>"
| "own_step (Destroy h) a = (let a = drop_owner h a in a\<lparr>owner := (owner a)(h := None)\<rparr>)"
| "own_step (Assign h k) a = (let a = drop_owner h a in a\<lparr>owner := (owner a)(h := owner a k)\<rparr>)"
| "own_step (AssignNull h) a = drop_owner h a"
| "own_step (CastUp h k) a = a\<lparr>owner := (owner a)(h := owner a k)\<rparr>"
| "own_step (CastDown h k dyn) a = a\<lparr>owner := (owner a)(h := if dyn then owner a k else Some 0)\<rparr>"

definition ownership :: "sp_state \<Rightarrow> own_state" where
  "ownership s = \<lparr>owned = (\<lambda>b. map_option (\<lambda>bf. (sb_ptr bf, sb_destructor bf)) (bufs s b)), owner = vars s, dead = destructed s\<rparr>"

text \<open>The use of the pointers that C++ guarantees: variables are constructed once and used while they live, \<open>new\<close> returns fresh memory, and no null pointer is cast down.\<close>

fun op_allowed :: "sp_op \<Rightarrow> own_state \<Rightarrow> bool" where
  "op_allowed (Null h) a \<longleftrightarrow> owner a h = None"
| "op_allowed (Create h p d b) a \<longleftrightarrow> owner a h = None \<and> b \<noteq> 0 \<and> owned a b = None"
| "op_allowed (Copy h k) a \<longleftrightarrow> owner a h = None \<and> owner a k \<noteq> None"
| "op_allowed (Move h k) a \<longleftrightarrow> owner a h = None \<and> owner a k \<noteq> None"
| "op_allowed (Destroy h) a \<longleftrightarrow> owner a h \<noteq> None"
| "op_allowed (Assign h k) a \<longleftrightarrow> owner a h \<noteq> None \<and> owner a k \<noteq> None"
| "op_allowed (AssignNull h) a \<longleftrightarrow> owner a h \<noteq> None"
| "op_allowed (CastUp h k) a \<longleftrightarrow> owner a h = None \<and> owner a k \<noteq> None"
| "op_allowed (CastDown h k dyn) a \<longleftrightarrow> owner a h = None \<and> owner a k \<noteq> None \<and> owner a k \<noteq> Some 0"

text \<open>All counters stay below \<open>2\<^sup>31\<close>, where \<open>addRef\<close> takes a buffer for dead: there are fewer variables than that.\<close>

definition few_variables :: "own_state \<Rightarrow> bool" where
  "few_variables a \<longleftrightarrow> card (dom (owner a)) < 2 ^ 31 - 1"

fun ops_allowed :: "sp_op list \<Rightarrow> own_state \<Rightarrow> bool" where
  "ops_allowed [] a \<longleftrightarrow> True"
| "ops_allowed (op # ops) a \<longleftrightarrow> op_allowed op a \<and> few_variables a \<and> ops_allowed ops (own_step op a)"

section \<open>The counters count\<close>

definition holders :: "addr \<Rightarrow> sp_state \<Rightarrow> nat set" where
  "holders b s = {h. vars s h = Some b}"

definition sp_ok :: "sp_state \<Rightarrow> bool" where
  "sp_ok s \<longleftrightarrow> finite (dom (vars s)) \<and> bufs s 0 = None \<and> (\<forall>h b. vars s h = Some b \<longrightarrow> b = 0 \<or> b \<in> dom (bufs s)) \<and>
     (\<forall>b bf. bufs s b = Some bf \<longrightarrow> unat (sb_ref bf) = card (holders b s) \<and> holders b s \<noteq> {})"

lemma finite_holders: "sp_ok s \<Longrightarrow> finite (holders b s)"
  unfolding sp_ok_def holders_def by (rule finite_subset [of _ "dom (vars s)"]) auto

lemma holders_set_var:
  "holders b (s\<lparr>vars := (vars s)(h := v)\<rparr>) = (if v = Some b then insert h (holders b s) else holders b s - {h})"
  by (auto simp: holders_def)

lemma holders_bufs [simp]: "holders b (s\<lparr>bufs := m\<rparr>) = holders b s" "holders b (s\<lparr>destructed := l\<rparr>) = holders b s"
  by (simp_all add: holders_def)

lemma card_holders_le: "finite (dom (vars s)) \<Longrightarrow> card (holders b s) \<le> card (dom (vars s))"
  by (intro card_mono) (auto simp: holders_def)

lemma not_negative: "unat (w :: u32) < 2 ^ 31 \<Longrightarrow> \<not> w <s 0"
proof -
  assume "unat w < 2 ^ 31"
  then have "uint w < 2 ^ 31" by (simp flip: of_nat_less_iff [where 'a = int])
  then have "sint w = uint w" unfolding sint_uint by (intro signed_take_bit_int_eq_self) (simp_all add: order.trans [OF _ uint_ge_0])
  then show ?thesis by (simp add: word_sless_alt)
qed

text \<open>Null pointers come and go without any buffer.\<close>

lemma sp_ok_null:
  assumes "sp_ok s" and "vars s h \<in> {None, Some 0}" and "v \<in> {None, Some 0}"
  shows "sp_ok (s\<lparr>vars := (vars s)(h := v)\<rparr>)"
proof -
  have "b \<noteq> 0 \<Longrightarrow> holders b (s\<lparr>vars := (vars s)(h := v)\<rparr>) = holders b s" for b
    using assms(2,3) by (auto simp: holders_def)
  moreover have "bufs s b = Some bf \<Longrightarrow> b \<noteq> 0" for b bf using assms(1) by (auto simp: sp_ok_def)
  ultimately show ?thesis using assms unfolding sp_ok_def by auto
qed

lemma buffer_not_null: "sp_ok s \<Longrightarrow> bufs s b = Some bf \<Longrightarrow> b \<noteq> 0"
  by (auto simp: sp_ok_def)

lemma acquire_refines:
  assumes "sp_ok s" and "vars s h \<in> {None, Some 0}" and "b = 0 \<or> b \<in> dom (bufs s)" and "card (dom (vars s)) < 2 ^ 31 - 1"
  shows "\<exists>s'. sp_from_buffer h b s = Some s' \<and> sp_ok s' \<and> ownership s' = (ownership s)\<lparr>owner := (owner (ownership s))(h \<mapsto> b)\<rparr>"
proof (cases "b = 0")
  case True
  then show ?thesis using sp_ok_null [OF assms(1,2), of "Some 0"] by (simp add: sp_from_buffer_def ownership_def)
next
  case False
  then obtain bf where bf: "bufs s b = Some bf" using assms(3) by auto
  have ref: "unat (sb_ref bf) = card (holders b s)" and fin: "finite (dom (vars s))" using assms(1) bf by (auto simp: sp_ok_def)
  have less: "card (holders b s) < 2 ^ 31 - 1" using card_holders_le [OF fin, of b] assms(4) by linarith
  have ret: "unat (sb_ref bf + 1) = Suc (card (holders b s))" using ref less by (simp add: unat_word_ariths)
  then have pos: "\<not> sb_ref bf + 1 <s 0" "sb_ref bf + 1 \<noteq> 0" using less not_negative [of "sb_ref bf + 1"] by (simp, metis nat.distinct(1) unat_0)
  let ?s = "s\<lparr>bufs := (bufs s)(b \<mapsto> bf\<lparr>sb_ref := sb_ref bf + 1\<rparr>), vars := (vars s)(h \<mapsto> b)\<rparr>"
  have run: "sp_from_buffer h b s = Some ?s" using False bf pos by (simp add: sp_from_buffer_def addRef_def Let_def)
  have h: "h \<notin> holders b s" using assms(2) False by (auto simp: holders_def)
  have "holders c ?s = (if c = b then insert h (holders b s) else holders c s)" if "bufs s c = Some x" for c x
    using buffer_not_null [OF assms(1) that] assms(2) by (auto simp: holders_def)
  then have "sp_ok ?s"
    using assms(1) False bf ret h finite_holders [OF assms(1), of b] unfolding sp_ok_def by (auto split: if_splits)
  moreover have "ownership ?s = (ownership s)\<lparr>owner := (owner (ownership s))(h \<mapsto> b)\<rparr>" using bf by (auto simp: ownership_def)
  ultimately show ?thesis using run by blast
qed

lemma release_refines:
  assumes "sp_ok s" and "vars s h = Some b"
  shows "\<exists>s'. sp_release h s = Some s' \<and> sp_ok s' \<and> vars s' = (vars s)(h \<mapsto> 0) \<and> ownership s' = drop_owner h (ownership s)"
proof (cases "b = 0")
  case True
  then show ?thesis using sp_ok_null [OF assms(1), of h "Some 0"] assms(2)
    by (simp add: sp_release_def drop_owner_def ownership_def Let_def)
next
  case False
  then obtain bf where bf: "bufs s b = Some bf" using assms by (fastforce simp: sp_ok_def)
  let ?n = "card (holders b s)" and ?s = "s\<lparr>vars := (vars s)(h \<mapsto> 0)\<rparr>"
  have ref: "unat (sb_ref bf) = ?n" using assms(1) bf by (auto simp: sp_ok_def)
  have h: "h \<in> holders b s" using assms(2) by (simp add: holders_def)
  then have n: "0 < ?n" using finite_holders [OF assms(1), of b] by (simp add: card_gt_0_iff) auto
  then have "sb_ref bf \<noteq> 0" using ref by auto
  then have ret: "unat (sb_ref bf - 1) = ?n - 1" using ref by (simp add: unat_minus_one)
  have hs: "holders c ?s = (if c = b then holders b s - {h} else holders c s)" if "bufs s c = Some x" for c x
    using buffer_not_null [OF assms(1) that] assms(2) by (auto simp: holders_def)
  have rest: "card (holders b s - {h}) = ?n - 1" using h finite_holders [OF assms(1), of b] by simp
  have ran: "b \<in> ran ((vars s)(h \<mapsto> 0)) \<longleftrightarrow> holders b s - {h} \<noteq> {}" using False by (auto simp: ran_def holders_def)
  have empty: "holders b s - {h} = {} \<longleftrightarrow> ?n = 1" using rest n finite_holders [OF assms(1), of b] by (metis One_nat_def Suc_pred card_0_eq diff_Suc_1 finite_Diff)
  show ?thesis
  proof (cases "?n = 1")
    case True
    let ?t = "?s\<lparr>destructed := (if sb_destructor bf then [sb_ptr bf] else []) @ destructed s, bufs := (bufs s)(b := None)\<rparr>"
    have "sb_ref bf - 1 = 0" using ret True by (simp add: word_unat_eq_iff)
    then have "sp_release h s = Some ?t" using False assms(2) bf by (simp add: sp_release_def decRef_def Let_def)
    moreover have "vars s k = Some b \<Longrightarrow> k = h" for k using empty True by (auto simp: holders_def)
    then have "sp_ok ?t" using assms(1) hs unfolding sp_ok_def by (auto split: if_splits)
    moreover have "ownership ?t = drop_owner h (ownership s)"
      using False assms(2) bf ran True empty by (auto simp: ownership_def drop_owner_def Let_def)
    ultimately show ?thesis by auto
  next
    case False
    let ?t = "?s\<lparr>bufs := (bufs s)(b \<mapsto> bf\<lparr>sb_ref := sb_ref bf - 1\<rparr>)\<rparr>"
    have "sb_ref bf - 1 \<noteq> 0" using ret False n by auto
    then have "sp_release h s = Some ?t" using \<open>b \<noteq> 0\<close> assms(2) bf by (simp add: sp_release_def decRef_def Let_def)
    moreover have "sp_ok ?t" using assms(1) bf hs ret rest empty False unfolding sp_ok_def
      by (auto split: if_splits)
    moreover have "ownership ?t = drop_owner h (ownership s)"
      using \<open>b \<noteq> 0\<close> assms(2) bf ran False empty by (auto simp: ownership_def drop_owner_def Let_def)
    ultimately show ?thesis by auto
  qed
qed

section \<open>Every operation\<close>

lemma ownership_simps [simp]: "owner (ownership s) = vars s" "dead (ownership s) = destructed s"
  "owned (ownership s) b = None \<longleftrightarrow> bufs s b = None"
  by (simp_all add: ownership_def)

lemma ownership_vars: "ownership (s\<lparr>vars := v\<rparr>) = (ownership s)\<lparr>owner := v\<rparr>"
  by (simp add: ownership_def)

lemma var_buffer: "sp_ok s \<Longrightarrow> vars s h = Some b \<Longrightarrow> b = 0 \<or> b \<in> dom (bufs s)"
  by (auto simp: sp_ok_def)

lemma copy_refines:
  assumes "sp_ok s" and "vars s h = None" and "vars s k = Some b" and "few_variables (ownership s)"
  shows "\<exists>s'. sp_from_buffer h b s = Some s' \<and> sp_ok s' \<and> ownership s' = (ownership s)\<lparr>owner := (vars s)(h := vars s k)\<rparr>"
  using acquire_refines [OF assms(1) _ var_buffer [OF assms(1,3)], of h] assms by (simp add: few_variables_def)

lemma create_ok:
  assumes "sp_ok s" and "vars s h = None" and "b \<noteq> 0" and "bufs s b = None"
  shows "sp_ok (s\<lparr>bufs := (bufs s)(b \<mapsto> \<lparr>sb_ptr = p, sb_destructor = d, sb_ref = 1\<rparr>), vars := (vars s)(h \<mapsto> b)\<rparr>)" (is "sp_ok ?s")
proof -
  have "vars s k \<noteq> Some b" for k using var_buffer [OF assms(1), of k b] assms(3,4) by auto
  then have "holders b ?s = {h}" by (auto simp: holders_def)
  moreover have "holders c ?s = holders c s" if "c \<noteq> b" for c using that assms(2) by (auto simp: holders_def)
  ultimately show ?thesis using assms unfolding sp_ok_def by auto
qed

lemma move_ok:
  assumes "sp_ok s" and "vars s h = None" and "vars s k = Some b"
  shows "sp_ok (s\<lparr>vars := (vars s)(h \<mapsto> b, k \<mapsto> 0)\<rparr>)" (is "sp_ok ?s")
proof -
  have "card (holders c ?s) = card (holders c s) \<and> holders c ?s \<noteq> {}" if "bufs s c = Some bf" for c bf
  proof (cases "c = b")
    case True
    then have "holders c ?s = insert h (holders c s - {k})" using assms(2,3) buffer_not_null [OF assms(1) that] by (auto simp: holders_def)
    moreover have "k \<in> holders c s" "h \<notin> holders c s - {k}" using assms(2,3) True by (auto simp: holders_def)
    moreover have "finite (holders c s)" using finite_holders [OF assms(1)] .
    ultimately show ?thesis using card_Suc_Diff1 [of "holders c s" k] by (simp only: card_insert_disjoint finite_Diff) simp
  next
    case False
    then have "holders c ?s = holders c s" using assms(2,3) buffer_not_null [OF assms(1) that] by (auto simp: holders_def)
    then show ?thesis using assms(1) that by (auto simp: sp_ok_def)
  qed
  then show ?thesis using assms unfolding sp_ok_def by auto
qed

lemma assign_refines:
  assumes "sp_ok s" and "vars s h = Some a" and "vars s k = Some b" and "few_variables (ownership s)"
  shows "\<exists>s'. sp_step (Assign h k) s = Some s' \<and> sp_ok s' \<and> ownership s' = own_step (Assign h k) (ownership s)"
proof -
  obtain t where t: "sp_release h s = Some t" "sp_ok t" "vars t = (vars s)(h \<mapsto> 0)" "ownership t = drop_owner h (ownership s)"
    using release_refines [OF assms(1,2)] by blast
  obtain c where c: "vars t k = Some c" using t(3) assms(3) by (cases "h = k") auto
  have "dom (vars t) = dom (vars s)" using t(3) assms(2) by auto
  then have "\<exists>s'. sp_from_buffer h c t = Some s' \<and> sp_ok s' \<and> ownership s' = (ownership t)\<lparr>owner := (owner (ownership t))(h \<mapsto> c)\<rparr>"
    using assms(4) t(3) by (intro acquire_refines [OF t(2) _ var_buffer [OF t(2) c]]) (simp_all add: few_variables_def)
  then show ?thesis using t(1) c by (simp add: Let_def flip: t(4)) 
qed

text \<open>Only a variable that is destroyed or overwritten can end an object, and every allowed operation runs.\<close>

lemma step_refines:
  assumes "sp_ok s" and "op_allowed op (ownership s)" and "few_variables (ownership s)"
  shows "\<exists>s'. sp_step op s = Some s' \<and> sp_ok s' \<and> ownership s' = own_step op (ownership s)"
proof (cases op)
  case (Null h)
  then show ?thesis using assms sp_ok_null [OF assms(1), of h "Some 0"] by (simp add: ownership_def)
next
  case (Create h p d b)
  then show ?thesis using assms create_ok [OF assms(1), of h b p d] by (auto simp: ownership_def)
next
  case (Copy h k)
  then show ?thesis using assms copy_refines [OF assms(1), of h k] by auto
next
  case (Move h k)
  then show ?thesis using assms move_ok [OF assms(1), of h k] by (auto simp: ownership_def)
next
  case (Destroy h)
  then obtain b where "vars s h = Some b" using assms(2) by auto
  from release_refines [OF assms(1) this] obtain t where t: "sp_release h s = Some t" "sp_ok t" "vars t = (vars s)(h \<mapsto> 0)"
    "ownership t = drop_owner h (ownership s)" by blast
  have "sp_ok (t\<lparr>vars := (vars t)(h := None)\<rparr>)" using sp_ok_null [OF t(2), of h None] t(3) by simp
  moreover have "ownership (t\<lparr>vars := (vars t)(h := None)\<rparr>) = own_step op (ownership s)"
    using Destroy by (simp add: Let_def ownership_vars flip: t(4))
  ultimately show ?thesis using Destroy t(1) by simp
next
  case (Assign h k)
  then show ?thesis using assms assign_refines [OF assms(1), of h _ k] by auto
next
  case (AssignNull h)
  then show ?thesis using assms release_refines [OF assms(1), of h] by auto
next
  case (CastUp h k)
  then show ?thesis using assms copy_refines [OF assms(1), of h k] by auto
next
  case (CastDown h k dyn)
  then obtain b where b: "vars s k = Some b" "b \<noteq> 0" and h: "vars s h = None" using assms(2) by auto
  then have "bufs s b \<noteq> None" using var_buffer [OF assms(1)] by auto
  then show ?thesis using CastDown b h copy_refines [OF assms(1) h b(1) assms(3)] sp_ok_null [OF assms(1), of h "Some 0"]
    by (auto simp: ownership_def)
qed

lemma run_refines:
  assumes "sp_ok s" and "ops_allowed ops (ownership s)"
  shows "\<exists>s'. sp_run ops s = Some s' \<and> sp_ok s' \<and> ownership s' = fold own_step ops (ownership s)"
  using assms
proof (induction ops arbitrary: s)
  case (Cons op ops)
  then obtain t where "sp_step op s = Some t" "sp_ok t" "ownership t = own_step op (ownership s)"
    using step_refines [of s op] by auto
  then show ?case using Cons.IH [of t] Cons.prems(2) by simp
qed simp

definition sp_start :: sp_state where
  "sp_start = \<lparr>bufs = Map.empty, vars = Map.empty, destructed = []\<rparr>"

lemma sp_ok_start: "sp_ok sp_start"
  by (simp add: sp_ok_def sp_start_def)

lemma get_live: "sp_ok s \<Longrightarrow> vars s h = Some b \<Longrightarrow> \<exists>p. sp_get h s = Some p"
  using var_buffer [of s h b] by (auto simp: sp_get_def)

text \<open>C18: Reference counting implements ownership. Any sequence of constructions, copies, moves, assignments, casts and destructions of
  \<open>shared_ptr\<close> variables runs without touching a deleted buffer, and at the end variables, live objects and calls of
  destructors are those of plain ownership, where an object dies exactly when its last owner goes; every pointer that is not null can be followed.\<close>

theorem shared_ptr_refines_ownership:
  assumes "ops_allowed ops (ownership sp_start)"
  shows "\<exists>s. sp_run ops sp_start = Some s \<and> ownership s = fold own_step ops (ownership sp_start) \<and>
    (\<forall>h b. vars s h = Some b \<longrightarrow> sp_get h s \<noteq> None) \<and> (\<forall>b. bufs s b \<noteq> None \<longleftrightarrow> b \<noteq> 0 \<and> b \<in> ran (vars s))"
proof -
  obtain s where s: "sp_run ops sp_start = Some s" "sp_ok s" "ownership s = fold own_step ops (ownership sp_start)"
    using run_refines [OF sp_ok_start assms] by blast
  have "bufs s b \<noteq> None \<Longrightarrow> \<exists>h. vars s h = Some b" for b using s(2) by (auto simp: sp_ok_def holders_def)
  then have "bufs s b \<noteq> None \<longleftrightarrow> b \<noteq> 0 \<and> b \<in> ran (vars s)" for b
    using buffer_not_null [OF s(2), of b] var_buffer [OF s(2), of _ b] by (fastforce simp: ran_def)
  then show ?thesis using s get_live [OF s(2)] by fastforce
qed

text \<open>Two owners of one object, one of which is assigned another object before the other goes.\<close>

definition demo_ops :: "sp_op list" where
  "demo_ops = [Create 2 100 True 16, Copy 3 2, Create 4 200 True 24, Assign 2 4, Destroy 3]"

lemma demo_drops:
  "drop_owner 2 \<lparr>owned = [16 \<mapsto> (100, True), 24 \<mapsto> (200, True)], owner = [2 \<mapsto> 16, 3 \<mapsto> 16, 4 \<mapsto> 24], dead = []\<rparr> =
     \<lparr>owned = [16 \<mapsto> (100, True), 24 \<mapsto> (200, True)], owner = [2 \<mapsto> 0, 3 \<mapsto> 16, 4 \<mapsto> 24], dead = []\<rparr>"
  "drop_owner 3 \<lparr>owned = [16 \<mapsto> (100, True), 24 \<mapsto> (200, True)], owner = [2 \<mapsto> 24, 3 \<mapsto> 16, 4 \<mapsto> 24], dead = []\<rparr> =
     \<lparr>owned = [24 \<mapsto> (200, True)], owner = [2 \<mapsto> 24, 3 \<mapsto> 0, 4 \<mapsto> 24], dead = [100]\<rparr>"
  unfolding drop_owner_def Let_def ran_def by (auto simp: fun_eq_iff intro: exI [of _ 3])

lemma demo_owners: "fold own_step demo_ops (ownership sp_start) = \<lparr>owned = [24 \<mapsto> (200, True)], owner = [2 \<mapsto> 24, 4 \<mapsto> 24], dead = [100]\<rparr>"
  "ops_allowed demo_ops (ownership sp_start)"
  by (simp_all add: demo_ops_def ownership_def sp_start_def few_variables_def Let_def fun_upd_twist demo_drops [simplified fun_upd_twist])

theorem shared_ptr_refines_ownership_witness:
  "ops_allowed demo_ops (ownership sp_start) \<and>
   (\<exists>s. sp_run demo_ops sp_start = Some s \<and> destructed s = [100] \<and> bufs s 24 \<noteq> None \<and> bufs s 16 = None)"
proof -
  from shared_ptr_refines_ownership [OF demo_owners(2)] obtain s where s: "sp_run demo_ops sp_start = Some s"
    "ownership s = fold own_step demo_ops (ownership sp_start)" by blast
  have "destructed s = [100]" "bufs s 24 \<noteq> None" "bufs s 16 = None"
    using arg_cong [OF s(2), of dead] arg_cong [OF s(2), of "\<lambda>a. owned a 24 = None"] arg_cong [OF s(2), of "\<lambda>a. owned a 16 = None"]
    unfolding demo_owners(1) by simp_all
  then show ?thesis using demo_owners(2) s(1) by blast
qed

end
