(* ===== verification/OpNew.thy ===== *)
theory OpNew
  imports Stdlib
begin

text \<open>
  The operators \<open>new\<close> and \<open>delete\<close> (\<^verbatim>\<open>src/libcxxrt/memory.cc\<close>) on the kernel heap. What a new-handler does is the argument \<open>call\<close>: for the address of the handler it gives the
  state afterwards and whether it left by an exception. The result of \<open>new\<close> is the pointer, or \<open>None\<close> if it leaves by an exception.
\<close>

section \<open>The code\<close>

record new_state =
  new_heap :: kheap
  new_handl :: addr

type_synonym new_calls = "addr \<Rightarrow> new_state \<Rightarrow> (bool \<times> new_state) outcome option"

definition set_new_handler :: "addr \<Rightarrow> new_state \<Rightarrow> addr \<times> new_state" where
  "set_new_handler handler s = (new_handl s, s\<lparr>new_handl := handler\<rparr>)"

definition get_new_handler :: "new_state \<Rightarrow> addr" where
  "get_new_handler s = new_handl s"

partial_function (option) new_loop :: "new_calls \<Rightarrow> u32 \<Rightarrow> addr \<Rightarrow> new_state \<Rightarrow> (addr option \<times> new_state) outcome option" where
  "new_loop call sz p s =
     (if p = 0 then
        if get_new_handler s \<noteq> 0 then
          and_then (call (get_new_handler s) s) (\<lambda>(thrown, s).
            if thrown then Some (Inr (None, s))
            else and_then (malloc sz (new_heap s)) (\<lambda>(p, h). new_loop call sz p (s\<lparr>new_heap := h\<rparr>)))
        else Some (Inr (None, s))
      else Some (Inr (Some p, s)))"

definition operator_new :: "new_calls \<Rightarrow> u32 \<Rightarrow> new_state \<Rightarrow> (addr option \<times> new_state) outcome option" where
  "operator_new call sz s =
     (let sz = (if sz = 0 then 1 else sz)
      in and_then (malloc sz (new_heap s)) (\<lambda>(p, h). new_loop call sz p (s\<lparr>new_heap := h\<rparr>)))"

definition noexcept_new :: "new_calls \<Rightarrow> u32 \<Rightarrow> new_state \<Rightarrow> (addr \<times> new_state) outcome option" where
  "noexcept_new call sz s =
     and_then (operator_new call sz s) (\<lambda>(r, s). case r of Some p \<Rightarrow> Some (Inr (p, s)) | None \<Rightarrow> Some (Inr (0, s)))"

definition operator_delete :: "addr \<Rightarrow> new_state \<Rightarrow> new_state outcome option" where
  "operator_delete p s = and_then (free p (new_heap s)) (\<lambda>h. Some (Inr (s\<lparr>new_heap := h\<rparr>)))"

section \<open>On the kernel heap\<close>

text \<open>The number of bytes that are asked for.\<close>

definition new_size :: "nat \<Rightarrow> nat" where
  "new_size n = (if n = 0 then 1 else n)"

lemma new_size_word: "n \<le> 4294967280 \<Longrightarrow> (if (of_nat n :: u32) = 0 then 1 else of_nat n) = (of_nat (new_size n) :: u32)"
  using of_nat32_eq_0 [of n] by (simp add: new_size_def)

lemma operator_new_hit:
  assumes "malloc (of_nat (new_size n)) (new_heap s) = Some (Inr (p, h))" and "p \<noteq> 0" and "n \<le> 4294967280"
  shows "operator_new call (of_nat n) s = Some (Inr (Some p, s\<lparr>new_heap := h\<rparr>))"
  using assms(1,2) new_size_word [OF assms(3)] by (simp add: operator_new_def new_loop.simps)

lemma released_block:
  assumes rep: "heap_rep m h f e cs" and b: "fresh_block bs cs n b" and sp: "alloc_spec (request n) bs = Some (start b + 8, cs)"
    and old: "heap_rep m0 h f e bs" and n: "0 < n"
  shows "\<exists>m'. free (of_nat (start b + 8)) (s\<lparr>memory := m\<rparr>) = Some (Inr (s\<lparr>memory := m'\<rparr>)) \<and> heap_rep m' h f e bs"
proof -
  have "free_spec (start b + 8) cs = bs" using free_alloc_spec [OF sp] heap_rep_layout [OF old] request_props n by blast
  moreover have "b \<in> set cs" "used b" using b by (simp_all add: fresh_block_def)
  ultimately show ?thesis using HeapFree_refines_aux [of "s\<lparr>memory := m\<rparr>" h f e cs b] rep by (auto simp: free_def)
qed

section \<open>Property\<close>

text \<open>
  C30: on a well-formed kernel heap \<open>new\<close> never leaves by an exception, with any new-handler, and also not for 0 bytes. If a free block has room, it returns the address of a fresh block in
  use with room for the bytes asked for, next to all blocks that were in use; and \<open>delete\<close> of that address gives back exactly the blocks that there were. Otherwise the kernel
  panics.
\<close>

theorem new_delete_roundtrip:
  assumes "heap_rep (memory (new_heap s)) h f e bs" and "hKernelHeap (new_heap s) = of_nat h" and "n \<le> 4294967280"
  shows "if \<exists>b \<in> set bs. \<not> used b \<and> request (new_size n) \<le> bsize b
    then \<exists>cs b s1 s2. operator_new call (of_nat n) s = Some (Inr (Some (of_nat (start b + 8)), s1)) \<and> heap_rep (memory (new_heap s1)) h f e cs \<and>
      fresh_block bs cs (new_size n) b \<and> operator_delete (of_nat (start b + 8)) s1 = Some (Inr s2) \<and> heap_rep (memory (new_heap s2)) h f e bs
    else operator_new call (of_nat n) s = Some (Inl ''Kernel ran out of heap memory'')"
proof (cases "\<exists>b \<in> set bs. \<not> used b \<and> request (new_size n) \<le> bsize b")
  case True
  have n: "0 < new_size n" "new_size n \<le> 4294967280" using assms(3) by (simp_all add: new_size_def)
  from malloc_ok [OF assms(1,2) n True] obtain m' cs b where
    al: "malloc (of_nat (new_size n)) (new_heap s) = Some (Inr (of_nat (start b + 8), (new_heap s)\<lparr>memory := m'\<rparr>))" and m': "heap_rep m' h f e cs" "fresh_block bs cs (new_size n) b"
    and sp: "alloc_spec (request (new_size n)) bs = Some (start b + 8, cs)" by metis
  have "(of_nat (start b + 8) :: addr) \<noteq> 0" using fresh_block_range(1) [OF m'] by (metis add_is_0 unat_0 zero_neq_numeral)
  note new = operator_new_hit [OF al this assms(3), of call]
  obtain m2 where m2: "free (of_nat (start b + 8)) ((new_heap s)\<lparr>memory := m'\<rparr>) = Some (Inr ((new_heap s)\<lparr>memory := m2\<rparr>))" "heap_rep m2 h f e bs"
    using released_block [OF m' sp assms(1) n(1)] by blast
  let ?s1 = "s\<lparr>new_heap := (new_heap s)\<lparr>memory := m'\<rparr>\<rparr>" and ?s2 = "s\<lparr>new_heap := (new_heap s)\<lparr>memory := m2\<rparr>\<rparr>"
  have "operator_delete (of_nat (start b + 8)) ?s1 = Some (Inr ?s2)" using m2(1) by (simp add: operator_delete_def)
  then have "operator_new call (of_nat n) s = Some (Inr (Some (of_nat (start b + 8)), ?s1)) \<and> heap_rep (memory (new_heap ?s1)) h f e cs \<and>
      fresh_block bs cs (new_size n) b \<and> operator_delete (of_nat (start b + 8)) ?s1 = Some (Inr ?s2) \<and> heap_rep (memory (new_heap ?s2)) h f e bs"
    using new m' m2(2) by simp
  then show ?thesis using True by (simp only: if_True simp_thms) blast
next
  case False
  have n: "0 < new_size n" "new_size n \<le> 4294967280" using assms(3) by (simp_all add: new_size_def)
  have "alloc_spec (request (new_size n)) bs = None" using False by (auto simp: alloc_spec_None)
  with HeapAlloc_refines_aux [OF assms(1) n, of 0] assms(2) have "malloc (of_nat (new_size n)) (new_heap s) = Some (Inl ''Kernel ran out of heap memory'')" by (simp add: malloc_def)
  then show ?thesis using False new_size_word [OF assms(3)] by (simp add: operator_new_def Let_def)
qed

text \<open>An object of 0 bytes on the example heap.\<close>

theorem new_delete_roundtrip_witness:
  "\<exists>p s1 s2. operator_new (\<lambda>_ _. None) 0 \<lparr>new_heap = demo_heap, new_handl = 0\<rparr> = Some (Inr (Some p, s1)) \<and> operator_delete p s1 = Some (Inr s2) \<and>
     heap_rep (memory (new_heap s2)) 65536 65544 69632 [blk 65544 4088 False]"
proof -
  let ?s = "\<lparr>new_heap = demo_heap, new_handl = 0\<rparr>"
  have r: "heap_rep (memory (new_heap ?s)) 65536 65544 69632 [blk 65544 4088 False]" using demo_rep by simp
  have k: "hKernelHeap (new_heap ?s) = of_nat 65536" using demo_handle by simp
  have room: "\<exists>b \<in> set [blk 65544 4088 False]. \<not> used b \<and> request (new_size 0) \<le> bsize b" by (simp add: request_def new_size_def)
  have "0 \<le> (4294967280 :: nat)" by simp
  from new_delete_roundtrip [OF r k this, of "\<lambda>_ _. None", unfolded if_P [OF room]]
  obtain b :: block and s1 s2 where "operator_new (\<lambda>_ _. None) (of_nat 0) ?s = Some (Inr (Some (of_nat (start b + 8)), s1))" "operator_delete (of_nat (start b + 8)) s1 = Some (Inr s2)"
    "heap_rep (memory (new_heap s2)) 65536 65544 69632 [blk 65544 4088 False]" by blast
  then have "operator_new (\<lambda>_ _. None) 0 ?s = Some (Inr (Some (of_nat (start b + 8)), s1)) \<and> operator_delete (of_nat (start b + 8)) s1 = Some (Inr s2) \<and>
    heap_rep (memory (new_heap s2)) 65536 65544 69632 [blk 65544 4088 False]" by simp
  then show ?thesis by (intro exI)
qed

end
