(* ===== verification/Emergency.thy ===== *)
theory Emergency
  imports Prelude
begin

text \<open>
  The emergency memory for exceptions (\<^verbatim>\<open>src/libcxxrt/exception.cc\<close>): sixteen buffers of 1 KiB that are used when \<open>calloc\<close> fails, over the replacements for the thread
  library in \<^verbatim>\<open>inc/pthread.h\<close>, by which all threads share one block of thread data and waiting for a condition returns at once. The results of the calls of \<open>calloc\<close> are an
  argument, the nth call in the loop returning the nth of them.
\<close>

section \<open>The code\<close>

record emergency =
  emergency_buffer :: "nat \<Rightarrow> u8"
  buffer_allocated :: "bool list"
  emergency_malloc_lock :: int
  emergencyBuffersHeld :: int

definition emergency_init :: emergency where
  "emergency_init = \<lparr>emergency_buffer = (\<lambda>_. 0), buffer_allocated = replicate 16 False, emergency_malloc_lock = 0, emergencyBuffersHeld = 0\<rparr>"

definition pthread_mutex_lock :: "emergency \<Rightarrow> emergency outcome" where
  "pthread_mutex_lock s = (if emergency_malloc_lock s = 0 then Inr (s\<lparr>emergency_malloc_lock := 1\<rparr>) else Inl ''Assertion failed: *mutex == 0'')"

definition pthread_mutex_unlock :: "emergency \<Rightarrow> emergency outcome" where
  "pthread_mutex_unlock s = (if emergency_malloc_lock s \<noteq> 0 then Inr (s\<lparr>emergency_malloc_lock := 0\<rparr>) else Inl ''Assertion failed: *mutex != 0'')"

fun first_free :: "bool list \<Rightarrow> nat \<Rightarrow> nat option" where
  "first_free [] i = None"
| "first_free (b # bs) i = (if \<not> b then Some i else first_free bs (i + 1))"

partial_function (option) emergency_loop :: "(nat \<Rightarrow> addr) \<Rightarrow> nat \<Rightarrow> emergency \<Rightarrow> ((addr + nat) \<times> emergency) option" where
  "emergency_loop calloc n s =
     (if calloc n \<noteq> 0 then Some (Inl (calloc n), s)
      else case first_free (buffer_allocated s) 0 of
        Some buffer \<Rightarrow> Some (Inr buffer, s\<lparr>buffer_allocated := (buffer_allocated s)[buffer := True]\<rparr>)
      | None \<Rightarrow> emergency_loop calloc (n + 1) s)"

definition emergency_malloc :: "addr \<Rightarrow> (nat \<Rightarrow> addr) \<Rightarrow> u32 \<Rightarrow> emergency \<Rightarrow> (addr \<times> emergency) outcome option" where
  "emergency_malloc base calloc n s =
     (if n > 1024 then Some (Inr (0, s))
      else if emergencyBuffersHeld s > 3 then Some (Inr (0, s))
      else case pthread_mutex_lock s of
        Inl msg \<Rightarrow> Some (Inl msg)
      | Inr s \<Rightarrow>
          (case emergency_loop calloc 0 s of
             None \<Rightarrow> None
           | Some (found, s) \<Rightarrow>
               (case pthread_mutex_unlock s of
                  Inl msg \<Rightarrow> Some (Inl msg)
                | Inr s \<Rightarrow>
                    (case found of
                       Inl m \<Rightarrow> Some (Inr (m, s))
                     | Inr buffer \<Rightarrow> Some (Inr (base + of_nat (1024 * buffer), s\<lparr>emergencyBuffersHeld := emergencyBuffersHeld s + 1\<rparr>))))))"

function buffer_of :: "addr \<Rightarrow> addr \<Rightarrow> nat \<Rightarrow> nat option" where
  "buffer_of base p i = (if i < 16 then if p = base + of_nat (1024 * i) then Some i else buffer_of base p (i + 1) else None)"
  by pat_completeness auto
termination by (relation "measure (\<lambda>(_, _, i). 16 - i)") auto

declare buffer_of.simps [simp del]

definition emergency_malloc_free :: "addr \<Rightarrow> addr \<Rightarrow> emergency \<Rightarrow> emergency outcome" where
  "emergency_malloc_free base p s =
     (case buffer_of base p 0 of
        None \<Rightarrow> Inl ''Assertion failed: Trying to free something that is not an emergency buffer!''
      | Some buffer \<Rightarrow>
          let s = s\<lparr>emergency_buffer := (\<lambda>k. if 1024 * buffer \<le> k \<and> k < 1024 * buffer + 1024 then 0 else emergency_buffer s k)\<rparr>
          in case pthread_mutex_lock s of
               Inl msg \<Rightarrow> Inl msg
             | Inr s \<Rightarrow> pthread_mutex_unlock (s\<lparr>buffer_allocated := (buffer_allocated s)[buffer := False]\<rparr>))"

text \<open>The argument \<open>m\<close> is what the first call of \<open>calloc\<close> returned.\<close>

definition alloc_or_die :: "addr \<Rightarrow> addr \<Rightarrow> (nat \<Rightarrow> addr) \<Rightarrow> u32 \<Rightarrow> emergency \<Rightarrow> (addr \<times> emergency) outcome option" where
  "alloc_or_die base m calloc n s =
     (if m = 0 then
        (case emergency_malloc base calloc n s of
           None \<Rightarrow> None
         | Some (Inl msg) \<Rightarrow> Some (Inl msg)
         | Some (Inr (p, s)) \<Rightarrow> if p = 0 then Some (Inl ''Out of memory attempting to allocate exception'') else Some (Inr (p, s)))
      else Some (Inr (m, s)))"

text \<open>The first component of the result is the pointer that goes to \<open>free\<close>, if any.\<close>

definition free_exception :: "addr \<Rightarrow> addr \<Rightarrow> emergency \<Rightarrow> (addr option \<times> emergency) outcome" where
  "free_exception base e s =
     (if e \<ge> base \<and> e < base + 16384 then map_sum id (Pair None) (emergency_malloc_free base e s) else Inr (Some e, s))"

section \<open>States that occur\<close>

text \<open>A program allocates, releases what it has, and writes to the buffers it has.\<close>

inductive em_reach :: "addr \<Rightarrow> emergency \<Rightarrow> bool" for base where
  start: "em_reach base emergency_init"
| allocates: "em_reach base s \<Longrightarrow> emergency_malloc base calloc n s = Some (Inr (p, s')) \<Longrightarrow> em_reach base s'"
| releases: "em_reach base s \<Longrightarrow> i < 16 \<Longrightarrow> buffer_allocated s ! i \<Longrightarrow> emergency_malloc_free base (base + of_nat (1024 * i)) s = Inr s' \<Longrightarrow> em_reach base s'"
| stores: "em_reach base s \<Longrightarrow> k < 16384 \<Longrightarrow> buffer_allocated s ! (k div 1024) \<Longrightarrow> em_reach base (s\<lparr>emergency_buffer := (emergency_buffer s)(k := b)\<rparr>)"

definition taken :: "emergency \<Rightarrow> nat set" where
  "taken s = {i. i < 16 \<and> buffer_allocated s ! i}"

definition em_inv :: "emergency \<Rightarrow> bool" where
  "em_inv s \<longleftrightarrow> length (buffer_allocated s) = 16 \<and> emergency_malloc_lock s = 0 \<and> emergencyBuffersHeld s \<le> 4 \<and> int (card (taken s)) \<le> emergencyBuffersHeld s \<and>
     (\<forall>k < 16384. \<not> buffer_allocated s ! (k div 1024) \<longrightarrow> emergency_buffer s k = 0)"

lemma first_free_Some: "first_free bs i = Some j \<Longrightarrow> i \<le> j \<and> j - i < length bs \<and> \<not> bs ! (j - i)"
  by (induction bs i rule: first_free.induct) (auto split: if_splits simp: nth_Cons' Suc_le_eq)

lemma first_free_None: "first_free bs i = None \<longleftrightarrow> (\<forall>b \<in> set bs. b)"
  by (induction bs i rule: first_free.induct) auto

lemma taken_bound: "em_inv s \<Longrightarrow> emergencyBuffersHeld s \<le> 3 \<Longrightarrow> \<exists>i. first_free (buffer_allocated s) 0 = Some i"
proof (rule ccontr)
  assume i: "em_inv s" "emergencyBuffersHeld s \<le> 3" and "\<nexists>i. first_free (buffer_allocated s) 0 = Some i"
  then have "\<forall>b \<in> set (buffer_allocated s). b" using first_free_None by (metis option.exhaust)
  then have "taken s = {..<16}" using i(1) by (auto simp: taken_def em_inv_def)
  then show False using i by (simp add: em_inv_def)
qed

lemma buffer_of_eq: "i \<le> j \<Longrightarrow> j < 16 \<Longrightarrow> buffer_of base (base + of_nat (1024 * j)) i = Some j"
proof (induction "j - i" arbitrary: i)
  case 0
  then show ?case by (simp add: buffer_of.simps)
next
  case (Suc d)
  have "of_nat (1024 * j) = (of_nat (1024 * i) :: addr) \<longleftrightarrow> 1024 * j = 1024 * i"
    using Suc.prems by (simp only: word_of_nat_eq_iff) (simp add: take_bit_nat_eq_self)
  then show ?case using Suc by (subst buffer_of.simps) auto
qed

text \<open>What an allocation does on a state with the invariant.\<close>

lemma emergency_malloc_cases:
  assumes "em_inv s"
  obtains (none) "emergency_malloc base calloc n s = Some (Inr (0, s))" "n > 1024 \<or> emergencyBuffersHeld s = 4"
  | (calloc) "emergency_malloc base calloc n s = Some (Inr (calloc 0, s))" "calloc 0 \<noteq> 0"
  | (buffer) i where "i < 16" "\<not> buffer_allocated s ! i" "n \<le> 1024" "emergencyBuffersHeld s \<le> 3" "calloc 0 = 0"
      "emergency_malloc base calloc n s =
         Some (Inr (base + of_nat (1024 * i), s\<lparr>buffer_allocated := (buffer_allocated s)[i := True], emergencyBuffersHeld := emergencyBuffersHeld s + 1\<rparr>))"
proof -
  have l: "emergency_malloc_lock s = 0" "length (buffer_allocated s) = 16" "emergencyBuffersHeld s \<le> 4" using assms by (simp_all add: em_inv_def)
  have s: "s\<lparr>emergency_malloc_lock := 0\<rparr> = s" using l(1) by (cases s) simp
  consider "n > 1024 \<or> emergencyBuffersHeld s = 4" | "n \<le> 1024" "emergencyBuffersHeld s \<le> 3" "calloc 0 \<noteq> 0" | "n \<le> 1024" "emergencyBuffersHeld s \<le> 3" "calloc 0 = 0"
  proof -
    have "emergencyBuffersHeld s = 4 \<or> emergencyBuffersHeld s \<le> 3" using l(3) by linarith
    then show ?thesis using that linorder_not_less [of 1024 n] by blast
  qed
  then show ?thesis
  proof cases
    case 1
    then show ?thesis by (intro none) (auto simp: emergency_malloc_def)
  next
    case 2
    then have "emergency_malloc base calloc n s = Some (Inr (calloc 0, s))"
      using l(1) s by (simp add: emergency_malloc_def pthread_mutex_lock_def pthread_mutex_unlock_def emergency_loop.simps)
    then show ?thesis using 2(3) by (rule calloc)
  next
    case 3
    obtain i where i: "first_free (buffer_allocated s) 0 = Some i" using taken_bound [OF assms 3(2)] by blast
    show ?thesis
    proof (rule buffer [of i])
      show "i < 16" "\<not> buffer_allocated s ! i" using first_free_Some [OF i] l(2) by simp_all
      show "emergency_malloc base calloc n s =
         Some (Inr (base + of_nat (1024 * i), s\<lparr>buffer_allocated := (buffer_allocated s)[i := True], emergencyBuffersHeld := emergencyBuffersHeld s + 1\<rparr>))"
        using 3 leD [OF 3(1)] l(1) i by (simp add: emergency_malloc_def pthread_mutex_lock_def pthread_mutex_unlock_def emergency_loop.simps)
    qed (use 3 in auto)
  qed
qed

lemma emergency_malloc_free_eq:
  assumes "em_inv s" and "i < 16"
  shows "emergency_malloc_free base (base + of_nat (1024 * i)) s =
     Inr (s\<lparr>emergency_buffer := (\<lambda>k. if 1024 * i \<le> k \<and> k < 1024 * i + 1024 then 0 else emergency_buffer s k), buffer_allocated := (buffer_allocated s)[i := False]\<rparr>)"
proof -
  have l: "emergency_malloc_lock s = 0" using assms by (simp add: em_inv_def)
  have "t\<lparr>emergency_malloc_lock := 0\<rparr> = t" if "emergency_malloc_lock t = 0" for t :: emergency using that by (cases t) simp
  note this [of "s\<lparr>emergency_buffer := x, buffer_allocated := y\<rparr>" for x y]
  then show ?thesis using assms l buffer_of_eq [of 0 i base] by (simp add: emergency_malloc_free_def pthread_mutex_lock_def pthread_mutex_unlock_def)
qed

lemma em_inv_buffer:
  assumes "em_inv s" "i < 16" "\<not> buffer_allocated s ! i" "emergencyBuffersHeld s \<le> 3"
  shows "em_inv (s\<lparr>buffer_allocated := (buffer_allocated s)[i := True], emergencyBuffersHeld := emergencyBuffersHeld s + 1\<rparr>)" (is "em_inv ?s")
proof -
  have "taken ?s = insert i (taken s)" using assms by (auto simp: taken_def em_inv_def nth_list_update)
  moreover have "finite (taken s)" "i \<notin> taken s" using assms by (simp_all add: taken_def)
  ultimately have "card (taken ?s) = card (taken s) + 1" by simp
  then show ?thesis using assms by (auto simp: em_inv_def nth_list_update)
qed

lemma em_inv_release:
  assumes "em_inv s" "i < 16"
  shows "em_inv (s\<lparr>emergency_buffer := (\<lambda>k. if 1024 * i \<le> k \<and> k < 1024 * i + 1024 then 0 else emergency_buffer s k), buffer_allocated := (buffer_allocated s)[i := False]\<rparr>)"
    (is "em_inv ?s")
proof -
  have "taken ?s \<subseteq> taken s" using assms by (auto simp: taken_def em_inv_def nth_list_update split: if_splits)
  then have c: "card (taken ?s) \<le> card (taken s)" by (intro card_mono) (simp_all add: taken_def)
  have "emergency_buffer ?s k = 0" if "k < 16384" "\<not> buffer_allocated ?s ! (k div 1024)" for k
  proof (cases "k div 1024 = i")
    case True
    then have "1024 * i \<le> k" "k < 1024 * i + 1024" by auto
    then show ?thesis by simp
  next
    case False
    then show ?thesis using that assms by (simp add: em_inv_def)
  qed
  then show ?thesis using assms c by (auto simp: em_inv_def)
qed

lemma em_reach_inv: "em_reach base s \<Longrightarrow> em_inv s"
proof (induction rule: em_reach.induct)
  case start
  have "taken emergency_init = {}" by (auto simp: taken_def emergency_init_def)
  then show ?case by (simp add: em_inv_def) (simp add: emergency_init_def)
next
  case (allocates s calloc n p s')
  show ?case by (rule emergency_malloc_cases [OF allocates.IH, of base calloc n]) (use allocates em_inv_buffer in auto)
next
  case (releases s i s')
  then show ?case using em_inv_release [OF releases.IH, of i] emergency_malloc_free_eq [OF releases.IH, of i base] by simp
next
  case (stores s k b)
  then show ?case by (auto simp: em_inv_def taken_def)
qed

section \<open>Properties\<close>



text \<open>
  A release gives a buffer back and clears it, but it does not lower the count of the buffers that the thread has: after four allocations the emergency memory is refused for good, also
  when all of it is free.
\<close>

lemma emergency_count_never_falls:
  assumes "em_reach base s" and "i < 16" and "emergency_malloc_free base (base + of_nat (1024 * i)) s = Inr s'"
  shows "emergencyBuffersHeld s' = emergencyBuffersHeld s \<and> \<not> buffer_allocated s' ! i"
  using assms emergency_malloc_free_eq [OF em_reach_inv [OF assms(1)], of i base] em_reach_inv [OF assms(1)] by (auto simp: em_inv_def)

fun em_pairs :: "addr \<Rightarrow> nat \<Rightarrow> emergency \<Rightarrow> emergency outcome option" where
  "em_pairs base 0 s = Some (Inr s)"
| "em_pairs base (Suc n) s =
     (case emergency_malloc base (\<lambda>_. 0) 1 s of Some (Inr (p, s)) \<Rightarrow> (case emergency_malloc_free base p s of Inr s \<Rightarrow> em_pairs base n s | Inl msg \<Rightarrow> Some (Inl msg)) | Some (Inl msg) \<Rightarrow> Some (Inl msg) | None \<Rightarrow> None)"

lemma emergency_memory_exhausted:
  "\<exists>s. em_pairs base 4 emergency_init = Some (Inr s) \<and> buffer_allocated s = replicate 16 False \<and>
     alloc_or_die base 0 (\<lambda>_. 0) 1 s = Some (Inl ''Out of memory attempting to allocate exception'')"
proof -
  define st where "st n = emergency_init\<lparr>emergencyBuffersHeld := n\<rparr>" for n
  have inv: "em_inv (st n)" if "0 \<le> n" "n \<le> 4" for n
  proof -
    have "taken (st n) = {}" by (auto simp: taken_def st_def emergency_init_def)
    then show ?thesis using that by (simp add: em_inv_def) (simp add: st_def emergency_init_def)
  qed
  have step: "em_pairs base (Suc k) (st n) = em_pairs base k (st (n + 1))" if n: "0 \<le> n" "n \<le> 3" for n k
  proof -
    have st: "buffer_allocated (st n) = replicate 16 False" "emergency_buffer (st n) = (\<lambda>_. 0)" "emergencyBuffersHeld (st n) = n" by (simp_all add: st_def emergency_init_def)
    have iv: "em_inv (st n)" using inv n by simp
    obtain i where i: "i < 16" and eq: "emergency_malloc base (\<lambda>_. 0) 1 (st n) =
        Some (Inr (base + of_nat (1024 * i), (st n)\<lparr>buffer_allocated := (replicate 16 False)[i := True], emergencyBuffersHeld := n + 1\<rparr>))" (is "_ = Some (Inr (?p, ?s))")
      by (rule emergency_malloc_cases [OF iv, of base "\<lambda>_. 0" 1]) (use n st in auto)
    have "em_inv ?s" using em_inv_buffer [OF iv i] n i st by simp
    from emergency_malloc_free_eq [OF this i, of base] have "emergency_malloc_free base ?p ?s = Inr (st (n + 1))"
      using i nth_replicate [OF i, of False] list_update_id [of "replicate 16 False" i] by (simp add: st_def emergency_init_def cong: if_cong)
    then show ?thesis using eq by simp
  qed
  have "em_pairs base 4 (st 0) = Some (Inr (st 4))" using step [of 0 3] step [of 1 2] step [of 2 1] step [of 3 0] by (simp add: eval_nat_numeral)
  moreover have "st 0 = emergency_init" by (simp add: st_def emergency_init_def)
  moreover have "alloc_or_die base 0 (\<lambda>_. 0) 1 (st 4) = Some (Inl ''Out of memory attempting to allocate exception'')"
    by (simp add: alloc_or_die_def emergency_malloc_def st_def)
  moreover have "buffer_allocated (st 4) = replicate 16 False" by (simp add: st_def emergency_init_def)
  ultimately show ?thesis by metis
qed

end
