(* ===== verification/Dwarf.thy ===== *)
theory Dwarf
  imports Printf
begin

text \<open>
  The tables that tell the C++ runtime where an exception is handled (\<^verbatim>\<open>inc/dwarf_eh.h\<close>): numbers in base 128, the header of the language-specific data
  area of a function, and the search for the call site. What the accessors of the unwinder return for a stack frame is the record \<open>unwind_context\<close>.
\<close>

section \<open>The code\<close>

record unwind_context =
  uc_ip :: u32
  uc_region_start :: u32
  uc_text_base :: u32
  uc_data_base :: u32
  uc_lsda :: addr

definition DW_EH_PE_omit :: u8 where "DW_EH_PE_omit = 0xff"

definition get_encoding :: "u8 \<Rightarrow> u8" where
  "get_encoding x = x AND 0xf"

definition get_base :: "u8 \<Rightarrow> u8" where
  "get_base x = x AND 0x70"

definition is_indirect :: "u8 \<Rightarrow> bool" where
  "is_indirect x \<longleftrightarrow> x AND 0x80 = 0x80"

definition dwarf_size_of_fixed_size_field :: "u8 \<Rightarrow> nat outcome" where
  "dwarf_size_of_fixed_size_field t =
     (let e = get_encoding t
      in if e = 0x02 \<or> e = 0x0a then Inr 2
         else if e = 0x03 \<or> e = 0x0b then Inr 4
         else if e = 0x04 \<or> e = 0x0c then Inr 8
         else if e = 0x00 then Inr 4
         else Inl ''abort'')"

text \<open>
  A digit is an \<open>int\<close> when it is shifted: its upper bits are lost behind bit 31, a set bit 31 is extended when the digit is added, and a shift by 32 bits or more is
  undefined.
\<close>

function leb128_loop :: "mem \<Rightarrow> addr \<Rightarrow> u64 \<Rightarrow> nat \<Rightarrow> (u64 \<times> nat \<times> addr) outcome" where
  "leb128_loop m data uleb b =
     (if \<not> b < 64 then Inl ''Assertion failed: bit < sizeof(uint64_t) * 8''
      else if \<not> b < 32 then Inl ''shift of an int by 32 bits or more''
      else let digit = m data AND 0x7f;
               uleb = uleb + scast (push_bit b (ucast digit :: u32))
           in if m data \<noteq> digit then leb128_loop m (data + 1) uleb (b + 7)
              else Inr (uleb, b + 7, data + 1))"
  by pat_completeness auto
termination by (relation "measure (\<lambda>(m, data, uleb, b). 64 - b)") auto

declare leb128_loop.simps [simp del]

definition read_leb128 :: "mem \<Rightarrow> addr \<Rightarrow> (u64 \<times> nat \<times> addr) outcome" where
  "read_leb128 m data = leb128_loop m data 0 0"

definition read_uleb128 :: "mem \<Rightarrow> addr \<Rightarrow> (u64 \<times> addr) outcome" where
  "read_uleb128 m data = map_sum id (\<lambda>(uleb, b, data). (uleb, data)) (read_leb128 m data)"

definition read_sleb128 :: "mem \<Rightarrow> addr \<Rightarrow> (u64 \<times> addr) outcome" where
  "read_sleb128 m data =
     map_sum id (\<lambda>(uleb, bits, data). (if drop_bit (bits - 1) uleb = 1 then uleb OR push_bit bits (- 1) else uleb, data)) (read_leb128 m data)"

definition read_value :: "mem \<Rightarrow> u8 \<Rightarrow> addr \<Rightarrow> (u64 \<times> addr) outcome" where
  "read_value m encoding data =
     (let t = get_encoding encoding
      in if t = 0x02 then Inr (ucast (ld16 m data), data + 2)
         else if t = 0x03 then Inr (ucast (ld32 m data), data + 4)
         else if t = 0x04 then Inr (ld64 m data, data + 8)
         else if t = 0x0a then Inr (scast (ld16 m data), data + 2)
         else if t = 0x0b then Inr (scast (ld32 m data), data + 4)
         else if t = 0x0c then Inr (ld64 m data, data + 8)
         else if t = 0x00 then Inr (scast (ld32 m data), data + 4)
         else if t = 0x09 then read_sleb128 m data
         else if t = 0x01 then read_uleb128 m data
         else Inl ''abort'')"

text \<open>A pointer that becomes a 64-bit number is sign-extended by the compiler; a 64-bit number that becomes a pointer is cut.\<close>

definition resolve_indirect_value :: "unwind_context \<Rightarrow> mem \<Rightarrow> u8 \<Rightarrow> u64 \<Rightarrow> addr \<Rightarrow> u64" where
  "resolve_indirect_value c m encoding v start =
     (let b = get_base encoding;
          v = (if b = 0x10 then v + scast start
               else if b = 0x20 then v + ucast (uc_text_base c)
               else if b = 0x30 then v + ucast (uc_data_base c)
               else if b = 0x40 then v + ucast (uc_region_start c)
               else v)
      in if is_indirect encoding then ucast (ld32 m (ucast v)) else v)"

definition read_value_with_encoding :: "unwind_context \<Rightarrow> mem \<Rightarrow> addr \<Rightarrow> u64 \<Rightarrow> (u64 \<times> addr) outcome" where
  "read_value_with_encoding c m data out =
     (let start = data; encoding = m data; data = data + 1
      in if encoding = DW_EH_PE_omit then Inr (out, data)
         else map_sum id (\<lambda>(v, data). (resolve_indirect_value c m encoding v start, data)) (read_value m encoding data))"

record dwarf_eh_lsda =
  region_start :: addr
  landing_pads :: addr
  type_table :: addr
  type_table_encoding :: u8
  call_site_table :: addr
  action_table :: addr
  callsite_encoding :: u8

definition parse_lsda :: "unwind_context \<Rightarrow> mem \<Rightarrow> addr \<Rightarrow> dwarf_eh_lsda outcome option" where
  "parse_lsda c m data =
     and_then (Some (read_value_with_encoding c m data (ucast (uc_region_start c)))) (\<lambda>(pads, data).
       let tenc = m data; data = data + 1
       in and_then (if tenc \<noteq> DW_EH_PE_omit then and_then (Some (read_uleb128 m data)) (\<lambda>(v, data). Some (Inr (data + ucast v, data)))
                    else Some (Inr (0, data))) (\<lambda>(ttab, data).
            let cenc = m data; data = data + 1
            in and_then (Some (read_uleb128 m data)) (\<lambda>(callsite_size, data).
                 Some (Inr \<lparr>region_start = uc_region_start c, landing_pads = ucast pads, type_table = ttab, type_table_encoding = tenc,
                   call_site_table = data, action_table = data + ucast callsite_size, callsite_encoding = cenc\<rparr>))))"

record dwarf_eh_action =
  landing_pad :: addr
  action_record :: addr

text \<open>The loop over the call sites: whether one was found, and its action.\<close>

partial_function (option) callsite_loop :: "mem \<Rightarrow> dwarf_eh_lsda \<Rightarrow> u64 \<Rightarrow> addr \<Rightarrow> (bool \<times> dwarf_eh_action) outcome option" where
  "callsite_loop m lsda ip table =
     (if table \<le> action_table lsda then
        and_then (Some (read_value m (callsite_encoding lsda) table)) (\<lambda>(call_site_start, table).
          and_then (Some (read_value m (callsite_encoding lsda) table)) (\<lambda>(call_site_size, table).
            if call_site_start > ip then Some (Inr (False, \<lparr>landing_pad = 0, action_record = 0\<rparr>))
            else and_then (Some (read_value m (callsite_encoding lsda) table)) (\<lambda>(pad, table).
              and_then (Some (read_uleb128 m table)) (\<lambda>(action, table).
                if call_site_start < ip \<and> ip \<le> call_site_start + call_site_size then
                  Some (Inr (True, \<lparr>landing_pad = (if pad \<noteq> 0 then landing_pads lsda + ucast pad else 0),
                    action_record = (if action \<noteq> 0 then action_table lsda + ucast action - 1 else 0)\<rparr>))
                else callsite_loop m lsda ip table))))
      else Some (Inr (False, \<lparr>landing_pad = 0, action_record = 0\<rparr>)))"

definition dwarf_eh_find_callsite :: "unwind_context \<Rightarrow> mem \<Rightarrow> dwarf_eh_lsda \<Rightarrow> (bool \<times> dwarf_eh_action) outcome option" where
  "dwarf_eh_find_callsite c m lsda = callsite_loop m lsda (ucast (uc_ip c - uc_region_start c)) (call_site_table lsda)"


section \<open>Numbers in base 128\<close>

text \<open>Bytes at an address.\<close>

fun stored :: "mem \<Rightarrow> addr \<Rightarrow> u8 list \<Rightarrow> bool" where
  "stored m a [] \<longleftrightarrow> True"
| "stored m a (x # xs) \<longleftrightarrow> m a = x \<and> stored m (a + 1) xs"

lemma stored_append [simp]: "stored m a (xs @ ys) \<longleftrightarrow> stored m a xs \<and> stored m (a + of_nat (length xs)) ys"
  by (induction xs arbitrary: a) (auto simp: add.assoc)

text \<open>The encodings of the DWARF standard: digits of seven bits, lowest first, all but the last with bit 7 set.\<close>

fun uleb :: "nat \<Rightarrow> u8 list" where
  "uleb n = (if n < 128 then [of_nat n] else of_nat (n mod 128 + 128) # uleb (n div 128))"

function sleb :: "int \<Rightarrow> u8 list" where
  "sleb x = (if - 64 \<le> x \<and> x < 64 then [of_int (x mod 128)] else of_int (x mod 128 + 128) # sleb (x div 128))"
  by pat_completeness auto
termination by (relation "measure (\<lambda>x. nat \<bar>x\<bar>)") auto

declare uleb.simps [simp del] sleb.simps [simp del]

lemma unat_byte: "k < 256 \<Longrightarrow> unat (of_nat k :: u8) = k"
  by (simp only: unat_of_nat) (simp add: take_bit_nat_eq_self)

lemma unat_digit: "unat (w AND 0x7f :: u8) = unat w mod 128"
proof -
  have m: "(0x7f :: u8) = mask 7" by (simp add: mask_eq_exp_minus_1)
  show ?thesis unfolding m take_bit_eq_mask [symmetric] unsigned_take_bit_eq by (simp add: take_bit_nat_def)
qed

lemma scast_digit: "k * 2 ^ b < 2147483648 \<Longrightarrow> k < 256 \<Longrightarrow> (scast (push_bit b (ucast (of_nat k :: u8) :: u32)) :: u64) = of_nat (k * 2 ^ b)"
proof -
  assume k: "k * 2 ^ b < 2147483648" "k < 256"
  have "(ucast (of_nat k :: u8) :: u32) = of_nat k" using k(2) by (simp add: word_unat_eq_iff unsigned_ucast_eq unat_of_nat take_bit_nat_eq_self)
  then have p: "push_bit b (ucast (of_nat k :: u8) :: u32) = of_nat (k * 2 ^ b)" by (simp add: push_bit_eq_mult)
  have "sint (of_nat (k * 2 ^ b) :: u32) = int (k * 2 ^ b)" using k(1) by (intro sint_of_nat32) simp
  then show ?thesis unfolding p by (metis of_int_of_nat_eq of_int_sint)
qed

lemma digits_split: "(d + 128 * q) * 2 ^ b = d * 2 ^ b + q * 2 ^ (b + 7)" for d q :: "'a :: comm_semiring_1"
  by (simp add: algebra_simps power_add)

text \<open>A sequence of digits with its end mark, and its value.\<close>

fun digits :: "u8 list \<Rightarrow> bool" where
  "digits [] \<longleftrightarrow> False"
| "digits (d # ds) \<longleftrightarrow> (if unat d < 128 then ds = [] else digits ds)"

fun digits_value :: "u8 list \<Rightarrow> nat" where
  "digits_value [] = 0"
| "digits_value (d # ds) = unat d mod 128 + 128 * digits_value ds"

lemma leb128_loop_digits:
  assumes "digits ds" and "stored m a ds" and "digits_value ds * 2 ^ b < 2147483648" and "b + 7 * (length ds - 1) < 32"
  shows "leb128_loop m a acc b = Inr (acc + of_nat (digits_value ds * 2 ^ b), b + 7 * length ds, a + of_nat (length ds))"
  using assms
proof (induction ds arbitrary: a acc b)
  case (Cons d ds)
  let ?d = "unat d mod 128" and ?q = "digits_value ds"
  have m: "m a = d" "stored m (a + 1) ds" using Cons.prems(2) by simp_all
  have dig: "d AND 0x7f = of_nat ?d" by (simp only: word_unat_eq_iff unat_digit) (simp add: unat_byte)
  have eq: "d = d AND 0x7f \<longleftrightarrow> unat d < 128" unfolding word_unat_eq_iff unat_digit by (auto simp: mod_eq_self_iff_div_eq_0)
  have split: "digits_value (d # ds) * 2 ^ b = ?d * 2 ^ b + ?q * 2 ^ (b + 7)" unfolding digits_value.simps by (rule digits_split)
  then have lt: "?d * 2 ^ b < 2147483648" "?q * 2 ^ (b + 7) < 2147483648" using Cons.prems(3) by linarith+
  have sc: "scast (push_bit b (ucast (d AND 0x7f) :: u32)) = (of_nat (?d * 2 ^ b) :: u64)" unfolding dig by (rule scast_digit [OF lt(1)]) (simp add: less_trans [of _ 128])
  have b: "b < 32" using Cons.prems(4) by simp
  show ?case
  proof (cases "unat d < 128")
    case True
    then have "ds = []" "d AND 0x7f = d" using Cons.prems(1) eq by simp_all
    then show ?thesis using b m(1) sc by (subst leb128_loop.simps) (simp add: Let_def)
  next
    case False
    have ds: "digits ds" "ds \<noteq> []" using Cons.prems(1) False by auto
    then have b7: "b + 7 + 7 * (length ds - 1) < 32" using Cons.prems(4) by (cases ds) simp_all
    have "leb128_loop m a acc b = leb128_loop m (a + 1) (acc + of_nat (?d * 2 ^ b)) (b + 7)"
      using False eq b m(1) sc by (subst leb128_loop.simps) (auto simp: Let_def)
    also have "\<dots> = Inr (acc + of_nat (?d * 2 ^ b) + of_nat (?q * 2 ^ (b + 7)), b + 7 + 7 * length ds, a + 1 + of_nat (length ds))"
      by (rule Cons.IH [OF ds(1) m(2) lt(2) b7])
    also have "acc + of_nat (?d * 2 ^ b) + of_nat (?q * 2 ^ (b + 7)) = acc + of_nat (digits_value (d # ds) * 2 ^ b)" unfolding split by simp
    finally show ?thesis by (simp add: add.assoc)
  qed
qed simp

lemma read_leb128_digits:
  assumes "digits ds" and "stored m a ds" and "digits_value ds < 2147483648" and "length ds \<le> 5"
  shows "read_leb128 m a = Inr (of_nat (digits_value ds), 7 * length ds, a + of_nat (length ds))"
  using leb128_loop_digits [of ds m a 0 0] assms by (simp add: read_leb128_def)

lemma uleb_digits: "digits (uleb n)" "digits_value (uleb n) = n"
  by (induction n rule: uleb.induct) (subst uleb.simps, auto simp: unat_byte simp del: of_nat_add)+

lemma uleb_length: "n < 128 ^ k \<Longrightarrow> 0 < k \<Longrightarrow> length (uleb n) \<le> k"
proof (induction k arbitrary: n)
  case (Suc k)
  show ?case
  proof (cases "n < 128")
    case False
    then have "n div 128 < 128 ^ k" "0 < k" using Suc.prems(1) by (auto simp: less_mult_imp_div_less mult.commute intro!: gr0I)
    then show ?thesis using Suc.IH [of "n div 128"] False by (subst uleb.simps) simp
  qed (simp add: uleb.simps)
qed simp

lemma read_uleb128_eq:
  assumes "stored m a (uleb n)" and "n < 2147483648"
  shows "read_uleb128 m a = Inr (of_nat n, a + of_nat (length (uleb n)))"
  using read_leb128_digits [OF uleb_digits(1) assms(1)] uleb_length [of n 5] assms(2) by (simp add: read_uleb128_def uleb_digits)


lemma div_range:
  fixes x h :: int
  shows "- h \<le> x div 128 \<and> x div 128 < h \<longleftrightarrow> - (128 * h) \<le> x \<and> x < 128 * h"
proof -
  have x: "x = 128 * (x div 128) + x mod 128" "0 \<le> x mod 128" "x mod 128 < 128" by simp_all
  have "- h \<le> x div 128 \<longleftrightarrow> - (128 * h) \<le> x" using x by linarith
  moreover have "x div 128 < h \<longleftrightarrow> x < 128 * h" using x by linarith
  ultimately show ?thesis by simp
qed

lemma sleb_digits: "digits (sleb x)"
  and sleb_value: "int (digits_value (sleb x)) = x mod 2 ^ (7 * length (sleb x))"
  and sleb_range: "- (2 ^ (7 * length (sleb x))) \<le> 2 * x \<and> 2 * x < 2 ^ (7 * length (sleb x))"
proof (induction x rule: sleb.induct)
  case (1 x)
  have u: "unat (of_int (x mod 128) :: u8) = nat (x mod 128)" "unat (of_int (x mod 128 + 128) :: u8) = nat (x mod 128) + 128"
    using unat_byte [of "nat (x mod 128)"] unat_byte [of "nat (x mod 128) + 128"] pos_mod_bound [of 128 x] by (simp_all add: nat_less_iff)
  have d: "int (nat (x mod 128) mod 128) = x mod 128" by (simp add: zmod_int)
  {
    case 1
    show ?case using "1.IH"(1) u by (subst sleb.simps) auto
  next
    case 2
    show ?case
    proof (cases "- 64 \<le> x \<and> x < 64")
      case False
      let ?k = "7 * length (sleb (x div 128))"
      have "x mod 2 ^ (7 + ?k) = 128 * (x div 128 mod 2 ^ ?k) + x mod 128" unfolding power_add using zmod_zmult2_eq [of "2 ^ ?k" x 128] by simp
      then show ?thesis using False "1.IH"(2) [OF False] u d by (simp add: sleb.simps [of x])
    qed (use u d in \<open>simp add: sleb.simps [of x]\<close>)
  next
    case 3
    show ?case
    proof (cases "- 64 \<le> x \<and> x < 64")
      case False
      let ?q = "x div 128" and ?k = "7 * length (sleb (x div 128))"
      have "0 < ?k" using "1.IH"(1) [OF False] by (cases "sleb (x div 128)") auto
      then obtain h :: int where h: "2 ^ ?k = 2 * h" by (metis gr0_implies_Suc power_Suc)
      have "- (2 * h) \<le> 2 * ?q \<and> 2 * ?q < 2 * h" using "1.IH"(3) [OF False] unfolding h .
      then have "- (128 * (2 * h)) \<le> 2 * x \<and> 2 * x < 128 * (2 * h)" using div_range [of h x] by linarith
      then show ?thesis using False by (simp add: sleb.simps [of x] power_add h)
    qed (simp add: sleb.simps [of x])
  }
qed

lemma sleb_length: "- (128 ^ k) \<le> 2 * x \<Longrightarrow> 2 * x < 128 ^ k \<Longrightarrow> 0 < k \<Longrightarrow> length (sleb x) \<le> k"
proof (induction k arbitrary: x)
  case (Suc k)
  show ?case
  proof (cases "- 64 \<le> x \<and> x < 64")
    case False
    then have k: "0 < k" using Suc.prems by (intro gr0I) auto
    have e: "128 ^ Suc k = 128 * (128 ^ k :: int)" by simp
    obtain j where "k = Suc j" using k by (cases k) auto
    then obtain h :: int where h: "128 ^ k = 2 * h" by (intro that [of "64 * 128 ^ j"]) simp
    have "- (2 * h) \<le> 2 * (x div 128) \<and> 2 * (x div 128) < 2 * h" using Suc.prems(1,2) div_range [of h x] unfolding e h by linarith
    then show ?thesis using Suc.IH [of "x div 128"] False k by (subst sleb.simps) (simp add: h)
  qed (simp add: sleb.simps)
qed simp

lemma read_sleb128_eq:
  assumes "stored m a (sleb x)" and x: "- 134217728 \<le> x" "x < 134217728"
  shows "read_sleb128 m a = Inr (of_int x, a + of_nat (length (sleb x)))"
proof -
  let ?k = "length (sleb x)" and ?v = "digits_value (sleb x)"
  have k: "?k \<le> 4" "0 < ?k" using sleb_length [of 4 x] x sleb_digits [of x] by (simp, cases "sleb x") simp_all
  have v: "int ?v = x mod 2 ^ (7 * ?k)" by (rule sleb_value)
  have "int ?v < 2 ^ (7 * ?k)" unfolding v by simp
  then have vk: "?v < 2 ^ (7 * ?k)" by (metis of_nat_less_iff of_nat_numeral of_nat_power)
  have "(2 :: nat) ^ (7 * ?k) \<le> 2 ^ 28" using k(1) by (intro power_increasing) simp_all
  then have v28: "?v < 268435456" using vk by simp
  have r: "read_leb128 m a = Inr (of_nat ?v, 7 * ?k, a + of_nat ?k)"
    using read_leb128_digits [OF sleb_digits assms(1)] v28 k by simp
  let ?h = "2 ^ (7 * ?k - 1) :: int" and ?w = "of_nat ?v :: u64"
  have h: "2 ^ (7 * ?k) = 2 * ?h" using k(2) power_Suc [of "2 :: int" "7 * ?k - 1"] by simp
  have range: "- ?h \<le> x \<and> x < ?h" using sleb_range [of x] unfolding h by linarith
  have u: "unat ?w = ?v" using v28 by (simp add: unat_of_nat take_bit_nat_eq_self)
  have "unat (drop_bit (7 * ?k - 1) ?w) = ?v div 2 ^ (7 * ?k - 1)" by (simp only: unat_drop_bit_eq u) (simp only: drop_bit_eq_div)
  then have "drop_bit (7 * ?k - 1) ?w = 1 \<longleftrightarrow> int (?v div 2 ^ (7 * ?k - 1)) = 1" by (simp only: word_unat_eq_iff unsigned_1 of_nat_eq_1_iff)
  then have dr: "drop_bit (7 * ?k - 1) ?w = 1 \<longleftrightarrow> int ?v div ?h = 1" by (simp only: zdiv_int of_nat_power of_nat_numeral)
  show ?thesis
  proof (cases "x < 0")
    case False
    then have vx: "int ?v = x" using range unfolding v h by simp
    then have "int ?v div ?h = 0" using range False by simp
    moreover have "?w = of_int x" using vx by (metis of_int_of_nat_eq)
    ultimately show ?thesis using r dr by (simp add: read_sleb128_def)
  next
    case True
    have vx: "int ?v = x + 2 * ?h" 
    proof -
      have "(x + 2 * ?h) mod (2 * ?h) = x + 2 * ?h" using range True by (intro mod_pos_pos_trivial) linarith+
      then show ?thesis unfolding v h by (simp only: mod_add_self2)
    qed
    then have one: "int ?v div ?h = 1" using range True by (intro int_div_pos_eq [of _ _ 1 "x + ?h"]) linarith+
    have "take_bit (7 * ?k) ?w = ?w" using vk k(1) by (simp add: word_unat_eq_iff unsigned_take_bit_eq u take_bit_nat_eq_self)
    moreover have "take_bit (7 * ?k) ?w AND push_bit (7 * ?k) (- 1) = 0" by (rule bit_word_eqI) (simp add: bit_simps)
    ultimately have "?w AND push_bit (7 * ?k) (- 1) = 0" by metis
    then have "?w OR push_bit (7 * ?k) (- 1) = ?w + push_bit (7 * ?k) (- 1)" by (simp add: disjunctive_add_eq_or)
    also have "\<dots> = of_int (int ?v - 2 ^ (7 * ?k))" by (simp add: push_bit_eq_mult)
    also have "\<dots> = of_int x" using vx h by simp
    finally show ?thesis using r dr one by (simp add: read_sleb128_def)
  qed
qed


section \<open>Call sites\<close>

text \<open>A call site: start and size of a piece of the function, its landing pad and its action, as the compiler writes them.\<close>

type_synonym site = "nat \<times> nat \<times> nat \<times> nat"

fun encode_sites :: "site list \<Rightarrow> u8 list" where
  "encode_sites [] = []"
| "encode_sites ((s, n, p, a) # cs) = uleb s @ uleb n @ uleb p @ uleb a @ encode_sites cs"

fun site_small :: "site \<Rightarrow> bool" where
  "site_small (s, n, p, a) \<longleftrightarrow> s < 2147483648 \<and> n < 2147483648 \<and> p < 2147483648 \<and> a < 2147483648"

text \<open>A return address belongs to the call before it.\<close>

fun covers :: "nat \<Rightarrow> site \<Rightarrow> bool" where
  "covers ip (s, n, p, a) \<longleftrightarrow> s < ip \<and> ip \<le> s + n"

fun site_action :: "addr \<Rightarrow> addr \<Rightarrow> site option \<Rightarrow> bool \<times> dwarf_eh_action" where
  "site_action pads actions None = (False, \<lparr>landing_pad = 0, action_record = 0\<rparr>)"
| "site_action pads actions (Some (s, n, p, a)) =
     (True, \<lparr>landing_pad = (if p \<noteq> 0 then pads + of_nat p else 0), action_record = (if a \<noteq> 0 then actions + of_nat a - 1 else 0)\<rparr>)"

lemma u64_small:
  assumes "i < 2 ^ 63" and "j < 2 ^ 63"
  shows "(of_nat i :: u64) < of_nat j \<longleftrightarrow> i < j" and "(of_nat i :: u64) \<le> of_nat j \<longleftrightarrow> i \<le> j" and "(of_nat i :: u64) = 0 \<longleftrightarrow> i = 0"
proof -
  have u: "unat (of_nat k :: u64) = k" if "k < 2 ^ 63" for k using that by (simp only: unat_of_nat) (simp add: take_bit_nat_eq_self)
  show "(of_nat i :: u64) < of_nat j \<longleftrightarrow> i < j" "(of_nat i :: u64) \<le> of_nat j \<longleftrightarrow> i \<le> j" "(of_nat i :: u64) = 0 \<longleftrightarrow> i = 0"
    using u [OF assms(1)] u [OF assms(2)] by (simp_all only: word_less_nat_alt word_le_nat_alt word_unat_eq_iff unsigned_0)
qed

lemma ucast_of_nat64: "(ucast (of_nat p :: u64) :: u32) = of_nat p" if "p < 4294967296"
  using that by (simp add: word_unat_eq_iff unsigned_ucast_eq unat_of_nat take_bit_nat_eq_self)

lemma read_value_uleb:
  assumes "get_encoding e = 1" and "stored m a (uleb n)" and "n < 2147483648"
  shows "read_value m e a = Inr (of_nat n, a + of_nat (length (uleb n)))"
  using read_uleb128_eq [OF assms(2,3)] assms(1) by (simp add: read_value_def Let_def)

lemma callsite_loop_search:
  assumes "stored m t (encode_sites cs)" and "list_all site_small cs" and e: "get_encoding (callsite_encoding l) = 1"
    and "unat t + length (encode_sites cs) \<le> unat (action_table l)" and "sorted (map fst cs)" and ip: "ip < 4294967296"
    and "\<exists>c \<in> set cs. covers ip c \<or> ip < fst c"
  shows "callsite_loop m l (of_nat ip) t = Some (Inr (site_action (landing_pads l) (action_table l) (List.find (covers ip) cs)))"
  using assms(1,2,4,5,7)
proof (induction cs arbitrary: t)
  case (Cons c cs)
  obtain s n p a where c: "c = (s, n, p, a)" by (cases c)
  let ?t1 = "t + of_nat (length (uleb s))"
  let ?t2 = "?t1 + of_nat (length (uleb n))"
  let ?t3 = "?t2 + of_nat (length (uleb p))"
  let ?t4 = "?t3 + of_nat (length (uleb a))"
  have st: "stored m t (uleb s)" "stored m ?t1 (uleb n)" "stored m ?t2 (uleb p)" "stored m ?t3 (uleb a)" "stored m ?t4 (encode_sites cs)"
    using Cons.prems(1) by (simp_all add: c)
  have sm: "s < 2147483648" "n < 2147483648" "p < 2147483648" "a < 2147483648" using Cons.prems(2) by (simp_all add: c)
  have tl: "t \<le> action_table l" using Cons.prems(3) by (simp add: word_le_nat_alt)
  note rd = read_value_uleb [OF e st(1) sm(1)] read_value_uleb [OF e st(2) sm(2)] read_value_uleb [OF e st(3) sm(3)] read_uleb128_eq [OF st(4) sm(4)]
  have cmp: "(of_nat ip :: u64) < of_nat s \<longleftrightarrow> ip < s" "(of_nat s :: u64) < of_nat ip \<longleftrightarrow> s < ip"
    "(of_nat ip :: u64) \<le> of_nat s + of_nat n \<longleftrightarrow> ip \<le> s + n" "(of_nat p :: u64) = 0 \<longleftrightarrow> p = 0" "(of_nat a :: u64) = 0 \<longleftrightarrow> a = 0"
    using u64_small [of ip s] u64_small(1) [of s ip] u64_small(2) [of ip "s + n"] u64_small(3) [of p 0] u64_small(3) [of a 0] sm ip by simp_all
  have run: "callsite_loop m l (of_nat ip) t =
     (if ip < s then Some (Inr (site_action (landing_pads l) (action_table l) None))
      else if covers ip c then Some (Inr (site_action (landing_pads l) (action_table l) (Some c)))
      else callsite_loop m l (of_nat ip) ?t4)"
    using sm tl by (subst callsite_loop.simps) (simp add: rd cmp c ucast_of_nat64)
  consider "ip < s" | "\<not> ip < s" "covers ip c" | "\<not> ip < s" "\<not> covers ip c" by blast
  then show ?case
  proof cases
    case 1
    then have "\<not> covers ip d" if "d \<in> set (c # cs)" for d using Cons.prems(4) that by (cases d) (fastforce simp: c)
    then have "List.find (covers ip) (c # cs) = None" unfolding find_None_iff by blast
    then show ?thesis using run 1 by simp
  next
    case 2
    then show ?thesis using run by simp
  next
    case 3
    have "unat ?t4 + length (encode_sites cs) \<le> unat (action_table l)"
    proof -
      let ?k = "length (uleb s) + length (uleb n) + length (uleb p) + length (uleb a)"
      have "unat t + ?k \<le> unat (action_table l)" using Cons.prems(3) by (simp add: c)
      also have "\<dots> < 4294967296" by (rule unat_lt32)
      finally have "unat (t + of_nat ?k) = unat t + ?k" using unat_of_nat32 [of "unat t + ?k"] by simp
      moreover have "t + of_nat ?k = ?t4" by (simp add: add_ac)
      ultimately have "unat ?t4 = unat t + ?k" by metis
      then show ?thesis using Cons.prems(3) by (simp add: c)
    qed
    moreover have "\<exists>c \<in> set cs. covers ip c \<or> ip < fst c" using Cons.prems(5) 3 by (auto simp: c)
    ultimately show ?thesis using Cons.IH [of ?t4] st(5) Cons.prems(2,4) run 3 by simp
  qed
qed simp

text \<open>A data area as the compiler writes it: no base for the landing pads, an offset of the type table, and call sites in base 128.\<close>

definition encode_lsda :: "u8 \<Rightarrow> nat \<Rightarrow> site list \<Rightarrow> u8 list" where
  "encode_lsda tenc toff cs = [0xff, tenc] @ uleb toff @ [1] @ uleb (length (encode_sites cs)) @ encode_sites cs"

lemma parse_lsda_encoded:
  fixes m data tenc toff cs
  defines "actions \<equiv> data + of_nat (length (encode_lsda tenc toff cs))"
  assumes st: "stored m data (encode_lsda tenc toff cs)" and tenc: "tenc \<noteq> 0xff" and toff: "toff < 2147483648"
    and len: "length (encode_sites cs) < 2147483648"
  shows "\<exists>l. parse_lsda c m data = Some (Inr l) \<and> landing_pads l = uc_region_start c \<and> type_table_encoding l = tenc \<and>
    type_table l = data + 2 + of_nat (length (uleb toff) + toff) \<and> callsite_encoding l = 1 \<and> action_table l = actions \<and>
    stored m (call_site_table l) (encode_sites cs) \<and> call_site_table l + of_nat (length (encode_sites cs)) = actions"
proof -
  let ?d1 = "data + 2 + of_nat (length (uleb toff))" and ?n = "length (encode_sites cs)"
  have s: "m data = 0xff" "m (data + 1) = tenc" "stored m (data + 2) (uleb toff)" "m ?d1 = 1" "stored m (?d1 + 1) (uleb ?n)"
    "stored m (?d1 + 1 + of_nat (length (uleb ?n))) (encode_sites cs)"
    using st by (simp_all add: encode_lsda_def add_ac)
  have pads: "(ucast (ucast (uc_region_start c) :: u64) :: u32) = uc_region_start c" by (rule bit_word_eqI) (simp add: bit_simps)
  have n: "(ucast (of_nat ?n :: u64) :: u32) = of_nat ?n" "(ucast (of_nat toff :: u64) :: u32) = of_nat toff" using len toff by (intro ucast_of_nat64; simp)+
  have "parse_lsda c m data = Some (Inr \<lparr>region_start = uc_region_start c, landing_pads = uc_region_start c, type_table = ?d1 + of_nat toff,
     type_table_encoding = tenc, call_site_table = ?d1 + 1 + of_nat (length (uleb ?n)), action_table = ?d1 + 1 + of_nat (length (uleb ?n)) + of_nat ?n, callsite_encoding = 1\<rparr>)"
    unfolding parse_lsda_def read_value_with_encoding_def Let_def DW_EH_PE_omit_def
    using s tenc read_uleb128_eq [OF s(3) toff] read_uleb128_eq [OF s(5) len] pads n by (simp add: add.assoc)
  then show ?thesis using s(6) by (simp add: actions_def encode_lsda_def add_ac)
qed


lemma lsda_search:
  assumes "stored m data (encode_lsda tenc toff cs)" and "tenc \<noteq> 0xff" and "toff < 2147483648" and "list_all site_small cs" and "sorted (map fst cs)"
    and "unat data + length (encode_lsda tenc toff cs) < 2147483648" and "\<exists>s \<in> set cs. covers (unat (uc_ip c - uc_region_start c)) s \<or> unat (uc_ip c - uc_region_start c) < fst s"
  shows "\<exists>l. parse_lsda c m data = Some (Inr l) \<and> type_table_encoding l = tenc \<and> type_table l = data + 2 + of_nat (length (uleb toff) + toff) \<and>
    dwarf_eh_find_callsite c m l = Some (Inr (site_action (uc_region_start c) (data + of_nat (length (encode_lsda tenc toff cs)))
      (List.find (covers (unat (uc_ip c - uc_region_start c))) cs)))"
proof -
  let ?n = "length (encode_sites cs)" and ?ip = "unat (uc_ip c - uc_region_start c)"
  have n: "?n < 2147483648" using assms(6) by (simp add: encode_lsda_def)
  obtain l where l: "parse_lsda c m data = Some (Inr l)" "landing_pads l = uc_region_start c" "type_table_encoding l = tenc"
    "type_table l = data + 2 + of_nat (length (uleb toff) + toff)" "callsite_encoding l = 1" "action_table l = data + of_nat (length (encode_lsda tenc toff cs))"
    "stored m (call_site_table l) (encode_sites cs)" "call_site_table l + of_nat ?n = action_table l"
    using parse_lsda_encoded [OF assms(1-3) n, of c] by metis
  obtain h where h: "length (encode_lsda tenc toff cs) = h + ?n" by (simp add: encode_lsda_def)
  have u: "unat (data + of_nat k) = unat data + k" if "unat data + k < 4294967296" for k
    using unat_of_nat32 [OF that] by simp
  have "call_site_table l = data + of_nat h" using l(6,8) unfolding h of_nat_add by (metis add.assoc add_right_cancel)
  then have "unat (call_site_table l) = unat data + h" using u [of h] assms(6) h by simp
  moreover have "unat (action_table l) = unat data + (h + ?n)" using u [of "h + ?n"] assms(6) unfolding l(6) h by linarith
  ultimately have "unat (call_site_table l) + ?n \<le> unat (action_table l)" by simp
  then have run: "callsite_loop m l (of_nat ?ip) (call_site_table l) = Some (Inr (site_action (landing_pads l) (action_table l) (List.find (covers ?ip) cs)))"
    using l(5) by (intro callsite_loop_search [OF l(7) assms(4) _ _ assms(5) unat_lt32 assms(7)]) (simp add: get_encoding_def)
  have "(ucast (uc_ip c - uc_region_start c) :: u64) = of_nat ?ip" by simp
  from run [folded this, unfolded l(2,6)] l(1,3,4) show ?thesis unfolding dwarf_eh_find_callsite_def by blast
qed

section \<open>Where the reader fails\<close>

text \<open>The digit at bit 28 is extended with its sign, so numbers from \<open>2 ^ 31\<close> on are read wrong.\<close>

lemma uleb128_sign_extended:
  assumes "stored m a (uleb 0x80000000)"
  shows "read_uleb128 m a = Inr (0xFFFFFFFF80000000, a + 5)"
proof -
  have "stored m a [0x80, 0x80, 0x80, 0x80, 0x08]" using assms by (simp add: uleb.simps)
  then have b: "m a = 0x80" "m (a + 1) = 0x80" "m (a + 2) = 0x80" "m (a + 3) = 0x80" "m (a + 4) = 0x08" by (simp_all add: add.assoc)
  have "push_bit 28 (8 :: u32) = 0x80000000" "(scast (0x80000000 :: u32) :: u64) = 0xFFFFFFFF80000000" by (simp_all add: push_bit_eq_mult)
  then show ?thesis
    unfolding read_uleb128_def read_leb128_def
    by (subst leb128_loop.simps, subst leb128_loop.simps, subst leb128_loop.simps, subst leb128_loop.simps, subst leb128_loop.simps)
      (simp add: b Let_def add.assoc)
qed

text \<open>Behind the last call site the search reads on in the action table, because it stops only when it is past its start.\<close>

lemma callsite_overrun:
  assumes "stored m t ([0, 4, 9, 0] @ [5, 9, 7, 1])" and "get_encoding (callsite_encoding l) = 1" and "action_table l = t + 4" and "t \<le> t + 4"
  shows "callsite_loop m l 10 t = Some (Inr (True, \<lparr>landing_pad = landing_pads l + 7, action_record = action_table l\<rparr>))"
proof -
  have b: "m t = 0" "m (t + 1) = 4" "m (t + 2) = 9" "m (t + 3) = 0" "m (t + 4) = 5" "m (t + 5) = 9" "m (t + 6) = 7" "m (t + 7) = 1"
    using assms(1) by (simp_all add: add.assoc)
  have "read_uleb128 m p = Inr (of_nat n, p + 1)" if "m p = of_nat n" "n < 128" for p n
    using read_uleb128_eq [of m p n] that by (simp add: uleb.simps)
  from this [of t 0] this [of "t + 1" 4] this [of "t + 2" 9] this [of "t + 3" 0] this [of "t + 4" 5] this [of "t + 5" 9] this [of "t + 6" 7] this [of "t + 7" 1]
  have r: "read_uleb128 m t = Inr (0, t + 1)" "read_uleb128 m (t + 1) = Inr (4, t + 2)" "read_uleb128 m (t + 2) = Inr (9, t + 3)" "read_uleb128 m (t + 3) = Inr (0, t + 4)"
    "read_uleb128 m (t + 4) = Inr (5, t + 5)" "read_uleb128 m (t + 5) = Inr (9, t + 6)" "read_uleb128 m (t + 6) = Inr (7, t + 7)" "read_uleb128 m (t + 7) = Inr (1, t + 8)"
    using b by (simp_all add: add.assoc)
  have v: "read_value m (callsite_encoding l) p = read_uleb128 m p" for p using assms(2) by (simp add: read_value_def)
  have "callsite_loop m l 10 t = callsite_loop m l 10 (t + 4)"
    using assms(3,4) by (subst callsite_loop.simps) (simp add: v r)
  also have "\<dots> = Some (Inr (True, \<lparr>landing_pad = landing_pads l + 7, action_record = action_table l\<rparr>))"
    using assms(3) by (subst callsite_loop.simps) (simp add: v r)
  finally show ?thesis .
qed

section \<open>Properties\<close>

text \<open>
  The numbers of the exception tables survive encoding and reading. From a place that holds the standard's encoding of a natural number below \<open>2 ^ 31\<close> the unsigned reader returns the number, and
  from one that holds the encoding of an integer of at most 28 bits the signed reader returns it, sign included; both return the address behind the last digit.
\<close>

theorem leb128_roundtrip:
  assumes "stored m a (uleb n)" and "n < 2147483648" and "stored m b (sleb x)" and "- 134217728 \<le> x" and "x < 134217728"
  shows "read_uleb128 m a = Inr (of_nat n, a + of_nat (length (uleb n))) \<and> read_sleb128 m b = Inr (of_int x, b + of_nat (length (sleb x)))"
  using read_uleb128_eq [OF assms(1,2)] read_sleb128_eq [OF assms(3-5)] by simp

definition demo_numbers :: mem where
  "demo_numbers p = (if p = 0 then 0xE5 else if p = 1 then 0x8E else if p = 2 then 0x26 else if p = 3 then 0x80 else if p = 4 then 0x7F else 0)"

theorem leb128_roundtrip_witness:
  "read_uleb128 demo_numbers 0 = Inr (624485, 3) \<and> read_sleb128 demo_numbers 3 = Inr (- 128, 5)"
proof -
  have u: "uleb 624485 = [0xE5, 0x8E, 0x26]" "sleb (- 128) = [0x80, 0x7F]" by (simp_all add: uleb.simps sleb.simps)
  then have "stored demo_numbers 0 (uleb 624485)" "stored demo_numbers 3 (sleb (- 128))" by (simp_all add: demo_numbers_def)
  from leb128_roundtrip [OF this(1) _ this(2)] show ?thesis using u by simp
qed

text \<open>
  The search of the exception tables finds the call site. For a data area that the compiler has written, with call sites in the order of their addresses, the header is read back, and the search for a return
  address returns the landing pad and the action record of the call site that covers it, or reports that there is none when a call site behind it shows that; it returns in every such case.
\<close>

theorem lsda_finds_callsite:
  assumes "stored m data (encode_lsda tenc toff cs)" and "tenc \<noteq> 0xff" and "toff < 2147483648" and "list_all site_small cs" and "sorted (map fst cs)"
    and "unat data + length (encode_lsda tenc toff cs) < 2147483648" and "\<exists>s \<in> set cs. covers (unat (uc_ip c - uc_region_start c)) s \<or> unat (uc_ip c - uc_region_start c) < fst s"
  shows "\<exists>l. parse_lsda c m data = Some (Inr l) \<and> type_table_encoding l = tenc \<and> type_table l = data + 2 + of_nat (length (uleb toff) + toff) \<and>
    dwarf_eh_find_callsite c m l = Some (Inr (site_action (uc_region_start c) (data + of_nat (length (encode_lsda tenc toff cs)))
      (List.find (covers (unat (uc_ip c - uc_region_start c))) cs)))"
  by (rule lsda_search [OF assms])

definition demo_context :: unwind_context where
  "demo_context = \<lparr>uc_ip = 0x100015, uc_region_start = 0x100000, uc_text_base = 0, uc_data_base = 0, uc_lsda = 0\<rparr>"

text \<open>Two call sites; the second, from \<open>0x10\<close> to \<open>0x18\<close>, has the landing pad \<open>0x40\<close> and the first action record.\<close>

definition demo_lsda :: mem where
  "demo_lsda p = (let bs = [0xff, 0, 20, 1, 8, 0, 8, 0, 0, 0x10, 8, 0x40, 1] in if unat p < length bs then bs ! unat p else 0)"

lemma demo_lsda_stored: "stored demo_lsda 0 (encode_lsda 0 20 [(0, 8, 0, 0), (0x10, 8, 0x40, 1)])"
proof -
  have e: "encode_lsda 0 20 [(0, 8, 0, 0), (0x10, 8, 0x40, 1)] = [0xff, 0, 20, 1, 8, 0, 8, 0, 0, 0x10, 8, 0x40, 1]" by (simp add: encode_lsda_def uleb.simps)
  show ?thesis unfolding e by (simp add: demo_lsda_def)
qed

theorem lsda_finds_callsite_witness:
  "\<exists>l. parse_lsda demo_context demo_lsda 0 = Some (Inr l) \<and>
     dwarf_eh_find_callsite demo_context demo_lsda l = Some (Inr (True, \<lparr>landing_pad = 0x100040, action_record = 13\<rparr>))"
proof -
  have "length (encode_lsda 0 20 [(0, 8, 0, 0), (0x10, 8, 0x40, 1)]) = 13" by (simp add: encode_lsda_def uleb.simps)
  moreover have "unat (uc_ip demo_context - uc_region_start demo_context) = 0x15" by (simp add: demo_context_def)
  ultimately show ?thesis
    using lsda_finds_callsite [OF demo_lsda_stored, of demo_context] by (auto simp: demo_context_def)
qed

end
