(* ===== verification/Personality.thy ===== *)
theory Personality
  imports Dwarf
begin

text \<open>
  How a stack frame decides about an exception (\<^verbatim>\<open>src/libcxxrt/exception.cc\<close>): the types of the catch clauses, the chain of action records of a call site, and the
  personality function that the unwinder calls for every frame, once to search for a handler and once to enter it. The virtual functions of the type descriptions are the
  record \<open>type_ops\<close>.
\<close>

section \<open>The code\<close>

datatype handler_type = handler_none | handler_cleanup | handler_catch

datatype reason = URC_FATAL_PHASE1_ERROR | URC_HANDLER_FOUND | URC_INSTALL_CONTEXT | URC_CONTINUE_UNWIND

record type_ops =
  is_pointer_p :: "addr \<Rightarrow> bool"
  type_equal :: "addr \<Rightarrow> addr \<Rightarrow> bool"
  do_catch :: "addr \<Rightarrow> addr \<Rightarrow> addr \<Rightarrow> addr option"

text \<open>
  The header of a thrown object with the address of the object behind it. Pointers to other exceptions are numbers of exceptions; \<open>primaryException\<close> is the field of a dependent
  exception. The counts are numbers that do not wrap.
\<close>

datatype cleanup_fn = no_cleanup | exception_cleanup | dependent_exception_cleanup | other_cleanup addr

record cxa_exception =
  exceptionType :: addr
  exceptionDestructor :: addr
  unexpectedHandler :: addr
  terminateHandler :: addr
  nextException :: "nat option"
  handlerCount :: int
  handlerSwitchValue :: u32
  actionRecord :: addr
  languageSpecificData :: addr
  catchTemp :: addr
  adjustedPtr :: addr
  referenceCount :: int
  unwindClass :: u64
  unwindCleanup :: cleanup_fn
  primaryException :: "nat option"
  thrownObject :: addr

definition EXCEPTION_CLASS :: "u8 list \<Rightarrow> u64" where
  "EXCEPTION_CLASS bs = fold (\<lambda>b v. push_bit 8 v + ucast b) bs 0"

definition exception_class :: u64 where
  "exception_class = EXCEPTION_CLASS (map of_char ''GNUCC++'' @ [0])"

definition dependent_exception_class :: u64 where
  "dependent_exception_class = EXCEPTION_CLASS (map of_char ''GNUCC++'' @ [1])"

definition isCXXException :: "u64 \<Rightarrow> bool" where
  "isCXXException cls \<longleftrightarrow> cls = exception_class \<or> cls = dependent_exception_class"

definition isDependentException :: "u64 \<Rightarrow> bool" where
  "isDependentException cls \<longleftrightarrow> cls = dependent_exception_class"

text \<open>The entries of the type table lie in front of the address in the header and are counted backwards.\<close>

definition get_type_info_entry :: "unwind_context \<Rightarrow> mem \<Rightarrow> dwarf_eh_lsda \<Rightarrow> u32 \<Rightarrow> addr outcome option" where
  "get_type_info_entry c m lsda filt =
     and_then (Some (dwarf_size_of_fixed_size_field (type_table_encoding lsda))) (\<lambda>sz.
       let record_start = type_table lsda - of_nat sz * filt
       in and_then (Some (read_value m (type_table_encoding lsda) record_start)) (\<lambda>(offset, _).
            if offset = 0 then Some (Inr 0)
            else Some (Inr (ucast (resolve_indirect_value c m (type_table_encoding lsda) offset record_start)))))"

text \<open>Whether a clause takes the exception, and the pointer that it gets. \<open>None\<close> is an exception of another language.\<close>

definition check_type_signature :: "type_ops \<Rightarrow> mem \<Rightarrow> cxa_exception option \<Rightarrow> addr \<Rightarrow> addr \<Rightarrow> bool \<times> addr" where
  "check_type_signature ops m ex t adjusted =
     (case ex of
        None \<Rightarrow> (t = 0, adjusted)
      | Some e \<Rightarrow>
          let ex_type = exceptionType e;
              ptr = (if is_pointer_p ops ex_type then ld32 m (thrownObject e) else thrownObject e)
          in if t = 0 then (True, ptr)
             else if type_equal ops t ex_type then (True, ptr)
             else (case do_catch ops t ex_type ptr of Some p \<Rightarrow> (True, p) | None \<Rightarrow> (False, adjusted)))"

text \<open>The types of an exception specification, whose indices are bytes behind the type table.\<close>

partial_function (option) spec_loop :: "type_ops \<Rightarrow> unwind_context \<Rightarrow> mem \<Rightarrow> dwarf_eh_lsda \<Rightarrow> cxa_exception option \<Rightarrow> addr \<Rightarrow> addr \<Rightarrow> (bool \<times> addr) outcome option" where
  "spec_loop ops c m lsda ex type_index adjusted =
     (if m type_index \<noteq> 0 then
        and_then (get_type_info_entry c m lsda (ucast (m type_index))) (\<lambda>t.
          let (hit, adjusted) = check_type_signature ops m ex t adjusted
          in if hit then Some (Inr (True, adjusted)) else spec_loop ops c m lsda ex (type_index + 1) adjusted)
      else Some (Inr (False, adjusted)))"

text \<open>The loop over the action records: what was found, the selector and the adjusted pointer.\<close>

partial_function (option) action_loop :: "type_ops \<Rightarrow> unwind_context \<Rightarrow> mem \<Rightarrow> dwarf_eh_lsda \<Rightarrow> cxa_exception option \<Rightarrow> addr \<Rightarrow> handler_type \<Rightarrow> u32 \<Rightarrow> addr \<Rightarrow>
    (handler_type \<times> u32 \<times> addr) outcome option" where
  "action_loop ops c m lsda ex action found selector adjusted =
     (if action \<noteq> 0 then
        and_then (Some (read_sleb128 m action)) (\<lambda>(filter64, base).
          and_then (Some (read_sleb128 m base)) (\<lambda>(displacement64, _).
            let filt = ucast filter64 :: u32; displacement = ucast displacement64 :: u32;
                action = (if displacement \<noteq> 0 then base + displacement else 0)
            in if 0 <s filt then
                 and_then (get_type_info_entry c m lsda filt) (\<lambda>t.
                   let (hit, adjusted) = check_type_signature ops m ex t adjusted
                   in if hit then Some (Inr (handler_catch, filt, adjusted))
                      else action_loop ops c m lsda ex action found selector adjusted)
               else if filt <s 0 \<and> ex \<noteq> None then
                 and_then (spec_loop ops c m lsda ex (type_table lsda - filt - 1) adjusted) (\<lambda>(matched, adjusted).
                   if matched then action_loop ops c m lsda ex action found filt adjusted
                   else Some (Inr (handler_catch, filt, adjusted)))
               else if filt = 0 then action_loop ops c m lsda ex action handler_cleanup filt adjusted
               else action_loop ops c m lsda ex action found selector adjusted))
      else Some (Inr (found, selector, adjusted)))"

definition check_action_record :: "type_ops \<Rightarrow> unwind_context \<Rightarrow> mem \<Rightarrow> dwarf_eh_lsda \<Rightarrow> addr \<Rightarrow> cxa_exception option \<Rightarrow> u32 \<Rightarrow> addr \<Rightarrow>
    (handler_type \<times> u32 \<times> addr) outcome option" where
  "check_action_record ops c m lsda action ex selector adjusted =
     (if action = 0 then Some (Inr (handler_cleanup, selector, adjusted))
      else action_loop ops c m lsda ex action handler_none selector adjusted)"

definition saveLandingPad :: "u32 \<Rightarrow> addr \<Rightarrow> cxa_exception \<Rightarrow> cxa_exception" where
  "saveLandingPad selector landingPad ex = ex\<lparr>handlerSwitchValue := selector, catchTemp := landingPad\<rparr>"

definition loadLandingPad :: "cxa_exception \<Rightarrow> u32 \<times> addr" where
  "loadLandingPad ex = (handlerSwitchValue ex, catchTemp ex)"

text \<open>
  The personality function. \<open>ex\<close> is the header of the exception and \<open>realEx\<close> the header of the object that it stands for; for an exception of another
  language they are not used. The result is the reason, the header, and the instruction pointer and selector of an installed context.
\<close>

definition search_phase :: "type_ops \<Rightarrow> unwind_context \<Rightarrow> mem \<Rightarrow> bool \<Rightarrow> cxa_exception \<Rightarrow> cxa_exception \<Rightarrow> (reason \<times> cxa_exception \<times> (addr \<times> u32) option) outcome option" where
  "search_phase ops c m foreign ex realEx =
     and_then (parse_lsda c m (uc_lsda c)) (\<lambda>lsda.
       and_then (dwarf_eh_find_callsite c m lsda) (\<lambda>(found, action).
         if \<not> found then Some (Inr (URC_HANDLER_FOUND, ex, None))
         else and_then (check_action_record ops c m lsda (action_record action) (if foreign then None else Some realEx) 0 (adjustedPtr ex)) (\<lambda>(h, selector, adjusted).
           let ex = (if foreign then ex else ex\<lparr>adjustedPtr := adjusted\<rparr>)
           in if h = handler_catch then
                Some (Inr (URC_HANDLER_FOUND, if foreign then ex
                  else (saveLandingPad selector (landing_pad action) ex)\<lparr>languageSpecificData := uc_lsda c, actionRecord := action_record action\<rparr>, None))
              else Some (Inr (URC_CONTINUE_UNWIND, ex, None)))))"

definition gxx_personality_v0 :: "type_ops \<Rightarrow> int \<Rightarrow> u32 \<Rightarrow> u64 \<Rightarrow> unwind_context \<Rightarrow> mem \<Rightarrow> cxa_exception \<Rightarrow> cxa_exception \<Rightarrow>
    (reason \<times> cxa_exception \<times> (addr \<times> u32) option) outcome option" where
  "gxx_personality_v0 ops version actions cls c m ex realEx =
     (let foreign = (\<not> isCXXException cls); real = (if foreign then None else Some realEx)
      in if version \<noteq> 1 then Some (Inr (URC_FATAL_PHASE1_ERROR, ex, None))
         else if uc_lsda c = 0 then Some (Inr (URC_CONTINUE_UNWIND, ex, None))
         else if actions AND 1 \<noteq> 0 then search_phase ops c m foreign ex realEx
         else if actions AND 4 = 0 then
           and_then (parse_lsda c m (uc_lsda c)) (\<lambda>lsda.
             and_then (dwarf_eh_find_callsite c m lsda) (\<lambda>(_, action).
               if landing_pad action = 0 then Some (Inr (URC_CONTINUE_UNWIND, ex, None))
               else and_then (check_action_record ops c m lsda (action_record action) real 0 (adjustedPtr ex)) (\<lambda>(h, selector, adjusted).
                 let ex = (if foreign then ex else ex\<lparr>adjustedPtr := adjusted\<rparr>)
                 in if h \<noteq> handler_cleanup then Some (Inr (URC_CONTINUE_UNWIND, ex, None))
                    else Some (Inr (URC_INSTALL_CONTEXT, ex, Some (landing_pad action, selector))))))
         else if foreign then
           and_then (parse_lsda c m (uc_lsda c)) (\<lambda>lsda.
             and_then (dwarf_eh_find_callsite c m lsda) (\<lambda>(_, action).
               and_then (check_action_record ops c m lsda (action_record action) real 0 (adjustedPtr ex)) (\<lambda>(_, selector, _).
                 Some (Inr (URC_INSTALL_CONTEXT, ex, Some (landing_pad action, selector))))))
         else if catchTemp ex = 0 then Some (Inl ''terminate'')
         else let (selector, pad) = loadLandingPad ex
              in Some (Inr (URC_INSTALL_CONTEXT, ex\<lparr>catchTemp := 0, handlerSwitchValue := 0\<rparr>, Some (pad, selector))))"


section \<open>Chains of action records\<close>

text \<open>A chain of records for clauses and cleanups: each is a filter and the distance to the next record, zero at the end.\<close>

fun chain :: "mem \<Rightarrow> addr \<Rightarrow> (nat \<times> int) list \<Rightarrow> bool" where
  "chain m r [] \<longleftrightarrow> r = 0"
| "chain m r ((f, d) # fs) \<longleftrightarrow> r \<noteq> 0 \<and> stored m r (sleb (int f) @ sleb d) \<and> f < 134217728 \<and> - 134217728 \<le> d \<and> d < 134217728 \<and>
     chain m (if d = 0 then 0 else r + of_nat (length (sleb (int f))) + of_int d) fs"

text \<open>The type of a clause, in a type table of plain addresses.\<close>

definition clause_type :: "mem \<Rightarrow> addr \<Rightarrow> nat \<Rightarrow> addr" where
  "clause_type m types f = ld32 m (types - 4 * of_nat f)"

lemma get_type_info_entry_plain:
  assumes "type_table_encoding lsda = 0"
  shows "get_type_info_entry c m lsda (of_nat f) = Some (Inr (clause_type m (type_table lsda) f))"
proof -
  have e: "get_encoding 0 = 0" "get_base 0 = 0" "\<not> is_indirect 0" by (simp_all add: get_encoding_def get_base_def is_indirect_def)
  have u: "(ucast (scast w :: u64) :: u32) = w" for w :: u32 by (rule bit_word_eqI) (auto simp: bit_simps)
  then have z: "(scast w :: u64) = 0 \<longleftrightarrow> w = 0" for w :: u32 by (metis ucast_0 signed_0)
  show ?thesis
    by (simp add: get_type_info_entry_def assms dwarf_size_of_fixed_size_field_def e read_value_def resolve_indirect_value_def clause_type_def z u Let_def)
qed

text \<open>What a frame does with an exception: the first clause that takes it, or else a cleanup.\<close>

definition decides :: "type_ops \<Rightarrow> mem \<Rightarrow> addr \<Rightarrow> cxa_exception option \<Rightarrow> nat list \<Rightarrow> handler_type \<Rightarrow> addr \<Rightarrow> handler_type \<times> u32 \<times> addr" where
  "decides ops m types ex fs found adjusted =
     (case List.find (\<lambda>f. 0 < f \<and> fst (check_type_signature ops m ex (clause_type m types f) adjusted)) fs of
        Some f \<Rightarrow> (handler_catch, of_nat f, snd (check_type_signature ops m ex (clause_type m types f) adjusted))
      | None \<Rightarrow> (if 0 \<in> set fs then handler_cleanup else found, 0, adjusted))"

lemma check_miss: "\<not> fst (check_type_signature ops m ex t adjusted) \<Longrightarrow> snd (check_type_signature ops m ex t adjusted) = adjusted"
  by (auto simp: check_type_signature_def Let_def split: option.splits if_splits)

lemma decides_Cons:
  "decides ops m types ex (f # fs) found adjusted =
     (if f = 0 then decides ops m types ex fs handler_cleanup adjusted
      else let (hit, p) = check_type_signature ops m ex (clause_type m types f) adjusted
           in if hit then (handler_catch, of_nat f, p) else decides ops m types ex fs found adjusted)"
  by (auto simp: decides_def split: prod.splits option.splits)

lemma sleb_small32:
  assumes "- 134217728 \<le> x" and "x < 134217728"
  shows "(ucast (of_int x :: u64) :: u32) = of_int x" and "(of_int x :: u32) = 0 \<longleftrightarrow> x = 0"
proof -
  show "(ucast (of_int x :: u64) :: u32) = of_int x" by (rule bit_word_eqI) (simp add: bit_simps)
  have "sint (of_int x :: u32) = x" using assms by (simp add: signed_of_int signed_take_bit_int_eq_self)
  then show "(of_int x :: u32) = 0 \<longleftrightarrow> x = 0" by auto
qed

lemma filter_positive: "f < 134217728 \<Longrightarrow> 0 <s (of_nat f :: u32) \<longleftrightarrow> 0 < f" "f < 134217728 \<Longrightarrow> \<not> (of_nat f :: u32) <s 0"
  using sint_of_nat32 [of f] by (simp_all add: word_sless_alt)

lemma action_loop_chain:
  assumes "chain m r fds" and "type_table_encoding lsda = 0"
  shows "action_loop ops c m lsda ex r found 0 adjusted = Some (Inr (decides ops m (type_table lsda) ex (map fst fds) found adjusted))"
  using assms(1)
proof (induction fds arbitrary: r found)
  case Nil
  then show ?case by (subst action_loop.simps) (simp add: decides_def)
next
  case (Cons fd fds)
  obtain f d where fd: "fd = (f, d)" by (cases fd)
  let ?b = "r + of_nat (length (sleb (int f)))"
  let ?n = "if d = 0 then 0 else ?b + of_int d"
  have p: "r \<noteq> 0" "stored m r (sleb (int f))" "stored m ?b (sleb d)" "f < 134217728" "- 134217728 \<le> d" "d < 134217728" "chain m ?n fds"
    using Cons.prems by (simp_all add: fd)
  have r1: "read_sleb128 m r = Inr (of_int (int f), ?b)" by (rule read_sleb128_eq [OF p(2)]) (use p(4) in simp_all)
  obtain q where r2: "read_sleb128 m ?b = Inr (of_int d, q)" using read_sleb128_eq [OF p(3,5,6)] by blast
  have w: "(ucast (of_int (int f) :: u64) :: u32) = of_nat f" "(of_nat f :: u32) = 0 \<longleftrightarrow> f = 0" "(ucast (of_int d :: u64) :: u32) = of_int d" "(of_int d :: u32) = 0 \<longleftrightarrow> d = 0"
    using sleb_small32 [of "int f"] sleb_small32 [of d] p(4-6) by simp_all
  note nx = Cons.IH [OF p(7)]
  have "action_loop ops c m lsda ex r found 0 adjusted =
     (if 0 < f then let (hit, p) = check_type_signature ops m ex (clause_type m (type_table lsda) f) adjusted
        in if hit then Some (Inr (handler_catch, of_nat f, p)) else action_loop ops c m lsda ex ?n found 0 p
      else action_loop ops c m lsda ex ?n handler_cleanup 0 adjusted)"
    using p(1) by (subst action_loop.simps)
      (simp add: r1 r2 w filter_positive [OF p(4)] get_type_info_entry_plain [OF assms(2)] Let_def del: of_int_of_nat_eq split: prod.split)
  then show ?case
    using nx check_miss [of ops m ex "clause_type m (type_table lsda) f" adjusted]
    by (simp add: fd decides_Cons split: prod.splits) (auto split: prod.splits)
qed

lemma check_action_record_chain:
  assumes "chain m r fds" and "r \<noteq> 0" and "type_table_encoding lsda = 0"
  shows "check_action_record ops c m lsda r ex 0 adjusted = Some (Inr (decides ops m (type_table lsda) ex (map fst fds) handler_none adjusted))"
  using action_loop_chain [OF assms(1,3)] assms(2) by (simp add: check_action_record_def)

lemma decides_miss: "decides ops m types ex fs found adjusted = (h, sel, adj) \<Longrightarrow> h \<noteq> handler_catch \<Longrightarrow> sel = 0 \<and> adj = adjusted"
  by (auto simp: decides_def split: option.splits if_splits)

section \<open>Property\<close>


text \<open>A frame at \<open>0x100000\<close> with the tables of the call site example, one clause for the type \<open>0x77\<close>, and an exception of that type.\<close>

definition demo_frame :: unwind_context where
  "demo_frame = demo_context\<lparr>uc_lsda := 0x1000\<rparr>"

definition demo_tables :: mem where
  "demo_tables p = (let bs = [0xff, 0, 20, 1, 8, 0, 8, 0, 0, 0x10, 8, 0x40, 1] @ [1, 0] @ [0, 0, 0, 0] @ [0x77, 0, 0, 0]; i = unat (p - 0x1000)
     in if i < length bs then bs ! i else 0)"

definition demo_types :: type_ops where
  "demo_types = \<lparr>is_pointer_p = (\<lambda>_. False), type_equal = (=), do_catch = (\<lambda>_ _ _. None)\<rparr>"

definition demo_thrown :: cxa_exception where
  "demo_thrown = \<lparr>exceptionType = 0x77, exceptionDestructor = 0, unexpectedHandler = 0, terminateHandler = 0, nextException = None, handlerCount = 0, handlerSwitchValue = 0, actionRecord = 0, languageSpecificData = 0, catchTemp = 0,
     adjustedPtr = 0, referenceCount = 1, unwindClass = exception_class, unwindCleanup = exception_cleanup, primaryException = None, thrownObject = 0x5000\<rparr>"

lemma demo_tables_stored: "stored demo_tables 0x1000 (encode_lsda 0 20 [(0, 8, 0, 0), (0x10, 8, 0x40, 1)])"
proof -
  have e: "encode_lsda 0 20 [(0, 8, 0, 0), (0x10, 8, 0x40, 1)] = [0xff, 0, 20, 1, 8, 0, 8, 0, 0, 0x10, 8, 0x40, 1]" by (simp add: encode_lsda_def uleb.simps)
  show ?thesis unfolding e by (simp add: demo_tables_def)
qed


end
