(* ===== verification/Catching.thy ===== *)
theory Catching
  imports Personality
begin

text \<open>
  The life of an exception (\<^verbatim>\<open>src/libcxxrt/exception.cc\<close>): allocation, throwing, entering and leaving handlers, rethrowing, and the reference counts and dependent exceptions
  behind \<open>exception_ptr\<close>. An exception is a number, its header is found in a map from which it is removed when it is freed, so a use after that fails. Exceptions of
  other languages are headers of another class. The memory that headers come from is in \<open>Emergency\<close>. The unwinder runs between the calls: a throw ends with the exception
  in flight. The thread data of all threads is one block, as \<^verbatim>\<open>inc/pthread.h\<close> has it.
\<close>

section \<open>The code\<close>

datatype foreign_state = foreign_none | foreign_caught | foreign_rethrown

record eh_state =
  exns :: "nat \<Rightarrow> cxa_exception option"
  next_exn :: nat
  caughtExceptions :: "nat option"
  uncaughtExceptions :: u32
  foreign_exception_state :: foreign_state
  thread_unexpected :: addr
  thread_terminate :: addr
  global_unexpected :: addr
  global_terminate :: addr
  thread_local_handlers :: bool
  destroyed :: "nat list"
  destructor_calls :: "(addr \<times> nat) list"
  cleanup_calls :: "(cleanup_fn \<times> nat) list"

definition on_exn :: "nat \<Rightarrow> eh_state \<Rightarrow> (cxa_exception \<Rightarrow> 'a outcome option) \<Rightarrow> 'a outcome option" where
  "on_exn e s f = (case exns s e of None \<Rightarrow> Some (Inl ''use of a freed exception'') | Some x \<Rightarrow> f x)"

definition set_exn :: "nat \<Rightarrow> cxa_exception \<Rightarrow> eh_state \<Rightarrow> eh_state" where
  "set_exn e x s = s\<lparr>exns := (exns s)(e \<mapsto> x)\<rparr>"

text \<open>A header as \<open>calloc\<close> returns it.\<close>

definition blank_exception :: cxa_exception where
  "blank_exception = \<lparr>exceptionType = 0, exceptionDestructor = 0, unexpectedHandler = 0, terminateHandler = 0, nextException = None, handlerCount = 0, handlerSwitchValue = 0,
     actionRecord = 0, languageSpecificData = 0, catchTemp = 0, adjustedPtr = 0, referenceCount = 0, unwindClass = 0, unwindCleanup = no_cleanup, primaryException = None, thrownObject = 0\<rparr>"

definition cxa_allocate_exception :: "eh_state \<Rightarrow> nat \<times> eh_state" where
  "cxa_allocate_exception s = (next_exn s, (set_exn (next_exn s) blank_exception s)\<lparr>next_exn := next_exn s + 1\<rparr>)"

definition cxa_allocate_dependent_exception :: "eh_state \<Rightarrow> nat \<times> eh_state" where
  "cxa_allocate_dependent_exception s = (next_exn s, (set_exn (next_exn s) blank_exception s)\<lparr>next_exn := next_exn s + 1\<rparr>)"

definition free_memory :: "nat \<Rightarrow> eh_state \<Rightarrow> eh_state" where
  "free_memory e s = s\<lparr>exns := (exns s)(e := None), destroyed := destroyed s @ [e]\<rparr>"

text \<open>\<open>__cxa_free_exception\<close> calls the destructor, which is taken to return, and frees the memory.\<close>

definition cxa_free_exception :: "nat \<Rightarrow> eh_state \<Rightarrow> eh_state outcome option" where
  "cxa_free_exception e s =
     on_exn e s (\<lambda>x.
       let s = (if exceptionDestructor x \<noteq> 0 then s\<lparr>destructor_calls := destructor_calls s @ [(exceptionDestructor x, e)]\<rparr> else s)
       in Some (Inr (free_memory e s)))"

text \<open>
  \<open>releaseException\<close> and \<open>__cxa_free_dependent_exception\<close> call each other; the second is unfolded in the first and follows it in its own words (\<open>releaseException_dependent\<close>).
\<close>

partial_function (option) releaseException :: "nat \<Rightarrow> eh_state \<Rightarrow> eh_state outcome option" where
  "releaseException e s =
     (case exns s e of
        None \<Rightarrow> Some (Inl ''use of a freed exception'')
      | Some x \<Rightarrow>
          if isDependentException (unwindClass x) then
            (case primaryException x of
               None \<Rightarrow> Some (Inr (free_memory e s))
             | Some p \<Rightarrow> and_then (releaseException p s) (\<lambda>s. Some (Inr (free_memory e s))))
          else
            let r = referenceCount x - 1; s = set_exn e (x\<lparr>referenceCount := r\<rparr>) s
            in if r = 0 then cxa_free_exception e s else Some (Inr s))"

definition cxa_free_dependent_exception :: "nat \<Rightarrow> eh_state \<Rightarrow> eh_state outcome option" where
  "cxa_free_dependent_exception e s =
     on_exn e s (\<lambda>x.
       if \<not> isDependentException (unwindClass x) then Some (Inl ''Assertion failed: isDependentException(ex->unwindHeader.exception_class)'')
       else and_then (case primaryException x of None \<Rightarrow> Some (Inr s) | Some p \<Rightarrow> releaseException p s) (\<lambda>s. Some (Inr (free_memory e s))))"

lemma releaseException_dependent:
  "exns s e = Some x \<Longrightarrow> isDependentException (unwindClass x) \<Longrightarrow> releaseException e s = cxa_free_dependent_exception e s"
  by (subst releaseException.simps) (simp add: cxa_free_dependent_exception_def on_exn_def split: option.split)

text \<open>The exception that holds the object, for a dependent exception its primary one.\<close>

definition realExceptionFromException :: "nat \<Rightarrow> eh_state \<Rightarrow> nat outcome option" where
  "realExceptionFromException e s =
     on_exn e s (\<lambda>x.
       if \<not> isDependentException (unwindClass x) then Some (Inr e)
       else (case primaryException x of None \<Rightarrow> Some (Inl ''null pointer'') | Some p \<Rightarrow> Some (Inr p)))"

definition throw_exception :: "nat \<Rightarrow> eh_state \<Rightarrow> eh_state outcome option" where
  "throw_exception e s =
     on_exn e s (\<lambda>x.
       let x = x\<lparr>unexpectedHandler := (if thread_unexpected s = 0 then global_unexpected s else thread_unexpected s),
                 terminateHandler := (if thread_terminate s = 0 then global_terminate s else thread_terminate s)\<rparr>
       in Some (Inr ((set_exn e x s)\<lparr>uncaughtExceptions := uncaughtExceptions s + 1\<rparr>)))"

definition cxa_throw :: "nat \<Rightarrow> addr \<Rightarrow> addr \<Rightarrow> eh_state \<Rightarrow> eh_state outcome option" where
  "cxa_throw e tinfo dest s =
     on_exn e s (\<lambda>x.
       throw_exception e (set_exn e (x\<lparr>referenceCount := 1, exceptionType := tinfo, exceptionDestructor := dest, unwindClass := exception_class, unwindCleanup := exception_cleanup\<rparr>) s))"

definition cxa_increment_exception_refcount :: "nat option \<Rightarrow> eh_state \<Rightarrow> eh_state outcome option" where
  "cxa_increment_exception_refcount p s =
     (case p of
        None \<Rightarrow> Some (Inr s)
      | Some e \<Rightarrow>
          on_exn e s (\<lambda>x.
            if isDependentException (unwindClass x) then Some (Inr s) else Some (Inr (set_exn e (x\<lparr>referenceCount := referenceCount x + 1\<rparr>) s))))"

definition cxa_decrement_exception_refcount :: "nat option \<Rightarrow> eh_state \<Rightarrow> eh_state outcome option" where
  "cxa_decrement_exception_refcount p s = (case p of None \<Rightarrow> Some (Inr s) | Some e \<Rightarrow> releaseException e s)"

text \<open>
  The pointer from which the type is copied is computed with \<open>exceptionFromPointer\<close>, which expects the address of the unwind header (48 bytes into the exception) and gets that of the
  object behind it (80 bytes into it): what is read as the type is the word at offset 32, the address of the language-specific data.
\<close>

definition cxa_rethrow_primary_exception :: "nat option \<Rightarrow> eh_state \<Rightarrow> eh_state outcome option" where
  "cxa_rethrow_primary_exception thrown s =
     (case thrown of
        None \<Rightarrow> Some (Inr s)
      | Some p \<Rightarrow>
          (let (e, s) = cxa_allocate_dependent_exception s; s = set_exn e (blank_exception\<lparr>primaryException := Some p\<rparr>) s
           in and_then (cxa_increment_exception_refcount (Some p) s) (\<lambda>s.
                on_exn p s (\<lambda>original.
                  on_exn e s (\<lambda>x.
                    throw_exception e (set_exn e (x\<lparr>exceptionType := languageSpecificData original, unwindClass := dependent_exception_class, unwindCleanup := dependent_exception_cleanup\<rparr>) s))))))"

definition cxa_current_primary_exception :: "eh_state \<Rightarrow> (nat option \<times> eh_state) outcome option" where
  "cxa_current_primary_exception s =
     (case caughtExceptions s of
        None \<Rightarrow> Some (Inr (None, s))
      | Some e \<Rightarrow>
          and_then (realExceptionFromException e s) (\<lambda>r.
            on_exn r s (\<lambda>x. Some (Inr (Some r, set_exn r (x\<lparr>referenceCount := referenceCount x + 1\<rparr>) s)))))"

definition cxa_rethrow :: "eh_state \<Rightarrow> eh_state outcome option" where
  "cxa_rethrow s =
     (case caughtExceptions s of
        None \<Rightarrow> Some (Inl ''Attempting to rethrow an exception that doesn't exist!'')
      | Some e \<Rightarrow>
          if foreign_exception_state s \<noteq> foreign_none then Some (Inr (s\<lparr>foreign_exception_state := foreign_rethrown\<rparr>))
          else on_exn e s (\<lambda>x.
            if \<not> handlerCount x > 0 then Some (Inl ''Assertion failed: Rethrowing uncaught exception!'')
            else Some (Inr (set_exn e (x\<lparr>handlerCount := - handlerCount x\<rparr>) (s\<lparr>uncaughtExceptions := uncaughtExceptions s + 1\<rparr>)))))"

text \<open>The pointer that a handler gets: the adjusted one, or the one behind the header of an exception of another language.\<close>

datatype caught_object = adjusted_pointer addr | behind_header nat

definition cxa_begin_catch :: "nat \<Rightarrow> eh_state \<Rightarrow> (caught_object \<times> eh_state) outcome option" where
  "cxa_begin_catch e s =
     on_exn e s (\<lambda>x.
       if isCXXException (unwindClass x) then
         let s = s\<lparr>uncaughtExceptions := uncaughtExceptions s - 1\<rparr>;
             (x, s) = (if handlerCount x = 0 then (x\<lparr>nextException := caughtExceptions s\<rparr>, s\<lparr>caughtExceptions := Some e\<rparr>) else (x, s));
             x = x\<lparr>handlerCount := (if handlerCount x < 0 then - handlerCount x + 1 else handlerCount x + 1)\<rparr>
         in Some (Inr (adjusted_pointer (adjustedPtr x), (set_exn e x s)\<lparr>foreign_exception_state := foreign_none\<rparr>))
       else if caughtExceptions s \<noteq> None then Some (Inl ''terminate'')
       else Some (Inr (behind_header e, s\<lparr>caughtExceptions := Some e, foreign_exception_state := foreign_caught\<rparr>)))"

definition cxa_end_catch :: "eh_state \<Rightarrow> eh_state outcome option" where
  "cxa_end_catch s =
     (case caughtExceptions s of
        None \<Rightarrow> Some (Inl ''Assertion failed: Ending catch when no exception is on the stack!'')
      | Some e \<Rightarrow>
          on_exn e s (\<lambda>x.
            if foreign_exception_state s \<noteq> foreign_none then
              let s = (if foreign_exception_state s \<noteq> foreign_rethrown \<and> unwindCleanup x \<noteq> no_cleanup
                       then s\<lparr>cleanup_calls := cleanup_calls s @ [(unwindCleanup x, e)]\<rparr> else s)
              in Some (Inr (s\<lparr>caughtExceptions := None, foreign_exception_state := foreign_none\<rparr>))
            else
              let deleteException = (\<not> handlerCount x < 0);
                  x = x\<lparr>handlerCount := (if handlerCount x < 0 then handlerCount x + 1 else handlerCount x - 1)\<rparr>;
                  s = set_exn e x s
              in if handlerCount x = 0 then
                   let s = s\<lparr>caughtExceptions := nextException x\<rparr>
                   in if deleteException then releaseException e s else Some (Inr s)
                 else Some (Inr s)))"

definition cxa_current_exception_type :: "eh_state \<Rightarrow> addr outcome option" where
  "cxa_current_exception_type s = (case caughtExceptions s of None \<Rightarrow> Some (Inr 0) | Some e \<Rightarrow> on_exn e s (\<lambda>x. Some (Inr (exceptionType x))))"

definition cxa_get_exception_ptr :: "nat \<Rightarrow> eh_state \<Rightarrow> addr outcome option" where
  "cxa_get_exception_ptr e s = on_exn e s (\<lambda>x. Some (Inr (adjustedPtr x)))"

definition uncaught_exception :: "eh_state \<Rightarrow> bool" where
  "uncaught_exception s \<longleftrightarrow> uncaughtExceptions s \<noteq> 0"

definition uncaught_exceptions :: "eh_state \<Rightarrow> int" where
  "uncaught_exceptions s = sint (uncaughtExceptions s)"

subsection \<open>The handlers for exceptions that nobody takes\<close>

definition set_unexpected :: "addr \<Rightarrow> eh_state \<Rightarrow> addr \<times> eh_state" where
  "set_unexpected f s =
     (if thread_local_handlers s then (thread_unexpected s, s\<lparr>thread_unexpected := f\<rparr>) else (global_unexpected s, s\<lparr>global_unexpected := f\<rparr>))"

definition set_terminate :: "addr \<Rightarrow> eh_state \<Rightarrow> addr \<times> eh_state" where
  "set_terminate f s =
     (if thread_local_handlers s then (thread_terminate s, s\<lparr>thread_terminate := f\<rparr>) else (global_terminate s, s\<lparr>global_terminate := f\<rparr>))"

definition get_unexpected :: "eh_state \<Rightarrow> addr" where
  "get_unexpected s = (if thread_unexpected s \<noteq> 0 then thread_unexpected s else global_unexpected s)"

definition get_terminate :: "eh_state \<Rightarrow> addr" where
  "get_terminate s = (if thread_terminate s \<noteq> 0 then thread_terminate s else global_terminate s)"

definition set_use_thread_local_handlers :: "bool \<Rightarrow> eh_state \<Rightarrow> eh_state" where
  "set_use_thread_local_handlers flag s = s\<lparr>thread_local_handlers := flag\<rparr>"

text \<open>The function that \<open>std::terminate\<close> calls.\<close>

definition terminate :: "eh_state \<Rightarrow> addr" where
  "terminate s = (if thread_terminate s \<noteq> 0 then thread_terminate s else global_terminate s)"

text \<open>The function that \<open>std::unexpected\<close> calls, and with it \<open>__cxa_call_unexpected\<close>, which does not return.\<close>

definition unexpected :: "eh_state \<Rightarrow> addr" where
  "unexpected s = (if thread_unexpected s \<noteq> 0 then thread_unexpected s else global_unexpected s)"

definition cxa_call_unexpected :: "nat \<Rightarrow> eh_state \<Rightarrow> (addr \<times> eh_state) outcome option" where
  "cxa_call_unexpected e s =
     and_then (cxa_begin_catch e s) (\<lambda>(_, s).
       on_exn e s (\<lambda>x.
         if unwindClass x = exception_class \<and> unexpectedHandler x \<noteq> 0 then Some (Inr (unexpectedHandler x, s)) else Some (Inr (unexpected s, s))))"

lemma handlers_set:
  "(if thread_local_handlers s then f \<noteq> 0 else thread_unexpected s = 0) \<Longrightarrow> get_unexpected (snd (set_unexpected f s)) = f \<and> unexpected (snd (set_unexpected f s)) = f"
  "(if thread_local_handlers s then f \<noteq> 0 else thread_terminate s = 0) \<Longrightarrow> get_terminate (snd (set_terminate f s)) = f \<and> terminate (snd (set_terminate f s)) = f"
  by (simp_all add: terminate_def set_unexpected_def get_unexpected_def unexpected_def set_terminate_def get_terminate_def)

subsection \<open>Programs\<close>

text \<open>What a program does with exceptions: the calls that the compiler generates for it, and those of \<open>exception_ptr\<close>.\<close>

datatype eh_op = Throw addr addr | Rethrow | RethrowPtr nat | Catch nat | EndHandler | Capture | Copy nat | Drop nat

fun eh_exec :: "eh_op \<Rightarrow> eh_state \<Rightarrow> eh_state outcome option" where
  "eh_exec (Throw t d) s = (let (e, s) = cxa_allocate_exception s in cxa_throw e t d s)"
| "eh_exec Rethrow s = cxa_rethrow s"
| "eh_exec (RethrowPtr e) s = cxa_rethrow_primary_exception (Some e) s"
| "eh_exec (Catch e) s = and_then (cxa_begin_catch e s) (\<lambda>(_, s). Some (Inr s))"
| "eh_exec EndHandler s = cxa_end_catch s"
| "eh_exec Capture s = and_then (cxa_current_primary_exception s) (\<lambda>(_, s). Some (Inr s))"
| "eh_exec (Copy e) s = cxa_increment_exception_refcount (Some e) s"
| "eh_exec (Drop e) s = cxa_decrement_exception_refcount (Some e) s"

fun eh_run :: "eh_op list \<Rightarrow> eh_state \<Rightarrow> eh_state outcome option" where
  "eh_run [] s = Some (Inr s)"
| "eh_run (p # ps) s = and_then (eh_exec p s) (eh_run ps)"

definition eh_init :: eh_state where
  "eh_init = \<lparr>exns = (\<lambda>_. None), next_exn = 0, caughtExceptions = None, uncaughtExceptions = 0, foreign_exception_state = foreign_none, thread_unexpected = 0, thread_terminate = 0,
     global_unexpected = 0, global_terminate = 0, thread_local_handlers = False, destroyed = [], destructor_calls = [], cleanup_calls = []\<rparr>"

section \<open>What a program may rely on\<close>

text \<open>
  The active handlers, innermost first, as exceptions with the number of their nested handlers; the exception that is being thrown; the number of \<open>exception_ptr\<close> objects for each
  exception; for an exception that \<open>rethrow_exception\<close> made, the one it stands for; the destructors of the objects; and the number of exceptions so far.
\<close>

record handling =
  active :: "(nat \<times> nat) list"
  flight :: "nat option"
  held :: "nat \<Rightarrow> nat"
  stands_for :: "nat \<Rightarrow> nat option"
  dtor :: "nat \<Rightarrow> addr"
  issued :: nat

definition in_use :: "handling \<Rightarrow> nat set" where
  "in_use h = fst ` set (active h) \<union> set_option (flight h)"

definition object_of :: "handling \<Rightarrow> nat \<Rightarrow> nat" where
  "object_of h e = (case stands_for h e of None \<Rightarrow> e | Some p \<Rightarrow> p)"

text \<open>The references to the object of an exception.\<close>

definition refs :: "handling \<Rightarrow> nat \<Rightarrow> nat" where
  "refs h e = (if e \<in> in_use h \<and> stands_for h e = None then 1 else 0) + held h e + card {d \<in> in_use h. stands_for h d = Some e}"

definition live :: "handling \<Rightarrow> nat set" where
  "live h = {e. if stands_for h e = None then refs h e \<noteq> 0 else e \<in> in_use h}"

text \<open>The rules of the language.\<close>

fun legal :: "eh_op \<Rightarrow> handling \<Rightarrow> bool" where
  "legal (Throw t d) h \<longleftrightarrow> flight h = None"
| "legal Rethrow h \<longleftrightarrow> flight h = None \<and> active h \<noteq> []"
| "legal (RethrowPtr e) h \<longleftrightarrow> flight h = None \<and> held h e \<noteq> 0"
| "legal (Catch e) h \<longleftrightarrow> flight h = Some e"
| "legal EndHandler h \<longleftrightarrow> active h \<noteq> []"
| "legal Capture h \<longleftrightarrow> True"
| "legal (Copy e) h \<longleftrightarrow> held h e \<noteq> 0"
| "legal (Drop e) h \<longleftrightarrow> held h e \<noteq> 0"

fun effect :: "eh_op \<Rightarrow> handling \<Rightarrow> handling" where
  "effect (Throw t d) h = h\<lparr>flight := Some (issued h), dtor := (dtor h)(issued h := d), issued := issued h + 1\<rparr>"
| "effect Rethrow h = h\<lparr>flight := Some (fst (hd (active h)))\<rparr>"
| "effect (RethrowPtr e) h = h\<lparr>flight := Some (issued h), stands_for := (stands_for h)(issued h \<mapsto> e), issued := issued h + 1\<rparr>"
| "effect (Catch e) h = h\<lparr>flight := None, active := (case active h of (f, n) # hs \<Rightarrow> if f = e then (f, n + 1) # hs else (e, 1) # active h | [] \<Rightarrow> [(e, 1)])\<rparr>"
| "effect EndHandler h = h\<lparr>active := (case active h of (e, n) # hs \<Rightarrow> if n = 1 then hs else (e, n - 1) # hs | [] \<Rightarrow> [])\<rparr>"
| "effect Capture h = h\<lparr>held := (case active h of (e, n) # hs \<Rightarrow> (held h)(object_of h e := held h (object_of h e) + 1) | [] \<Rightarrow> held h)\<rparr>"
| "effect (Copy e) h = h\<lparr>held := (held h)(e := held h e + 1)\<rparr>"
| "effect (Drop e) h = h\<lparr>held := (held h)(e := held h e - 1)\<rparr>"

fun all_legal :: "eh_op list \<Rightarrow> handling \<Rightarrow> bool" where
  "all_legal [] h \<longleftrightarrow> True"
| "all_legal (p # ps) h \<longleftrightarrow> legal p h \<and> all_legal ps (effect p h)"

definition effects :: "eh_op list \<Rightarrow> handling \<Rightarrow> handling" where
  "effects ps h = fold effect ps h"

definition no_handling :: handling where
  "no_handling = \<lparr>active = [], flight = None, held = (\<lambda>_. 0), stands_for = (\<lambda>_. None), dtor = (\<lambda>_. 0), issued = 0\<rparr>"

section \<open>The headers\<close>

text \<open>
  The map of headers against the handler count and the references of every exception, the exceptions in use, and what dependent exceptions stand for.
\<close>

definition alive :: "(nat \<Rightarrow> nat) \<Rightarrow> nat set \<Rightarrow> (nat \<Rightarrow> nat option) \<Rightarrow> nat set" where
  "alive rc U sf = {e. if sf e = None then rc e \<noteq> 0 else e \<in> U}"

definition calls_of :: "(nat \<Rightarrow> addr) \<Rightarrow> nat list \<Rightarrow> (addr \<times> nat) list" where
  "calls_of dt es = map (\<lambda>e. (dt e, e)) (filter (\<lambda>e. dt e \<noteq> 0) es)"

definition header_ok :: "int \<Rightarrow> nat \<Rightarrow> nat option \<Rightarrow> addr \<Rightarrow> cxa_exception \<Rightarrow> bool" where
  "header_ok k r p d x \<longleftrightarrow> handlerCount x = k \<and> exceptionDestructor x = d \<and> primaryException x = p \<and>
     unwindClass x = (if p = None then exception_class else dependent_exception_class) \<and> (p = None \<longrightarrow> referenceCount x = int r)"

definition ledger :: "eh_state \<Rightarrow> (nat \<Rightarrow> int) \<Rightarrow> (nat \<Rightarrow> nat) \<Rightarrow> nat set \<Rightarrow> (nat \<Rightarrow> nat option) \<Rightarrow> (nat \<Rightarrow> addr) \<Rightarrow> nat \<Rightarrow> bool" where
  "ledger s hc rc U sf dt n \<longleftrightarrow> dom (exns s) = alive rc U sf \<and> alive rc U sf \<subseteq> {..<n} \<and> distinct (destroyed s) \<and> set (destroyed s) = {..<n} - alive rc U sf \<and>
     destructor_calls s = calls_of dt (destroyed s) \<and> (\<forall>e x. exns s e = Some x \<longrightarrow> header_ok (hc e) (rc e) (sf e) (dt e) x) \<and> (\<forall>e. sf e \<noteq> None \<longrightarrow> dt e = 0)"

lemma ledger_cong: "exns s' = exns s \<Longrightarrow> destroyed s' = destroyed s \<Longrightarrow> destructor_calls s' = destructor_calls s \<Longrightarrow> ledger s' hc rc U sf dt n = ledger s hc rc U sf dt n"
  by (simp add: ledger_def)

lemma exception_classes: "exception_class \<noteq> dependent_exception_class" "isCXXException exception_class" "isCXXException dependent_exception_class"
  by (simp_all add: exception_class_def dependent_exception_class_def EXCEPTION_CLASS_def isCXXException_def)

lemma header_class: "header_ok k r p d x \<Longrightarrow> isDependentException (unwindClass x) \<longleftrightarrow> p \<noteq> None" "header_ok k r p d x \<Longrightarrow> isCXXException (unwindClass x)"
  using exception_classes by (auto simp: header_ok_def isDependentException_def)

lemma ledger_header: "ledger s hc rc U sf dt n \<Longrightarrow> exns s e = Some x \<Longrightarrow> header_ok (hc e) (rc e) (sf e) (dt e) x"
  by (simp add: ledger_def)

lemma ledger_upd:
  assumes "ledger s hc rc U sf dt n" and "exns s e = Some x" and "header_ok k (r e) (sf e) (dt e) y" and "sf e = None \<Longrightarrow> r e \<noteq> 0" and "\<And>f. f \<noteq> e \<Longrightarrow> r f = rc f"
  shows "ledger (set_exn e y s) (hc(e := k)) r U sf dt n"
proof -
  have "e \<in> alive rc U sf" using assms(1,2) by (auto simp: ledger_def)
  then have "f \<in> alive r U sf \<longleftrightarrow> f \<in> alive rc U sf" for f using assms(4) assms(5) [of f] by (cases "f = e") (auto simp: alive_def)
  then have a: "alive r U sf = alive rc U sf" by blast
  have "dom ((exns s)(e \<mapsto> y)) = alive rc U sf" using assms(1) \<open>e \<in> alive rc U sf\<close> by (auto simp: ledger_def)
  then show ?thesis using assms(1,3,5) by (auto simp: ledger_def a set_exn_def)
qed

lemma ledger_use:
  assumes "ledger s hc rc U sf dt n" and "\<And>e. sf e \<noteq> None \<Longrightarrow> e \<in> U \<longleftrightarrow> e \<in> V"
  shows "ledger s hc rc V sf dt n"
proof -
  have "alive rc V sf = alive rc U sf" using assms(2) by (auto simp: alive_def)
  then show ?thesis using assms(1) by (simp add: ledger_def)
qed

text \<open>A new exception.\<close>

lemma ledger_new:
  assumes l: "ledger s hc rc U sf dt n" and x: "header_ok 0 (r n) p d x" and r: "\<And>e. e \<noteq> n \<Longrightarrow> r e = rc e" and p: "p = None \<Longrightarrow> r n \<noteq> 0" "p \<noteq> None \<Longrightarrow> d = 0"
  shows "ledger (set_exn n x s) (hc(n := 0)) r (insert n U) (sf(n := p)) (dt(n := d)) (n + 1)"
proof -
  have n: "n \<notin> alive rc U sf" "n \<notin> set (destroyed s)" using l by (auto simp: ledger_def)
  have a: "alive r (insert n U) (sf(n := p)) = insert n (alive rc U sf)" using p(1) r unfolding alive_def by (auto split: if_splits)
  have "calls_of (dt(n := d)) (destroyed s) = calls_of dt (destroyed s)"
    unfolding calls_of_def using n(2) by (intro map_cong filter_cong) auto
  then show ?thesis using l x p r n(1) by (auto simp: ledger_def a set_exn_def)
qed

text \<open>Giving up one reference to an exception.\<close>

definition dropped :: "nat \<Rightarrow> eh_state \<Rightarrow> cxa_exception \<Rightarrow> eh_state" where
  "dropped e s x =
     (if referenceCount x = 1
      then free_memory e (s\<lparr>destructor_calls := destructor_calls s @ (if exceptionDestructor x \<noteq> 0 then [(exceptionDestructor x, e)] else [])\<rparr>)
      else set_exn e (x\<lparr>referenceCount := referenceCount x - 1\<rparr>) s)"

lemma releaseException_eq: "exns s e = Some x \<Longrightarrow> \<not> isDependentException (unwindClass x) \<Longrightarrow> releaseException e s = Some (Inr (dropped e s x))"
  by (subst releaseException.simps) (simp add: cxa_free_exception_def on_exn_def set_exn_def dropped_def free_memory_def)

lemma ledger_drop:
  assumes l: "ledger s hc rc U sf dt n" and x: "exns s e = Some x" and sf: "sf e = None"
  shows "releaseException e s = Some (Inr (dropped e s x))" and "ledger (dropped e s x) hc (rc(e := rc e - 1)) U sf dt n"
proof -
  have h: "header_ok (hc e) (rc e) (sf e) (dt e) x" by (rule ledger_header [OF l x])
  then show "releaseException e s = Some (Inr (dropped e s x))" using releaseException_eq [OF x] header_class sf by metis
  have e: "e \<in> alive rc U sf" using l x by (auto simp: ledger_def)
  have rc: "referenceCount x = int (rc e)" "rc e \<noteq> 0" "exceptionDestructor x = dt e" using h sf e by (simp_all add: header_ok_def alive_def)
  show "ledger (dropped e s x) hc (rc(e := rc e - 1)) U sf dt n"
  proof (cases "rc e = 1")
    case True
    have a: "alive (rc(e := 0)) U sf = alive rc U sf - {e}" using sf by (auto simp: alive_def split: if_splits)
    have "e \<notin> set (destroyed s)" "e < n" using l e by (auto simp: ledger_def)
    moreover have "dom ((exns s)(e := None)) = alive rc U sf - {e}" using l by (auto simp: ledger_def)
    moreover have "calls_of dt (destroyed s @ [e]) = calls_of dt (destroyed s) @ (if dt e \<noteq> 0 then [(dt e, e)] else [])" by (simp add: calls_of_def)
    ultimately show ?thesis using l rc True e by (auto simp: ledger_def a dropped_def free_memory_def)
  next
    case False
    have "header_ok (hc e) ((rc(e := rc e - 1)) e) (sf e) (dt e) (x\<lparr>referenceCount := referenceCount x - 1\<rparr>)"
      using h rc(1,2) by (auto simp: header_ok_def)
    then have "ledger (set_exn e (x\<lparr>referenceCount := referenceCount x - 1\<rparr>) s) (hc(e := hc e)) (rc(e := rc e - 1)) U sf dt n"
      by (rule ledger_upd [OF l x]) (use False rc(2) in auto)
    then show ?thesis using False rc(1) by (simp add: dropped_def)
  qed
qed

text \<open>Freeing a dependent exception.\<close>

lemma ledger_free:
  assumes l: "ledger s hc rc U sf dt n" and e: "e \<in> U" "sf e \<noteq> None"
  shows "ledger (free_memory e s) hc rc (U - {e}) sf dt n"
proof -
  have a: "alive rc (U - {e}) sf = alive rc U sf - {e}" using e(2) by (auto simp: alive_def)
  have "e \<in> alive rc U sf" using e by (auto simp: alive_def)
  then have "e \<notin> set (destroyed s)" "e < n" using l by (auto simp: ledger_def)
  moreover have "dom ((exns s)(e := None)) = alive rc U sf - {e}" using l by (auto simp: ledger_def)
  moreover have "calls_of dt (destroyed s @ [e]) = calls_of dt (destroyed s)" using l e(2) by (simp add: calls_of_def ledger_def)
  ultimately show ?thesis using l by (auto simp: ledger_def a free_memory_def)
qed


section \<open>The runtime implements this\<close>

fun linked :: "(nat \<Rightarrow> cxa_exception option) \<Rightarrow> nat option \<Rightarrow> nat list \<Rightarrow> bool" where
  "linked E p [] \<longleftrightarrow> p = None"
| "linked E p (e # es) \<longleftrightarrow> p = Some e \<and> (\<exists>x. E e = Some x \<and> linked E (nextException x) es)"

text \<open>The handler count of an exception: negative while it is being rethrown.\<close>

definition handlers :: "handling \<Rightarrow> nat \<Rightarrow> int" where
  "handlers h e = (case map_of (active h) e of None \<Rightarrow> 0 | Some n \<Rightarrow> if flight h = Some e then - int n else int n)"

definition well_nested :: "handling \<Rightarrow> bool" where
  "well_nested h \<longleftrightarrow> distinct (map fst (active h)) \<and> (\<forall>(e, n) \<in> set (active h). n \<noteq> 0) \<and>
     (\<forall>e. flight h = Some e \<longrightarrow> e \<in> fst ` set (active h) \<longrightarrow> e = fst (hd (active h))) \<and>
     (\<forall>d p. stands_for h d = Some p \<longrightarrow> d < issued h \<and> p < issued h \<and> stands_for h p = None) \<and> (\<forall>e. held h e \<noteq> 0 \<longrightarrow> stands_for h e = None) \<and>
     (\<forall>e. issued h \<le> e \<longrightarrow> dtor h e = 0)"

definition implements :: "eh_state \<Rightarrow> handling \<Rightarrow> bool" where
  "implements s h \<longleftrightarrow> well_nested h \<and> ledger s (handlers h) (refs h) (in_use h) (stands_for h) (dtor h) (issued h) \<and>
     linked (exns s) (caughtExceptions s) (map fst (active h)) \<and> next_exn s = issued h \<and> uncaughtExceptions s = (if flight h = None then 0 else 1) \<and>
     foreign_exception_state s = foreign_none"

lemma implementsD:
  assumes "implements s h"
  shows "well_nested h" and "ledger s (handlers h) (refs h) (in_use h) (stands_for h) (dtor h) (issued h)" and "linked (exns s) (caughtExceptions s) (map fst (active h))"
    and "next_exn s = issued h" and "uncaughtExceptions s = (if flight h = None then 0 else 1)" and "foreign_exception_state s = foreign_none"
  using assms by (simp_all add: implements_def)

lemma linked_keep:
  "linked E p es \<Longrightarrow> (\<And>e. e \<in> set es \<Longrightarrow> E' e \<noteq> None) \<Longrightarrow> (\<And>e x x'. e \<in> set es \<Longrightarrow> E e = Some x \<Longrightarrow> E' e = Some x' \<Longrightarrow> nextException x' = nextException x) \<Longrightarrow> linked E' p es"
proof (induction es arbitrary: p)
  case (Cons e es)
  then obtain x where x: "E e = Some x" "linked E (nextException x) es" "p = Some e" by auto
  obtain x' where x': "E' e = Some x'" using Cons.prems(2) [of e] by auto
  have "linked E' (nextException x) es" by (rule Cons.IH [OF x(2)], metis Cons.prems(2) list.set_intros(2), metis Cons.prems(3) list.set_intros(2))
  moreover have "nextException x' = nextException x" using Cons.prems(3) [of e x x'] x x' by simp
  ultimately show ?case using x x' by simp
qed simp

lemma finite_in_use [simp]: "finite (in_use h)"
  by (simp add: in_use_def)

lemma handlers_other: "e \<notin> fst ` set (active h) \<Longrightarrow> handlers h e = 0"
  by (simp add: handlers_def map_of_eq_None_iff [THEN iffD2])

lemma handlers_flight:
  assumes "active h' = active h" and "flight h = None" and "flight h' = Some e" and "e \<notin> fst ` set (active h)"
  shows "handlers h' = (handlers h)(e := 0)"
proof
  fix f show "handlers h' f = ((handlers h)(e := 0)) f" using assms by (cases "f = e") (auto simp: handlers_def map_of_eq_None_iff [THEN iffD2] split: option.split)
qed

lemma live_alive: "live h = alive (refs h) (in_use h) (stands_for h)"
  by (simp add: live_def alive_def)

lemma in_use_live: "e \<in> in_use h \<Longrightarrow> e \<in> live h"
  by (simp add: live_def refs_def)

lemma implements_header:
  assumes "implements s h" and "e \<in> live h"
  obtains x where "exns s e = Some x" and "header_ok (handlers h e) (refs h e) (stands_for h e) (dtor h e) x"
  using assms unfolding implements_def ledger_def live_alive by blast

text \<open>The chain of caught exceptions after a change of the headers.\<close>

lemma linked_after:
  assumes "linked (exns s) p (map fst hs)" and "ledger s' hc (refs h) (in_use h) (stands_for h) dt n" and "fst ` set hs \<subseteq> in_use h"
    and "\<And>e x x'. e \<in> fst ` set hs \<Longrightarrow> exns s e = Some x \<Longrightarrow> exns s' e = Some x' \<Longrightarrow> nextException x' = nextException x"
  shows "linked (exns s') p (map fst hs)"
proof (rule linked_keep [OF assms(1)])
  fix e assume "e \<in> set (map fst hs)"
  then have "e \<in> live h" using assms(3) in_use_live by auto
  then show "exns s' e \<noteq> None" using assms(2) by (auto simp: ledger_def live_alive dom_def)
qed (rule assms(4); simp)

lemma active_in_use: "fst ` set (active h) \<subseteq> in_use h"
  by (simp add: in_use_def)

lemma live_issued: "implements s h \<Longrightarrow> live h \<subseteq> {..<issued h}"
  by (simp add: implements_def ledger_def live_alive)

lemma issued_fresh:
  assumes "implements s h"
  shows "issued h \<notin> in_use h" and "stands_for h (issued h) = None" and "refs h (issued h) = 0" and "held h (issued h) = 0"
    and "{d \<in> in_use h. stands_for h d = Some (issued h)} = {}"
proof -
  have n: "issued h \<notin> live h" using live_issued [OF assms] by auto
  show s: "stands_for h (issued h) = None" using implementsD(1) [OF assms] unfolding well_nested_def by (metis nat_neq_iff not_None_eq)
  show r: "refs h (issued h) = 0" using n s by (simp add: live_def)
  show "issued h \<notin> in_use h" using n in_use_live by blast
  show "held h (issued h) = 0" "{d \<in> in_use h. stands_for h d = Some (issued h)} = {}" using r by (simp_all add: refs_def)
qed

lemma throw_implements:
  assumes i: "implements s h" and l: "legal (Throw t d) h"
  shows "\<exists>s'. eh_exec (Throw t d) s = Some (Inr s') \<and> implements s' (effect (Throw t d) h)"
proof -
  let ?e = "issued h" and ?h = "effect (Throw t d) h"
  note j = implementsD [OF i] and new = issued_fresh [OF i]
  define x where "x = blank_exception\<lparr>referenceCount := 1, exceptionType := t, exceptionDestructor := d, unwindClass := exception_class, unwindCleanup := exception_cleanup,
    unexpectedHandler := (if thread_unexpected s = 0 then global_unexpected s else thread_unexpected s),
    terminateHandler := (if thread_terminate s = 0 then global_terminate s else thread_terminate s)\<rparr>"
  define s' where "s' = (set_exn ?e x s)\<lparr>next_exn := ?e + 1, uncaughtExceptions := 1\<rparr>"
  have run: "eh_exec (Throw t d) s = Some (Inr s')"
    using j(4,5) l by (simp add: cxa_allocate_exception_def cxa_throw_def throw_exception_def on_exn_def set_exn_def s'_def x_def)
  have use': "in_use ?h = insert ?e (in_use h)" using l by (auto simp: in_use_def)
  have cnt: "handlers ?h = (handlers h)(?e := 0)" by (rule handlers_flight) (use l new(1) in \<open>auto simp: in_use_def\<close>)
  have "{e \<in> insert ?e (in_use h). stands_for h e = Some f} = {e \<in> in_use h. stands_for h e = Some f}" for f using new(2) by auto
  then have "refs ?h f = ((refs h)(?e := 1)) f" for f using new use' by (simp add: refs_def)
  then have refs': "refs ?h = (refs h)(?e := 1)" by blast
  have "ledger (set_exn ?e x s) ((handlers h)(?e := 0)) ((refs h)(?e := 1)) (insert ?e (in_use h)) ((stands_for h)(?e := None)) ((dtor h)(?e := d)) (?e + 1)"
    by (rule ledger_new [OF j(2)]) (simp_all add: header_ok_def x_def blank_exception_def)
  moreover have "(stands_for h)(?e := None) = stands_for h" using new(2) by auto
  ultimately have led: "ledger s' (handlers ?h) (refs ?h) (in_use ?h) (stands_for ?h) (dtor ?h) (issued ?h)" unfolding cnt use' refs' by (simp add: s'_def ledger_def)
  have "linked (exns s') (caughtExceptions s) (map fst (active h))"
  proof (rule linked_after [OF j(3) led])
    show "fst ` set (active h) \<subseteq> in_use ?h" unfolding use' using active_in_use by blast
    fix f y y' assume "f \<in> fst ` set (active h)" "exns s f = Some y" "exns s' f = Some y'"
    moreover from this have "f \<noteq> ?e" using active_in_use new(1) by blast
    ultimately show "nextException y' = nextException y" by (simp add: s'_def set_exn_def)
  qed
  moreover have "well_nested ?h" using j(1) new(1) unfolding well_nested_def in_use_def by (auto simp: less_Suc_eq)
  ultimately have "implements s' ?h" using led j by (simp add: implements_def s'_def set_exn_def)
  then show ?thesis using run by blast
qed

lemma rethrow_ptr_implements:
  assumes i: "implements s h" and l: "legal (RethrowPtr p) h"
  shows "\<exists>s'. eh_exec (RethrowPtr p) s = Some (Inr s') \<and> implements s' (effect (RethrowPtr p) h)"
proof -
  let ?e = "issued h" and ?h = "effect (RethrowPtr p) h"
  note j = implementsD [OF i] and new = issued_fresh [OF i]
  have p: "stands_for h p = None" "refs h p \<noteq> 0" "p \<in> live h" "p \<noteq> ?e" using j(1) l new(4) by (auto simp: well_nested_def refs_def live_def)
  obtain z where z: "exns s p = Some z" "header_ok (handlers h p) (refs h p) (stands_for h p) (dtor h p) z" using implements_header [OF i p(3)] .
  define y where "y = z\<lparr>referenceCount := referenceCount z + 1\<rparr>"
  define x where "x = blank_exception\<lparr>primaryException := Some p, exceptionType := languageSpecificData z, unwindClass := dependent_exception_class,
    unwindCleanup := dependent_exception_cleanup, unexpectedHandler := (if thread_unexpected s = 0 then global_unexpected s else thread_unexpected s),
    terminateHandler := (if thread_terminate s = 0 then global_terminate s else thread_terminate s)\<rparr>"
  define s' where "s' = (set_exn ?e x (set_exn p y s))\<lparr>next_exn := ?e + 1, uncaughtExceptions := 1\<rparr>"
  have nd: "\<not> isDependentException (unwindClass z)" using header_class(1) [OF z(2)] p(1) by simp
  have run: "eh_exec (RethrowPtr p) s = Some (Inr s')"
    using j(4,5) l p(4) z(1) nd by (simp add: cxa_rethrow_primary_exception_def cxa_allocate_dependent_exception_def cxa_increment_exception_refcount_def throw_exception_def
      on_exn_def set_exn_def s'_def x_def y_def fun_upd_twist)
  have use': "in_use ?h = insert ?e (in_use h)" using l by (auto simp: in_use_def)
  have cnt: "handlers ?h = (handlers h)(?e := 0)" by (rule handlers_flight) (use l new(1) in \<open>auto simp: in_use_def\<close>)
  have "{d \<in> insert ?e (in_use h). ((stands_for h)(?e \<mapsto> p)) d = Some f} =
    (if f = p then insert ?e {d \<in> in_use h. stands_for h d = Some f} else {d \<in> in_use h. stands_for h d = Some f})" for f using new(1) by auto
  then have "refs ?h f = ((refs h)(p := refs h p + 1)) f" for f using new use' p(4) by (auto simp: refs_def)
  then have refs': "refs ?h = (refs h)(p := refs h p + 1)" by blast
  have "ledger (set_exn p y s) ((handlers h)(p := handlers h p)) ((refs h)(p := refs h p + 1)) (in_use h) (stands_for h) (dtor h) ?e"
    by (rule ledger_upd [OF j(2) z(1)]) (use z(2) p(1) in \<open>auto simp: y_def header_ok_def\<close>)
  then have "ledger (set_exn p y s) (handlers h) ((refs h)(p := refs h p + 1)) (in_use h) (stands_for h) (dtor h) ?e" by simp
  then have "ledger (set_exn ?e x (set_exn p y s)) ((handlers h)(?e := 0)) ((refs h)(p := refs h p + 1)) (insert ?e (in_use h)) ((stands_for h)(?e := Some p)) ((dtor h)(?e := 0)) (?e + 1)"
    by (rule ledger_new) (simp_all add: header_ok_def x_def blank_exception_def)
  moreover have "(dtor h)(?e := 0) = dtor h" using j(1) by (auto simp: well_nested_def)
  ultimately have led: "ledger s' (handlers ?h) (refs ?h) (in_use ?h) (stands_for ?h) (dtor ?h) (issued ?h)" unfolding cnt use' refs' by (simp add: s'_def ledger_def)
  have "linked (exns s') (caughtExceptions s) (map fst (active h))"
  proof (rule linked_after [OF j(3) led])
    show "fst ` set (active h) \<subseteq> in_use ?h" unfolding use' using active_in_use by blast
    fix f a a' assume "f \<in> fst ` set (active h)" "exns s f = Some a" "exns s' f = Some a'"
    moreover from this have "f \<noteq> ?e" using active_in_use new(1) by blast
    ultimately show "nextException a' = nextException a" using z(1) by (cases "f = p") (auto simp: s'_def set_exn_def y_def)
  qed
  moreover have "p < ?e" using p(3) live_issued [OF i] by auto
  then have "well_nested ?h" using j(1) new p(1) unfolding well_nested_def in_use_def by (auto simp: less_Suc_eq)
  ultimately have "implements s' ?h" using led j by (simp add: implements_def s'_def set_exn_def)
  then show ?thesis using run by blast
qed

text \<open>A change of one header that keeps its references and its place in the chain.\<close>

lemma header_implements:
  assumes i: "implements s h" and x: "exns s e = Some x" and w: "well_nested h'" and k: "handlers h' = (handlers h)(e := k)" and r: "refs h' = refs h" "in_use h' = in_use h"
    and same: "stands_for h' = stands_for h" "dtor h' = dtor h" "issued h' = issued h"
    and c: "linked (exns s) c (map fst hs)" "e \<notin> fst ` set hs \<or> p = nextException x" "fst ` set hs \<subseteq> in_use h" "linked ((exns s)(e \<mapsto> y)) c (map fst hs) \<Longrightarrow> linked ((exns s)(e \<mapsto> y)) c' (map fst (active h'))"
    and y: "y = x\<lparr>handlerCount := k, nextException := p\<rparr>"
    and s': "exns s' = (exns s)(e \<mapsto> y)" "destroyed s' = destroyed s" "destructor_calls s' = destructor_calls s" "caughtExceptions s' = c'" "next_exn s' = next_exn s"
      "uncaughtExceptions s' = (if flight h' = None then 0 else 1)" "foreign_exception_state s' = foreign_none"
  shows "implements s' h'"
proof -
  note j = implementsD [OF i]
  have ok: "header_ok (handlers h e) (refs h e) (stands_for h e) (dtor h e) x" by (rule ledger_header [OF j(2) x])
  have "e \<in> alive (refs h) (in_use h) (stands_for h)" using j(2) x by (auto simp: ledger_def)
  then have "ledger (set_exn e y s) ((handlers h)(e := k)) (refs h) (in_use h) (stands_for h) (dtor h) (issued h)"
    by (intro ledger_upd [OF j(2) x]) (use ok in \<open>auto simp: y header_ok_def alive_def\<close>)
  then have led: "ledger s' (handlers h') (refs h') (in_use h') (stands_for h') (dtor h') (issued h')"
    unfolding k r same by (subst ledger_cong [of _ "set_exn e y s"]) (simp_all add: s' set_exn_def)
  have "linked (exns s') c (map fst hs)"
  proof (rule linked_after [OF c(1) led])
    show "fst ` set hs \<subseteq> in_use h'" using c(3) r(2) by simp
    fix f a a' assume "f \<in> fst ` set hs" "exns s f = Some a" "exns s' f = Some a'"
    then show "nextException a' = nextException a" using x c(2) by (cases "f = e") (auto simp: s' y)
  qed
  then show ?thesis using c(4) w led j(4) by (simp add: implements_def s' same)
qed

lemma refs_cong: "in_use h' = in_use h \<Longrightarrow> held h' = held h \<Longrightarrow> stands_for h' = stands_for h \<Longrightarrow> refs h' = refs h"
  by (simp add: refs_def fun_eq_iff)

lemma rethrow_implements:
  assumes i: "implements s h" and l: "legal Rethrow h"
  shows "\<exists>s'. eh_exec Rethrow s = Some (Inr s') \<and> implements s' (effect Rethrow h)"
proof -
  note j = implementsD [OF i]
  obtain e n hs where a: "active h = (e, n) # hs" using l by (cases "active h") auto
  let ?h = "effect Rethrow h"
  have "e \<in> in_use h" by (simp add: in_use_def a)
  from implements_header [OF i in_use_live [OF this]] obtain x where x: "exns s e = Some x" "header_ok (handlers h e) (refs h e) (stands_for h e) (dtor h e) x" .
  have n: "handlerCount x = int n" "n \<noteq> 0" using j(1) l x(2) by (auto simp: handlers_def a header_ok_def well_nested_def)
  let ?y = "x\<lparr>handlerCount := - int n, nextException := nextException x\<rparr>"
  let ?s = "s\<lparr>exns := (exns s)(e \<mapsto> ?y), uncaughtExceptions := 1\<rparr>"
  have "caughtExceptions s = Some e" using j(3) by (simp add: a)
  then have run: "eh_exec Rethrow s = Some (Inr ?s)" using j(5,6) x n l by (simp add: cxa_rethrow_def on_exn_def set_exn_def)
  have use': "in_use ?h = in_use h" using l by (auto simp: in_use_def a)
  have "implements ?s ?h"
  proof (rule header_implements [OF i x(1), where k = "- int n" and hs = "active h" and p = "nextException x"])
    show "well_nested ?h" using j(1) by (simp add: well_nested_def a)
    show "handlers ?h = (handlers h)(e := - int n)" using l by (auto simp: fun_eq_iff handlers_def a split: option.split)
    show "refs ?h = refs h" using use' by (intro refs_cong) simp_all
  qed (use use' j active_in_use in simp_all)
  then show ?thesis using run by blast
qed

lemma catch_implements:
  assumes i: "implements s h" and l: "legal (Catch e) h"
  shows "\<exists>s'. eh_exec (Catch e) s = Some (Inr s') \<and> implements s' (effect (Catch e) h)"
proof -
  note j = implementsD [OF i]
  let ?h = "effect (Catch e) h"
  have e: "flight h = Some e" "e \<in> in_use h" using l by (auto simp: in_use_def)
  from implements_header [OF i in_use_live [OF e(2)]] obtain x where x: "exns s e = Some x" "header_ok (handlers h e) (refs h e) (stands_for h e) (dtor h e) x" .
  have cxx: "isCXXException (unwindClass x)" by (rule header_class(2) [OF x(2)])
  have use': "in_use ?h = in_use h" using e(1) by (auto simp: in_use_def split: list.splits)
  have refs': "refs ?h = refs h" using use' by (intro refs_cong) simp_all
  show ?thesis
  proof (cases "e \<in> fst ` set (active h)")
    case True
    then obtain n hs where a: "active h = (e, n) # hs" using j(1) e(1) by (cases "active h") (auto simp: well_nested_def)
    have n: "handlerCount x = - int n" "n \<noteq> 0" using j(1) e(1) x(2) by (auto simp: handlers_def a header_ok_def well_nested_def)
    let ?y = "x\<lparr>handlerCount := int n + 1, nextException := nextException x\<rparr>"
    let ?s = "s\<lparr>exns := (exns s)(e \<mapsto> ?y), uncaughtExceptions := 0\<rparr>"
    have run: "eh_exec (Catch e) s = Some (Inr ?s)"
      using j(5,6) x(1) n e(1) cxx by (simp add: cxa_begin_catch_def on_exn_def set_exn_def Let_def)
    have "implements ?s ?h"
    proof (rule header_implements [OF i x(1), where k = "int n + 1" and hs = "active h" and p = "nextException x"])
      show "well_nested ?h" using j(1) by (simp add: well_nested_def a)
      show "handlers ?h = (handlers h)(e := int n + 1)" using e(1) by (auto simp: fun_eq_iff handlers_def a split: option.split)
      show "linked ((exns s)(e \<mapsto> ?y)) (caughtExceptions s) (map fst (active ?h))" if "linked ((exns s)(e \<mapsto> ?y)) (caughtExceptions s) (map fst (active h))"
        using that by (simp add: a)
    qed (use refs' use' j active_in_use in simp_all)
    then show ?thesis using run by blast
  next
    case False
    then have a: "active ?h = (e, 1) # active h" by (auto split: list.splits)
    have n: "handlerCount x = 0" using handlers_other [OF False] x(2) by (simp add: header_ok_def)
    let ?y = "x\<lparr>handlerCount := 1, nextException := caughtExceptions s\<rparr>"
    let ?s = "s\<lparr>exns := (exns s)(e \<mapsto> ?y), caughtExceptions := Some e, uncaughtExceptions := 0\<rparr>"
    have run: "eh_exec (Catch e) s = Some (Inr ?s)"
      using j(5,6) x(1) n e(1) cxx by (cases s, cases x) (simp add: cxa_begin_catch_def on_exn_def set_exn_def Let_def)
    have "implements ?s ?h"
    proof (rule header_implements [OF i x(1), where k = 1 and hs = "active h" and p = "caughtExceptions s"])
      show "well_nested ?h" using j(1) False unfolding well_nested_def a by (simp add: image_iff)
      show "handlers ?h = (handlers h)(e := 1)" using e(1) unfolding fun_eq_iff handlers_def a by (auto split: option.split)
      show "linked ((exns s)(e \<mapsto> ?y)) (Some e) (map fst (active ?h))" if "linked ((exns s)(e \<mapsto> ?y)) (caughtExceptions s) (map fst (active h))"
        unfolding a using that by simp
    qed (use refs' use' j active_in_use False in simp_all)
    then show ?thesis using run by blast
  qed
qed

lemma count_implements:
  assumes i: "implements s h" and x: "exns s e = Some x" and h': "h' = h\<lparr>held := (held h)(e := held h e + 1)\<rparr>" and e: "stands_for h e = None"
  shows "implements (set_exn e (x\<lparr>referenceCount := referenceCount x + 1\<rparr>) s) h'" (is "implements ?s h'")
proof -
  note j = implementsD [OF i]
  have use': "in_use h' = in_use h" by (simp add: h' in_use_def)
  have refs': "refs h' = (refs h)(e := refs h e + 1)" by (auto simp: fun_eq_iff h' refs_def in_use_def)
  have cnt: "handlers h' = handlers h" by (auto simp: fun_eq_iff h' handlers_def split: option.split)
  have "ledger ?s ((handlers h)(e := handlers h e)) (refs h') (in_use h') (stands_for h) (dtor h) (issued h)"
    unfolding refs' use' by (rule ledger_upd [OF j(2) x]) (use ledger_header [OF j(2) x] in \<open>auto simp: header_ok_def\<close>)
  then have led: "ledger ?s (handlers h') (refs h') (in_use h') (stands_for h') (dtor h') (issued h')" unfolding cnt by (simp add: h')
  have "linked (exns ?s) (caughtExceptions s) (map fst (active h))"
  proof (rule linked_after [OF j(3) led])
    show "fst ` set (active h) \<subseteq> in_use h'" unfolding use' by (rule active_in_use)
    fix f a a' assume "exns s f = Some a" "exns ?s f = Some a'"
    then show "nextException a' = nextException a" using x by (cases "f = e") (auto simp: set_exn_def)
  qed
  then show ?thesis using led j e by (simp add: implements_def set_exn_def h' well_nested_def)
qed

lemma capture_implements:
  assumes i: "implements s h"
  shows "\<exists>s'. eh_exec Capture s = Some (Inr s') \<and> implements s' (effect Capture h)"
proof (cases "active h")
  case Nil
  then show ?thesis using i by (simp add: cxa_current_primary_exception_def implements_def)
next
  case (Cons g hs)
  obtain e n where g: "g = (e, n)" by (cases g)
  note j = implementsD [OF i]
  have c: "caughtExceptions s = Some e" using j(3) by (simp add: Cons g)
  have e: "e \<in> in_use h" by (simp add: in_use_def Cons g)
  from implements_header [OF i in_use_live [OF e]] obtain x where x: "exns s e = Some x" "header_ok (handlers h e) (refs h e) (stands_for h e) (dtor h e) x" .
  let ?o = "object_of h e"
  have "primaryException x = stands_for h e" using x(2) by (simp add: header_ok_def)
  then have real: "realExceptionFromException e s = Some (Inr ?o)"
    using x(1) header_class(1) [OF x(2)] by (auto simp: realExceptionFromException_def on_exn_def object_of_def split: option.split)
  have o: "stands_for h ?o = None" using j(1) by (auto simp: object_of_def well_nested_def split: option.split)
  have "?o \<in> live h"
  proof (cases "stands_for h e")
    case None
    then show ?thesis using in_use_live [OF e] by (simp add: object_of_def)
  next
    case (Some p)
    then have "e \<in> {d \<in> in_use h. stands_for h d = Some p}" using e by simp
    then have "card {d \<in> in_use h. stands_for h d = Some p} \<noteq> 0" by (subst card_0_eq) auto
    then show ?thesis using o Some by (simp add: object_of_def live_def refs_def)
  qed
  from implements_header [OF i this] obtain z where z: "exns s ?o = Some z" .
  show ?thesis using count_implements [OF i z refl o] z c real by (simp add: cxa_current_primary_exception_def on_exn_def Cons g)
qed

lemma copy_implements:
  assumes i: "implements s h" and l: "legal (Copy e) h"
  shows "\<exists>s'. eh_exec (Copy e) s = Some (Inr s') \<and> implements s' (effect (Copy e) h)"
proof -
  have e: "stands_for h e = None" "e \<in> live h" using l implementsD(1) [OF i] by (auto simp: live_def refs_def well_nested_def)
  from implements_header [OF i e(2)] obtain x where x: "exns s e = Some x" "header_ok (handlers h e) (refs h e) (stands_for h e) (dtor h e) x" .
  show ?thesis using count_implements [OF i x(1) refl e(1)] x(1) header_class(1) [OF x(2)] e(1) by (simp add: cxa_increment_exception_refcount_def on_exn_def)
qed

text \<open>The end of the last handler of an exception, and the end of an \<open>exception_ptr\<close>.\<close>

lemma dropped_next: "exns s f = Some a \<Longrightarrow> exns (dropped e s x) f = Some a' \<Longrightarrow> exns s e = Some x \<Longrightarrow> nextException a' = nextException a"
  by (cases "f = e") (auto simp: dropped_def free_memory_def set_exn_def split: if_splits)

lemma dropped_rest [simp]:
  "caughtExceptions (dropped e s x) = caughtExceptions s" "next_exn (dropped e s x) = next_exn s" "uncaughtExceptions (dropped e s x) = uncaughtExceptions s"
  "foreign_exception_state (dropped e s x) = foreign_exception_state s"
  by (simp_all add: dropped_def free_memory_def set_exn_def)

lemma drop_implements:
  assumes i: "implements s h" and l: "legal (Drop e) h"
  shows "\<exists>s'. eh_exec (Drop e) s = Some (Inr s') \<and> implements s' (effect (Drop e) h)"
proof -
  note j = implementsD [OF i]
  let ?h = "effect (Drop e) h"
  have e: "stands_for h e = None" "e \<in> live h" using l j(1) by (auto simp: live_def refs_def well_nested_def)
  from implements_header [OF i e(2)] obtain x where x: "exns s e = Some x" .
  have use': "in_use ?h = in_use h" by (simp add: in_use_def)
  have refs': "refs ?h = (refs h)(e := refs h e - 1)" using l by (auto simp: fun_eq_iff refs_def in_use_def)
  have cnt: "handlers ?h = handlers h" by (auto simp: fun_eq_iff handlers_def split: option.split)
  note d = ledger_drop [OF j(2) x e(1)]
  have led: "ledger (dropped e s x) (handlers ?h) (refs ?h) (in_use ?h) (stands_for ?h) (dtor ?h) (issued ?h)" unfolding refs' use' cnt using d(2) by simp
  have "linked (exns (dropped e s x)) (caughtExceptions s) (map fst (active h))"
  proof (rule linked_after [OF j(3) led])
    show "fst ` set (active h) \<subseteq> in_use ?h" unfolding use' by (rule active_in_use)
  qed (rule dropped_next [OF _ _ x])
  moreover have "well_nested ?h" using j(1) by (simp add: well_nested_def)
  ultimately have "implements (dropped e s x) ?h" using led j by (simp add: implements_def)
  then show ?thesis using d(1) by (simp add: cxa_decrement_exception_refcount_def)
qed

lemma end_last:
  assumes i: "implements s h" and a: "active h = (e, 1) # hs" and f: "flight h \<noteq> Some e" and x: "exns s e = Some x"
    and t: "t = (set_exn e (x\<lparr>handlerCount := 0\<rparr>) s)\<lparr>caughtExceptions := nextException x\<rparr>" and h': "h' = h\<lparr>active := hs\<rparr>"
  shows "\<exists>s'. releaseException e t = Some (Inr s') \<and> implements s' h'"
proof -
  note j = implementsD [OF i]
  have nx: "linked (exns s) (nextException x) (map fst hs)" "caughtExceptions s = Some e" using j(3) x by (auto simp: a)
  have e: "e \<notin> fst ` set hs" "e \<in> in_use h" using j(1) by (auto simp: well_nested_def a in_use_def)
  have use': "in_use h' = in_use h - {e}" using e(1) f by (auto simp: h' in_use_def a)
  have cnt: "handlers h' = (handlers h)(e := 0)"
    using e(1) by (auto simp: fun_eq_iff handlers_def h' a map_of_eq_None_iff [THEN iffD2] split: option.split)
  have ok: "header_ok (handlers h e) (refs h e) (stands_for h e) (dtor h e) x" by (rule ledger_header [OF j(2) x])
  have led0: "ledger (set_exn e (x\<lparr>handlerCount := 0\<rparr>) s) ((handlers h)(e := 0)) (refs h) (in_use h) (stands_for h) (dtor h) (issued h)"
    by (rule ledger_upd [OF j(2) x]) (use ok e(2) in \<open>auto simp: header_ok_def refs_def\<close>)
  have led: "ledger t (handlers h') (refs h) (in_use h) (stands_for h) (dtor h) (issued h)"
    unfolding cnt using led0 by (simp add: ledger_def t)
  have nt: "nextException a' = nextException a" if "exns s f = Some a" "exns t f = Some a'" for f a a'
    using that x by (cases "f = e") (auto simp: t set_exn_def)
  have te: "exns t e = Some (x\<lparr>handlerCount := 0\<rparr>)" by (simp add: t set_exn_def)
  have "g = e" if "flight h = Some g" "g \<in> fst ` set (active h)" for g using j(1) that by (auto simp: well_nested_def a)
  then have "g \<notin> fst ` set hs" if "flight h = Some g" for g using that f by (auto simp: a)
  then have wn: "well_nested h'" using j(1) unfolding well_nested_def by (simp add: a h')
  have rest: "caughtExceptions t = nextException x" "next_exn t = next_exn s" "uncaughtExceptions t = uncaughtExceptions s" "foreign_exception_state t = foreign_none"
    using j(6) by (simp_all add: t set_exn_def)
  show ?thesis
  proof (cases "stands_for h e")
    case None
    have "{d \<in> in_use h - {e}. stands_for h d = Some f} = {d \<in> in_use h. stands_for h d = Some f}" for f using None by auto
    then have "refs h' f = ((refs h)(e := refs h e - 1)) f" for f unfolding refs_def use' using None e(2) by (simp add: h')
    then have refs': "refs h' = (refs h)(e := refs h e - 1)" by blast
    note d = ledger_drop [OF led te None]
    have "ledger (dropped e t (x\<lparr>handlerCount := 0\<rparr>)) (handlers h') (refs h') (in_use h') (stands_for h) (dtor h) (issued h)"
      unfolding refs' use' by (rule ledger_use [OF d(2)]) (use None in auto)
    then have led': "ledger (dropped e t (x\<lparr>handlerCount := 0\<rparr>)) (handlers h') (refs h') (in_use h') (stands_for h') (dtor h') (issued h')" by (simp add: h')
    have "linked (exns (dropped e t (x\<lparr>handlerCount := 0\<rparr>))) (nextException x) (map fst hs)"
    proof (rule linked_after [OF nx(1) led'])
      show "fst ` set hs \<subseteq> in_use h'" using active_in_use [of h'] by (simp add: h')
      fix f a a' assume "f \<in> fst ` set hs" "exns s f = Some a" "exns (dropped e t (x\<lparr>handlerCount := 0\<rparr>)) f = Some a'"
      moreover have "exns t f = exns s f" if "f \<noteq> e" using that by (simp add: t set_exn_def)
      ultimately show "nextException a' = nextException a" using dropped_next [OF _ _ te, of f a a'] e(1) by metis
    qed
    then have "implements (dropped e t (x\<lparr>handlerCount := 0\<rparr>)) h'" using wn led' j rest by (simp add: implements_def) (simp add: h')
    then show ?thesis using d(1) by blast
  next
    case (Some p)
    let ?S = "\<lambda>f. {d \<in> in_use h. stands_for h d = Some f}"
    have "stands_for h p = None" using j(1) Some by (simp add: well_nested_def)
    with Some have p: "stands_for h p = None" "p \<noteq> e" by auto
    have "e \<in> ?S p" using e(2) Some by simp
    then have S: "card (?S p) \<noteq> 0" by (subst card_0_eq) auto
    obtain n where n: "card (?S p) = Suc n" "card (?S p - {e}) = n" using S \<open>e \<in> ?S p\<close> by (cases "card (?S p)") (auto simp: card_Diff_singleton)
    have "{d \<in> in_use h - {e}. stands_for h d = Some f} = (if f = p then ?S p - {e} else ?S f)" for f using Some by auto
    then have "refs h' f = ((refs h)(p := refs h p - 1)) f" for f unfolding refs_def use' using n Some p by (auto simp: h')
    then have refs': "refs h' = (refs h)(p := refs h p - 1)" by blast
    have "p \<in> live h" using p(1) S by (simp add: live_def refs_def)
    from implements_header [OF i this] obtain z where "exns s p = Some z" .
    then have tp: "exns t p = Some z" using p(2) by (simp add: t set_exn_def)
    note d = ledger_drop [OF led tp p(1)]
    let ?s = "free_memory e (dropped p t z)"
    have rel: "releaseException e t = Some (Inr ?s)"
      using te ok Some d(1) header_class(1) [OF ok] by (subst releaseException.simps) (simp add: header_ok_def)
    have led': "ledger ?s (handlers h') (refs h') (in_use h') (stands_for h') (dtor h') (issued h')"
      unfolding refs' use' using ledger_free [OF d(2) e(2)] Some by (simp add: h')
    have "linked (exns ?s) (nextException x) (map fst hs)"
    proof (rule linked_after [OF nx(1) led'])
      show "fst ` set hs \<subseteq> in_use h'" using active_in_use [of h'] by (simp add: h')
      fix f a a' assume "f \<in> fst ` set hs" "exns s f = Some a" "exns ?s f = Some a'"
      moreover from this have "f \<noteq> e" using e(1) by blast
      ultimately show "nextException a' = nextException a" using dropped_next [OF _ _ tp, of f a a'] by (simp add: t set_exn_def free_memory_def)
    qed
    moreover have "caughtExceptions ?s = nextException x" "next_exn ?s = issued h'" "uncaughtExceptions ?s = (if flight h' = None then 0 else 1)" "foreign_exception_state ?s = foreign_none"
      using rest j(4,5) by (simp_all add: free_memory_def h')
    ultimately have "implements ?s h'" using wn led' by (simp add: implements_def h')
    then show ?thesis using rel by blast
  qed
qed

lemma end_implements:
  assumes i: "implements s h" and l: "legal EndHandler h"
  shows "\<exists>s'. eh_exec EndHandler s = Some (Inr s') \<and> implements s' (effect EndHandler h)"
proof -
  note j = implementsD [OF i]
  obtain e n hs where a: "active h = (e, n) # hs" using l by (cases "active h") auto
  let ?h = "effect EndHandler h"
  have e: "e \<in> in_use h" "e \<notin> fst ` set hs" "n \<noteq> 0" using j(1) by (auto simp: in_use_def a well_nested_def)
  from implements_header [OF i in_use_live [OF e(1)]] obtain x where x: "exns s e = Some x" "header_ok (handlers h e) (refs h e) (stands_for h e) (dtor h e) x" .
  have c: "caughtExceptions s = Some e" "linked (exns s) (nextException x) (map fst hs)" using j(3) x(1) by (auto simp: a)
  have hc: "handlerCount x = (if flight h = Some e then - int n else int n)" using x(2) by (simp add: header_ok_def handlers_def a)
  have inner: "f = e" if "flight h = Some f" "f \<in> fst ` set (active h)" for f using j(1) that by (auto simp: well_nested_def a)
  have none: "map_of hs e = None" using e(2) by (simp add: map_of_eq_None_iff)
  consider (more) "n \<noteq> 1" | (thrown) "n = 1" "flight h = Some e" | (last) "n = 1" "flight h \<noteq> Some e" by blast
  then show ?thesis
  proof cases
    case more
    let ?k = "if flight h = Some e then - int (n - 1) else int (n - 1)"
    let ?y = "x\<lparr>handlerCount := ?k, nextException := nextException x\<rparr>"
    let ?s = "s\<lparr>exns := (exns s)(e \<mapsto> ?y)\<rparr>"
    have run: "eh_exec EndHandler s = Some (Inr ?s)"
      using more e(3) hc j(6) by (auto simp: cxa_end_catch_def c(1) x(1) on_exn_def set_exn_def Let_def of_nat_diff)
    have use': "in_use ?h = in_use h" using more by (auto simp: in_use_def a)
    have act: "active ?h = (e, n - 1) # hs" using more by (simp add: a)
    have "implements ?s ?h"
    proof (rule header_implements [OF i x(1), where k = ?k and hs = "active h" and p = "nextException x"])
      have w: "distinct (map fst (active ?h))" "\<forall>(e, n) \<in> set (active ?h). n \<noteq> 0" using j(1) more e(3) unfolding act by (auto simp: well_nested_def a)
      have "f = fst (hd (active ?h))" if "flight h = Some f" "f \<in> fst ` set (active ?h)" for f using inner that unfolding act by (simp add: a)
      then show "well_nested ?h" using j(1) w by (simp add: well_nested_def del: effect.simps) simp
      show "handlers ?h = (handlers h)(e := ?k)" unfolding fun_eq_iff handlers_def act by (auto simp: a split: option.split)
      show "refs ?h = refs h" using use' by (intro refs_cong) simp_all
      show "linked ((exns s)(e \<mapsto> ?y)) (caughtExceptions s) (map fst (active ?h))" if "linked ((exns s)(e \<mapsto> ?y)) (caughtExceptions s) (map fst (active h))"
        unfolding act using that by (simp add: a)
    qed (use use' j active_in_use in simp_all)
    then show ?thesis using run by blast
  next
    case thrown
    let ?y = "x\<lparr>handlerCount := 0, nextException := nextException x\<rparr>"
    let ?s = "s\<lparr>exns := (exns s)(e \<mapsto> ?y), caughtExceptions := nextException x\<rparr>"
    have run: "eh_exec EndHandler s = Some (Inr ?s)"
      using thrown hc j(6) by (simp add: cxa_end_catch_def c(1) x(1) on_exn_def set_exn_def Let_def)
    have act: "active ?h = hs" using thrown by (simp add: a)
    have use': "in_use ?h = in_use h" unfolding in_use_def act using thrown by (auto simp: a)
    have "implements ?s ?h"
    proof (rule header_implements [OF i x(1), where k = 0 and hs = hs and p = "nextException x"])
      show "well_nested ?h" using j(1) thrown e(2) unfolding well_nested_def act by (auto simp: a)
      show "handlers ?h = (handlers h)(e := 0)" using none unfolding fun_eq_iff handlers_def act by (auto simp: a split: option.split)
      show "refs ?h = refs h" using use' by (intro refs_cong) simp_all
      show "linked (exns s) (nextException x) (map fst hs)" by (rule c(2))
      show "linked ((exns s)(e \<mapsto> ?y)) (nextException x) (map fst (active ?h))" if "linked ((exns s)(e \<mapsto> ?y)) (nextException x) (map fst hs)"
        unfolding act by (rule that)
      show "fst ` set hs \<subseteq> in_use h" using active_in_use [of h] by (simp add: a)
    qed (use use' j in simp_all)
    then show ?thesis using run by blast
  next
    case last
    have "?h = h\<lparr>active := hs\<rparr>" using last by (simp add: a)
    moreover have "eh_exec EndHandler s = releaseException e ((set_exn e (x\<lparr>handlerCount := 0\<rparr>) s)\<lparr>caughtExceptions := nextException x\<rparr>)"
      using last hc j(6) by (simp add: cxa_end_catch_def c(1) x(1) on_exn_def set_exn_def Let_def)
    ultimately show ?thesis using end_last [OF i _ last(2) x(1) refl refl, of hs] last(1) a by simp
  qed
qed

lemma exec_implements: "implements s h \<Longrightarrow> legal p h \<Longrightarrow> \<exists>s'. eh_exec p s = Some (Inr s') \<and> implements s' (effect p h)"
  by (cases p; hypsubst_thin; (rule throw_implements | rule rethrow_implements | rule rethrow_ptr_implements | rule catch_implements | rule end_implements | rule capture_implements |
    rule copy_implements | rule drop_implements); assumption)

lemma run_implements: "implements s h \<Longrightarrow> all_legal ps h \<Longrightarrow> \<exists>s'. eh_run ps s = Some (Inr s') \<and> implements s' (effects ps h)"
proof (induction ps arbitrary: s h)
  case (Cons p ps)
  then obtain s' where s': "eh_exec p s = Some (Inr s')" "implements s' (effect p h)" using exec_implements [of s h p] by auto
  from Cons.IH [OF s'(2)] Cons.prems(2) show ?case using s'(1) by (simp add: effects_def)
qed (simp add: effects_def)

lemma implements_init: "implements eh_init no_handling"
proof -
  have "alive (refs no_handling) (in_use no_handling) (stands_for no_handling) = {}" by (auto simp: alive_def refs_def in_use_def no_handling_def)
  then show ?thesis by (simp add: implements_def ledger_def) (simp add: well_nested_def eh_init_def no_handling_def calls_of_def)
qed

section \<open>Property\<close>



text \<open>The type of an exception that was rethrown from an \<open>exception_ptr\<close> is not the type of its object but the language-specific data of its first handler.\<close>

lemma rethrown_type_wrong:
  assumes "exns s p = Some z" and "\<not> isDependentException (unwindClass z)" and "exns s (next_exn s) = None"
    and "cxa_rethrow_primary_exception (Some p) s = Some (Inr s')" and "cxa_begin_catch (next_exn s) s' = Some (Inr (q, t))"
  shows "cxa_current_exception_type t = Some (Inr (languageSpecificData z))"
proof -
  have "p \<noteq> next_exn s" using assms(1,3) by auto
  then show ?thesis using assms exception_classes(3)
    by (auto simp: cxa_rethrow_primary_exception_def cxa_allocate_dependent_exception_def cxa_increment_exception_refcount_def throw_exception_def cxa_begin_catch_def
      cxa_current_exception_type_def on_exn_def set_exn_def blank_exception_def Let_def)
qed

end
