(* ===== verification/Wide.thy ===== *)
theory Wide
  imports Division
begin

text \<open>
  Shifts, products, comparisons and checked arithmetic of the compiler runtime (\<^verbatim>\<open>compile-rt-builtins\<close>): what a 32-bit machine computes on halves for numbers of 64 bits, and the
  operations that abort when the result does not fit. Each is proved equal to the operation on the numbers. \<open>None\<close> is the call of \<open>abort\<close>.
\<close>

section \<open>The code\<close>

subsection \<open>Shifts\<close>

definition ashldi3 :: "u64 \<Rightarrow> u32 \<Rightarrow> u64" where
  "ashldi3 a b =
     (if b AND 32 \<noteq> 0 then dword (push_bit (unat (b - 32)) (low a)) 0
      else if b = 0 then a
      else dword (push_bit (unat b) (high a) OR drop_bit (unat (32 - b)) (low a)) (push_bit (unat b) (low a)))"

definition ashrdi3 :: "u64 \<Rightarrow> u32 \<Rightarrow> u64" where
  "ashrdi3 a b =
     (if b AND 32 \<noteq> 0 then dword (signed_drop_bit 31 (high a)) (signed_drop_bit (unat (b - 32)) (high a))
      else if b = 0 then a
      else dword (signed_drop_bit (unat b) (high a)) (push_bit (unat (32 - b)) (high a) OR drop_bit (unat b) (low a)))"

definition lshrdi3 :: "u64 \<Rightarrow> u32 \<Rightarrow> u64" where
  "lshrdi3 a b =
     (if b AND 32 \<noteq> 0 then dword 0 (drop_bit (unat (b - 32)) (high a))
      else if b = 0 then a
      else dword (drop_bit (unat b) (high a)) (push_bit (unat (32 - b)) (high a) OR drop_bit (unat b) (low a)))"

subsection \<open>Product\<close>

definition muldsi3 :: "u32 \<Rightarrow> u32 \<Rightarrow> u64" where
  "muldsi3 a b =
     (let lower_mask = 0xFFFF;
          l = (a AND lower_mask) * (b AND lower_mask);
          t = drop_bit 16 l;
          l = l AND lower_mask;
          t = t + drop_bit 16 a * (b AND lower_mask);
          l = l + push_bit 16 (t AND lower_mask);
          h = drop_bit 16 t;
          t = drop_bit 16 l;
          l = l AND lower_mask;
          t = t + drop_bit 16 b * (a AND lower_mask);
          l = l + push_bit 16 (t AND lower_mask);
          h = h + drop_bit 16 t;
          h = h + drop_bit 16 a * drop_bit 16 b
      in dword h l)"

definition muldi3 :: "u64 \<Rightarrow> u64 \<Rightarrow> u64" where
  "muldi3 a b = (let r = muldsi3 (low a) (low b) in dword (high r + (high a * low b + low a * high b)) (low r))"

definition negdi2 :: "u64 \<Rightarrow> u64" where
  "negdi2 a = - a"

subsection \<open>Comparison\<close>

definition cmpdi2 :: "u64 \<Rightarrow> u64 \<Rightarrow> int" where
  "cmpdi2 a b =
     (if high a <s high b then 0 else if high b <s high a then 2 else if low a < low b then 0 else if low b < low a then 2 else 1)"

definition ucmpdi2 :: "u64 \<Rightarrow> u64 \<Rightarrow> int" where
  "ucmpdi2 a b =
     (if high a < high b then 0 else if high b < high a then 2 else if low a < low b then 0 else if low b < low a then 2 else 1)"

subsection \<open>Arithmetic that aborts on overflow\<close>

definition addv :: "'a::len word \<Rightarrow> 'a word \<Rightarrow> 'a word option" where
  "addv a b = (let s = a + b in if 0 \<le>s b then if s <s a then None else Some s else if a \<le>s s then None else Some s)"

definition subv :: "'a::len word \<Rightarrow> 'a word \<Rightarrow> 'a word option" where
  "subv a b = (let s = a - b in if 0 \<le>s b then if a <s s then None else Some s else if s \<le>s a then None else Some s)"

definition negv :: "'a::len word \<Rightarrow> 'a word option" where
  "negv a = (if a = push_bit (LENGTH('a) - 1) 1 then None else Some (- a))"

definition absv :: "'a::len word \<Rightarrow> 'a word option" where
  "absv a = (if a = push_bit (LENGTH('a) - 1) 1 then None else let t = signed_drop_bit (LENGTH('a) - 1) a in Some ((a XOR t) - t))"

definition muloXi4 :: "'a::len word \<Rightarrow> 'a word \<Rightarrow> 'a word \<times> bool" where
  "muloXi4 a b =
     (let MINV = push_bit (LENGTH('a) - 1) 1; MAXV = NOT MINV; result = a * b
      in if a = MINV then (result, b \<noteq> 0 \<and> b \<noteq> 1)
         else if b = MINV then (result, a \<noteq> 0 \<and> a \<noteq> 1)
         else let sa = signed_drop_bit (LENGTH('a) - 1) a; abs_a = (a XOR sa) - sa;
                  sb = signed_drop_bit (LENGTH('a) - 1) b; abs_b = (b XOR sb) - sb
              in if abs_a <s 2 \<or> abs_b <s 2 then (result, False)
                 else if sa = sb then (result, word_of_int (sint MAXV sdiv sint abs_b) <s abs_a)
                 else (result, word_of_int (sint MINV sdiv sint (- abs_b)) <s abs_a))"

definition mulvXi3 :: "'a::len word \<Rightarrow> 'a word \<Rightarrow> 'a word option" where
  "mulvXi3 a b =
     (let MINV = push_bit (LENGTH('a) - 1) 1; MAXV = NOT MINV
      in if a = MINV then if b = 0 \<or> b = 1 then Some (a * b) else None
         else if b = MINV then if a = 0 \<or> a = 1 then Some (a * b) else None
         else let sa = signed_drop_bit (LENGTH('a) - 1) a; abs_a = (a XOR sa) - sa;
                  sb = signed_drop_bit (LENGTH('a) - 1) b; abs_b = (b XOR sb) - sb
              in if abs_a <s 2 \<or> abs_b <s 2 then Some (a * b)
                 else if sa = sb then if word_of_int (sint MAXV sdiv sint abs_b) <s abs_a then None else Some (a * b)
                 else if word_of_int (sint MINV sdiv sint (- abs_b)) <s abs_a then None else Some (a * b))"

definition addvsi3 :: "u32 \<Rightarrow> u32 \<Rightarrow> u32 option" where "addvsi3 = addv"
definition addvdi3 :: "u64 \<Rightarrow> u64 \<Rightarrow> u64 option" where "addvdi3 = addv"
definition subvsi3 :: "u32 \<Rightarrow> u32 \<Rightarrow> u32 option" where "subvsi3 = subv"
definition subvdi3 :: "u64 \<Rightarrow> u64 \<Rightarrow> u64 option" where "subvdi3 = subv"
definition negvsi2 :: "u32 \<Rightarrow> u32 option" where "negvsi2 = negv"
definition negvdi2 :: "u64 \<Rightarrow> u64 option" where "negvdi2 = negv"
definition absvsi2 :: "u32 \<Rightarrow> u32 option" where "absvsi2 = absv"
definition absvdi2 :: "u64 \<Rightarrow> u64 option" where "absvdi2 = absv"
definition mulvsi3 :: "u32 \<Rightarrow> u32 \<Rightarrow> u32 option" where "mulvsi3 = mulvXi3"
definition mulvdi3 :: "u64 \<Rightarrow> u64 \<Rightarrow> u64 option" where "mulvdi3 = mulvXi3"
definition mulosi4 :: "u32 \<Rightarrow> u32 \<Rightarrow> u32 \<times> bool" where "mulosi4 = muloXi4"
definition mulodi4 :: "u64 \<Rightarrow> u64 \<Rightarrow> u64 \<times> bool" where "mulodi4 = muloXi4"

section \<open>Shifts are shifts\<close>

lemma half_flag: "unat (b :: u32) < 64 \<Longrightarrow> b AND 32 \<noteq> 0 \<longleftrightarrow> 32 \<le> unat b"
proof -
  assume b: "unat b < 64"
  have "b AND 32 \<noteq> 0 \<longleftrightarrow> bit b 5" using and_exp_eq_0_iff_not_bit [of b 5] by simp
  also have "\<dots> \<longleftrightarrow> odd (unat b div 2 ^ 5)" 
  proof -
    have "bit (unat b) 5 \<longleftrightarrow> bit b 5" by (simp add: bit_unsigned_iff)
    then show ?thesis by (simp add: bit_iff_odd [of "unat b"])
  qed
  also have "\<dots> \<longleftrightarrow> 32 \<le> unat b" using b by (cases "unat b < 32") (auto simp: div_if)
  finally show ?thesis .
qed

lemma shift_distance:
  "unat (b :: u32) < 64 \<Longrightarrow> 32 \<le> unat b \<Longrightarrow> unat (b - 32) = unat b - 32" "unat (b :: u32) < 32 \<Longrightarrow> unat (32 - b) = 32 - unat b"
  by (simp_all add: unat_sub word_le_nat_alt)

lemma dword_signed_drop: "k \<le> 32 \<Longrightarrow> signed_drop_bit k (dword h l) = dword (signed_drop_bit k h) (push_bit (32 - k) h OR drop_bit k l)"
  by (rule bit_word_eqI) (auto simp: bit_dword bit_signed_drop_bit_iff bit_simps min_def not_le less_diff_conv le_diff_conv add.commute dest: bit_imp_le_length)

lemma dword_signed_drop_big: "32 \<le> k \<Longrightarrow> k < 64 \<Longrightarrow> signed_drop_bit k (dword h l) = dword (signed_drop_bit 31 h) (signed_drop_bit (k - 32) h)"
proof (rule bit_word_eqI)
  have e: "64 - Suc 0 = (63 :: nat)" "32 - Suc 0 = (31 :: nat)" "(63 :: nat) - 32 = 31" by simp_all
  fix n assume "32 \<le> k" "k < 64" "n < LENGTH(64)"
  then show "bit (signed_drop_bit k (dword h l)) n \<longleftrightarrow> bit (dword (signed_drop_bit 31 h) (signed_drop_bit (k - 32) h)) n"
    by (cases "k + n \<le> 63"; cases "n < 32") (auto simp: bit_dword bit_signed_drop_bit_iff e min_def not_le)
qed

lemma shifts_eq:
  assumes "unat b < 64"
  shows "ashldi3 a b = push_bit (unat b) a" and "ashrdi3 a b = signed_drop_bit (unat b) a" and "lshrdi3 a b = drop_bit (unat b) a"
proof -
  obtain h l where a: "a = dword h l" by (metis dword_parts)
  have z: "b = 0 \<longleftrightarrow> unat b = 0" by (simp add: unat_eq_zero)
  show "ashldi3 a b = push_bit (unat b) a" "ashrdi3 a b = signed_drop_bit (unat b) a" "lshrdi3 a b = drop_bit (unat b) a"
    using half_flag [OF assms] shift_distance [of b] assms z
    by (cases "32 \<le> unat b"; auto simp: a ashldi3_def ashrdi3_def lshrdi3_def dword_push dword_push_big dword_drop dword_drop_big dword_signed_drop dword_signed_drop_big)+
qed

section \<open>Products are products\<close>

lemma unat_low16: "unat ((a :: u32) AND 0xFFFF) = unat a mod 65536"
proof -
  have "a AND 0xFFFF = take_bit 16 a" by (simp add: take_bit_eq_mask mask_eq_exp_minus_1)
  then show ?thesis by (simp add: take_bit_eq_mod unat_mod_distrib)
qed

lemma unat_high16: "unat (drop_bit 16 (a :: u32)) = unat a div 65536"
  by (simp add: drop_bit_eq_div unat_div_distrib)

lemma unat_mult32: "unat a * unat b < 4294967296 \<Longrightarrow> unat (a * b :: u32) = unat a * unat b"
  using unat_mult_lem [of a b] by simp

lemma unat_shl16: "unat (push_bit 16 ((a :: u32) AND 0xFFFF)) = unat a mod 65536 * 65536"
proof -
  have "unat ((a AND 0xFFFF) * 65536) = unat a mod 65536 * 65536" by (subst unat_mult32) (simp_all add: unat_low16)
  then show ?thesis by (simp add: push_bit_eq_mult)
qed

lemma join16: "unat (((x :: u32) AND 0xFFFF) + push_bit 16 (y AND 0xFFFF)) = unat x mod 65536 + unat y mod 65536 * 65536"
proof -
  have "unat x mod 65536 < 65536" "unat y mod 65536 < 65536" by simp_all
  then have "unat x mod 65536 + unat y mod 65536 * 65536 < 4294967296" by linarith
  then show ?thesis by (metis unat_add32 unat_low16 unat_shl16)
qed

text \<open>The scheme of the product on numbers, in base \<open>B\<close>.\<close>

lemma product_digits:
  fixes a0 a1 b0 b1 B :: nat
  assumes "q3 + a1 * b0 = q1 * B + r1" and "r1 + b1 * a0 = q2 * B + r2" and "a0 * b0 = q3 * B + r3"
  shows "(q1 + q2 + a1 * b1) * (B * B) + (r3 + r2 * B) = (a1 * B + a0) * (b1 * B + b0)"
proof -
  have "(q3 + a1 * b0) * B = (q1 * B + r1) * B" "(r1 + b1 * a0) * B = (q2 * B + r2) * B" using assms(1,2) by simp_all
  then show ?thesis using assms(3) by (simp add: algebra_simps)
qed

lemma product_scheme:
  fixes a0 a1 b0 b1 B :: nat
  defines "t \<equiv> a0 * b0 div B + a1 * b0"
  defines "u \<equiv> t mod B + b1 * a0"
  shows "(t div B + u div B + a1 * b1) * (B * B) + (a0 * b0 mod B + u mod B * B) = (a1 * B + a0) * (b1 * B + b0)"
  by (rule product_digits [of "a0 * b0 div B" a1 b0 "t div B" B "t mod B"]) (simp_all add: t_def u_def)

lemma muldsi3_eq: "unat (muldsi3 a b) = unat a * unat b"
proof -
  define a0 a1 b0 b1 where d: "a0 = unat a mod 65536" "a1 = unat a div 65536" "b0 = unat b mod 65536" "b1 = unat b div 65536"
  have le: "a0 \<le> 65535" "a1 \<le> 65535" "b0 \<le> 65535" "b1 \<le> 65535" using less_mult_imp_div_less [of "unat a" 65536 65536] less_mult_imp_div_less [of "unat b" 65536 65536] unat_lt32 [of a] unat_lt32 [of b] by (simp_all add: d less_Suc_eq_le [symmetric])
  define t where "t = a0 * b0 div 65536 + a1 * b0"
  define u where "u = t mod 65536 + b1 * a0"
  have p: "a0 * b0 \<le> 4294836225" "a1 * b0 \<le> 4294836225" "b1 * a0 \<le> 4294836225" "a1 * b1 \<le> 4294836225"
    using mult_le_mono [OF le(1,3)] mult_le_mono [OF le(2,3)] mult_le_mono [OF le(4,1)] mult_le_mono [OF le(2,4)] by simp_all
  have tu: "t < 4294967296" "u < 4294967296" using p by (simp_all add: t_def u_def)
  define l0 where "l0 = (a AND 0xFFFF) * (b AND 0xFFFF)"
  define m1 where "m1 = drop_bit 16 a * (b AND 0xFFFF)"
  define tw where "tw = drop_bit 16 l0 + m1"
  define l1 where "l1 = (l0 AND 0xFFFF) + push_bit 16 (tw AND 0xFFFF)"
  define m2 where "m2 = drop_bit 16 b * (a AND 0xFFFF)"
  define uw where "uw = drop_bit 16 l1 + m2"
  define l2 where "l2 = (l1 AND 0xFFFF) + push_bit 16 (uw AND 0xFFFF)"
  define m3 where "m3 = drop_bit 16 a * drop_bit 16 b"
  have m: "unat l0 = a0 * b0" "unat m1 = a1 * b0" "unat m2 = b1 * a0" "unat m3 = a1 * b1"
    unfolding l0_def m1_def m2_def m3_def using p by (subst unat_mult32; simp add: unat_low16 unat_high16 d)+
  have t: "unat tw = t" unfolding tw_def using tu(1) by (subst unat_add32) (simp_all add: unat_high16 m t_def)
  have l1: "unat l1 = a0 * b0 mod 65536 + t mod 65536 * 65536" unfolding l1_def join16 m t ..
  have u: "unat uw = u" unfolding uw_def using tu(2) by (subst unat_add32) (simp_all add: unat_high16 l1 m u_def)
  have l2: "unat l2 = a0 * b0 mod 65536 + u mod 65536 * 65536" unfolding l2_def join16 l1 u by simp
  have s: "(t div 65536 + u div 65536 + a1 * b1) * (65536 * 65536) + (a0 * b0 mod 65536 + u mod 65536 * 65536) = unat a * unat b"
    using product_scheme [of a0 b0 65536 a1 b1] by (simp add: t_def u_def d)
  have "unat a * unat b \<le> 4294967295 * 4294967295" using unat_lt32 [of a] unat_lt32 [of b] by (intro mult_le_mono) linarith+
  with s have h: "t div 65536 + u div 65536 + a1 * b1 < 4294967296" by simp
  have "unat (drop_bit 16 tw + drop_bit 16 uw) = t div 65536 + u div 65536" using h by (subst unat_add32) (simp_all add: unat_high16 t u)
  then have h2: "unat (drop_bit 16 tw + drop_bit 16 uw + m3) = t div 65536 + u div 65536 + a1 * b1" using h by (subst unat_add32) (simp_all add: m)
  have "muldsi3 a b = dword (drop_bit 16 tw + drop_bit 16 uw + m3) l2"
    unfolding muldsi3_def Let_def l0_def [symmetric] m1_def [symmetric] m2_def [symmetric] m3_def [symmetric] tw_def [symmetric] l1_def [symmetric] uw_def [symmetric] l2_def [symmetric] ..
  then show ?thesis using s by (simp add: unat_dword l2 h2)
qed

text \<open>A word of 32 bits as the upper half of one of 64 bits: what overflows there is lost.\<close>

definition up :: "u32 \<Rightarrow> u64" where
  "up w = of_nat (unat w) * 4294967296"

lemma square_lost: "(4294967296 :: u64) * 4294967296 = 0"
  by simp

lemma up_lost: "(of_nat (n mod 4294967296) :: u64) * 4294967296 = of_nat n * 4294967296"
proof -
  have "(of_nat n :: u64) = of_nat (n div 4294967296 * 4294967296 + n mod 4294967296)" by (simp only: div_mult_mod_eq)
  then have "(of_nat n :: u64) * 4294967296 = of_nat (n div 4294967296) * (4294967296 * 4294967296) + of_nat (n mod 4294967296) * 4294967296"
    by (simp only: of_nat_add of_nat_mult of_nat_numeral distrib_right mult.assoc)
  then show ?thesis by (simp only: square_lost mult_zero_right add_0_left)
qed

lemma up_arith: "up (x + y) = up x + up y" "up (x * y) = of_nat (unat x) * up y"
proof -
  have "unat (x + y) = (unat x + unat y) mod 4294967296" "unat (x * y) = unat x * unat y mod 4294967296" by (simp_all add: unat_word_ariths)
  then show "up (x + y) = up x + up y" "up (x * y) = of_nat (unat x) * up y"
    by (simp_all only: up_def up_lost of_nat_add of_nat_mult distrib_right mult.assoc)
qed

lemma dword_up: "dword h l = up h + of_nat (unat l)"
proof -
  have "dword h l = of_nat (unat (dword h l))" by simp
  then show ?thesis by (simp add: unat_dword up_def)
qed

lemma muldi3_eq: "muldi3 a b = a * b"
proof -
  define r where "r = muldsi3 (low a) (low b)"
  have "up (high r) + of_nat (unat (low r)) = r" by (metis dword_parts dword_up)
  also have "r = of_nat (unat r)" by simp
  also have "\<dots> = of_nat (unat (low a)) * of_nat (unat (low b))" by (simp only: r_def muldsi3_eq of_nat_mult)
  finally have r: "up (high r) + of_nat (unat (low r)) = of_nat (unat (low a)) * of_nat (unat (low b))" .
  have z: "up x * up y = 0" for x y
  proof -
    have "up x * up y = of_nat (unat x) * of_nat (unat y) * (4294967296 * 4294967296)" unfolding up_def by (simp only: mult.assoc mult.commute mult.left_commute)
    then show ?thesis by (simp only: square_lost mult_zero_right)
  qed
  have "muldi3 a b = (up (high r) + of_nat (unat (low r))) + of_nat (unat (high a)) * up (low b) + of_nat (unat (low a)) * up (high b)"
    by (simp add: muldi3_def r_def [symmetric] Let_def dword_up up_arith(1,2))
  also have "of_nat (unat (high a)) * up (low b) = up (high a) * of_nat (unat (low b))" by (simp add: up_def)
  also have "(up (high r) + of_nat (unat (low r))) + up (high a) * of_nat (unat (low b)) + of_nat (unat (low a)) * up (high b) =
    (up (high a) + of_nat (unat (low a))) * (up (high b) + of_nat (unat (low b)))" unfolding r by (simp add: algebra_simps z)
  also have "\<dots> = a * b" by (metis dword_parts dword_up)
  finally show ?thesis .
qed

section \<open>Comparisons are comparisons\<close>

lemma sint_top: "sint (w :: 'a::len word) = uint w - (if bit w (LENGTH('a) - 1) then 2 ^ LENGTH('a) else 0)"
proof -
  have "take_bit LENGTH('a) (uint w) = uint w" using uint_lt2p [of w] by (simp add: take_bit_int_eq_self)
  then show ?thesis by (simp add: sint_uint signed_take_bit_eq_take_bit_minus bit_unsigned_iff)
qed

lemma uint_dword: "uint (dword h l) = uint h * 4294967296 + uint l"
proof -
  have "int (unat (dword h l)) = int (unat h) * 4294967296 + int (unat l)" by (simp add: unat_dword)
  then show ?thesis by simp
qed

lemma sint_dword: "sint (dword h l) = sint h * 4294967296 + uint l"
  by (simp add: sint_top uint_dword bit_dword)

lemma compare_halves:
  fixes x y l m :: int
  assumes "0 \<le> l" "l < 4294967296" "0 \<le> m" "m < 4294967296"
  shows "x * 4294967296 + l < y * 4294967296 + m \<longleftrightarrow> x < y \<or> x = y \<and> l < m" and "x * 4294967296 + l = y * 4294967296 + m \<longleftrightarrow> x = y \<and> l = m"
  using assms by (cases x y rule: linorder_cases; linarith)+

lemma cmpdi2_eq: "cmpdi2 a b = (if sint a < sint b then 0 else if sint a = sint b then 1 else 2)"
proof -
  obtain ah al bh bl where ab: "a = dword ah al" "b = dword bh bl" by (metis dword_parts)
  have u: "0 \<le> uint al" "uint al < 4294967296" "0 \<le> uint bl" "uint bl < 4294967296" using uint_lt2p [of al] uint_lt2p [of bl] by simp_all
  show ?thesis unfolding ab cmpdi2_def parts_dword word_sless_alt word_less_def sint_dword compare_halves [OF u] by auto
qed

lemma ucmpdi2_eq: "ucmpdi2 a b = (if a < b then 0 else if a = b then 1 else 2)"
proof -
  obtain ah al bh bl where ab: "a = dword ah al" "b = dword bh bl" by (metis dword_parts)
  have u: "0 \<le> uint al" "uint al < 4294967296" "0 \<le> uint bl" "uint bl < 4294967296" using uint_lt2p [of al] uint_lt2p [of bl] by simp_all
  show ?thesis unfolding ab ucmpdi2_def parts_dword word_less_def word_uint_eq_iff uint_dword compare_halves [OF u] by auto
qed

section \<open>Checked arithmetic is exact\<close>

text \<open>The signed numbers of a word type, and a result that is a number of the type or nothing.\<close>

definition in_range :: "nat \<Rightarrow> int \<Rightarrow> bool" where
  "in_range n x \<longleftrightarrow> - (2 ^ (n - 1)) \<le> x \<and> x < 2 ^ (n - 1)"

definition exact :: "int \<Rightarrow> 'a::len word option" where
  "exact x = (if in_range LENGTH('a) x then Some (word_of_int x) else None)"

lemma sint_of_int: "in_range LENGTH('a) x \<Longrightarrow> sint (word_of_int x :: 'a::len word) = x"
  by (simp add: in_range_def signed_of_int signed_take_bit_int_eq_self)

lemma sint_in_range: "in_range LENGTH('a) (sint (a :: 'a::len word))"
  using sint_ge [of a] sint_lt [of a] by (simp add: in_range_def)

lemma word_of_int_wrap: "(word_of_int (x + 2 * 2 ^ (LENGTH('a) - 1)) :: 'a::len word) = word_of_int x" "(word_of_int (x - 2 * 2 ^ (LENGTH('a) - 1)) :: 'a::len word) = word_of_int x"
proof -
  have "2 * 2 ^ (LENGTH('a) - 1) = (2 :: int) ^ LENGTH('a)" by (metis len_gt_0 power_minus_mult mult.commute)
  moreover have "(word_of_int (2 ^ LENGTH('a)) :: 'a word) = 0" by simp
  ultimately show "(word_of_int (x + 2 * 2 ^ (LENGTH('a) - 1)) :: 'a word) = word_of_int x" "(word_of_int (x - 2 * 2 ^ (LENGTH('a) - 1)) :: 'a word) = word_of_int x"
    by (simp_all only: of_int_add of_int_diff add_0_right diff_zero)
qed

text \<open>The sum or difference of two signed numbers, wrapped.\<close>

lemma sint_wrap:
  fixes x :: int
  defines "P \<equiv> 2 ^ (LENGTH('a::len) - 1)"
  assumes "- (3 * P) \<le> x" "x < 3 * P"
  shows "sint (word_of_int x :: 'a word) = (if x < - P then x + 2 * P else if x < P then x else x - 2 * P)"
proof -
  have "in_range LENGTH('a) (x + 2 * P)" if "x < - P" using that assms by (simp add: in_range_def P_def)
  moreover have "in_range LENGTH('a) x" if "\<not> x < - P" "x < P" using that by (simp add: in_range_def P_def)
  moreover have "in_range LENGTH('a) (x - 2 * P)" if "\<not> x < P" using that assms by (simp add: in_range_def P_def)
  ultimately show ?thesis using sint_of_int word_of_int_wrap [of x, where 'a = 'a] unfolding P_def [symmetric] by (metis (full_types))
qed

lemma addv_eq: "addv a b = exact (sint a + sint b)"
proof -
  let ?P = "2 ^ (LENGTH('a) - 1) :: int"
  have s: "a + b = word_of_int (sint a + sint b)" by simp
  have r: "- ?P \<le> sint a" "sint a < ?P" "- ?P \<le> sint b" "sint b < ?P" using sint_in_range [of a] sint_in_range [of b] by (simp_all add: in_range_def)
  have w: "sint (a + b) = (if sint a + sint b < - ?P then sint a + sint b + 2 * ?P else if sint a + sint b < ?P then sint a + sint b else sint a + sint b - 2 * ?P)"
    unfolding s by (rule sint_wrap) (use r in linarith)+
  have "addv a b = (if in_range LENGTH('a) (sint a + sint b) then Some (a + b) else None)"
    unfolding addv_def Let_def word_sless_alt word_sle_eq signed_0 w in_range_def using r by auto
  then show ?thesis unfolding exact_def s .
qed

lemma subv_eq: "subv a b = exact (sint a - sint b)"
proof -
  let ?P = "2 ^ (LENGTH('a) - 1) :: int"
  have s: "a - b = word_of_int (sint a - sint b)" by simp
  have r: "- ?P \<le> sint a" "sint a < ?P" "- ?P \<le> sint b" "sint b < ?P" using sint_in_range [of a] sint_in_range [of b] by (simp_all add: in_range_def)
  have w: "sint (a - b) = (if sint a - sint b < - ?P then sint a - sint b + 2 * ?P else if sint a - sint b < ?P then sint a - sint b else sint a - sint b - 2 * ?P)"
    unfolding s by (rule sint_wrap) (use r in linarith)+
  have "subv a b = (if in_range LENGTH('a) (sint a - sint b) then Some (a - b) else None)"
    unfolding subv_def Let_def word_sless_alt word_sle_eq signed_0 w in_range_def using r by auto
  then show ?thesis unfolding exact_def s .
qed

lemma sint_minv: "sint (push_bit (LENGTH('a) - 1) 1 :: 'a::len word) = - (2 ^ (LENGTH('a) - 1))"
proof -
  have eq: "(push_bit (LENGTH('a) - 1) 1 :: 'a word) = word_of_int (- (2 ^ (LENGTH('a) - 1)))"
    using word_of_int_wrap(2) [of "2 ^ (LENGTH('a) - 1)", where 'a = 'a] by (simp add: push_bit_eq_mult)
  have "in_range LENGTH('a) (- (2 ^ (LENGTH('a) - 1)))" by (simp add: in_range_def)
  then show ?thesis unfolding eq by (rule sint_of_int)
qed

lemma minv_iff: "(a :: 'a::len word) = push_bit (LENGTH('a) - 1) 1 \<longleftrightarrow> sint a = - (2 ^ (LENGTH('a) - 1))"
  unfolding sint_minv [symmetric] by (metis signed_word_eqI)

lemma negv_eq: "negv a = exact (- sint a)"
  unfolding negv_def minv_iff exact_def using sint_in_range [of a] by (auto simp: in_range_def)

lemma absolute: "((a :: 'a::len word) XOR signed_drop_bit (LENGTH('a) - 1) a) - signed_drop_bit (LENGTH('a) - 1) a = word_of_int \<bar>sint a\<bar>"
  using sign_of_eq [of a] unfolding sign_of_def negate_if_minus by simp

lemma absv_eq: "absv a = exact \<bar>sint a\<bar>"
  unfolding absv_def minv_iff exact_def Let_def absolute using sint_in_range [of a] by (auto simp: in_range_def abs_if)

text \<open>The product: the test compares with a quotient, so that it does not overflow itself.\<close>

lemma quotient_test: "0 < (b :: int) \<Longrightarrow> c div b < a \<longleftrightarrow> c < a * b"
proof -
  assume b: "0 < b"
  have "a \<le> c div b \<longleftrightarrow> a * b \<le> c"
  proof
    assume "a \<le> c div b"
    then have "a * b \<le> c div b * b" using b by simp
    also have "\<dots> \<le> c" using b by (simp add: pos_mod_sign flip: minus_mod_eq_div_mult)
    finally show "a * b \<le> c" .
  next
    assume "a * b \<le> c"
    then have "a * b div b \<le> c div b" using b by (intro zdiv_mono1)
    then show "a \<le> c div b" using b by simp
  qed
  then show ?thesis by linarith
qed

lemma least_product: "0 < (P :: int) \<Longrightarrow> - P \<le> - (P * x) \<and> - (P * x) < P \<longleftrightarrow> x = 0 \<or> x = 1"
proof -
  assume P: "0 < P"
  have "P * x \<le> P \<longleftrightarrow> x \<le> 1" "- P < P * x \<longleftrightarrow> - 1 < x" using P mult_le_cancel_left_pos [of P x 1] mult_less_cancel_left_pos [of P "- 1" x] by simp_all
  then show ?thesis by linarith
qed

lemma muloXi4_eq:
  fixes a b :: "'a::len word"
  assumes len: "3 \<le> LENGTH('a)"
  shows "muloXi4 a b = (a * b, \<not> in_range LENGTH('a) (sint a * sint b))"
proof -
  define P :: int where "P = 2 ^ (LENGTH('a) - 1)"
  have "2 \<le> LENGTH('a) - 1" using len by simp
  then have P: "4 \<le> P" unfolding P_def using power_increasing [of 2 "LENGTH('a) - 1" "2 :: int"] by simp
  have ir: "in_range LENGTH('a) x \<longleftrightarrow> - P \<le> x \<and> x < P" for x by (simp add: in_range_def P_def)
  have r: "- P \<le> sint a" "sint a < P" "- P \<le> sint b" "sint b < P" using sint_in_range [of a] sint_in_range [of b] by (simp_all add: ir)
  have small: "sint (w :: 'a word) = x" if "w = word_of_int x" "- P \<le> x" "x < P" for w x using sint_of_int [where 'a = 'a, of x] that by (simp add: ir)
  have one: "sint (1 :: 'a word) = 1" "sint (2 :: 'a word) = 2" using small [of 1 1] small [of 2 2] P by simp_all
  have eq01: "w = 0 \<longleftrightarrow> sint w = 0" "w = 1 \<longleftrightarrow> sint w = 1" for w :: "'a word" using one(1) by (metis signed_0 signed_word_eqI)+
  have mn: "w = push_bit (LENGTH('a) - 1) 1 \<longleftrightarrow> sint w = - P" for w :: "'a word" unfolding P_def by (rule minv_iff)
  have mx: "sint (NOT (push_bit (LENGTH('a) - 1) 1) :: 'a word) = P - 1" 
  proof -
    have "sint (word_of_int (- P) :: 'a word) = - P" by (rule small [OF refl]) (use P in linarith)+
    then have "(push_bit (LENGTH('a) - 1) 1 :: 'a word) = word_of_int (- P)" using mn by metis
    then have "NOT (push_bit (LENGTH('a) - 1) 1 :: 'a word) = word_of_int (P - 1)" by (simp only: not_eq_complement) simp
    then show ?thesis by (rule small) (use P in linarith)+
  qed
  consider (amin) "sint a = - P" | (bmin) "sint a \<noteq> - P" "sint b = - P" | (rest) "sint a \<noteq> - P" "sint b \<noteq> - P" by blast
  then show ?thesis
  proof cases
    case amin
    have "in_range LENGTH('a) (- P * sint b) \<longleftrightarrow> sint b = 0 \<or> sint b = 1" using least_product [of P "sint b"] P by (simp add: ir)
    then show ?thesis using amin unfolding muloXi4_def Let_def mn eq01 by simp
  next
    case bmin
    have "in_range LENGTH('a) (sint a * - P) \<longleftrightarrow> sint a = 0 \<or> sint a = 1" using least_product [of P "sint a"] P by (simp add: ir mult.commute)
    then show ?thesis using bmin unfolding muloXi4_def Let_def mn eq01 by simp
  next
    case rest
    let ?a = "\<bar>sint a\<bar>" and ?b = "\<bar>sint b\<bar>"
    have ab: "?a < P" "?b < P" using rest r by linarith+
    then have abs: "sint (word_of_int ?a :: 'a word) = ?a" "sint (word_of_int ?b :: 'a word) = ?b" "sint (- word_of_int ?b :: 'a word) = - ?b"
      by (auto intro!: small)
    have sg: "signed_drop_bit (LENGTH('a) - 1) a = signed_drop_bit (LENGTH('a) - 1) b \<longleftrightarrow> (sint a < 0 \<longleftrightarrow> sint b < 0)"
      using sign_of_eq [of a] sign_of_eq [of b] by (simp add: sign_of_def)
    have run: "muloXi4 a b = (a * b, if ?a < 2 \<or> ?b < 2 then False else if (sint a < 0) = (sint b < 0) then sint (word_of_int ((P - 1) sdiv ?b) :: 'a word) < ?a
        else sint (word_of_int ((- P) sdiv (- ?b)) :: 'a word) < ?a)"
      using rest sint_minv [where 'a = 'a] unfolding muloXi4_def Let_def mn absolute sg word_sless_alt one abs mx P_def [symmetric] by simp
    show ?thesis
    proof (cases "?a < 2 \<or> ?b < 2")
      case True
      then have "sint a = 0 \<or> sint a = 1 \<or> sint a = - 1 \<or> sint b = 0 \<or> sint b = 1 \<or> sint b = - 1" by linarith
      then have "in_range LENGTH('a) (sint a * sint b)" using ab P r by (auto simp: ir)
      then show ?thesis using True run by simp
    next
      case False
      then have b: "2 \<le> ?b" "0 < ?b" by linarith+
      have q: "(P - 1) sdiv ?b = (P - 1) div ?b" "(- P) sdiv (- ?b) = P div ?b" using P b by (simp_all add: signed_divide_int_def sgn_if)
      have "0 \<le> (P - 1) div ?b" "(P - 1) div ?b < P" "0 \<le> P div ?b" "P div ?b < P"
        using P b int_div_less_self [of P ?b] int_div_less_self [of "P - 1" ?b] by (auto simp: pos_imp_zdiv_nonneg_iff)
      then have sq: "sint (word_of_int ((P - 1) div ?b) :: 'a word) = (P - 1) div ?b" "sint (word_of_int (P div ?b) :: 'a word) = P div ?b" using P by (auto intro!: small)
      define m where "m = ?a * ?b"
      have pr: "sint a * sint b = (if (sint a < 0) = (sint b < 0) then m else - m)" by (auto simp: m_def abs_if)
      have ge: "0 \<le> m" by (simp add: m_def)
      show ?thesis unfolding run q sq quotient_test [OF b(2)] ir pr m_def [symmetric] if_not_P [OF False] using ge P by (cases "(sint a < 0) = (sint b < 0)") auto
    qed
  qed
qed

lemma mulvXi3_eq:
  fixes a b :: "'a::len word"
  assumes "3 \<le> LENGTH('a)"
  shows "mulvXi3 a b = exact (sint a * sint b)"
proof -
  have "mulvXi3 a b = (if snd (muloXi4 a b) then None else Some (fst (muloXi4 a b)))" by (simp add: mulvXi3_def muloXi4_def Let_def)
  then show ?thesis unfolding muloXi4_eq [OF assms] by (simp add: exact_def)
qed

section \<open>Properties\<close>

text \<open>
  C27: on numbers of 64 bits the routines that work on halves compute the operations of the type: the three shifts, for every distance below 64, the product, and the signed
  and the unsigned comparison, whose result is 0, 1 or 2 for less, equal and greater.
\<close>

theorem wide_operations_exact:
  fixes a b :: u64
  shows "(\<forall>k < 64. ashldi3 a (of_nat k) = push_bit k a \<and> lshrdi3 a (of_nat k) = drop_bit k a \<and> ashrdi3 a (of_nat k) = signed_drop_bit k a) \<and>
    muldi3 a b = a * b \<and>
    cmpdi2 a b = (if sint a < sint b then 0 else if sint a = sint b then 1 else 2) \<and> ucmpdi2 a b = (if a < b then 0 else if a = b then 1 else 2)"
proof -
  have "ashldi3 a (of_nat k) = push_bit k a \<and> lshrdi3 a (of_nat k) = drop_bit k a \<and> ashrdi3 a (of_nat k) = signed_drop_bit k a" if "k < 64" for k
    using shifts_eq [of "of_nat k" a] that by simp
  then show ?thesis using muldi3_eq cmpdi2_eq ucmpdi2_eq by blast
qed

theorem wide_operations_exact_witness: "ashrdi3 (- 16) 2 = - 4 \<and> muldi3 0x100000001 0x100000001 = 0x200000001 \<and> cmpdi2 (- 1) 1 = 0"
proof -
  have "ashrdi3 (- 16) (of_nat 2) = signed_drop_bit 2 (- 16)" using wide_operations_exact [of "- 16" 0, THEN conjunct1, rule_format, of 2] by simp
  moreover have "signed_drop_bit 2 (- 16) = (- 4 :: u64)" by (rule signed_word_eqI) (simp add: sint_signed_drop_bit_eq)
  moreover have "muldi3 0x100000001 0x100000001 = 0x100000001 * 0x100000001" "cmpdi2 (- 1) 1 = 0"
    using wide_operations_exact [of "0x100000001" "0x100000001"] wide_operations_exact [of "- 1" 1] by simp_all
  ultimately show ?thesis by simp
qed

text \<open>
  C28: the arithmetic that checks for overflow is exact, for 32 and for 64 bits: sum, difference, product, negation and absolute value are the results on the integers when
  these are signed numbers of the type, and otherwise the program aborts; the product with a flag is the wrapped product, and the flag says whether it is exact.
\<close>

theorem checked_arithmetic_exact:
  fixes a b :: u32 and c d :: u64
  shows "addvsi3 a b = exact (sint a + sint b) \<and> subvsi3 a b = exact (sint a - sint b) \<and> mulvsi3 a b = exact (sint a * sint b) \<and>
      negvsi2 a = exact (- sint a) \<and> absvsi2 a = exact \<bar>sint a\<bar> \<and> mulosi4 a b = (a * b, \<not> in_range 32 (sint a * sint b)) \<and>
      addvdi3 c d = exact (sint c + sint d) \<and> subvdi3 c d = exact (sint c - sint d) \<and> mulvdi3 c d = exact (sint c * sint d) \<and>
      negvdi2 c = exact (- sint c) \<and> absvdi2 c = exact \<bar>sint c\<bar> \<and> mulodi4 c d = (c * d, \<not> in_range 64 (sint c * sint d))"
  by (simp add: addvsi3_def addv_eq subvsi3_def subv_eq mulvsi3_def mulvXi3_eq negvsi2_def negv_eq absvsi2_def absv_eq mulosi4_def muloXi4_eq
    addvdi3_def subvdi3_def mulvdi3_def negvdi2_def absvdi2_def mulodi4_def)

end
