(* ===== verification/BitCount.thy ===== *)
theory BitCount
  imports Division
begin

text \<open>
  Counting leading and trailing zeros in the compiler runtime (\<^verbatim>\<open>clzsi2.c\<close>, \<^verbatim>\<open>ctzsi2.c\<close>, \<^verbatim>\<open>clzdi2.c\<close>, \<^verbatim>\<open>ctzdi2.c\<close>, \<^verbatim>\<open>ffssi2.c\<close>, \<^verbatim>\<open>ffsdi2.c\<close>): a search by halves without branches,
  proved equal to the counts \<open>clz\<close> and \<open>ctz\<close> that stand for the compiler's builtins.
\<close>

section \<open>The code\<close>

text \<open>One halving: the value that is looked at and the zeros counted so far.\<close>

definition clz_half :: "u32 \<Rightarrow> nat \<Rightarrow> u32 \<times> nat \<Rightarrow> u32 \<times> nat" where
  "clz_half m k xr = (case xr of (x, r) \<Rightarrow> let t = (if x AND m = 0 then k else 0) in (drop_bit (k - t) x, r + t))"

definition clzsi2 :: "u32 \<Rightarrow> u32" where
  "clzsi2 a =
     (let (x, r) = clz_half 0xC 2 (clz_half 0xF0 4 (clz_half 0xFF00 8 (clz_half 0xFFFF0000 16 (a, 0))))
      in of_nat r + ((2 - x) AND (if x AND 2 = 0 then - 1 else 0)))"

definition ctz_half :: "u32 \<Rightarrow> nat \<Rightarrow> u32 \<times> nat \<Rightarrow> u32 \<times> nat" where
  "ctz_half m k xr = (case xr of (x, r) \<Rightarrow> let t = (if x AND m = 0 then k else 0) in (drop_bit t x, r + t))"

definition ctzsi2 :: "u32 \<Rightarrow> u32" where
  "ctzsi2 a =
     (let (x, r) = ctz_half 0x3 2 (ctz_half 0xF 4 (ctz_half 0xFF 8 (ctz_half 0xFFFF 16 (a, 0))));
          x = x AND 3
      in of_nat r + ((2 - drop_bit 1 x) AND (if x AND 1 = 0 then - 1 else 0)))"

definition clzdi2 :: "u64 \<Rightarrow> u32" where
  "clzdi2 a =
     (let f = (if high a = 0 then - 1 else 0)
      in of_nat (clz ((high a AND NOT f) OR (low a AND f))) + (f AND 32))"

definition ctzdi2 :: "u64 \<Rightarrow> u32" where
  "ctzdi2 a =
     (let f = (if low a = 0 then - 1 else 0)
      in of_nat (ctz ((high a AND f) OR (low a AND NOT f))) + (f AND 32))"

definition ffssi2 :: "u32 \<Rightarrow> u32" where
  "ffssi2 a = (if a = 0 then 0 else of_nat (ctz a) + 1)"

definition ffsdi2 :: "u64 \<Rightarrow> u32" where
  "ffsdi2 a =
     (if low a = 0 then if high a = 0 then 0 else of_nat (ctz (high a)) + (1 + 32) else of_nat (ctz (low a)) + 1)"

section \<open>Leading zeros\<close>

lemma unat_drop: "unat (drop_bit k (x :: 'a::len word)) = unat x div 2 ^ k"
proof -
  have "unat (drop_bit k x) = drop_bit k (unat x)" by (rule unat_drop_bit_eq)
  also have "\<dots> = unat x div 2 ^ k" by (rule drop_bit_eq_div)
  finally show ?thesis .
qed

lemma bits_drop: "bits (drop_bit k (x :: 'a::len word)) = bits x - k"
proof -
  have "floorlog 2 (n div 2 ^ k) = floorlog 2 n - k" for n :: nat
  proof (induction k arbitrary: n)
    case (Suc k)
    have "floorlog 2 (n div 2 ^ Suc k) = floorlog 2 (n div 2 div 2 ^ k)" by (simp add: div_mult2_eq)
    also have "\<dots> = floorlog 2 (n div 2) - k" by (rule Suc.IH)
    also have "\<dots> = floorlog 2 n - Suc k" using compute_floorlog [of 2 n] by (cases "n = 0") (simp add: floorlog_def, simp)
    finally show ?case .
  qed simp
  then show ?thesis by (simp only: unat_drop)
qed

lemma high_part_zero:
  fixes x :: u32
  assumes "unat x < 2 ^ (2 * k)" and "m = push_bit k (mask k)"
  shows "x AND m = 0 \<longleftrightarrow> unat x < 2 ^ k"
proof -
  have hi: "\<not> bit x i" if "2 * k \<le> i" for i
  proof -
    have "unat x < 2 ^ i" using assms(1) that by (meson less_le_trans one_le_numeral power_increasing)
    then have "\<not> bit (unat x) i" by (simp add: bit_iff_odd)
    then show ?thesis by (simp add: bit_unsigned_iff)
  qed
  have "x AND m = push_bit k (drop_bit k x)"
  proof (rule bit_word_eqI)
    fix i assume "i < LENGTH(32)"
    then show "bit (x AND m) i \<longleftrightarrow> bit (push_bit k (drop_bit k x)) i" using hi [of i] by (cases "k \<le> i"; cases "2 * k \<le> i") (auto simp: assms(2) bit_simps)
  qed
  moreover have "drop_bit k (push_bit k (drop_bit k x)) = drop_bit k x" by (rule bit_word_eqI) (auto simp: bit_simps dest: bit_imp_le_length)
  ultimately have "x AND m = 0 \<longleftrightarrow> drop_bit k x = 0" by (metis drop_bit_of_0 push_bit_of_0)
  also have "\<dots> \<longleftrightarrow> unat x div 2 ^ k = 0" unfolding unat_eq_zero [symmetric] unat_drop ..
  also have "\<dots> \<longleftrightarrow> unat x < 2 ^ k" by (simp add: div_eq_0_iff)
  finally show ?thesis .
qed

text \<open>What a halving keeps: the zeros counted and those in front of the remaining value, in a width that is halved.\<close>

definition clz_inv :: "nat \<Rightarrow> nat \<Rightarrow> u32 \<times> nat \<Rightarrow> bool" where
  "clz_inv z w xr \<longleftrightarrow> unat (fst xr) < 2 ^ w \<and> z = snd xr + (w - bits (fst xr))"

lemma bits_width: "unat (x :: 'a::len word) < 2 ^ w \<longleftrightarrow> bits x \<le> w"
  by (simp add: floorlog_le_iff)

lemma clz_half_inv: "clz_inv z (2 * k) xr \<Longrightarrow> m = push_bit k (mask k) \<Longrightarrow> clz_inv z k (clz_half m k xr)"
proof -
  assume i: "clz_inv z (2 * k) xr" and m: "m = push_bit k (mask k)"
  obtain x r where xr: "xr = (x, r)" by (cases xr)
  have w: "bits x \<le> 2 * k" "z = r + (2 * k - bits x)" using i by (simp_all add: clz_inv_def xr bits_width)
  have c: "x AND m = 0 \<longleftrightarrow> bits x \<le> k" using high_part_zero [OF _ m, of x] i by (simp add: clz_inv_def xr bits_width)
  show ?thesis using w by (auto simp: clz_half_def clz_inv_def xr c bits_width bits_drop)
qed

lemma clz_last: "unat (x :: u32) < 4 \<Longrightarrow> ((2 - x) AND (if x AND 2 = 0 then - 1 else 0)) = of_nat (2 - bits x)"
proof -
  assume "unat x < 4"
  then have "unat x \<in> {0, 1, 2, 3}" by auto
  then have "x \<in> {0, 1, 2, 3}" by (auto simp: word_unat_eq_iff)
  then show ?thesis by (auto simp: compute_floorlog floorlog_def)
qed

lemma clzsi2_eq: "clzsi2 a = of_nat (clz a)"
proof -
  have "clz_inv (clz a) (2 * 16) (a, 0)" using unsigned_less [of a, where 'a = nat] by (simp add: clz_inv_def clz_def)
  then have "clz_inv (clz a) 16 (clz_half 0xFFFF0000 16 (a, 0))" by (rule clz_half_inv) (simp add: mask_eq_exp_minus_1 push_bit_eq_mult)
  then have "clz_inv (clz a) (2 * 8) (clz_half 0xFFFF0000 16 (a, 0))" by simp
  then have "clz_inv (clz a) 8 (clz_half 0xFF00 8 (clz_half 0xFFFF0000 16 (a, 0)))" by (rule clz_half_inv) (simp add: mask_eq_exp_minus_1 push_bit_eq_mult)
  then have "clz_inv (clz a) (2 * 4) (clz_half 0xFF00 8 (clz_half 0xFFFF0000 16 (a, 0)))" by simp
  then have "clz_inv (clz a) 4 (clz_half 0xF0 4 (clz_half 0xFF00 8 (clz_half 0xFFFF0000 16 (a, 0))))" by (rule clz_half_inv) (simp add: mask_eq_exp_minus_1 push_bit_eq_mult)
  then have "clz_inv (clz a) (2 * 2) (clz_half 0xF0 4 (clz_half 0xFF00 8 (clz_half 0xFFFF0000 16 (a, 0))))" by simp
  then have i: "clz_inv (clz a) 2 (clz_half 0xC 2 (clz_half 0xF0 4 (clz_half 0xFF00 8 (clz_half 0xFFFF0000 16 (a, 0)))))" by (rule clz_half_inv) (simp add: mask_eq_exp_minus_1 push_bit_eq_mult)
  obtain x r where xr: "clz_half 0xC 2 (clz_half 0xF0 4 (clz_half 0xFF00 8 (clz_half 0xFFFF0000 16 (a, 0)))) = (x, r)" by fastforce
  have "clz a = r + (2 - bits x)" "unat x < 4" using i by (simp_all add: xr clz_inv_def)
  then show ?thesis using clz_last [of x] by (simp add: clzsi2_def xr)
qed

section \<open>Trailing zeros\<close>

lemma ctz_unique:
  fixes d :: "'a::len word"
  assumes "bit d n" and "\<And>i. i < n \<Longrightarrow> \<not> bit d i"
  shows "ctz d = n"
proof -
  have "d \<noteq> 0" using assms(1) by auto
  from ctz_first [OF this] assms show ?thesis by (metis linorder_neqE_nat)
qed

lemma ctz_drop: "(x :: 'a::len word) \<noteq> 0 \<Longrightarrow> t \<le> ctz x \<Longrightarrow> drop_bit t x \<noteq> 0 \<and> ctz (drop_bit t x) = ctz x - t"
proof -
  assume x: "x \<noteq> 0" and t: "t \<le> ctz x"
  have b: "bit (drop_bit t x) (ctz x - t)" using ctz_first(2) [OF x] t by (simp add: bit_simps)
  moreover have "\<not> bit (drop_bit t x) i" if "i < ctz x - t" for i using ctz_first(3) [OF x, of "t + i"] that by (simp add: bit_simps)
  ultimately show ?thesis using ctz_unique [of "drop_bit t x" "ctz x - t"] by auto
qed

lemma low_part_zero: "(x :: u32) \<noteq> 0 \<Longrightarrow> x AND mask k = 0 \<longleftrightarrow> k \<le> ctz x"
proof
  assume x: "x \<noteq> 0"
  show "k \<le> ctz x" if "x AND mask k = 0"
  proof (rule ccontr)
    assume "\<not> k \<le> ctz x"
    then have "bit (x AND mask k) (ctz x)" using ctz_first(1,2) [OF x] by (simp add: bit_simps)
    then show False using that by simp
  qed
  show "x AND mask k = 0" if "k \<le> ctz x"
  proof (rule bit_word_eqI)
    fix i show "bit (x AND mask k) i \<longleftrightarrow> bit 0 i" using ctz_first(3) [OF x, of i] that by (auto simp: bit_simps)
  qed
qed

definition ctz_inv :: "nat \<Rightarrow> nat \<Rightarrow> u32 \<times> nat \<Rightarrow> bool" where
  "ctz_inv z w xr \<longleftrightarrow> fst xr \<noteq> 0 \<and> ctz (fst xr) < w \<and> z = snd xr + ctz (fst xr)"

lemma ctz_half_inv:
  assumes "ctz_inv z (2 * k) xr" and "m = mask k"
  shows "ctz_inv z k (ctz_half m k xr)"
proof -
  obtain x r where xr: "xr = (x, r)" by (cases xr)
  have w: "x \<noteq> 0" "ctz x < 2 * k" "z = r + ctz x" using assms(1) by (simp_all add: ctz_inv_def xr)
  show ?thesis
    using w ctz_drop [OF w(1), of k] ctz_drop [OF w(1), of 0] low_part_zero [OF w(1), of k] by (auto simp: ctz_half_def ctz_inv_def xr assms(2))
qed

lemma ctz_last: "(x :: u32) \<noteq> 0 \<Longrightarrow> ctz x < 2 \<Longrightarrow> ((2 - drop_bit 1 (x AND 3)) AND (if (x AND 3) AND 1 = 0 then - 1 else 0)) = of_nat (ctz x)"
proof -
  assume x: "x \<noteq> 0" "ctz x < 2"
  have m: "x AND 3 = take_bit 2 x" by (simp add: take_bit_eq_mask mask_eq_exp_minus_1)
  have "unat (x AND 3) < 4" unfolding m by (simp only: unsigned_take_bit_eq) (simp add: take_bit_eq_mod)
  then have "unat (x AND 3) \<in> {0, 1, 2, 3}" by auto
  then have c: "x AND 3 \<in> {0, 1, 2, 3}" by (auto simp: word_unat_eq_iff)
  have b: "bit (x AND 3) i \<longleftrightarrow> i < 2 \<and> bit x i" for i unfolding m by (simp add: bit_simps)
  show ?thesis
  proof (cases "bit x 0")
    case True
    then have "ctz x = 0" by (intro ctz_unique) simp_all
    moreover have "x AND 3 \<in> {1, 3}" using c b [of 0] True by auto
    ultimately show ?thesis by auto
  next
    case False
    then have "ctz x \<noteq> 0" using ctz_first(2) [OF x(1)] by metis
    with x(2) have k: "ctz x = 1" by simp
    then have "bit x 1" using ctz_first(2) [OF x(1)] by simp
    then have "x AND 3 = 2" using c b [of 0] b [of 1] False by auto
    then show ?thesis using k by simp
  qed
qed

lemma ctzsi2_eq: "a \<noteq> 0 \<Longrightarrow> ctzsi2 a = of_nat (ctz a)"
proof -
  assume "a \<noteq> 0"
  then have "ctz_inv (ctz a) (2 * 16) (a, 0)" using ctz_first(1) [of a] by (simp add: ctz_inv_def)
  then have "ctz_inv (ctz a) 16 (ctz_half 0xFFFF 16 (a, 0))" by (rule ctz_half_inv) (simp add: mask_eq_exp_minus_1)
  then have "ctz_inv (ctz a) (2 * 8) (ctz_half 0xFFFF 16 (a, 0))" by simp
  then have "ctz_inv (ctz a) 8 (ctz_half 0xFF 8 (ctz_half 0xFFFF 16 (a, 0)))" by (rule ctz_half_inv) (simp add: mask_eq_exp_minus_1)
  then have "ctz_inv (ctz a) (2 * 4) (ctz_half 0xFF 8 (ctz_half 0xFFFF 16 (a, 0)))" by simp
  then have "ctz_inv (ctz a) 4 (ctz_half 0xF 4 (ctz_half 0xFF 8 (ctz_half 0xFFFF 16 (a, 0))))" by (rule ctz_half_inv) (simp add: mask_eq_exp_minus_1)
  then have "ctz_inv (ctz a) (2 * 2) (ctz_half 0xF 4 (ctz_half 0xFF 8 (ctz_half 0xFFFF 16 (a, 0))))" by simp
  then have i: "ctz_inv (ctz a) 2 (ctz_half 3 2 (ctz_half 0xF 4 (ctz_half 0xFF 8 (ctz_half 0xFFFF 16 (a, 0)))))" by (rule ctz_half_inv) (simp add: mask_eq_exp_minus_1)
  obtain x r where xr: "ctz_half 3 2 (ctz_half 0xF 4 (ctz_half 0xFF 8 (ctz_half 0xFFFF 16 (a, 0)))) = (x, r)" by fastforce
  have c: "ctz a = r + ctz x" "x \<noteq> 0" "ctz x < 2" using i by (simp_all add: xr ctz_inv_def)
  show ?thesis unfolding ctzsi2_def xr Let_def prod.case ctz_last [OF c(2,3)] c(1) by simp
qed

section \<open>64 bits\<close>

lemma clzdi2_eq: "a \<noteq> 0 \<Longrightarrow> clzdi2 a = of_nat (clz a)"
proof -
  obtain h l where a: "a = dword h l" by (metis dword_parts)
  have "bits h \<le> 32" "bits l \<le> 32" using bits_le [of h] bits_le [of l] by simp_all
  then have "clz a = (if h = 0 then clz l + 32 else clz h)" by (simp add: a clz_def bits_dword)
  then show "clzdi2 a = of_nat (clz a)" by (simp add: clzdi2_def a)
qed

lemma ctz_dword: "dword h l \<noteq> 0 \<Longrightarrow> ctz (dword h l) = (if l = 0 then ctz h + 32 else ctz l)"
proof -
  assume n: "dword h l \<noteq> 0"
  show ?thesis
  proof (cases "l = 0")
    case True
    then have h: "h \<noteq> 0" using n by (auto simp: dword_eq_0)
    show ?thesis using ctz_first [OF h] True by (simp, intro ctz_unique) (auto simp: bit_dword)
  next
    case False
    show ?thesis using ctz_first [OF False] False by (simp, intro ctz_unique) (auto simp: bit_dword)
  qed
qed

lemma ctzdi2_eq: "a \<noteq> 0 \<Longrightarrow> ctzdi2 a = of_nat (ctz a)"
proof -
  assume n: "a \<noteq> 0"
  obtain h l where a: "a = dword h l" by (metis dword_parts)
  show "ctzdi2 a = of_nat (ctz a)" using ctz_dword [of h l] n by (simp add: ctzdi2_def a)
qed

section \<open>Property\<close>

text \<open>
  C29: the routines that count zeros without branches are right. For a number that is not 0, of 32 or of 64 bits, they return the number of zero bits above its highest and below its
  lowest set bit; and the routines that look for the first set bit return its place, counted from 1, and 0 for the number 0.
\<close>

theorem zeros_counted:
  fixes a :: u32 and b :: u64
  shows "(a \<noteq> 0 \<longrightarrow> clzsi2 a = of_nat (clz a) \<and> ctzsi2 a = of_nat (ctz a)) \<and> (b \<noteq> 0 \<longrightarrow> clzdi2 b = of_nat (clz b) \<and> ctzdi2 b = of_nat (ctz b)) \<and>
    ffssi2 a = (if a = 0 then 0 else of_nat (ctz a + 1)) \<and> ffsdi2 b = (if b = 0 then 0 else of_nat (ctz b + 1))"
proof -
  obtain h l where b: "b = dword h l" by (metis dword_parts)
  have "ffsdi2 b = (if b = 0 then 0 else of_nat (ctz b + 1))" using ctz_dword [of h l] by (auto simp: ffsdi2_def b dword_eq_0)
  then show ?thesis using clzsi2_eq ctzsi2_eq clzdi2_eq ctzdi2_eq by (simp add: ffssi2_def)
qed

theorem zeros_counted_witness: "clzsi2 0x00010000 = 15 \<and> ctzsi2 0x00010000 = 16"
proof -
  have "clz (0x00010000 :: u32) = 15" by (simp add: clz_def compute_floorlog)
  moreover have "ctz (0x00010000 :: u32) = 16"
  proof (rule ctz_unique)
    fix i :: nat assume "i < 16"
    then show "\<not> bit (0x00010000 :: u32) i" using bit_exp_iff [of 16 i, where 'a = "32 word"] by simp
  qed simp
  ultimately show ?thesis using zeros_counted [of "0x00010000" 0] by simp
qed

end
