(* ===== verification/Threads.thy ===== *)
theory Threads
  imports Prelude
begin

text \<open>
  The user program \<^verbatim>\<open>user/thread/thread.c\<close>: two threads that take turns by two semaphores to count to 100. Every access to a shared variable and every system call is a step of its own,
  and the steps of the threads interleave in any order. A semaphore is what \<open>Devices\<close> shows of it: a read takes one from a positive value and waits at 0, a write adds one.
\<close>

section \<open>The code\<close>

text \<open>The threads are \<open>False\<close> and \<open>True\<close>, and so are the semaphores \<open>sem1\<close> and \<open>sem2\<close> of \<open>main\<close>.\<close>

record info_t =
  info_sem1 :: bool
  info_sem2 :: bool
  info_id :: int

definition infos :: "bool \<Rightarrow> info_t" where
  "infos t = (if t then \<lparr>info_sem1 = True, info_sem2 = False, info_id = 2\<rparr> else \<lparr>info_sem1 = False, info_sem2 = True, info_id = 1\<rparr>)"

text \<open>Where a thread is in the function \<open>A\<close>; between loading and storing \<open>counter\<close> it has the value in a register.\<close>

datatype place = AtTest | AtRead | AtLoad | AtStore int | AtCheck | AtStop | AtPrint | AtWrite | Exited

record threads =
  places :: "bool \<Rightarrow> place"
  sems :: "bool \<Rightarrow> int"
  running :: int
  counter :: int
  printed :: "(int \<times> int) list"

definition goto :: "bool \<Rightarrow> place \<Rightarrow> threads \<Rightarrow> threads" where
  "goto t p s = s\<lparr>places := (places s)(t := p)\<rparr>"

text \<open>One step of a thread, or \<open>None\<close> while it waits and when it has ended.\<close>

definition A :: "bool \<Rightarrow> threads \<Rightarrow> threads option" where
  "A t s =
     (let info = infos t
      in case places s t of
        AtTest \<Rightarrow> Some (goto t (if running s \<noteq> 0 then AtRead else Exited) s)
      | AtRead \<Rightarrow> if sems s (info_sem1 info) > 0
          then Some (goto t AtLoad (s\<lparr>sems := (sems s)(info_sem1 info := sems s (info_sem1 info) - 1)\<rparr>)) else None
      | AtLoad \<Rightarrow> Some (goto t (AtStore (counter s)) s)
      | AtStore v \<Rightarrow> Some (goto t AtCheck (s\<lparr>counter := v + 1\<rparr>))
      | AtCheck \<Rightarrow> Some (goto t (if counter s \<ge> 100 then AtStop else AtPrint) s)
      | AtStop \<Rightarrow> Some (goto t AtPrint (s\<lparr>running := 0\<rparr>))
      | AtPrint \<Rightarrow> Some (goto t AtWrite (s\<lparr>printed := printed s @ [(info_id info, counter s)]\<rparr>))
      | AtWrite \<Rightarrow> Some (goto t AtTest (s\<lparr>sems := (sems s)(info_sem2 info := sems s (info_sem2 info) + 1)\<rparr>))
      | Exited \<Rightarrow> None)"

text \<open>What \<open>main\<close> sets up before it starts the threads.\<close>

definition threads_init :: threads where
  "threads_init = \<lparr>places = (\<lambda>_. AtTest), sems = (\<lambda>s. if s then 0 else 1), running = 1, counter = 0, printed = []\<rparr>"

inductive interleaved :: "threads \<Rightarrow> nat \<Rightarrow> bool" where
  start: "interleaved threads_init 0"
| turn: "interleaved s n \<Longrightarrow> A t s = Some s' \<Longrightarrow> interleaved s' (n + 1)"

section \<open>Invariant\<close>

text \<open>Between its read and its write a thread is inside; it counts there.\<close>

fun before :: "place \<Rightarrow> bool" where
  "before AtLoad \<longleftrightarrow> True"
| "before (AtStore v) \<longleftrightarrow> True"
| "before _ \<longleftrightarrow> False"

fun after :: "place \<Rightarrow> bool" where
  "after AtCheck \<longleftrightarrow> True"
| "after AtStop \<longleftrightarrow> True"
| "after AtPrint \<longleftrightarrow> True"
| "after AtWrite \<longleftrightarrow> True"
| "after _ \<longleftrightarrow> False"

definition inside :: "place \<Rightarrow> int" where
  "inside p = (if before p \<or> after p then 1 else 0)"

text \<open>What holds of one thread, which moves the counter from \<open>even\<close> or odd values on, up to a final one.\<close>

definition thread_ok :: "bool \<Rightarrow> int \<Rightarrow> int \<Rightarrow> int \<Rightarrow> int \<Rightarrow> place \<Rightarrow> bool" where
  "thread_ok t f n r v p \<longleftrightarrow> (before p \<longrightarrow> (odd n \<longleftrightarrow> t) \<and> n \<le> f) \<and> (after p \<longrightarrow> (odd n \<longleftrightarrow> \<not> t) \<and> 1 \<le> n \<and> n \<le> f + 1) \<and> (v = 1 \<longrightarrow> (odd n \<longleftrightarrow> t)) \<and>
     (p = AtRead \<longrightarrow> n \<le> f) \<and> (p = Exited \<longrightarrow> 100 \<le> n \<and> r = 0) \<and> (\<forall>w. p = AtStore w \<longrightarrow> w = n) \<and> (p = AtStop \<longrightarrow> 100 \<le> n)"

definition line :: "int \<Rightarrow> int \<times> int" where
  "line i = (if odd i then 1 else 2, i)"

definition counting :: "place \<Rightarrow> bool" where
  "counting p \<longleftrightarrow> p \<in> {AtCheck, AtStop}"

definition unprinted :: "place \<Rightarrow> int" where
  "unprinted p = (if p \<in> {AtCheck, AtStop, AtPrint} then 1 else 0)"

definition final :: "bool \<Rightarrow> int" where
  "final t = (if t then 99 else 100)"

text \<open>The invariant as thread \<open>t\<close> sees it: its place \<open>p\<close> and semaphore \<open>v\<close>, and those of the other thread.\<close>

definition turns :: "bool \<Rightarrow> int \<Rightarrow> int \<Rightarrow> place \<Rightarrow> int \<Rightarrow> place \<Rightarrow> int \<Rightarrow> (int \<times> int) list \<Rightarrow> bool" where
  "turns t n r p v q w out \<longleftrightarrow> 0 \<le> n \<and> n \<le> 101 \<and> 0 \<le> v \<and> 0 \<le> w \<and> v + w + inside p + inside q = 1 \<and>
     thread_ok t (final t) n r v p \<and> thread_ok (\<not> t) (final (\<not> t)) n r w q \<and>
     (r \<noteq> 0 \<longleftrightarrow> n < 100 \<or> n = 100 \<and> (counting p \<or> counting q)) \<and> out = map line [1..n - unprinted p - unprinted q]"

definition threads_inv :: "threads \<Rightarrow> bool" where
  "threads_inv s \<longleftrightarrow> turns False (counter s) (running s) (places s False) (sems s False) (places s True) (sems s True) (printed s)"

lemma turns_sym: "turns t n r p v q w out \<longleftrightarrow> turns (\<not> t) n r q w p v out"
  by (auto simp: turns_def algebra_simps)

lemma threads_inv_view: "threads_inv s \<longleftrightarrow> turns t (counter s) (running s) (places s t) (sems s t) (places s (\<not> t)) (sems s (\<not> t)) (printed s)"
  using turns_sym [of True] by (cases t) (simp_all add: threads_inv_def)

lemma threads_inv_init: "threads_inv threads_init"
  by (simp add: threads_inv_def turns_def threads_init_def thread_ok_def inside_def counting_def unprinted_def)

text \<open>While one thread is inside, the other is not and both semaphores are 0.\<close>

lemma alone:
  assumes "turns t n r p v q w out" and "inside p = 1"
  shows "v = 0" "w = 0" "\<not> before q" "\<not> after q" "\<not> counting q" "unprinted q = 0"
proof -
  have "v = 0 \<and> w = 0 \<and> inside q = 0" using assms by (auto simp: turns_def inside_def split: if_splits)
  then show "v = 0" "w = 0" "\<not> before q" "\<not> after q" by (auto simp: inside_def split: if_splits)
  then show "\<not> counting q" "unprinted q = 0" by (auto simp: counting_def unprinted_def)
qed

lemma place_simps:
  "inside AtTest = 0" "inside AtRead = 0" "inside Exited = 0" "inside AtLoad = 1" "inside (AtStore k) = 1" "inside AtCheck = 1" "inside AtStop = 1" "inside AtPrint = 1" "inside AtWrite = 1"
  "\<not> counting AtTest" "\<not> counting AtRead" "\<not> counting Exited" "\<not> counting AtLoad" "\<not> counting (AtStore k)" "counting AtCheck" "counting AtStop" "\<not> counting AtPrint" "\<not> counting AtWrite"
  "unprinted AtTest = 0" "unprinted AtRead = 0" "unprinted Exited = 0" "unprinted AtLoad = 0" "unprinted (AtStore k) = 0" "unprinted AtCheck = 1" "unprinted AtStop = 1" "unprinted AtPrint = 1"
  "unprinted AtWrite = 0"
  by (simp_all add: inside_def counting_def unprinted_def)

lemma thread_ok_AtTest: "thread_ok t f n r v AtTest \<longleftrightarrow> (v = 1 \<longrightarrow> (odd n \<longleftrightarrow> t))"
  unfolding thread_ok_def by (cases t; cases "v = 1"; auto)

lemma thread_ok_AtRead: "thread_ok t f n r v AtRead \<longleftrightarrow> (v = 1 \<longrightarrow> (odd n \<longleftrightarrow> t)) \<and> n \<le> f"
  unfolding thread_ok_def by (cases t; cases "v = 1"; auto)

lemma thread_ok_Exited: "thread_ok t f n r v Exited \<longleftrightarrow> (v = 1 \<longrightarrow> (odd n \<longleftrightarrow> t)) \<and> 100 \<le> n \<and> r = 0"
  unfolding thread_ok_def by (cases t; cases "v = 1"; auto)

lemma thread_ok_AtLoad: "thread_ok t f n r v AtLoad \<longleftrightarrow> (odd n \<longleftrightarrow> t) \<and> n \<le> f"
  unfolding thread_ok_def by (cases t; cases "v = 1"; auto)

lemma thread_ok_AtStore: "thread_ok t f n r v (AtStore k) \<longleftrightarrow> (odd n \<longleftrightarrow> t) \<and> n \<le> f \<and> k = n"
  unfolding thread_ok_def by (cases t; cases "v = 1"; auto)

lemma thread_ok_AtStop: "thread_ok t f n r v AtStop \<longleftrightarrow> (odd n \<longleftrightarrow> \<not> t) \<and> 1 \<le> n \<and> n \<le> f + 1 \<and> 100 \<le> n \<and> v \<noteq> 1"
  unfolding thread_ok_def by (cases t; cases "v = 1"; auto)

lemma thread_ok_AtCheck: "thread_ok t f n r v AtCheck \<longleftrightarrow> (odd n \<longleftrightarrow> \<not> t) \<and> 1 \<le> n \<and> n \<le> f + 1 \<and> v \<noteq> 1"
  unfolding thread_ok_def by (cases t; cases "v = 1"; auto)

lemma thread_ok_AtPrint: "thread_ok t f n r v AtPrint \<longleftrightarrow> (odd n \<longleftrightarrow> \<not> t) \<and> 1 \<le> n \<and> n \<le> f + 1 \<and> v \<noteq> 1"
  unfolding thread_ok_def by (cases t; cases "v = 1"; auto)

lemma thread_ok_AtWrite: "thread_ok t f n r v AtWrite \<longleftrightarrow> (odd n \<longleftrightarrow> \<not> t) \<and> 1 \<le> n \<and> n \<le> f + 1 \<and> v \<noteq> 1"
  unfolding thread_ok_def by (cases t; cases "v = 1"; auto)

lemmas thread_ok_at = thread_ok_AtTest thread_ok_AtRead thread_ok_Exited thread_ok_AtLoad thread_ok_AtStore thread_ok_AtStop thread_ok_AtCheck thread_ok_AtPrint thread_ok_AtWrite

text \<open>The thread that is not inside.\<close>

lemma thread_ok_out:
  assumes "\<not> before q" "\<not> after q"
  shows "thread_ok t f n r v q \<longleftrightarrow> (v = 1 \<longrightarrow> (odd n \<longleftrightarrow> t)) \<and> (q = AtRead \<longrightarrow> n \<le> f) \<and> (q = Exited \<longrightarrow> 100 \<le> n \<and> r = 0)"
  using assms by (cases q) (auto simp: thread_ok_def)

lemma turn_test: "turns t n r AtTest v q w out \<Longrightarrow> turns t n r (if r \<noteq> 0 then AtRead else Exited) v q w out"
proof -
  assume i: "turns t n r AtTest v q w out"
  have "n \<le> final t" if "r \<noteq> 0"
  proof (rule ccontr)
    assume "\<not> n \<le> final t"
    then have "n = 100" "t" "counting q" using i that by (auto simp: turns_def final_def place_simps split: if_splits)
    moreover from this have "after q" by (auto simp: counting_def)
    ultimately show False using i by (auto simp: turns_def thread_ok_def)
  qed
  moreover have "100 \<le> n" if "r = 0" using i that by (auto simp: turns_def)
  ultimately show ?thesis using i by (auto simp: turns_def place_simps thread_ok_at)
qed

lemma turn_read: "turns t n r AtRead v q w out \<Longrightarrow> 0 < v \<Longrightarrow> turns t n r AtLoad (v - 1) q w out"
proof -
  assume i: "turns t n r AtRead v q w out" and v: "0 < v"
  have "0 \<le> inside q" by (simp add: inside_def)
  then have "v = 1" using i v by (simp add: turns_def place_simps)
  then show ?thesis using i by (simp add: turns_def place_simps thread_ok_at)
qed

lemma turn_load: "turns t n r AtLoad v q w out \<Longrightarrow> turns t n r (AtStore n) v q w out"
  by (simp add: turns_def place_simps thread_ok_at)

lemma turn_store:
  assumes i: "turns t n r (AtStore k) v q w out"
  shows "turns t (k + 1) r AtCheck v q w out"
proof -
  have a: "v = 0" "w = 0" "\<not> before q" "\<not> after q" "\<not> counting q" "unprinted q = 0" using alone [OF i] by (simp_all add: place_simps)
  have n: "k = n" "odd n \<longleftrightarrow> t" "n \<le> final t" "0 \<le> n" "n \<le> 101" "r \<noteq> 0 \<longleftrightarrow> n < 100" "out = map line [1..n]" using i a by (simp_all add: turns_def thread_ok_at place_simps)
  have "q = AtRead \<longrightarrow> n \<le> final (\<not> t)" "q = Exited \<longrightarrow> 100 \<le> n \<and> r = 0" using i a by (simp_all add: turns_def thread_ok_out)
  moreover have "n + 1 \<le> final (\<not> t)" if "n \<le> final (\<not> t)"
  proof (cases t)
    case False
    then have "n \<noteq> 99" using n(2) by auto
    then show ?thesis using that False by (simp add: final_def)
  qed (use n(3) in \<open>simp add: final_def\<close>)
  moreover have "final t \<le> 100" by (simp add: final_def)
  ultimately show ?thesis unfolding turns_def thread_ok_out [OF a(3,4)] place_simps using a n i by (auto simp: turns_def thread_ok_at place_simps)
qed

lemma turn_check: "turns t n r AtCheck v q w out \<Longrightarrow> turns t n r (if n \<ge> 100 then AtStop else AtPrint) v q w out"
  by (auto simp: turns_def place_simps thread_ok_at)

lemma turn_stop: "turns t n r AtStop v q w out \<Longrightarrow> turns t n 0 AtPrint v q w out"
proof -
  assume i: "turns t n r AtStop v q w out"
  have a: "\<not> before q" "\<not> after q" "\<not> counting q" using alone [OF i] by (simp_all add: place_simps)
  show ?thesis using i unfolding turns_def thread_ok_out [OF a(1,2)] by (auto simp: place_simps thread_ok_at a(3))
qed

lemma turn_print: "turns t n r AtPrint v q w out \<Longrightarrow> turns t n r AtWrite v q w (out @ [(if t then 2 else 1, n)])"
proof -
  assume i: "turns t n r AtPrint v q w out"
  have a: "unprinted q = 0" using alone(6) [OF i] by (simp add: place_simps)
  have n: "odd n \<longleftrightarrow> \<not> t" "1 \<le> n" using i by (simp_all add: turns_def thread_ok_at)
  have "[1..n] = [1..n - 1] @ [n]" using n(2) by (simp add: upto_rec2)
  moreover have "line n = (if t then 2 else 1, n)" using n(1) by (simp add: line_def)
  ultimately show ?thesis using i a by (simp add: turns_def place_simps thread_ok_at)
qed

lemma turn_write: "turns t n r AtWrite v q w out \<Longrightarrow> turns t n r AtTest v q (w + 1) out"
proof -
  assume i: "turns t n r AtWrite v q w out"
  have a: "v = 0" "w = 0" "\<not> before q" "\<not> after q" using alone [OF i] by (simp_all add: place_simps)
  show ?thesis using i unfolding turns_def thread_ok_out [OF a(3,4)] by (simp add: place_simps thread_ok_at a(1,2))
qed

lemma infos_simps: "info_sem1 (infos t) = t" "info_sem2 (infos t) = (\<not> t)" "info_id (infos t) = (if t then 2 else 1)"
  by (simp_all add: infos_def)

lemma other_thread: "(f(t := x)) (\<not> t) = f (\<not> t)" "(f(\<not> t := x)) t = f t"
  by simp_all

lemma threads_inv_step:
  assumes "threads_inv s" and "A t s = Some s'"
  shows "threads_inv s'"
proof -
  note i = assms(1) [unfolded threads_inv_view [of _ t]]
  note A = assms(2) [unfolded A_def Let_def infos_simps, symmetric]
  have goto: "threads_inv (goto t p u) \<longleftrightarrow> turns t (counter u) (running u) p (sems u t) (places u (\<not> t)) (sems u (\<not> t)) (printed u)" for p u
    unfolding threads_inv_view [of _ t] by (simp add: goto_def)
  show ?thesis
  proof (cases "places s t")
    case AtTest
    then show ?thesis using A turn_test [OF i [unfolded AtTest]] by (simp add: goto)
  next
    case AtRead
    have "0 < sems s t" using A AtRead by (simp split: if_splits)
    then show ?thesis using A turn_read [OF i [unfolded AtRead]] AtRead by (simp add: goto)
  next
    case AtLoad
    then show ?thesis using A turn_load [OF i [unfolded AtLoad]] by (simp add: goto)
  next
    case (AtStore k)
    then show ?thesis using A turn_store [OF i [unfolded AtStore]] by (simp add: goto)
  next
    case AtCheck
    then show ?thesis using A turn_check [OF i [unfolded AtCheck]] by (simp add: goto)
  next
    case AtStop
    then show ?thesis using A turn_stop [OF i [unfolded AtStop]] by (simp add: goto)
  next
    case AtPrint
    then show ?thesis using A turn_print [OF i [unfolded AtPrint]] by (simp add: goto)
  next
    case AtWrite
    then show ?thesis using A turn_write [OF i [unfolded AtWrite]] by (simp add: goto)
  next
    case Exited
    then show ?thesis using A by simp
  qed
qed

section \<open>The threads end\<close>

text \<open>The steps up to the next store, and from them a bound on all steps.\<close>

fun distance :: "place \<Rightarrow> nat" where
  "distance AtCheck = 8"
| "distance AtStop = 7"
| "distance AtPrint = 6"
| "distance AtWrite = 5"
| "distance AtTest = 4"
| "distance AtRead = 3"
| "distance AtLoad = 2"
| "distance (AtStore v) = 1"
| "distance Exited = 0"

definition work :: "threads \<Rightarrow> nat" where
  "work s = 8 * nat (101 - counter s) + distance (places s False) + distance (places s True)"

lemma work_view: "work s = 8 * nat (101 - counter s) + distance (places s t) + distance (places s (\<not> t))"
  by (cases t) (simp_all add: work_def)

lemma work_decreases:
  assumes "threads_inv s" and "A t s = Some s'"
  shows "work s' < work s"
proof -
  note i = assms(1) [unfolded threads_inv_view [of _ t]]
  have st: "k = counter s" "counter s \<le> 100" if "places s t = AtStore k" for k
    using i unfolding that by (auto simp: turns_def thread_ok_at final_def split: if_splits)
  show ?thesis
    using assms(2) st unfolding work_view [of _ t] by (cases "places s t") (auto simp: A_def goto_def Let_def split: if_splits)
qed

lemma not_stuck:
  assumes i: "threads_inv s" and "A False s = None" and "A True s = None"
  shows "places s False = Exited \<and> places s True = Exited"
proof -
  have w: "places s t = Exited \<or> places s t = AtRead \<and> sems s t \<le> 0" if "A t s = None" for t
    using that by (cases "places s t") (auto simp: A_def Let_def infos_simps split: if_splits)
  from w [OF assms(2)] w [OF assms(3)] i show ?thesis
    by (auto simp: threads_inv_def turns_def place_simps thread_ok_at final_def)
qed

lemma interleaved_inv: "interleaved s k \<Longrightarrow> threads_inv s \<and> k + work s \<le> 816"
proof (induction rule: interleaved.induct)
  case start
  show ?case using threads_inv_init by (simp add: work_def threads_init_def)
next
  case (turn s n t s')
  then show ?case using threads_inv_step [of s t s'] work_decreases [of s t s'] by linarith
qed

lemma runs_end: "interleaved s k \<Longrightarrow> \<exists>s' k'. interleaved s' k' \<and> A False s' = None \<and> A True s' = None"
proof (induction "work s" arbitrary: s k rule: less_induct)
  case less
  show ?case
  proof (cases "\<exists>t s'. A t s = Some s'")
    case True
    then obtain t s' where st: "A t s = Some s'" by blast
    then have "work s' < work s" using work_decreases interleaved_inv [OF less.prems] by blast
    then show ?thesis using less.hyps interleaved.turn [OF less.prems st] by blast
  next
    case False
    then show ?thesis using less.prems by (metis not_Some_eq)
  qed
qed

section \<open>Property\<close>

text \<open>
  C26: in every interleaving the two threads are never both between their read and their write; what is printed so far are the numbers from 1 on without a gap, the odd ones by
  thread 1 and the even ones by thread 2; no interleaving has more than 816 steps; and when no thread can go on, both have ended, after counting to 100 or, if thread 1
  had looked at \<open>running\<close> before thread 2 cleared it, to 101.
\<close>

theorem threads_take_turns:
  assumes "interleaved s k"
  shows "\<not> (inside (places s False) = 1 \<and> inside (places s True) = 1) \<and> (\<exists>m. printed s = map line [1..m]) \<and> k \<le> 816 \<and>
    (A False s = None \<and> A True s = None \<longrightarrow>
       places s False = Exited \<and> places s True = Exited \<and> counter s \<in> {100, 101} \<and> printed s = map line [1..counter s])"
proof -
  have i: "threads_inv s" "k \<le> 816" using interleaved_inv [OF assms] by simp_all
  have ends: "counter s \<in> {100, 101} \<and> printed s = map line [1..counter s]" if "places s False = Exited" "places s True = Exited"
    using i(1) that by (auto simp: threads_inv_def turns_def place_simps thread_ok_at)
  have "\<not> (inside (places s False) = 1 \<and> inside (places s True) = 1)" using i(1) by (auto simp: threads_inv_def turns_def)
  moreover have "\<exists>m. printed s = map line [1..m]" using i(1) by (auto simp: threads_inv_def turns_def)
  ultimately show ?thesis using i(2) ends not_stuck [OF i(1)] by blast
qed

theorem threads_take_turns_witness:
  "\<exists>s k. interleaved s k \<and> k \<le> 816 \<and> places s False = Exited \<and> places s True = Exited \<and> counter s \<in> {100, 101} \<and> printed s = map line [1..counter s]"
proof -
  obtain s k where s: "interleaved s k" "A False s = None" "A True s = None" using runs_end [OF interleaved.start] by blast
  then show ?thesis using threads_take_turns [OF s(1)] by blast
qed

end
