(* ===== verification/Spec2Isabelle.thy ===== *)
theory Spec2Isabelle
  imports HeapContract Stdio Shell Cmdline V8086 Division Guard SharedPtr OpNew Emergency Catching Wide BitCount Threads
begin

text \<open>
  \<^bold>\<open>SysImpl\<close>, a small operating system for i686: this library models the kernel under \<^verbatim>\<open>src/src\<close> and \<^verbatim>\<open>src/inc\<close>, the
  parts of the compiler and C++ runtimes that it is linked with, and the code that user programs share under \<^verbatim>\<open>src/user\<close>.

  \<^bold>\<open>The program and its parts.\<close> \<^verbatim>\<open>main.cpp\<close> parses the command line, sets up heap, devices and file system and starts the first
  process. From then on the kernel runs only on interrupts: a system call (\<^verbatim>\<open>syscall/\<close>) works for the current process on its
  objects, the timer counts ticks and calls the scheduler (\<^verbatim>\<open>resche.cpp\<close>), the keyboard fills the console's buffer. A read that
  cannot be served puts the process to sleep and queues a request at the device (\<^verbatim>\<open>objects/BlockInputDevice.cpp\<close>); before
  every return to user mode the kernel looks at all devices and wakes whom it can serve. Programs come from a FAT16 disk
  through the ELF loader; \<open>fork\<close> lets the child run on its parent's stack until it calls \<open>exec\<close> or exits.

  \<^bold>\<open>Conventions.\<close> Unsigned C types are words of their width, pointers are 32-bit words, and memory is one map from addresses to
  bytes (\<open>Prelude\<close>), so that wrap-around and aliasing are those of the machine. A C++ class is a record or a constructor
  of a datatype, an operation a function from state to state. \<open>Inl\<close> of an \<open>outcome\<close> is a panic or an access that C++ leaves
  undefined; a loop that may not end is a \<^theory_text>\<open>partial_function (option)\<close> whose value is then \<open>None\<close>, and the theorems show that it
  returns. No definition uses fuel: what ends by counting is a \<open>function\<close> with a measure.

  \<^bold>\<open>The C library.\<close>
  \<^item> \<open>Heap\<close>, \<open>HeapContract\<close> (\<^verbatim>\<open>heap.c\<close>): the free list inside the byte memory. \<open>HeapAlloc\<close> and \<open>HeapFree\<close> are shown to implement
    first-fit allocation and coalescing release on a list of blocks; the locale \<open>allocator\<close> states what clients rely on and
    is interpreted on the code, and gives that no run of a well-behaved client loses data. Double release panics; the
    release of an empty block corrupts its neighbour.
  \<^item> \<open>Ctype\<close>, \<open>CString\<close>, \<open>Stdlib\<close>, \<open>Strtok\<close> (\<^verbatim>\<open>ctype.c\<close>, \<^verbatim>\<open>string.c\<close>, \<^verbatim>\<open>stdlib.c\<close>, \<^verbatim>\<open>user/lib/strtok.c\<close>): every function, each with what it returns and
    which bytes it leaves alone, for strings anywhere in memory.
  \<^item> \<open>Printf\<close>, \<open>PrintfSpec\<close>, \<open>Stdio\<close> (\<^verbatim>\<open>printf.c\<close>, \<^verbatim>\<open>stdio.c\<close>, \<^verbatim>\<open>stdio_cpp.cpp\<close>): the state machine of \<open>vsnprintf\<close> against an inductive description of
    the text that a format denotes, and the way from there to the output devices.

  \<^bold>\<open>Devices and files.\<close>
  \<^item> \<open>Keyboard\<close>, \<open>PIC\<close>, \<open>Console\<close> (\<^verbatim>\<open>keyboard.c\<close>, \<^verbatim>\<open>8259.c\<close>, \<^verbatim>\<open>pit.cpp\<close>, \<^verbatim>\<open>apic.c\<close>, \<^verbatim>\<open>VGATextIODevice.cpp\<close>, \<^verbatim>\<open>LineBufferedIOMixin.hpp\<close>): port
    accesses are traces; the console's ring buffers implement a line discipline on lists.
  \<^item> \<open>Fat16\<close> (\<^verbatim>\<open>Disk.cpp\<close>, \<^verbatim>\<open>File.cpp\<close>, \<^verbatim>\<open>Directory.cpp\<close>, \<^verbatim>\<open>FileSystem.cpp\<close>): the BIOS call that reads a sector is an argument. The locale
    \<open>byte_stream\<close> gives reading and seeking once for both kinds of files; path lookup and file contents follow from it.
  \<^item> \<open>Devices\<close> (\<^verbatim>\<open>Semaphore.cpp\<close>, \<^verbatim>\<open>SleepDevice.cpp\<close>, \<^verbatim>\<open>ProcessWait.cpp\<close>): the locales \<open>input_device\<close>, \<open>shared_device\<close>, \<open>private_device\<close> are the contract
    of \<^verbatim>\<open>InputDevice.hpp\<close>, interpreted on each device.

  \<^bold>\<open>The kernel.\<close>
  \<^item> \<open>Kernel\<close> (\<^verbatim>\<open>Process.cpp\<close>, \<^verbatim>\<open>BlockInputDevice.cpp\<close>, \<^verbatim>\<open>SpecialPathManager.cpp\<close>, \<^verbatim>\<open>resche.cpp\<close>), \<open>Exec\<close> (\<^verbatim>\<open>elf-loader.cpp\<close>, \<^verbatim>\<open>exec.cpp\<close>), \<open>Syscall\<close> (\<^verbatim>\<open>syscall/\<close>): one
    record holds the kernel's state; every handler is a definition.
  \<^item> \<open>KernelInv\<close>, \<open>KernelLife\<close>, \<open>KernelSafety\<close>: the invariant \<open>kernel_ok\<close> (tables fit together; exactly the waiting processes sleep) and its
    preservation by every operation.
  \<^item> \<open>System\<close>: the steps of the running machine as an inductive relation, the invariant in every reachable state, the start of the
    system, and the scheduler as a fair round robin.
  \<^item> \<open>Waiting\<close>: who sleeps and for what; semaphores serve in order; exit codes arrive; the shared stack of \<open>fork\<close> is restored; system
    calls return.
  \<^item> \<open>FileCalls\<close>: from a path and a descriptor to the bytes on the disk, through \<open>open\<close> and any sequence of \<open>read\<close> calls.
  \<^item> \<open>Shell\<close> (\<^verbatim>\<open>user/sh/sh.c\<close>): a line becomes a command with its argument vector and its redirections, as its words say; a redirected program reads the
    file from descriptor 0. The loop of \<open>main\<close> around it (the prompt, the listing of \<open>dir\<close>, waiting for the child) is not modelled.
  \<^item> \<open>Threads\<close> (\<^verbatim>\<open>user/thread/thread.c\<close>): two threads and two semaphores, in every interleaving: they exclude each other, take turns, and end.
  \<^item> \<open>Cmdline\<close> (\<open>parse_cmdline\<close>) and \<open>UserStart\<close> (\<^verbatim>\<open>user_call_main.c\<close>, \<^verbatim>\<open>user/lib/syscall.c\<close>): the arguments on their way from the command line, and from one
    program through \<open>exec\<close> to \<open>main\<close> of the next.

  \<^bold>\<open>The processor.\<close>
  \<^item> \<open>Protection\<close> (\<^verbatim>\<open>protected_mode.cpp\<close>, \<^verbatim>\<open>intr.cpp\<close>): segment descriptors and interrupt gates with their bits in memory, read the way the processor's
    manual says: user mode writes only above 32 MiB and enters the kernel only by the system call gate.
  \<^item> \<open>V8086\<close> (\<^verbatim>\<open>v8086.cpp\<close>): the task state of a BIOS call and the fault handler that carries out \<open>int\<close> and \<open>hlt\<close> there; the return
    from a BIOS service leads back behind the \<open>int\<close>.

  \<^bold>\<open>The runtimes.\<close>
  \<^item> \<open>SharedPtr\<close> (\<^verbatim>\<open>shared_ptr.hpp\<close>): reference counts implement ownership. \<open>Kernel\<close> uses this as its view of objects: an object leaves
    the store when its last pointer goes.
  \<^item> \<open>Guard\<close> (\<^verbatim>\<open>libcxxrt/guard.cc\<close>): the lock of function-local statics under every interleaving.
  \<^item> \<open>Dwarf\<close> (\<^verbatim>\<open>inc/dwarf_eh.h\<close>): the variable-length numbers and the tables by which a function tells what to do when a call in it throws. Numbers are read back as they
    were written, and the search finds the first entry that covers the call; what goes wrong for large numbers and behind the last entry is shown too.
  \<^item> \<open>Personality\<close> (\<^verbatim>\<open>libcxxrt/exception.cc\<close>): from those tables to the choice of a catch clause, in the two phases in which the unwinder asks for it. The comparison of types by
    the compiler's type descriptions is an argument.
  \<^item> \<open>Catching\<close> (\<^verbatim>\<open>libcxxrt/exception.cc\<close>): the calls that throw, catch, rethrow and capture exceptions, with their counts, against what a program may rely on: every object is
    destroyed once, when nobody can reach it any more.
  \<^item> \<open>Emergency\<close> (\<^verbatim>\<open>libcxxrt/exception.cc\<close>, \<^verbatim>\<open>inc/pthread.h\<close>): the memory for exceptions when the heap is exhausted, as a transition system with an invariant.
  \<^item> \<open>OpNew\<close> (\<^verbatim>\<open>libcxxrt/memory.cc\<close>): \<open>new\<close> and \<open>delete\<close> on the kernel heap.
  \<^item> \<open>Division\<close>, \<open>Wide\<close>, \<open>BitCount\<close> (\<^verbatim>\<open>compile-rt-builtins\<close>): 64-bit and 32-bit division equal the division of numbers; shifts, products and comparisons on halves equal those
    on 64-bit numbers; checked arithmetic aborts exactly when a result does not fit; and the branch-free counting of zero bits.

  \<^bold>\<open>What the theorems rest on.\<close> A system call is one step. On the machine the timer and the keyboard can interrupt it (its task state enables
  interrupts); in kernel mode the timer only counts and the keyboard only fills its ring buffer, and the model lets them do this before or after
  the call, so it does not show races on these two. The objects of the C++ code are not part of the byte memory; user code cannot
  overwrite them because they lie below 32 MiB, which is what \<open>Protection\<close> shows of the segments; the handlers do not check the pointers they get, and the model
  leaves out what a pointer into the kernel's own objects would do. Sectors, port values, the results of BIOS calls and of
  \<open>dynamic_cast\<close> and the addresses of statics and string literals are arguments of the definitions.

  \<^bold>\<open>Not modelled.\<close> The instructions that load the processor's tables and the entry code in assembler (\<^verbatim>\<open>8086.S\<close>, \<^verbatim>\<open>start.S\<close>), and \<^verbatim>\<open>crt_init.cpp\<close>, because
  what they do is their effect on the processor or on the linker's symbols; the serial line, which the kernel registers only if it
  answers; the unwinder, which is outside the sources, with the messages and traces for exceptions that nobody takes; \<open>dynamic_cast\<close>, the type descriptions and
  the demangler of libcxxrt, which work on tables that the compiler writes; the floating-point and 128-bit parts of the compiler runtime,
  which no code of the system calls; the user programs \<open>echo\<close>, \<open>sleep\<close> and \<open>hlt\<close>, a few calls each; and the copies of
  \<^verbatim>\<open>string.c\<close>, \<^verbatim>\<open>ctype.c\<close> and \<open>vsnprintf\<close> in the user library, which are the kernel's text.
\<close>

end
